(* ===== verification/Prelude.thy ===== *)
theory Prelude
  imports Main "HOL-Library.Word"
begin

text \<open>
  Shared vocabulary of the development: the machine types of the 32-bit MIPS kernel, the kernel's
  error codes (\<open>kern/include/kern/errno.h\<close>), the outcome of a kernel routine, and the generic facts
  on lists and words that the component theories rely on.
\<close>

unbundle bit_operations_syntax

section \<open>Machine types\<close>

type_synonym u8 = "8 word"
type_synonym u16 = "16 word"
type_synonym u32 = "32 word"
type_synonym u64 = "64 word"
type_synonym vaddr = u32
type_synonym paddr = u32

named_theorems outcome_simps \<open>equations that run the sequencing of outcomes\<close>
named_theorems model_defs \<open>non-recursive definitions of the model, unfolded together\<close>

section \<open>Error codes\<close>

text \<open>The codes of \<open>kern/errno.h\<close> that the modelled code returns or tests.\<close>

datatype errno =
    ENOSYS | ENOMEM | EAGAIN | EFAULT | ENAMETOOLONG | EINVAL | EPERM | ENPROC | ENOEXEC
  | ENOTDIR | EISDIR | ENOENT | ENOTEMPTY | EEXIST | EXDEV | ENODEV | ENXIO | EBUSY | EMFILE
  | EBADF | EIOCTL | EIO | ESPIPE | ENOSPC | EFBIG

fun errno_code :: "errno \<Rightarrow> nat" where
  "errno_code ENOSYS = 1"
| "errno_code ENOMEM = 3"
| "errno_code EAGAIN = 4"
| "errno_code EFAULT = 6"
| "errno_code ENAMETOOLONG = 7"
| "errno_code EINVAL = 8"
| "errno_code EPERM = 9"
| "errno_code ENPROC = 12"
| "errno_code ENOEXEC = 13"
| "errno_code ENOTDIR = 17"
| "errno_code EISDIR = 18"
| "errno_code ENOENT = 19"
| "errno_code ENOTEMPTY = 21"
| "errno_code EEXIST = 22"
| "errno_code EXDEV = 24"
| "errno_code ENODEV = 25"
| "errno_code ENXIO = 26"
| "errno_code EBUSY = 27"
| "errno_code EMFILE = 28"
| "errno_code EBADF = 30"
| "errno_code EIOCTL = 31"
| "errno_code EIO = 32"
| "errno_code ESPIPE = 33"
| "errno_code ENOSPC = 36"
| "errno_code EFBIG = 38"

section \<open>Outcomes of kernel routines\<close>

text \<open>
  A kernel routine that returns an \<open>int\<close> error code and its results through pointers is modelled by
  a function into \<open>('s, 'a) outcome\<close>:
  \<^item> \<open>Ok s x\<close>: it returned 0, left the state \<open>s\<close> and handed back \<open>x\<close>;
  \<^item> \<open>Err s e\<close>: it returned the error \<open>e\<close> and left the state \<open>s\<close>, which need not be the initial one;
  \<^item> \<open>Panic\<close>: a \<open>KASSERT\<close> failed or \<open>panic\<close> was called;
  \<^item> \<open>Fault\<close>: an access through a null pointer or outside the bounds of an object, which C leaves
    undefined;
  \<^item> \<open>Blocked\<close>: it spins on a lock that another processor holds in this state.
\<close>

datatype ('s, 'a) outcome = Ok 's 'a | Err 's errno | Panic | Fault | Blocked

text \<open>\<open>if (result) return result;\<close> after a call.\<close>

fun and_then :: "('s, 'a) outcome \<Rightarrow> ('s \<Rightarrow> 'a \<Rightarrow> ('s, 'b) outcome) \<Rightarrow> ('s, 'b) outcome" where
  "and_then (Ok s x) f = f s x"
| "and_then (Err s e) f = Err s e"
| "and_then Panic f = Panic"
| "and_then Fault f = Fault"
| "and_then Blocked f = Blocked"

text \<open>\<open>KASSERT(b)\<close> before the rest.\<close>

definition kassert :: "bool \<Rightarrow> ('s, 'a) outcome \<Rightarrow> ('s, 'a) outcome" where
  "kassert b r = (if b then r else Panic)"

lemma kassert_simps [simp]:
  "kassert True r = r"
  "kassert False r = Panic"
  by (simp_all add: kassert_def)

text \<open>Congruences that let the termination prover see the state a call left behind.\<close>

lemma and_then_cong [fundef_cong]:
  "m = m' \<Longrightarrow> (\<And>s x. m' = Ok s x \<Longrightarrow> f s x = g s x) \<Longrightarrow> and_then m f = and_then m' g"
  by (cases m') auto

lemma kassert_cong [fundef_cong]: "b = b' \<Longrightarrow> (b' \<Longrightarrow> r = r') \<Longrightarrow> kassert b r = kassert b' r'"
  by (simp add: kassert_def)

lemma and_then_Ok_iff:
  "and_then m f = Ok s' y \<longleftrightarrow> (\<exists>s x. m = Ok s x \<and> f s x = Ok s' y)"
  by (cases m) auto

lemma and_then_Err_iff:
  "and_then m f = Err s' e \<longleftrightarrow> m = Err s' e \<or> (\<exists>s x. m = Ok s x \<and> f s x = Err s' e)"
  by (cases m) auto

lemma kassert_Ok_iff: "kassert b r = Ok s x \<longleftrightarrow> b \<and> r = Ok s x"
  by (simp add: kassert_def)

lemma kassert_Err_iff: "kassert b r = Err s e \<longleftrightarrow> b \<and> r = Err s e"
  by (simp add: kassert_def)

lemmas outcome_iffs = and_then_Ok_iff and_then_Err_iff kassert_Ok_iff kassert_Err_iff

text \<open>A routine is safe from a state when it neither panics nor faults there.\<close>

fun no_crash :: "('s, 'a) outcome \<Rightarrow> bool" where
  "no_crash (Ok _ _) = True"
| "no_crash (Err _ _) = True"
| "no_crash Panic = False"
| "no_crash Fault = False"
| "no_crash Blocked = True"

lemma no_crash_and_then:
  "no_crash m \<Longrightarrow> (\<And>s x. m = Ok s x \<Longrightarrow> no_crash (f s x)) \<Longrightarrow> no_crash (and_then m f)"
  by (cases m) auto

section \<open>Lists as arrays\<close>

lemma nth_list_update_cases: "i < length xs \<Longrightarrow> xs[i := y] ! j = (if i = j then y else xs ! j)"
  by (simp add: nth_list_update)

text \<open>The index of the first element from \<open>i\<close> on that satisfies a test: a linear search loop.\<close>

fun first_index :: "('a \<Rightarrow> bool) \<Rightarrow> 'a list \<Rightarrow> nat \<Rightarrow> nat option" where
  "first_index P [] i = None"
| "first_index P (x # xs) i = (if P x then Some i else first_index P xs (Suc i))"

lemma first_index_None: "first_index P xs i = None \<longleftrightarrow> (\<forall>x \<in> set xs. \<not> P x)"
  by (induction xs arbitrary: i) auto

lemma first_index_Some:
  "first_index P xs i = Some k \<Longrightarrow>
    i \<le> k \<and> k - i < length xs \<and> P (xs ! (k - i)) \<and> (\<forall>j < k - i. \<not> P (xs ! j))"
proof (induction xs arbitrary: i)
  case Nil
  then show ?case by simp
next
  case (Cons x xs)
  show ?case
  proof (cases "P x")
    case True
    with Cons.prems show ?thesis by simp
  next
    case False
    with Cons.prems have rec: "first_index P xs (Suc i) = Some k" by simp
    from Cons.IH [OF rec] have ih: "Suc i \<le> k" "k - Suc i < length xs" "P (xs ! (k - Suc i))"
      "\<forall>j < k - Suc i. \<not> P (xs ! j)" by auto
    have eq: "k - i = Suc (k - Suc i)" using ih(1) by simp
    show ?thesis using ih False unfolding eq by (auto simp: nth_Cons split: nat.splits)
  qed
qed

lemma first_index_Some0:
  "first_index P xs 0 = Some k \<Longrightarrow> k < length xs \<and> P (xs ! k) \<and> (\<forall>j < k. \<not> P (xs ! j))"
  using first_index_Some [of P xs 0 k] by simp

section \<open>Unsigned words\<close>

lemma unat_less_32 [simp]: "unat (x :: u32) < 4294967296"
  using unsigned_less [of x] by simp

lemma unat_add_32: "unat (x :: u32) + unat y < 4294967296 \<Longrightarrow> unat (x + y) = unat x + unat y"
  by (simp add: unat_word_ariths)

lemma unat_plus1_32:
  assumes "(i :: u32) < n"
  shows "unat (i + 1) = Suc (unat i)"
proof -
  have "Suc (unat i) \<le> unat n" using assms by (simp add: word_less_nat_alt)
  also have "\<dots> < 4294967296" by simp
  finally show ?thesis using unat_add_32 [of i 1] by simp
qed

lemma unat_of_nat_32: "n < 4294967296 \<Longrightarrow> unat (of_nat n :: u32) = n"
  by (simp add: unat_of_nat take_bit_nat_eq_self)

lemma unat_pow2_32:
  assumes "k \<le> 31"
  shows "unat (2 ^ k :: u32) = 2 ^ k"
proof -
  have "(2::nat) ^ k \<le> 2 ^ 31" using assms by (intro power_increasing) simp_all
  then have "(2::nat) ^ k < 4294967296" by (rule le_less_trans) simp
  then have "unat (of_nat (2 ^ k) :: u32) = 2 ^ k" by (simp only: unat_of_nat_32)
  then show ?thesis by simp
qed

lemma word32_eq_iff: "(x :: u32) = y \<longleftrightarrow> unat x = unat y"
  by (simp add: word_unat_eq_iff)

end
