(* ===== verification/Bitmap.thy ===== *)
theory Bitmap
  imports Prelude
begin

text \<open>
  The fixed-size bitmap of \<open>kern/lib/bitmap.c\<close>: an array of bytes holding \<open>nbits\<close> bits, with the
  bits left over in the last byte marked in use. \<open>unsigned\<close> values stay 32-bit words, so that the
  rounding of \<open>DIVROUNDUP\<close> wraps as in C. Loop counters are natural numbers: a byte index is below
  \<open>2 ^ 29\<close>, so \<open>ix * BITS_PER_WORD + offset\<close> does not wrap.

  The contract of a storage allocator over bits is the locale \<open>bit_allocator\<close>, which the
  bitmap operations interpret and which the block allocator of the file system is proved against.
\<close>

section \<open>Model\<close>

record bitmap =
  nbits :: u32
  bm_v :: "u8 list"

definition divroundup :: "u32 \<Rightarrow> u32 \<Rightarrow> u32" where
  "divroundup a b = (a + b - 1) div b"

text \<open>The loop \<open>for (j = overbits; j < BITS_PER_WORD; j++) b->v[ix] |= 1 << j\<close> on one byte.\<close>

function mark_from :: "nat \<Rightarrow> u8 \<Rightarrow> u8" where
  "mark_from j w = (if j < 8 then mark_from (Suc j) (w OR push_bit j 1) else w)"
  by pat_completeness auto
termination
  by (relation "measure (\<lambda>(j, w). 8 - j)") auto

text \<open>
  The two Boolean arguments say whether the two \<open>kmalloc\<close> calls succeed; \<open>Ok () None\<close> is the null
  pointer the caller gets when one of them does not.
\<close>

definition bitmap_create :: "bool \<Rightarrow> bool \<Rightarrow> u32 \<Rightarrow> (unit, bitmap option) outcome" where
  "bitmap_create ok_b ok_v n =
     (let words = divroundup n 8
      in if \<not> ok_b then Ok () None
         else if \<not> ok_v then Ok () None
         else
           let v = replicate (unat words) 0
           in if words > n div 8 then
                let ix = words - 1; overbits = n - ix * 8
                in kassert (n div 8 = words - 1)
                     (kassert (overbits > 0 \<and> overbits < 8)
                       (if unat ix < length v
                        then Ok () (Some \<lparr>nbits = n,
                               bm_v = v[unat ix := mark_from (unat overbits) (v ! unat ix)]\<rparr>)
                        else Fault))
              else Ok () (Some \<lparr>nbits = n, bm_v = v\<rparr>))"

definition bitmap_getdata :: "bitmap \<Rightarrow> u8 list" where
  "bitmap_getdata b = bm_v b"

text \<open>The inner loop of \<open>bitmap_alloc\<close>: the lowest clear bit of a byte from \<open>offset\<close> on.\<close>

function alloc_offset :: "u8 \<Rightarrow> nat \<Rightarrow> nat option" where
  "alloc_offset w offset =
     (if offset < 8
      then if w AND push_bit offset 1 = 0 then Some offset else alloc_offset w (Suc offset)
      else None)"
  by pat_completeness auto
termination
  by (relation "measure (\<lambda>(w, offset). 8 - offset)") auto

function bitmap_alloc_loop :: "bitmap \<Rightarrow> nat \<Rightarrow> nat \<Rightarrow> (bitmap, u32) outcome" where
  "bitmap_alloc_loop b maxix ix =
     (if ix < maxix then
        if ix < length (bm_v b) then
          if bm_v b ! ix \<noteq> 255 then
            case alloc_offset (bm_v b ! ix) 0 of
              None \<Rightarrow> Panic
            | Some offset \<Rightarrow>
                let index = of_nat (ix * 8 + offset)
                in kassert (index < nbits b)
                     (Ok (b\<lparr>bm_v := (bm_v b)[ix := bm_v b ! ix OR push_bit offset 1]\<rparr>) index)
          else bitmap_alloc_loop b maxix (Suc ix)
        else Fault
      else Err b ENOSPC)"
  by pat_completeness auto
termination
  by (relation "measure (\<lambda>(b, maxix, ix). maxix - ix)") auto

definition bitmap_alloc :: "bitmap \<Rightarrow> (bitmap, u32) outcome" where
  "bitmap_alloc b = bitmap_alloc_loop b (unat (divroundup (nbits b) 8)) 0"

definition bitmap_translate :: "u32 \<Rightarrow> nat \<times> u8" where
  "bitmap_translate bitno = (unat (bitno div 8), push_bit (unat (bitno mod 8)) 1)"

definition bitmap_mark :: "bitmap \<Rightarrow> u32 \<Rightarrow> (bitmap, unit) outcome" where
  "bitmap_mark b index =
     kassert (index < nbits b)
       (let (ix, mask) = bitmap_translate index
        in if ix < length (bm_v b) then
             kassert (bm_v b ! ix AND mask = 0)
               (Ok (b\<lparr>bm_v := (bm_v b)[ix := bm_v b ! ix OR mask]\<rparr>) ())
           else Fault)"

definition bitmap_unmark :: "bitmap \<Rightarrow> u32 \<Rightarrow> (bitmap, unit) outcome" where
  "bitmap_unmark b index =
     kassert (index < nbits b)
       (let (ix, mask) = bitmap_translate index
        in if ix < length (bm_v b) then
             kassert (bm_v b ! ix AND mask \<noteq> 0)
               (Ok (b\<lparr>bm_v := (bm_v b)[ix := bm_v b ! ix AND NOT mask]\<rparr>) ())
           else Fault)"

definition bitmap_isset :: "bitmap \<Rightarrow> u32 \<Rightarrow> (bitmap, bool) outcome" where
  "bitmap_isset b index =
     (let (ix, mask) = bitmap_translate index
      in if ix < length (bm_v b) then Ok b (bm_v b ! ix AND mask \<noteq> 0) else Fault)"

declare mark_from.simps [simp del] alloc_offset.simps [simp del] bitmap_alloc_loop.simps [simp del]

section \<open>Bits of a bitmap and its invariant\<close>

definition bm_bit :: "bitmap \<Rightarrow> nat \<Rightarrow> bool" where
  "bm_bit b i = bit (bm_v b ! (i div 8)) (i mod 8)"

definition bm_used :: "bitmap \<Rightarrow> nat set" where
  "bm_used b = {i. i < unat (nbits b) \<and> bm_bit b i}"

definition bm_wf :: "bitmap \<Rightarrow> bool" where
  "bm_wf b \<longleftrightarrow> unat (nbits b) + 7 < 2 ^ 32 \<and> length (bm_v b) = (unat (nbits b) + 7) div 8 \<and>
     (\<forall>i. unat (nbits b) \<le> i \<longrightarrow> i < 8 * length (bm_v b) \<longrightarrow> bm_bit b i)"

section \<open>Helper lemmas\<close>

lemma bit_pow2_u8 [simp]: "bit (2 ^ n :: u8) m \<longleftrightarrow> m = n \<and> n < 8"
  by (auto simp: bit_exp_iff)

lemma and_pow2_u8 [simp]: "n < 8 \<Longrightarrow> (w :: u8) AND 2 ^ n = 0 \<longleftrightarrow> \<not> bit w n"
  by (simp add: and_exp_eq_0_iff_not_bit)

lemma bit_mark_from: "bit (mark_from j w) k \<longleftrightarrow> bit w k \<or> j \<le> k \<and> k < 8"
  by (induction j w rule: mark_from.induct) (subst mark_from.simps, auto simp: bit_or_iff)

lemma alloc_offset_Some:
  "alloc_offset w off = Some k \<Longrightarrow> off \<le> k \<and> k < 8 \<and> \<not> bit w k \<and> (\<forall>j. off \<le> j \<longrightarrow> j < k \<longrightarrow> bit w j)"
proof (induction w off rule: alloc_offset.induct)
  case (1 w off)
  show ?case
  proof (cases "off < 8 \<and> bit w off")
    case True
    then have "alloc_offset w (Suc off) = Some k"
      using "1.prems" by (subst (asm) alloc_offset.simps) simp
    with "1.IH" True have "Suc off \<le> k \<and> k < 8 \<and> \<not> bit w k \<and> (\<forall>j. Suc off \<le> j \<longrightarrow> j < k \<longrightarrow> bit w j)"
      by simp
    with True show ?thesis by (metis Suc_leD Suc_leI le_neq_implies_less)
  next
    case False
    then show ?thesis
      using "1.prems" by (subst (asm) alloc_offset.simps) (auto split: if_splits)
  qed
qed

lemma alloc_offset_None: "alloc_offset w off = None \<Longrightarrow> off \<le> j \<Longrightarrow> j < 8 \<Longrightarrow> bit w j"
proof (induction w off rule: alloc_offset.induct)
  case (1 w off)
  show ?case
  proof (cases "off < 8 \<and> bit w off")
    case True
    then have "alloc_offset w (Suc off) = None"
      using "1.prems"(1) by (subst (asm) alloc_offset.simps) simp
    with "1.IH" "1.prems" True show ?thesis by (cases "off = j") auto
  next
    case False
    then show ?thesis
      using "1.prems" by (subst (asm) alloc_offset.simps) (auto split: if_splits)
  qed
qed

lemma byte_all_ones: "(w :: u8) = 255 \<longleftrightarrow> (\<forall>k < 8. bit w k)"
proof -
  have "(255 :: u8) = - 1" by simp
  then show ?thesis by (auto simp: bit_eq_iff impossible_bit) 
qed


lemma unat_divroundup8: "unat n + 7 < 2 ^ 32 \<Longrightarrow> unat (divroundup n 8) = (unat n + 7) div 8"
proof -
  assume "unat n + 7 < 2 ^ 32"
  then have "unat (n + 7) = unat n + 7" by (simp add: unat_word_ariths)
  moreover have "n + 8 - 1 = n + 7" by simp
  ultimately show ?thesis unfolding divroundup_def by (simp only: unat_div) simp
qed

lemma byte_bit_index: "k < (8 :: nat) \<Longrightarrow> i = ix * 8 + k \<longleftrightarrow> i div 8 = ix \<and> i mod 8 = k"
  by auto

lemma bm_bit_upd:
  "ix < length (bm_v b) \<Longrightarrow>
    bm_bit (b\<lparr>bm_v := (bm_v b)[ix := w]\<rparr>) i = (if i div 8 = ix then bit w (i mod 8) else bm_bit b i)"
  by (auto simp: bm_bit_def nth_list_update)

lemma bm_bit_set:
  "ix < length (bm_v b) \<Longrightarrow> k < 8 \<Longrightarrow>
    bm_bit (b\<lparr>bm_v := (bm_v b)[ix := bm_v b ! ix OR 2 ^ k]\<rparr>) i \<longleftrightarrow> i = ix * 8 + k \<or> bm_bit b i"
  by (auto simp: bm_bit_upd bit_or_iff byte_bit_index) (auto simp: bm_bit_def)

lemma bm_bit_clear:
  "ix < length (bm_v b) \<Longrightarrow> k < 8 \<Longrightarrow>
    bm_bit (b\<lparr>bm_v := (bm_v b)[ix := bm_v b ! ix AND NOT (2 ^ k)]\<rparr>) i \<longleftrightarrow> i \<noteq> ix * 8 + k \<and> bm_bit b i"
  by (auto simp: bm_bit_upd bit_and_iff bit_not_iff byte_bit_index) (auto simp: bm_bit_def)

lemma unat_bit_index: "unat (i div 8 :: u32) * 8 + unat (i mod 8) = unat i"
  by (simp add: unat_div unat_mod)

lemma unat_mod8_less: "unat (i mod 8 :: u32) < 8"
  by (simp add: unat_mod)

lemma bm_byte_in_range: "bm_wf b \<Longrightarrow> i < nbits b \<Longrightarrow> unat (i div 8) < length (bm_v b)"
  by (simp add: bm_wf_def unat_div word_less_nat_alt)

lemma bm_wf_cong:
  "bm_wf b \<Longrightarrow> nbits b' = nbits b \<Longrightarrow> length (bm_v b') = length (bm_v b) \<Longrightarrow>
    (\<And>i. unat (nbits b) \<le> i \<Longrightarrow> bm_bit b i \<Longrightarrow> bm_bit b' i) \<Longrightarrow> bm_wf b'"
  by (simp add: bm_wf_def)

lemma alloc_loop_spec:
  assumes "bm_wf b" and "\<forall>i < ix * 8. bm_bit b i" and "ix \<le> length (bm_v b)"
  shows "(\<exists>k off. bitmap_alloc_loop b (length (bm_v b)) ix =
             Ok (b\<lparr>bm_v := (bm_v b)[k := bm_v b ! k OR 2 ^ off]\<rparr>) (of_nat (k * 8 + off)) \<and>
             k < length (bm_v b) \<and> off < 8 \<and> k * 8 + off < unat (nbits b) \<and>
             \<not> bm_bit b (k * 8 + off) \<and> (\<forall>j < k * 8 + off. bm_bit b j)) \<or>
         bitmap_alloc_loop b (length (bm_v b)) ix = Err b ENOSPC \<and> (\<forall>i < 8 * length (bm_v b). bm_bit b i)"
  using assms
proof (induction "length (bm_v b) - ix" arbitrary: ix)
  case 0
  then have "ix = length (bm_v b)" by simp
  with "0.prems"(2) show ?case by (subst (2) bitmap_alloc_loop.simps) (simp add: mult.commute)
next
  case (Suc n)
  then have ix: "ix < length (bm_v b)" by simp
  show ?case
  proof (cases "bm_v b ! ix = 255")
    case True
    have "bm_bit b i" if "i < Suc ix * 8" for i
    proof (cases "i < ix * 8")
      case False
      with that have "i div 8 = ix" by simp
      with True show ?thesis using byte_all_ones [of "bm_v b ! ix"] by (simp add: bm_bit_def)
    qed (use Suc.prems in simp)
    with Suc True ix show ?thesis by (simp add: bitmap_alloc_loop.simps [of b _ ix])
  next
    case False
    then obtain off where off: "alloc_offset (bm_v b ! ix) 0 = Some off"
      using alloc_offset_None [of "bm_v b ! ix" 0] byte_all_ones by (metis le0 not_None_eq)
    from alloc_offset_Some [OF off] have o: "off < 8" "\<not> bit (bm_v b ! ix) off"
      "\<And>j. j < off \<Longrightarrow> bit (bm_v b ! ix) j" by auto
    have nb: "\<not> bm_bit b (ix * 8 + off)" using o by (simp add: bm_bit_def)
    then have lt: "ix * 8 + off < unat (nbits b)"
      using Suc.prems(1) ix o(1) by (auto simp: bm_wf_def not_le [symmetric])
    have below: "bm_bit b j" if "j < ix * 8 + off" for j
    proof (cases "j < ix * 8")
      case False
      with that o(1) have ix8: "j div 8 = ix" by simp
      with that have "j mod 8 < off" using div_mult_mod_eq [of j 8] by simp
      with ix8 o(3) show ?thesis by (simp add: bm_bit_def)
    qed (use Suc.prems in simp)
    have "(of_nat (ix * 8 + off) :: u32) < nbits b"
      using lt less_trans [OF lt unat_less_32]
      by (simp add: word_less_nat_alt unat_of_nat_32 del: of_nat_add of_nat_mult)
    then have "bitmap_alloc_loop b (length (bm_v b)) ix =
        Ok (b\<lparr>bm_v := (bm_v b)[ix := bm_v b ! ix OR 2 ^ off]\<rparr>) (of_nat (ix * 8 + off))"
      using ix False off by (simp add: bitmap_alloc_loop.simps [of b _ ix] Let_def)
    with ix o(1) lt nb below show ?thesis by blast
  qed
qed


section \<open>The allocator contract\<close>

text \<open>Calling an allocator \<open>n\<close> times in a row, collecting what it hands out.\<close>

fun alloc_many :: "('b \<Rightarrow> ('b, u32) outcome) \<Rightarrow> nat \<Rightarrow> 'b \<Rightarrow> ('b, u32 list) outcome" where
  "alloc_many alloc 0 b = Ok b []"
| "alloc_many alloc (Suc n) b =
     and_then (alloc b) (\<lambda>b' i. and_then (alloc_many alloc n b') (\<lambda>b'' is. Ok b'' (i # is)))"

locale bit_allocator =
  fixes cap :: "'b \<Rightarrow> nat"
    and used :: "'b \<Rightarrow> nat set"
    and invar :: "'b \<Rightarrow> bool"
    and alloc :: "'b \<Rightarrow> ('b, u32) outcome"
    and release :: "'b \<Rightarrow> u32 \<Rightarrow> ('b, unit) outcome"
    and isset :: "'b \<Rightarrow> u32 \<Rightarrow> ('b, bool) outcome"
  assumes used_cap: "used b \<subseteq> {..<cap b}"
    and alloc_full: "invar b \<Longrightarrow> used b = {..<cap b} \<Longrightarrow> alloc b = Err b ENOSPC"
    and alloc_free: "invar b \<Longrightarrow> used b \<noteq> {..<cap b} \<Longrightarrow>
      \<exists>b' i. alloc b = Ok b' i \<and> unat i < cap b \<and> unat i \<notin> used b \<and> (\<forall>j < unat i. j \<in> used b) \<and>
             used b' = insert (unat i) (used b) \<and> cap b' = cap b \<and> invar b'"
    and release_used: "invar b \<Longrightarrow> unat i \<in> used b \<Longrightarrow>
      \<exists>b'. release b i = Ok b' () \<and> used b' = used b - {unat i} \<and> cap b' = cap b \<and> invar b'"
    and isset_used: "invar b \<Longrightarrow> unat i < cap b \<Longrightarrow> isset b i = Ok b (unat i \<in> used b)"
begin

lemma alloc_Ok:
  assumes "invar b" and "alloc b = Ok b' i"
  shows "unat i < cap b \<and> unat i \<notin> used b \<and> (\<forall>j < unat i. j \<in> used b) \<and>
         used b' = insert (unat i) (used b) \<and> cap b' = cap b \<and> invar b'"
  using assms alloc_full [of b] alloc_free [of b] by (cases "used b = {..<cap b}") auto

lemma alloc_Err: "invar b \<Longrightarrow> alloc b = Err b' e \<Longrightarrow> b' = b \<and> e = ENOSPC \<and> used b = {..<cap b}"
  using alloc_full [of b] alloc_free [of b] by (cases "used b = {..<cap b}") auto

lemma alloc_no_crash: "invar b \<Longrightarrow> no_crash (alloc b)"
  using alloc_full [of b] alloc_free [of b] by (cases "used b = {..<cap b}") auto

text \<open>Giving a block back makes the allocator hand out the same block next.\<close>

lemma alloc_release_alloc:
  assumes inv: "invar b" and al: "alloc b = Ok b1 i"
  shows "\<exists>b2. release b1 i = Ok b2 () \<and> used b2 = used b \<and> invar b2 \<and> (\<exists>b3. alloc b2 = Ok b3 i)"
proof -
  note a = alloc_Ok [OF inv al]
  then obtain b2 where r: "release b1 i = Ok b2 ()" "used b2 = used b1 - {unat i}" "cap b2 = cap b1"
      "invar b2"
    using release_used [of b1 i] by auto
  have u: "used b2 = used b" using a r by auto
  then have "used b2 \<noteq> {..<cap b2}" using a r by auto
  then obtain b3 k where k: "alloc b2 = Ok b3 k" using alloc_free [OF r(4)] by auto
  note ak = alloc_Ok [OF r(4) k]
  then have "unat k = unat i" using a u by (metis linorder_neqE_nat)
  then have "k = i" by (simp add: word_unat_eq_iff)
  with r u k show ?thesis by auto
qed

lemma alloc_many_order:
  "invar b \<Longrightarrow> used b = {..<k} \<Longrightarrow> k + n \<le> cap b \<Longrightarrow>
    \<exists>b'. alloc_many alloc n b = Ok b' (map of_nat [k..<k + n]) \<and> used b' = {..<k + n} \<and>
         cap b' = cap b \<and> invar b'"
proof (induction n arbitrary: b k)
  case 0
  then show ?case by simp
next
  case (Suc n)
  then have "used b \<noteq> {..<cap b}" by auto
  then obtain b1 i where al: "alloc b = Ok b1 i" using alloc_free Suc.prems by blast
  note a = alloc_Ok [OF Suc.prems(1) al]
  then have "unat i = k" using Suc.prems(2) by (metis lessThan_iff nat_neq_iff)
  then have i: "i = of_nat k" by auto
  have "used b1 = {..<Suc k}" using a Suc.prems(2) \<open>unat i = k\<close> by auto
  with a Suc.prems Suc.IH [of b1 "Suc k"] al i show ?case by (auto simp: upt_rec [of k])
qed

end

lemma bm_used_set:
  "i < unat (nbits b) \<Longrightarrow> (\<And>j. bm_bit b' j \<longleftrightarrow> j = i \<or> bm_bit b j) \<Longrightarrow> nbits b' = nbits b \<Longrightarrow>
    bm_used b' = insert i (bm_used b)"
  by (auto simp: bm_used_def)

lemma bitmap_alloc_cases:
  assumes wf: "bm_wf b"
  shows "(\<exists>b' i. bitmap_alloc b = Ok b' i \<and> unat i < unat (nbits b) \<and> unat i \<notin> bm_used b \<and>
            (\<forall>j < unat i. j \<in> bm_used b) \<and> bm_used b' = insert (unat i) (bm_used b) \<and>
            nbits b' = nbits b \<and> bm_wf b') \<or>
         bitmap_alloc b = Err b ENOSPC \<and> bm_used b = {..<unat (nbits b)}"
proof -
  let ?l = "length (bm_v b)"
  have len: "unat (divroundup (nbits b) 8) = ?l"
    using wf unat_divroundup8 by (simp add: bm_wf_def)
  consider (found) k off where "bitmap_alloc b =
             Ok (b\<lparr>bm_v := (bm_v b)[k := bm_v b ! k OR 2 ^ off]\<rparr>) (of_nat (k * 8 + off))"
             "k < ?l" "off < 8" "k * 8 + off < unat (nbits b)" "\<not> bm_bit b (k * 8 + off)"
             "\<forall>j < k * 8 + off. bm_bit b j"
    | (full) "bitmap_alloc b = Err b ENOSPC" "\<forall>i < 8 * ?l. bm_bit b i"
    using alloc_loop_spec [OF wf, of 0] unfolding bitmap_alloc_def len by auto
  then show ?thesis
  proof cases
    case found
    let ?b = "b\<lparr>bm_v := (bm_v b)[k := bm_v b ! k OR 2 ^ off]\<rparr>"
    have i: "unat (of_nat (k * 8 + off) :: u32) = k * 8 + off"
      using less_trans [OF found(4) unat_less_32] by (rule unat_of_nat_32)
    have bits: "bm_bit ?b j \<longleftrightarrow> j = k * 8 + off \<or> bm_bit b j" for j
      using found by (simp add: bm_bit_set)
    have "bm_wf ?b" by (rule bm_wf_cong [OF wf]) (simp_all add: bits)
    moreover have "bm_used ?b = insert (k * 8 + off) (bm_used b)"
      by (rule bm_used_set) (simp_all add: bits found(4))
    ultimately show ?thesis
      using found i by (intro disjI1 exI [of _ ?b] exI [of _ "of_nat (k * 8 + off)"])
        (simp add: bm_used_def del: of_nat_add of_nat_mult)
  next
    case full
    have "bm_bit b j" if "j < unat (nbits b)" for j
      using that full(2) wf by (simp add: bm_wf_def)
    with full show ?thesis by (auto simp: bm_used_def)
  qed
qed


lemma bitmap_unmark_used:
  assumes wf: "bm_wf b" and u: "unat i \<in> bm_used b"
  shows "\<exists>b'. bitmap_unmark b i = Ok b' () \<and> bm_used b' = bm_used b - {unat i} \<and>
              nbits b' = nbits b \<and> bm_wf b'"
proof -
  let ?ix = "unat (i div 8)" and ?k = "unat (i mod 8)"
  let ?b = "b\<lparr>bm_v := (bm_v b)[?ix := bm_v b ! ?ix AND NOT (2 ^ ?k)]\<rparr>"
  from u have lt: "i < nbits b" and set: "bm_bit b (unat i)"
    by (simp_all add: bm_used_def word_less_nat_alt)
  note r = bm_byte_in_range [OF wf lt]
  have bit: "bit (bm_v b ! ?ix) ?k"
    using set by (simp add: bm_bit_def unat_div unat_mod)
  have bits: "bm_bit ?b j \<longleftrightarrow> j \<noteq> unat i \<and> bm_bit b j" for j
    using bm_bit_clear [OF r unat_mod8_less, of i j] by (simp add: unat_bit_index)
  have "bitmap_unmark b i = Ok ?b ()"
    using lt r bit unat_mod8_less [of i]
    by (simp add: bitmap_unmark_def bitmap_translate_def)
  moreover have "bm_wf ?b"
    using lt by (intro bm_wf_cong [OF wf]) (auto simp: bits word_less_nat_alt)
  ultimately show ?thesis by (auto simp: bm_used_def bits)
qed

lemma bitmap_mark_free:
  assumes wf: "bm_wf b" and lt: "i < nbits b" and u: "unat i \<notin> bm_used b"
  shows "\<exists>b'. bitmap_mark b i = Ok b' () \<and> bm_used b' = insert (unat i) (bm_used b) \<and>
              nbits b' = nbits b \<and> bm_wf b'"
proof -
  let ?ix = "unat (i div 8)" and ?k = "unat (i mod 8)"
  let ?b = "b\<lparr>bm_v := (bm_v b)[?ix := bm_v b ! ?ix OR 2 ^ ?k]\<rparr>"
  note r = bm_byte_in_range [OF wf lt]
  have bit: "\<not> bit (bm_v b ! ?ix) ?k"
    using u lt by (simp add: bm_used_def bm_bit_def unat_div unat_mod word_less_nat_alt)
  have bits: "bm_bit ?b j \<longleftrightarrow> j = unat i \<or> bm_bit b j" for j
    using bm_bit_set [OF r unat_mod8_less, of i j] by (simp add: unat_bit_index)
  have "bitmap_mark b i = Ok ?b ()"
    using lt r bit unat_mod8_less [of i] by (simp add: bitmap_mark_def bitmap_translate_def)
  moreover have "bm_wf ?b"
    by (rule bm_wf_cong [OF wf]) (simp_all add: bits)
  moreover have "bm_used ?b = insert (unat i) (bm_used b)"
    using lt by (intro bm_used_set) (simp_all add: bits word_less_nat_alt)
  ultimately show ?thesis by auto
qed

lemma bitmap_isset_used:
  assumes wf: "bm_wf b" and lt: "unat i < unat (nbits b)"
  shows "bitmap_isset b i = Ok b (unat i \<in> bm_used b)"
proof -
  have "i < nbits b" using lt by (simp add: word_less_nat_alt)
  then have "unat (i div 8) < length (bm_v b)" by (rule bm_byte_in_range [OF wf])
  then show ?thesis
    using lt unat_mod8_less [of i]
    by (simp add: bitmap_isset_def bitmap_translate_def bm_used_def bm_bit_def unat_div unat_mod)
qed

interpretation bitmap_ops: bit_allocator
  "\<lambda>b. unat (nbits b)" bm_used bm_wf bitmap_alloc bitmap_unmark bitmap_isset
proof unfold_locales
  show "bm_used b \<subseteq> {..<unat (nbits b)}" for b by (auto simp: bm_used_def)
  show "bitmap_alloc b = Err b ENOSPC" if "bm_wf b" and "bm_used b = {..<unat (nbits b)}" for b
    using bitmap_alloc_cases [OF that(1)] that(2) by auto
  show "\<exists>b' i. bitmap_alloc b = Ok b' i \<and> unat i < unat (nbits b) \<and> unat i \<notin> bm_used b \<and>
          (\<forall>j < unat i. j \<in> bm_used b) \<and> bm_used b' = insert (unat i) (bm_used b) \<and>
          unat (nbits b') = unat (nbits b) \<and> bm_wf b'"
    if "bm_wf b" and "bm_used b \<noteq> {..<unat (nbits b)}" for b
    using bitmap_alloc_cases [OF that(1)] that(2) by auto
  show "\<exists>b'. bitmap_unmark b i = Ok b' () \<and> bm_used b' = bm_used b - {unat i} \<and>
          unat (nbits b') = unat (nbits b) \<and> bm_wf b'"
    if "bm_wf b" and "unat i \<in> bm_used b" for b i
    using bitmap_unmark_used [OF that] by auto
  show "bitmap_isset b i = Ok b (unat i \<in> bm_used b)"
    if "bm_wf b" and "unat i < unat (nbits b)" for b i
    using that by (rule bitmap_isset_used)
qed

text \<open>A new bitmap is well formed and has no bit in use.\<close>

lemma ceil_div8: "(m + 7 :: nat) div 8 = m div 8 + (if m mod 8 = 0 then 0 else 1)"
proof -
  have "m + 7 = (m mod 8 + 7) + m div 8 * 8" by simp
  then have e: "(m + 7) div 8 = (m mod 8 + 7) div 8 + m div 8"
    by (metis div_mult_self1 zero_neq_numeral add.commute)
  have "m mod 8 < 8" by simp
  then have "(m mod 8 + 7) div 8 = (if m mod 8 = 0 then 0 else 1)"
    by (auto intro!: div_nat_eqI)
  with e show ?thesis by simp
qed

lemma last_byte_le: "i < 8 * (m div 8 + 1) \<Longrightarrow> i div 8 \<noteq> m div 8 \<Longrightarrow> i < (m :: nat)"
  by (metis Suc_eq_plus1 div_le_mono less_mult_imp_div_less less_Suc_eq linorder_not_less
      mult.commute nat_less_le)

lemma bitmap_create_aligned:
  assumes n: "unat n + 7 < 2 ^ 32" and al: "unat n mod 8 = 0"
  shows "\<exists>b. bitmap_create True True n = Ok () (Some b) \<and> nbits b = n \<and> bm_wf b \<and> bm_used b = {}"
proof -
  have w: "unat (divroundup n 8) = unat n div 8"
    using unat_divroundup8 [OF n] al by (simp add: ceil_div8)
  let ?b = "\<lparr>nbits = n, bm_v = replicate (unat n div 8) 0\<rparr>"
  have "\<not> divroundup n 8 > n div 8" by (simp add: word_less_nat_alt w unat_div)
  then have c: "bitmap_create True True n = Ok () (Some ?b)"
    by (simp add: bitmap_create_def Let_def w)
  have bits: "\<not> bm_bit ?b i" if "i < unat n" for i
    using that al by (auto simp: bm_bit_def div_less_mono)
  have "8 * (unat n div 8) = unat n" using al mult_div_mod_eq [of 8 "unat n"] by simp
  then have "bm_wf ?b" using n al by (simp add: bm_wf_def ceil_div8)
  with c bits show ?thesis by (auto simp: bm_used_def)
qed

lemma bitmap_create_leftover:
  assumes n: "unat n + 7 < 2 ^ 32" and al: "unat n mod 8 \<noteq> 0"
  shows "\<exists>b. bitmap_create True True n = Ok () (Some b) \<and> nbits b = n \<and> bm_wf b \<and> bm_used b = {}"
proof -
  let ?w = "divroundup n 8" and ?l = "unat n div 8 + 1"
  have w: "unat ?w = ?l" using unat_divroundup8 [OF n] al by (simp add: ceil_div8)
  have "unat (?w - 1) = unat n div 8"
    using w by (simp add: unat_sub word_le_nat_alt)
  then have ixw: "?w - 1 = n div 8" by (simp add: word_unat_eq_iff unat_div)
  have ov: "n - n div 8 * 8 = n mod 8" by (simp add: minus_div_mult_eq_mod)
  let ?b = "\<lparr>nbits = n, bm_v = (replicate ?l 0)[unat n div 8 := mark_from (unat n mod 8) 0]\<rparr>"
  have c: "bitmap_create True True n = Ok () (Some ?b)"
    using al w 
    by (simp add: bitmap_create_def Let_def ixw ov word_less_nat_alt unat_mod unat_div
        del: replicate.simps)
  have bits: "bm_bit ?b i \<longleftrightarrow> unat n \<le> i" if "i < 8 * ?l" for i
  proof (cases "i div 8 = unat n div 8")
    case True
    then have "unat n \<le> i \<longleftrightarrow> unat n mod 8 \<le> i mod 8"
      using div_mult_mod_eq [of i 8] div_mult_mod_eq [of "unat n" 8] by linarith
    with True show ?thesis by (simp add: bm_bit_def bit_mark_from del: replicate.simps)
  next
    case False
    have "i div 8 < ?l" using that by (simp add: less_mult_imp_div_less mult.commute)
    with False last_byte_le [OF that False] show ?thesis
      by (simp add: bm_bit_def del: replicate.simps)
  qed
  have "unat n < 8 * ?l" using div_mult_mod_eq [of "unat n" 8] by (simp add: mult.commute)
  then have "\<not> bm_bit ?b i" if "i < unat n" for i using that bits [of i] by linarith
  then have "bm_used ?b = {}" by (simp add: bm_used_def del: replicate.simps)
  moreover have "bm_wf ?b"
    using n al bits by (simp add: bm_wf_def ceil_div8 del: replicate.simps)
  ultimately show ?thesis using c by auto
qed

lemma bitmap_create_wf:
  "unat n + 7 < 2 ^ 32 \<Longrightarrow>
    \<exists>b. bitmap_create True True n = Ok () (Some b) \<and> nbits b = n \<and> bm_wf b \<and> bm_used b = {}"
  using bitmap_create_aligned bitmap_create_leftover by blast


section \<open>Properties\<close>

text \<open>
  C11. \<open>bitmap_alloc\<close> on a well-formed bitmap never trips an assertion. When every bit is in use it
  returns \<open>ENOSPC\<close> and changes nothing; otherwise it hands out the lowest clear bit, which is below
  \<open>nbits\<close>, and the only bit that changes is that one.
\<close>

theorem bitmap_alloc_first_fit:
  assumes "bm_wf b"
  shows "if bm_used b = {..<unat (nbits b)} then bitmap_alloc b = Err b ENOSPC
         else \<exists>b' i. bitmap_alloc b = Ok b' i \<and> unat i < unat (nbits b) \<and> unat i \<notin> bm_used b \<and>
                (\<forall>j < unat i. j \<in> bm_used b) \<and> bm_used b' = insert (unat i) (bm_used b) \<and>
                nbits b' = nbits b \<and> bm_wf b'"
  using bitmap_alloc_cases [OF assms] by auto

lemma bitmap_example_wf: "bm_wf \<lparr>nbits = 10, bm_v = [255, 252]\<rparr>"
proof -
  have "i = 10 \<or> i = 11 \<or> i = 12 \<or> i = 13 \<or> i = 14 \<or> i = 15" if "10 \<le> i" "i < 16" for i :: nat
    using that by linarith
  then have "bit ([255, 252 :: u8] ! (i div 8)) (i mod 8)" if "10 \<le> i" "i < 16" for i :: nat
    using that by fastforce
  then show ?thesis by (simp add: bm_wf_def bm_bit_def)
qed

theorem bitmap_alloc_first_fit_witness:
  "bm_wf \<lparr>nbits = 10, bm_v = [255, 252]\<rparr> \<and>
   bitmap_alloc \<lparr>nbits = 10, bm_v = [255, 252]\<rparr> = Ok \<lparr>nbits = 10, bm_v = [255, 253]\<rparr> 8 \<and>
   8 \<notin> bm_used \<lparr>nbits = 10, bm_v = [255, 252]\<rparr>"
proof -
  have "bitmap_alloc \<lparr>nbits = 10, bm_v = [255, 252]\<rparr> = Ok \<lparr>nbits = 10, bm_v = [255, 253]\<rparr> 8"
    by (simp add: bitmap_alloc_def divroundup_def bitmap_alloc_loop.simps alloc_offset.simps)
  then show ?thesis
    using bitmap_alloc_first_fit [OF bitmap_example_wf] bitmap_example_wf
    by (auto split: if_splits)
qed

text \<open>
  C12. A bitmap created for \<open>n\<close> bits can be allocated from exactly \<open>n\<close> times: the calls hand out
  \<open>0, 1, \<dots>, n - 1\<close> in this order, and the next call returns \<open>ENOSPC\<close>. The bits left over in the last
  byte are never handed out.
\<close>

theorem bitmap_create_exhaust:
  assumes "unat n + 7 < 2 ^ 32"
  shows "\<exists>b b'. bitmap_create True True n = Ok () (Some b) \<and>
           alloc_many bitmap_alloc (unat n) b = Ok b' (map of_nat [0..<unat n]) \<and>
           bitmap_alloc b' = Err b' ENOSPC"
proof -
  obtain b where b: "bitmap_create True True n = Ok () (Some b)" "nbits b = n" "bm_wf b" "bm_used b = {}"
    using bitmap_create_wf [OF assms] by auto
  then obtain b' where b': "alloc_many bitmap_alloc (unat n) b = Ok b' (map of_nat [0..<unat n])"
      "bm_used b' = {..<unat n}" "unat (nbits b') = unat n" "bm_wf b'"
    using bitmap_ops.alloc_many_order [of b 0 "unat n"] by auto
  then have "bitmap_alloc b' = Err b' ENOSPC" by (intro bitmap_ops.alloc_full) simp_all
  with b b' show ?thesis by auto
qed

theorem bitmap_create_exhaust_witness:
  "unat (11 :: u32) + 7 < 2 ^ 32 \<and>
   (\<exists>b b'. bitmap_create True True 11 = Ok () (Some b) \<and>
           alloc_many bitmap_alloc 11 b = Ok b' (map of_nat [0..<11]) \<and>
           bitmap_alloc b' = Err b' ENOSPC)"
  using bitmap_create_exhaust [of 11] by simp

text \<open>
  C13. \<open>bitmap_mark\<close> on a free index followed by \<open>bitmap_unmark\<close> on the same index gives back the very
  same bitmap, with no assertion tripped, and in between the index, and no other, is newly in use.
\<close>

theorem bitmap_mark_unmark:
  assumes wf: "bm_wf b" and lt: "i < nbits b" and free: "bitmap_isset b i = Ok b False"
  shows "\<exists>b'. bitmap_mark b i = Ok b' () \<and> bm_used b' = insert (unat i) (bm_used b) \<and>
              bitmap_isset b' i = Ok b' True \<and> bitmap_unmark b' i = Ok b ()"
proof -
  let ?ix = "unat (i div 8)" and ?k = "unat (i mod 8)"
  have u: "unat i \<notin> bm_used b"
    using bitmap_isset_used [OF wf] lt free by (simp add: word_less_nat_alt)
  obtain b' where b': "bitmap_mark b i = Ok b' ()" "bm_used b' = insert (unat i) (bm_used b)"
      "nbits b' = nbits b" "bm_wf b'"
    using bitmap_mark_free [OF wf lt u] by auto
  note r = bm_byte_in_range [OF wf lt]
  have v: "bm_v b' = (bm_v b)[?ix := bm_v b ! ?ix OR 2 ^ ?k]" "\<not> bit (bm_v b ! ?ix) ?k"
    using b'(1) lt r unat_mod8_less [of i]
    by (auto simp: bitmap_mark_def bitmap_translate_def kassert_Ok_iff)
  have "(bm_v b ! ?ix OR 2 ^ ?k) AND NOT (2 ^ ?k) = bm_v b ! ?ix"
    using v(2) by (intro bit_eqI) (auto simp: bit_or_iff bit_and_iff bit_not_iff)
  then have "bitmap_unmark b' i = Ok (b'\<lparr>bm_v := bm_v b\<rparr>) ()"
    using lt r v unat_mod8_less [of i] b'(3)
    by (simp add: bitmap_unmark_def bitmap_translate_def bit_or_iff)
  moreover have "b'\<lparr>bm_v := bm_v b\<rparr> = b" using b'(3) by (cases b; cases b') simp
  moreover have "bitmap_isset b' i = Ok b' True"
    using bitmap_isset_used [OF b'(4), of i] b' lt by (simp add: word_less_nat_alt)
  ultimately show ?thesis using b' by auto
qed

theorem bitmap_mark_unmark_witness:
  "bitmap_mark \<lparr>nbits = 10, bm_v = [255, 252]\<rparr> 9 = Ok \<lparr>nbits = 10, bm_v = [255, 254]\<rparr> () \<and>
   bitmap_unmark \<lparr>nbits = 10, bm_v = [255, 254]\<rparr> 9 = Ok \<lparr>nbits = 10, bm_v = [255, 252]\<rparr> ()"
proof -
  have "bitmap_isset \<lparr>nbits = 10, bm_v = [255, 252]\<rparr> 9 = Ok \<lparr>nbits = 10, bm_v = [255, 252]\<rparr> False"
    by (simp add: bitmap_isset_def bitmap_translate_def)
  moreover have "bitmap_mark \<lparr>nbits = 10, bm_v = [255, 252]\<rparr> 9 = Ok \<lparr>nbits = 10, bm_v = [255, 254]\<rparr> ()"
    by (simp add: bitmap_mark_def bitmap_translate_def)
  ultimately show ?thesis
    using bitmap_mark_unmark [OF bitmap_example_wf, of 9] by auto
qed

end
