(* ===== verification/Threadlist.thy ===== *)
theory Threadlist
  imports Prelude
begin

text \<open>
  The doubly linked thread lists of \<open>kern/thread/threadlist.c\<close> (structures in
  \<open>kern/include/threadlist.h\<close>), at the level of pointers. The nodes live in a store: the node
  embedded in a thread, and the two bookend nodes embedded in every list. A null pointer is \<open>None\<close>,
  and following it is a \<open>Fault\<close>. \<open>DEBUGASSERT\<close> expands to nothing in this configuration
  (\<open>kern/include/lib.h\<close>), so it is not part of the model. \<open>tl_count\<close> is a 32-bit counter.

  The contract of a store of thread lists is the locale \<open>thread_lists\<close>; the pointer code and the
  mathematical lists used by the scheduler model both interpret it.
\<close>

section \<open>Model\<close>

type_synonym tid = nat

datatype 'l nref = HeadOf 'l | TailOf 'l | NodeOf tid

record 'l threadlistnode =
  tln_prev :: "'l nref option"
  tln_next :: "'l nref option"
  tln_self :: "tid option"

record 'l tlstore =
  tl_node :: "'l nref \<Rightarrow> 'l threadlistnode"
  tl_count :: "'l \<Rightarrow> u32"

text \<open>Field assignments through a node pointer.\<close>

definition set_prev :: "'l tlstore \<Rightarrow> 'l nref \<Rightarrow> 'l nref option \<Rightarrow> 'l tlstore" where
  "set_prev s p q = s\<lparr>tl_node := (tl_node s)(p := (tl_node s p)\<lparr>tln_prev := q\<rparr>)\<rparr>"

definition set_next :: "'l tlstore \<Rightarrow> 'l nref \<Rightarrow> 'l nref option \<Rightarrow> 'l tlstore" where
  "set_next s p q = s\<lparr>tl_node := (tl_node s)(p := (tl_node s p)\<lparr>tln_next := q\<rparr>)\<rparr>"

definition set_self :: "'l tlstore \<Rightarrow> 'l nref \<Rightarrow> tid option \<Rightarrow> 'l tlstore" where
  "set_self s p t = s\<lparr>tl_node := (tl_node s)(p := (tl_node s p)\<lparr>tln_self := t\<rparr>)\<rparr>"

definition set_count :: "'l tlstore \<Rightarrow> 'l \<Rightarrow> u32 \<Rightarrow> 'l tlstore" where
  "set_count s l n = s\<lparr>tl_count := (tl_count s)(l := n)\<rparr>"

text \<open>\<open>p->tln_next->tln_prev = q\<close> and \<open>p->tln_prev->tln_next = q\<close>.\<close>

definition set_next_prev :: "'l tlstore \<Rightarrow> 'l nref \<Rightarrow> 'l nref option \<Rightarrow> ('l tlstore, unit) outcome" where
  "set_next_prev s p q =
     (case tln_next (tl_node s p) of None \<Rightarrow> Fault | Some n \<Rightarrow> Ok (set_prev s n q) ())"

definition set_prev_next :: "'l tlstore \<Rightarrow> 'l nref \<Rightarrow> 'l nref option \<Rightarrow> ('l tlstore, unit) outcome" where
  "set_prev_next s p q =
     (case tln_prev (tl_node s p) of None \<Rightarrow> Fault | Some n \<Rightarrow> Ok (set_next s n q) ())"

definition threadlistnode_init :: "'l tlstore \<Rightarrow> tid \<Rightarrow> 'l tlstore" where
  "threadlistnode_init s t =
     set_self (set_prev (set_next s (NodeOf t) None) (NodeOf t) None) (NodeOf t) (Some t)"

definition threadlistnode_cleanup :: "'l tlstore \<Rightarrow> tid \<Rightarrow> ('l tlstore, unit) outcome" where
  "threadlistnode_cleanup s t =
     (let n = tl_node s (NodeOf t)
      in kassert (tln_next n = None) (kassert (tln_prev n = None) (kassert (tln_self n \<noteq> None) (Ok s ()))))"

definition threadlist_init :: "'l tlstore \<Rightarrow> 'l \<Rightarrow> 'l tlstore" where
  "threadlist_init s l =
     (let s1 = set_next s (HeadOf l) (Some (TailOf l));
          s2 = set_prev s1 (HeadOf l) None;
          s3 = set_next s2 (TailOf l) None;
          s4 = set_prev s3 (TailOf l) (Some (HeadOf l));
          s5 = set_self s4 (HeadOf l) None;
          s6 = set_self s5 (TailOf l) None
      in set_count s6 l 0)"

definition threadlist_isempty :: "'l tlstore \<Rightarrow> 'l \<Rightarrow> bool" where
  "threadlist_isempty s l = (tl_count s l = 0)"

definition threadlist_cleanup :: "'l tlstore \<Rightarrow> 'l \<Rightarrow> ('l tlstore, unit) outcome" where
  "threadlist_cleanup s l = kassert (threadlist_isempty s l) (kassert (tl_count s l = 0) (Ok s ()))"

definition threadlist_insertafternode :: "'l tlstore \<Rightarrow> 'l nref \<Rightarrow> tid \<Rightarrow> ('l tlstore, unit) outcome" where
  "threadlist_insertafternode s onlist t =
     (let addee = NodeOf t;
          s1 = set_prev s addee (Some onlist);
          s2 = set_next s1 addee (tln_next (tl_node s1 onlist))
      in and_then (set_prev_next s2 addee (Some addee))
           (\<lambda>s3 _. set_next_prev s3 addee (Some addee)))"

definition threadlist_insertbeforenode :: "'l tlstore \<Rightarrow> tid \<Rightarrow> 'l nref \<Rightarrow> ('l tlstore, unit) outcome" where
  "threadlist_insertbeforenode s t onlist =
     (let addee = NodeOf t;
          s1 = set_prev s addee (tln_prev (tl_node s onlist));
          s2 = set_next s1 addee (Some onlist)
      in and_then (set_prev_next s2 addee (Some addee))
           (\<lambda>s3 _. set_next_prev s3 addee (Some addee)))"

definition threadlist_removenode :: "'l tlstore \<Rightarrow> 'l nref \<Rightarrow> ('l tlstore, unit) outcome" where
  "threadlist_removenode s tln =
     and_then (set_prev_next s tln (tln_next (tl_node s tln)))
       (\<lambda>s1 _. and_then (set_next_prev s1 tln (tln_prev (tl_node s1 tln)))
          (\<lambda>s2 _. Ok (set_next (set_prev s2 tln None) tln None) ()))"

definition threadlist_addhead :: "'l tlstore \<Rightarrow> 'l \<Rightarrow> tid \<Rightarrow> ('l tlstore, unit) outcome" where
  "threadlist_addhead s l t =
     and_then (threadlist_insertafternode s (HeadOf l) t)
       (\<lambda>s1 _. Ok (set_count s1 l (tl_count s1 l + 1)) ())"

definition threadlist_addtail :: "'l tlstore \<Rightarrow> 'l \<Rightarrow> tid \<Rightarrow> ('l tlstore, unit) outcome" where
  "threadlist_addtail s l t =
     and_then (threadlist_insertbeforenode s t (TailOf l))
       (\<lambda>s1 _. Ok (set_count s1 l (tl_count s1 l + 1)) ())"

definition threadlist_remhead :: "'l tlstore \<Rightarrow> 'l \<Rightarrow> ('l tlstore, tid option) outcome" where
  "threadlist_remhead s l =
     (case tln_next (tl_node s (HeadOf l)) of
        None \<Rightarrow> Fault
      | Some tln \<Rightarrow>
          if tln_next (tl_node s tln) = None then Ok s None
          else and_then (threadlist_removenode s tln)
                 (\<lambda>s1 _. Ok (set_count s1 l (tl_count s1 l - 1)) (tln_self (tl_node s1 tln))))"

definition threadlist_remtail :: "'l tlstore \<Rightarrow> 'l \<Rightarrow> ('l tlstore, tid option) outcome" where
  "threadlist_remtail s l =
     (case tln_prev (tl_node s (TailOf l)) of
        None \<Rightarrow> Fault
      | Some tln \<Rightarrow>
          if tln_prev (tl_node s tln) = None then Ok s None
          else and_then (threadlist_removenode s tln)
                 (\<lambda>s1 _. Ok (set_count s1 l (tl_count s1 l - 1)) (tln_self (tl_node s1 tln))))"

definition threadlist_insertafter ::
    "'l tlstore \<Rightarrow> 'l \<Rightarrow> tid \<Rightarrow> tid \<Rightarrow> ('l tlstore, unit) outcome" where
  "threadlist_insertafter s l onlist addee =
     and_then (threadlist_insertafternode s (NodeOf onlist) addee)
       (\<lambda>s1 _. Ok (set_count s1 l (tl_count s1 l + 1)) ())"

definition threadlist_insertbefore ::
    "'l tlstore \<Rightarrow> 'l \<Rightarrow> tid \<Rightarrow> tid \<Rightarrow> ('l tlstore, unit) outcome" where
  "threadlist_insertbefore s l addee onlist =
     and_then (threadlist_insertbeforenode s addee (NodeOf onlist))
       (\<lambda>s1 _. Ok (set_count s1 l (tl_count s1 l + 1)) ())"

definition threadlist_remove :: "'l tlstore \<Rightarrow> 'l \<Rightarrow> tid \<Rightarrow> ('l tlstore, unit) outcome" where
  "threadlist_remove s l t =
     and_then (threadlist_removenode s (NodeOf t))
       (\<lambda>s1 _. Ok (set_count s1 l (tl_count s1 l - 1)) ())"

section \<open>Linked chains of nodes\<close>

abbreviation nxt :: "'l tlstore \<Rightarrow> 'l nref \<Rightarrow> 'l nref option" where
  "nxt s p \<equiv> tln_next (tl_node s p)"

abbreviation prv :: "'l tlstore \<Rightarrow> 'l nref \<Rightarrow> 'l nref option" where
  "prv s p \<equiv> tln_prev (tl_node s p)"

abbreviation slf :: "'l tlstore \<Rightarrow> 'l nref \<Rightarrow> tid option" where
  "slf s p \<equiv> tln_self (tl_node s p)"

lemma set_node_simps [simp]:
  "nxt (set_prev s p q) r = nxt s r"
  "nxt (set_next s p q) r = (if r = p then q else nxt s r)"
  "nxt (set_self s p t) r = nxt s r"
  "nxt (set_count s l n) r = nxt s r"
  "prv (set_prev s p q) r = (if r = p then q else prv s r)"
  "prv (set_next s p q) r = prv s r"
  "prv (set_self s p t) r = prv s r"
  "prv (set_count s l n) r = prv s r"
  "slf (set_prev s p q) r = slf s r"
  "slf (set_next s p q) r = slf s r"
  "slf (set_self s p t) r = (if r = p then t else slf s r)"
  "slf (set_count s l n) r = slf s r"
  "tl_count (set_prev s p q) = tl_count s"
  "tl_count (set_next s p q) = tl_count s"
  "tl_count (set_self s p t) = tl_count s"
  "tl_count (set_count s l n) = (tl_count s)(l := n)"
  by (simp_all add: set_prev_def set_next_def set_self_def set_count_def)

fun linked :: "'l tlstore \<Rightarrow> 'l nref list \<Rightarrow> bool" where
  "linked s (x # y # zs) \<longleftrightarrow> nxt s x = Some y \<and> prv s y = Some x \<and> linked s (y # zs)"
| "linked s _ \<longleftrightarrow> True"

lemma linked_append: "linked s (xs @ a # ys) \<longleftrightarrow> linked s (xs @ [a]) \<and> linked s (a # ys)"
proof (induction xs)
  case (Cons x xs)
  then show ?case by (cases xs) auto
qed simp

lemma linked_cong:
  "(\<And>x. x \<in> set (butlast zs) \<Longrightarrow> nxt s' x = nxt s x) \<Longrightarrow> (\<And>x. x \<in> set (tl zs) \<Longrightarrow> prv s' x = prv s x) \<Longrightarrow>
    linked s' zs = linked s zs"
proof (induction s zs rule: linked.induct)
  case (1 s x y zs)
  then show ?case by (cases zs) auto
qed auto

text \<open>What the two insertion routines and the removal do to the store.\<close>

definition link :: "'l tlstore \<Rightarrow> 'l nref \<Rightarrow> 'l nref \<Rightarrow> 'l nref \<Rightarrow> 'l tlstore" where
  "link s a n b = set_prev (set_next (set_next (set_prev s n (Some a)) n (Some b)) a (Some n)) b (Some n)"

definition unlink :: "'l tlstore \<Rightarrow> 'l nref \<Rightarrow> 'l nref \<Rightarrow> 'l nref \<Rightarrow> 'l tlstore" where
  "unlink s a n b = set_next (set_prev (set_prev (set_next s a (Some b)) b (Some a)) n None) n None"

lemma link_simps [simp]:
  "nxt (link s a n b) r = (if r = a then Some n else if r = n then Some b else nxt s r)"
  "prv (link s a n b) r = (if r = b then Some n else if r = n then Some a else prv s r)"
  "slf (link s a n b) r = slf s r"
  "tl_count (link s a n b) = tl_count s"
  by (simp_all add: link_def)

lemma unlink_simps [simp]:
  "nxt (unlink s a n b) r = (if r = n then None else if r = a then Some b else nxt s r)"
  "prv (unlink s a n b) r = (if r = n then None else if r = b then Some a else prv s r)"
  "slf (unlink s a n b) r = slf s r"
  "tl_count (unlink s a n b) = tl_count s"
  by (simp_all add: unlink_def)

lemma insertafternode_link:
  "nxt s a = Some b \<Longrightarrow> a \<noteq> NodeOf t \<Longrightarrow>
    threadlist_insertafternode s a t = Ok (link s a (NodeOf t) b) ()"
  by (simp add: threadlist_insertafternode_def set_prev_next_def set_next_prev_def link_def Let_def)

lemma insertbeforenode_link:
  "prv s b = Some a \<Longrightarrow> a \<noteq> NodeOf t \<Longrightarrow>
    threadlist_insertbeforenode s t b = Ok (link s a (NodeOf t) b) ()"
  by (simp add: threadlist_insertbeforenode_def set_prev_next_def set_next_prev_def link_def Let_def)

lemma removenode_unlink:
  "prv s n = Some a \<Longrightarrow> nxt s n = Some b \<Longrightarrow> n \<noteq> a \<Longrightarrow>
    threadlist_removenode s n = Ok (unlink s a n b) ()"
  by (simp add: threadlist_removenode_def set_prev_next_def set_next_prev_def unlink_def)

lemma linked_link:
  assumes "linked s (xs @ a # b # ys)" and "distinct (xs @ a # b # ys)" and "n \<notin> set (xs @ a # b # ys)"
  shows "linked (link s a n b) (xs @ a # n # b # ys)"
proof -
  have l: "linked s (xs @ [a])" "linked s (b # ys)"
    using assms(1) by (auto simp: linked_append [of s xs a "b # ys"])
  have "linked (link s a n b) (xs @ [a]) = linked s (xs @ [a])"
    using assms(2,3) by (intro linked_cong) (auto dest: list.set_sel(2) [rotated] simp: tl_append split: list.splits)
  moreover have "linked (link s a n b) (b # ys) = linked s (b # ys)"
    using assms(2,3) by (intro linked_cong) (auto dest: in_set_butlastD split: if_splits)
  ultimately show ?thesis
    using l assms(2,3) by (auto simp: linked_append [of _ xs a "n # b # ys"])
qed

lemma linked_unlink:
  assumes "linked s (xs @ a # n # b # ys)" and "distinct (xs @ a # n # b # ys)"
  shows "linked (unlink s a n b) (xs @ a # b # ys)"
proof -
  have l: "linked s (xs @ [a])" "linked s (b # ys)"
    using assms(1) by (auto simp: linked_append [of s xs a "n # b # ys"])
  have "linked (unlink s a n b) (xs @ [a]) = linked s (xs @ [a])"
    using assms(2) by (intro linked_cong) (auto dest: list.set_sel(2) [rotated] simp: tl_append split: list.splits)
  moreover have "linked (unlink s a n b) (b # ys) = linked s (b # ys)"
    using assms(2) by (intro linked_cong) (auto dest: in_set_butlastD split: if_splits)
  ultimately show ?thesis
    using l assms(2) by (auto simp: linked_append [of _ xs a "b # ys"])
qed

section \<open>Stores of thread lists\<close>

definition chain :: "'l \<Rightarrow> tid list \<Rightarrow> 'l nref list" where
  "chain l ts = HeadOf l # map NodeOf ts @ [TailOf l]"

text \<open>List \<open>l\<close> of the store holds the threads \<open>ts\<close>, head first.\<close>

definition tl_repr :: "'l tlstore \<Rightarrow> 'l \<Rightarrow> tid list \<Rightarrow> bool" where
  "tl_repr s l ts \<longleftrightarrow>
     linked s (chain l ts) \<and> prv s (HeadOf l) = None \<and> nxt s (TailOf l) = None \<and>
     slf s (HeadOf l) = None \<and> slf s (TailOf l) = None \<and> distinct ts \<and>
     tl_count s l = of_nat (length ts)"

text \<open>
  A store of lists \<open>A\<close>: every initialised list is represented, no thread is on two lists, every
  thread node knows its thread, and the node of a thread on no list has null links.
\<close>

definition on_list :: "('l \<rightharpoonup> tid list) \<Rightarrow> tid \<Rightarrow> bool" where
  "on_list A t \<longleftrightarrow> (\<exists>l ts. A l = Some ts \<and> t \<in> set ts)"

definition tl_abs :: "'l tlstore \<Rightarrow> ('l \<rightharpoonup> tid list) \<Rightarrow> bool" where
  "tl_abs s A \<longleftrightarrow>
     (\<forall>l ts. A l = Some ts \<longrightarrow> tl_repr s l ts) \<and>
     (\<forall>l m ts us. A l = Some ts \<longrightarrow> A m = Some us \<longrightarrow> l \<noteq> m \<longrightarrow> set ts \<inter> set us = {}) \<and>
     (\<forall>t. slf s (NodeOf t) = Some t) \<and>
     (\<forall>t. \<not> on_list A t \<longrightarrow> nxt s (NodeOf t) = None \<and> prv s (NodeOf t) = None)"

lemma tl_absD:
  assumes "tl_abs s A"
  shows "A l = Some ts \<Longrightarrow> tl_repr s l ts"
    and "A l = Some ts \<Longrightarrow> A m = Some us \<Longrightarrow> l \<noteq> m \<Longrightarrow> t \<in> set ts \<Longrightarrow> t \<notin> set us"
    and "slf s (NodeOf t) = Some t"
    and "\<not> on_list A t \<Longrightarrow> nxt s (NodeOf t) = None"
    and "\<not> on_list A t \<Longrightarrow> prv s (NodeOf t) = None"
  using assms unfolding tl_abs_def by blast+

lemma tl_absI:
  assumes "\<And>l ts. A l = Some ts \<Longrightarrow> tl_repr s l ts"
    and "\<And>l m ts us. A l = Some ts \<Longrightarrow> A m = Some us \<Longrightarrow> l \<noteq> m \<Longrightarrow> set ts \<inter> set us = {}"
    and "\<And>t. slf s (NodeOf t) = Some t"
    and "\<And>t. \<not> on_list A t \<Longrightarrow> nxt s (NodeOf t) = None \<and> prv s (NodeOf t) = None"
  shows "tl_abs s A"
  using assms unfolding tl_abs_def by blast

lemma on_listI: "A l = Some ts \<Longrightarrow> t \<in> set ts \<Longrightarrow> on_list A t"
  by (auto simp: on_list_def)

lemma set_chain: "set (chain l ts) = {HeadOf l, TailOf l} \<union> NodeOf ` set ts"
  by (auto simp: chain_def)

lemma distinct_chain [simp]: "distinct (chain l ts) = distinct ts"
  by (auto simp: chain_def distinct_map inj_on_def)

text \<open>The nodes around a position of a list.\<close>

definition before :: "'l \<Rightarrow> tid list \<Rightarrow> 'l nref" where
  "before l xs = last (HeadOf l # map NodeOf xs)"

definition after :: "'l \<Rightarrow> tid list \<Rightarrow> 'l nref" where
  "after l ys = hd (map NodeOf ys @ [TailOf l])"

lemma before_simps [simp]: "before l [] = HeadOf l" "before l (xs @ [t]) = NodeOf t"
  by (simp_all add: before_def)

lemma after_simps [simp]: "after l [] = TailOf l" "after l (t # ys) = NodeOf t"
  by (simp_all add: after_def)

lemma chain_split:
  "chain l (xs @ ys) = butlast (HeadOf l # map NodeOf xs) @ before l xs # after l ys # tl (map NodeOf ys @ [TailOf l])"
proof -
  have "HeadOf l # map NodeOf xs = butlast (HeadOf l # map NodeOf xs) @ [before l xs]"
    unfolding before_def by (rule append_butlast_last_id [symmetric]) simp
  moreover have "map NodeOf ys @ [TailOf l] = after l ys # tl (map NodeOf ys @ [TailOf l])"
    unfolding after_def by (rule hd_Cons_tl [symmetric]) simp
  moreover have "chain l (xs @ ys) = (HeadOf l # map NodeOf xs) @ (map NodeOf ys @ [TailOf l])"
    by (simp add: chain_def)
  ultimately show ?thesis by (metis append_Cons append_assoc append_Nil)
qed

lemma chain_split_mid:
  "chain l (xs @ t # ys) =
     butlast (HeadOf l # map NodeOf xs) @ before l xs # NodeOf t # after l ys # tl (map NodeOf ys @ [TailOf l])"
proof -
  have "chain l (xs @ t # ys) = (HeadOf l # map NodeOf xs) @ NodeOf t # (map NodeOf ys @ [TailOf l])"
    by (simp add: chain_def)
  moreover have "HeadOf l # map NodeOf xs = butlast (HeadOf l # map NodeOf xs) @ [before l xs]"
    unfolding before_def by (rule append_butlast_last_id [symmetric]) simp
  moreover have "map NodeOf ys @ [TailOf l] = after l ys # tl (map NodeOf ys @ [TailOf l])"
    unfolding after_def by (rule hd_Cons_tl [symmetric]) simp
  ultimately show ?thesis by (metis append_Cons append_assoc append_Nil)
qed

lemma before_cases: "before l xs = HeadOf l \<or> (\<exists>t \<in> set xs. before l xs = NodeOf t)"
  by (cases xs rule: rev_cases) auto

lemma after_cases: "after l ys = TailOf l \<or> (\<exists>t \<in> set ys. after l ys = NodeOf t)"
  by (cases ys) auto

lemma tl_repr_links:
  assumes "tl_repr s l (xs @ ys)"
  shows "nxt s (before l xs) = Some (after l ys)" and "prv s (after l ys) = Some (before l xs)"
proof -
  have "linked s (chain l (xs @ ys))" using assms by (simp add: tl_repr_def)
  then show "nxt s (before l xs) = Some (after l ys)" "prv s (after l ys) = Some (before l xs)"
    unfolding chain_split by (subst (asm) linked_append; simp)+
qed

lemma tl_repr_frame:
  assumes "tl_repr s l ts" and "\<And>x. x \<in> set (chain l ts) \<Longrightarrow> tl_node s' x = tl_node s x"
    and "tl_count s' l = tl_count s l"
  shows "tl_repr s' l ts"
proof -
  have "linked s' (chain l ts) = linked s (chain l ts)"
    using assms(2) by (intro linked_cong) (auto simp: chain_def dest: in_set_butlastD)
  then show ?thesis using assms by (simp add: tl_repr_def set_chain)
qed

text \<open>Linking a thread in at a position of a list.\<close>

lemma tl_repr_insert:
  assumes r: "tl_repr s l (xs @ ys)" and t: "t \<notin> set (xs @ ys)"
  shows "tl_repr (set_count (link s (before l xs) (NodeOf t) (after l ys)) l (tl_count s l + 1)) l (xs @ t # ys)"
proof -
  let ?s = "set_count (link s (before l xs) (NodeOf t) (after l ys)) l (tl_count s l + 1)"
  have d: "distinct (chain l (xs @ ys))" using r by (simp add: tl_repr_def)
  have n: "NodeOf t \<notin> set (chain l (xs @ ys))" using t by (auto simp: set_chain)
  have "linked (link s (before l xs) (NodeOf t) (after l ys)) (chain l (xs @ t # ys))"
    unfolding chain_split_mid by (rule linked_link; fold chain_split) (use r d n in \<open>simp_all add: tl_repr_def\<close>)
  then have "linked ?s (chain l (xs @ t # ys))"
    by (subst linked_cong [where s = "link s (before l xs) (NodeOf t) (after l ys)"]) simp_all
  moreover have "before l xs \<noteq> TailOf l" "after l ys \<noteq> HeadOf l"
    using before_cases [of l xs] after_cases [of l ys] by auto
  ultimately show ?thesis using r t by (auto simp: tl_repr_def)
qed

lemma on_list_update:
  "A l = Some ts \<Longrightarrow> set us = insert t (set ts) \<Longrightarrow> on_list (A(l \<mapsto> us)) x \<longleftrightarrow> x = t \<or> on_list A x"
  by (auto simp: on_list_def split: if_splits) (metis option.inject)

lemma around_in_chain: "before l xs \<in> set (chain l (xs @ ys))" "after l ys \<in> set (chain l (xs @ ys))"
  using before_cases [of l xs] after_cases [of l ys] by (auto simp: set_chain)

lemma chains_disjoint:
  "l \<noteq> m \<Longrightarrow> set ts \<inter> set us = {} \<Longrightarrow> x \<in> set (chain l ts) \<Longrightarrow> x \<notin> set (chain m us)"
  by (auto simp: set_chain)

lemma link_node_other:
  "x \<noteq> a \<Longrightarrow> x \<noteq> n \<Longrightarrow> x \<noteq> b \<Longrightarrow> tl_node (link s a n b) x = tl_node s x"
  by (simp add: link_def set_prev_def set_next_def)

lemma unlink_node_other:
  "x \<noteq> a \<Longrightarrow> x \<noteq> n \<Longrightarrow> x \<noteq> b \<Longrightarrow> tl_node (unlink s a n b) x = tl_node s x"
  by (simp add: unlink_def set_prev_def set_next_def)

lemma set_count_node [simp]: "tl_node (set_count s l n) = tl_node s"
  by (simp add: set_count_def)

lemma disjoint_update:
  assumes old: "\<And>l m ts us t. A l = Some ts \<Longrightarrow> A m = Some us \<Longrightarrow> l \<noteq> m \<Longrightarrow> t \<in> set ts \<Longrightarrow> t \<notin> set us"
    and new: "\<And>j ws. A j = Some ws \<Longrightarrow> j \<noteq> l \<Longrightarrow> set us \<inter> set ws = {}"
    and "(A(l \<mapsto> us)) m = Some vs" and "(A(l \<mapsto> us)) k = Some ws" and "m \<noteq> k"
  shows "set vs \<inter> set ws = {}"
proof -
  consider "m = l" | "k = l" | "m \<noteq> l" "k \<noteq> l" by blast
  then show ?thesis
  proof cases
    case 1
    then show ?thesis using assms(3-5) new [of k ws] by simp
  next
    case 2
    then show ?thesis using assms(3-5) new [of m vs] by auto
  next
    case 3
    then show ?thesis using assms(3-5) old [of m vs k ws] by auto
  qed
qed

lemma tl_abs_insert:
  assumes abs: "tl_abs s A" and l: "A l = Some (xs @ ys)" and t: "\<not> on_list A t"
  shows "tl_abs (set_count (link s (before l xs) (NodeOf t) (after l ys)) l (tl_count s l + 1))
           (A(l \<mapsto> xs @ t # ys))"
proof -
  let ?s = "set_count (link s (before l xs) (NodeOf t) (after l ys)) l (tl_count s l + 1)"
  have tl: "t \<notin> set (xs @ ys)" using t on_listI [of A l] l by auto
  have repr: "tl_repr ?s m us" if m: "(A(l \<mapsto> xs @ t # ys)) m = Some us" for m us
  proof (cases "m = l")
    case True
    then show ?thesis using m tl_repr_insert [OF tl_absD(1) [OF abs l] tl] by auto
  next
    case False
    then have am: "A m = Some us" using m by simp
    have dj: "set (xs @ ys) \<inter> set us = {}" using tl_absD(2) [OF abs l am] False by blast
    have n: "NodeOf t \<notin> set (chain m us)" using t on_listI [of A m us] am by (auto simp: set_chain)
    have "tl_node ?s x = tl_node s x" if "x \<in> set (chain m us)" for x
      using that n chains_disjoint [OF not_sym [OF False] dj] around_in_chain(1) [of l xs ys] around_in_chain(2) [of l ys xs]
      by (subst set_count_node, intro link_node_other) auto
    then show ?thesis using tl_repr_frame [OF tl_absD(1) [OF abs am], of ?s] False by simp
  qed
  have new: "set (xs @ t # ys) \<inter> set ws = {}" if "A j = Some ws" "j \<noteq> l" for j ws
    using tl_absD(2) [OF abs l that(1)] on_listI [of A j ws t] that t by auto
  note dj = disjoint_update [OF tl_absD(2) [OF abs] new]
  have off: "nxt ?s (NodeOf x) = None \<and> prv ?s (NodeOf x) = None"
    if "\<not> on_list (A(l \<mapsto> xs @ t # ys)) x" for x
  proof -
    have "x \<noteq> t" "\<not> on_list A x" using that on_list_update [of A l "xs @ ys" "xs @ t # ys" t x] l by auto
    moreover from this have "x \<notin> set (xs @ ys)" using on_listI [of A l "xs @ ys" x] l by auto
    ultimately show ?thesis
      using before_cases [of l xs] after_cases [of l ys] tl_absD(4,5) [OF abs, of x] by auto
  qed
  show ?thesis by (rule tl_absI) (fact repr, rule dj, assumption+, simp add: tl_absD(3) [OF abs], fact off)
qed

text \<open>Unlinking a thread.\<close>

lemma tl_repr_remove:
  assumes r: "tl_repr s l (xs @ t # ys)"
  shows "tl_repr (set_count (unlink s (before l xs) (NodeOf t) (after l ys)) l (tl_count s l - 1)) l (xs @ ys)"
proof -
  let ?u = "unlink s (before l xs) (NodeOf t) (after l ys)"
  let ?s = "set_count ?u l (tl_count s l - 1)"
  have d: "distinct (chain l (xs @ t # ys))" using r by (simp add: tl_repr_def)
  have "linked ?u (chain l (xs @ ys))"
    unfolding chain_split by (rule linked_unlink; fold chain_split_mid) (use r d in \<open>simp_all add: tl_repr_def\<close>)
  then have "linked ?s (chain l (xs @ ys))"
    by (subst linked_cong [where s = ?u]) simp_all
  moreover have "before l xs \<noteq> TailOf l" "after l ys \<noteq> HeadOf l"
    using before_cases [of l xs] after_cases [of l ys] by auto
  ultimately show ?thesis using r by (auto simp: tl_repr_def)
qed

lemma tl_abs_remove:
  assumes abs: "tl_abs s A" and l: "A l = Some (xs @ t # ys)"
  shows "tl_abs (set_count (unlink s (before l xs) (NodeOf t) (after l ys)) l (tl_count s l - 1))
           (A(l \<mapsto> xs @ ys))"
proof -
  let ?s = "set_count (unlink s (before l xs) (NodeOf t) (after l ys)) l (tl_count s l - 1)"
  have repr: "tl_repr ?s m us" if m: "(A(l \<mapsto> xs @ ys)) m = Some us" for m us
  proof (cases "m = l")
    case True
    then show ?thesis using m tl_repr_remove [OF tl_absD(1) [OF abs l]] by auto
  next
    case False
    then have am: "A m = Some us" using m by simp
    have dj: "set (xs @ t # ys) \<inter> set us = {}" using tl_absD(2) [OF abs l am] False by blast
    then have "set (xs @ ys) \<inter> set us = {}" "NodeOf t \<notin> set (chain m us)" by (auto simp: set_chain)
    note n = chains_disjoint [OF not_sym [OF False] this(1)] this(2)
    have "tl_node ?s x = tl_node s x" if "x \<in> set (chain m us)" for x
      using that n around_in_chain(1) [of l xs ys] around_in_chain(2) [of l ys xs]
      by (subst set_count_node, intro unlink_node_other) auto
    then show ?thesis using tl_repr_frame [OF tl_absD(1) [OF abs am], of ?s] False by simp
  qed
  have new: "set (xs @ ys) \<inter> set ws = {}" if "A j = Some ws" "j \<noteq> l" for j ws
    using tl_absD(2) [OF abs l that(1)] that by auto
  note dj = disjoint_update [OF tl_absD(2) [OF abs] new]
  have off: "nxt ?s (NodeOf x) = None \<and> prv ?s (NodeOf x) = None"
    if x: "\<not> on_list (A(l \<mapsto> xs @ ys)) x" for x
  proof (cases "x = t")
    case False
    have xl: "x \<notin> set (xs @ ys)" using on_listI [of "A(l \<mapsto> xs @ ys)" l "xs @ ys" x] x by auto
    then have "\<not> on_list A x"
      using on_list_update [of "A(l \<mapsto> xs @ ys)" l "xs @ ys" "xs @ t # ys" t x] x False l
      by (simp add: fun_upd_idem)
    then show ?thesis
      using xl False before_cases [of l xs] after_cases [of l ys] tl_absD(4,5) [OF abs, of x] by auto
  qed simp
  show ?thesis by (rule tl_absI) (fact repr, rule dj, assumption+, simp add: tl_absD(3) [OF abs], fact off)
qed

section \<open>The contract of thread lists\<close>

text \<open>
  The client loop over a list: pop until it is empty, handing every popped thread to \<open>body\<close>; \<open>None\<close>
  when the fuel runs out first.
\<close>

fun drain :: "('s \<Rightarrow> 'l \<Rightarrow> ('s, tid option) outcome) \<Rightarrow> ('s \<Rightarrow> tid \<Rightarrow> ('s, unit) outcome) \<Rightarrow> nat \<Rightarrow> 's \<Rightarrow> 'l \<Rightarrow>
    ('s, unit) outcome option" where
  "drain remhead body 0 s l = None"
| "drain remhead body (Suc fuel) s l =
     (case remhead s l of
        Ok s1 None \<Rightarrow> Some (Ok s1 ())
      | Ok s1 (Some t) \<Rightarrow>
          (case body s1 t of
             Ok s2 _ \<Rightarrow> drain remhead body fuel s2 l
           | Err s2 e \<Rightarrow> Some (Err s2 e) | Panic \<Rightarrow> Some Panic | Fault \<Rightarrow> Some Fault
           | Blocked \<Rightarrow> Some Blocked)
      | Err s1 e \<Rightarrow> Some (Err s1 e) | Panic \<Rightarrow> Some Panic | Fault \<Rightarrow> Some Fault | Blocked \<Rightarrow> Some Blocked)"

text \<open>
  \<open>repr s A\<close>: the store \<open>s\<close> holds the lists \<open>A\<close>. Every operation keeps the store well formed and
  has the list reading below; a thread may be added only when it is on no list.
\<close>

locale thread_lists =
  fixes repr :: "'s \<Rightarrow> ('l \<rightharpoonup> tid list) \<Rightarrow> bool"
    and addhead :: "'s \<Rightarrow> 'l \<Rightarrow> tid \<Rightarrow> ('s, unit) outcome"
    and addtail :: "'s \<Rightarrow> 'l \<Rightarrow> tid \<Rightarrow> ('s, unit) outcome"
    and remhead :: "'s \<Rightarrow> 'l \<Rightarrow> ('s, tid option) outcome"
    and remtail :: "'s \<Rightarrow> 'l \<Rightarrow> ('s, tid option) outcome"
    and removet :: "'s \<Rightarrow> 'l \<Rightarrow> tid \<Rightarrow> ('s, unit) outcome"
  assumes addhead_law: "repr s A \<Longrightarrow> A l = Some ts \<Longrightarrow> \<not> on_list A t \<Longrightarrow>
      \<exists>s'. addhead s l t = Ok s' () \<and> repr s' (A(l \<mapsto> t # ts))"
    and addtail_law: "repr s A \<Longrightarrow> A l = Some ts \<Longrightarrow> \<not> on_list A t \<Longrightarrow>
      \<exists>s'. addtail s l t = Ok s' () \<and> repr s' (A(l \<mapsto> ts @ [t]))"
    and remhead_Nil: "repr s A \<Longrightarrow> A l = Some [] \<Longrightarrow> remhead s l = Ok s None"
    and remhead_Cons: "repr s A \<Longrightarrow> A l = Some (t # ts) \<Longrightarrow>
      \<exists>s'. remhead s l = Ok s' (Some t) \<and> repr s' (A(l \<mapsto> ts))"
    and remtail_Nil: "repr s A \<Longrightarrow> A l = Some [] \<Longrightarrow> remtail s l = Ok s None"
    and remtail_snoc: "repr s A \<Longrightarrow> A l = Some (ts @ [t]) \<Longrightarrow>
      \<exists>s'. remtail s l = Ok s' (Some t) \<and> repr s' (A(l \<mapsto> ts))"
    and removet_law: "repr s A \<Longrightarrow> A l = Some (xs @ t # ys) \<Longrightarrow>
      \<exists>s'. removet s l t = Ok s' () \<and> repr s' (A(l \<mapsto> xs @ ys))"
    and disjoint: "repr s A \<Longrightarrow> A l = Some ts \<Longrightarrow> distinct ts"
      "repr s A \<Longrightarrow> A l = Some ts \<Longrightarrow> A m = Some us \<Longrightarrow> l \<noteq> m \<Longrightarrow> t \<in> set ts \<Longrightarrow> t \<notin> set us"
begin

lemma off_after_pop:
  assumes "repr s A" and "A l = Some (t # ts)"
  shows "\<not> on_list (A(l \<mapsto> ts)) t"
  using disjoint(1) [OF assms] disjoint(2) [OF assms] by (fastforce simp: on_list_def split: if_splits)

text \<open>
  The loop \<open>while ((t = threadlist_remhead(l)) != NULL) threadlist_addtail(m, t);\<close> moves the whole
  list, in order, in one round more than the list has threads.
\<close>

lemma move_all_ok:
  "repr s A \<Longrightarrow> A l = Some ts \<Longrightarrow> A m = Some us \<Longrightarrow> l \<noteq> m \<Longrightarrow> length ts < fuel \<Longrightarrow>
    \<exists>s'. drain remhead (\<lambda>s t. addtail s m t) fuel s l = Some (Ok s' ()) \<and> repr s' (A(l \<mapsto> [], m \<mapsto> us @ ts))"
proof (induction ts arbitrary: s A us fuel)
  case Nil
  then obtain f where "fuel = Suc f" by (cases fuel) auto
  moreover have "A(l \<mapsto> [], m \<mapsto> us @ []) = A" using Nil.prems by (auto simp: fun_eq_iff)
  ultimately show ?case using Nil.prems remhead_Nil [OF Nil.prems(1,2)] by (simp del: fun_upd_apply)
next
  case (Cons t ts)
  then obtain f where f: "fuel = Suc f" "length ts < f" by (cases fuel) auto
  obtain s1 where s1: "remhead s l = Ok s1 (Some t)" "repr s1 (A(l \<mapsto> ts))"
    using remhead_Cons [OF Cons.prems(1,2)] by blast
  obtain s2 where s2: "addtail s1 m t = Ok s2 ()" "repr s2 (A(l \<mapsto> ts, m \<mapsto> us @ [t]))"
    using addtail_law [OF s1(2), of m us t] off_after_pop [OF Cons.prems(1,2)] Cons.prems(3,4) by auto
  have l: "(A(l \<mapsto> ts, m \<mapsto> us @ [t])) l = Some ts" and m: "(A(l \<mapsto> ts, m \<mapsto> us @ [t])) m = Some (us @ [t])"
    using Cons.prems(4) by simp_all
  obtain s' where "drain remhead (\<lambda>s t. addtail s m t) f s2 l = Some (Ok s' ())"
      "repr s' (A(l \<mapsto> ts, m \<mapsto> us @ [t], l \<mapsto> [], m \<mapsto> (us @ [t]) @ ts))"
    using Cons.IH [OF s2(2) l m Cons.prems(4) f(2)] by blast
  moreover have "A(l \<mapsto> ts, m \<mapsto> us @ [t], l \<mapsto> [], m \<mapsto> (us @ [t]) @ ts) = A(l \<mapsto> [], m \<mapsto> us @ t # ts)"
    using Cons.prems(4) by (auto simp: fun_eq_iff)
  ultimately show ?case using f s1 s2 by (simp del: fun_upd_apply)
qed

text \<open>A list used with \<open>addtail\<close> and \<open>remhead\<close> is a first-in first-out queue.\<close>

lemma enqueue_then_pop:
  assumes "repr s A" and "A l = Some ts" and "\<not> on_list A t"
  shows "\<exists>s1 s2. addtail s l t = Ok s1 () \<and> remhead s1 l = Ok s2 (Some (hd (ts @ [t]))) \<and>
           repr s2 (A(l \<mapsto> tl (ts @ [t])))"
proof -
  obtain s1 where s1: "addtail s l t = Ok s1 ()" "repr s1 (A(l \<mapsto> ts @ [t]))"
    using addtail_law [OF assms] by blast
  obtain x xs where x: "ts @ [t] = x # xs" by (cases "ts @ [t]") auto
  then show ?thesis using remhead_Cons [OF s1(2), of l x xs] s1(1) by auto
qed

end

lemma threadlist_addhead_sim:
  assumes "tl_abs s A" and "A l = Some ts" and "\<not> on_list A t"
  shows "\<exists>s'. threadlist_addhead s l t = Ok s' () \<and> tl_abs s' (A(l \<mapsto> t # ts))"
  using tl_abs_insert [OF assms(1), of l "[]" ts t] assms
    insertafternode_link [OF tl_repr_links(1) [of s l "[]" ts], of t] tl_absD(1) [OF assms(1,2)]
  by (simp add: threadlist_addhead_def)

lemma threadlist_addtail_sim:
  assumes "tl_abs s A" and "A l = Some ts" and "\<not> on_list A t"
  shows "\<exists>s'. threadlist_addtail s l t = Ok s' () \<and> tl_abs s' (A(l \<mapsto> ts @ [t]))"
proof -
  have "before l ts \<noteq> NodeOf t"
    using before_cases [of l ts] assms(2,3) on_listI [of A l ts] by auto
  then show ?thesis
    using tl_abs_insert [OF assms(1), of l ts "[]" t] assms
      insertbeforenode_link [OF tl_repr_links(2) [of s l ts "[]"], of t] tl_absD(1) [OF assms(1,2)]
    by (simp add: threadlist_addtail_def)
qed

lemma threadlist_remove_sim:
  assumes "tl_abs s A" and "A l = Some (xs @ t # ys)"
  shows "threadlist_removenode s (NodeOf t) = Ok (unlink s (before l xs) (NodeOf t) (after l ys)) ()"
    and "\<exists>s'. threadlist_remove s l t = Ok s' () \<and> tl_abs s' (A(l \<mapsto> xs @ ys))"
proof -
  have r: "tl_repr s l (xs @ t # ys)" using tl_absD(1) [OF assms] .
  have "before l xs \<noteq> NodeOf t" using before_cases [of l xs] r by (auto simp: tl_repr_def)
  then show rm: "threadlist_removenode s (NodeOf t) = Ok (unlink s (before l xs) (NodeOf t) (after l ys)) ()"
    using removenode_unlink [of s "NodeOf t" "before l xs" "after l ys"]
      tl_repr_links(2) [of s l xs "t # ys"] tl_repr_links(1) [of s l "xs @ [t]" ys] r by simp
  show "\<exists>s'. threadlist_remove s l t = Ok s' () \<and> tl_abs s' (A(l \<mapsto> xs @ ys))"
    using tl_abs_remove [OF assms] rm by (simp add: threadlist_remove_def)
qed

lemma threadlist_remhead_sim:
  assumes "tl_abs s A"
  shows "A l = Some [] \<Longrightarrow> threadlist_remhead s l = Ok s None"
    and "A l = Some (t # ts) \<Longrightarrow> \<exists>s'. threadlist_remhead s l = Ok s' (Some t) \<and> tl_abs s' (A(l \<mapsto> ts))"
proof -
  show "threadlist_remhead s l = Ok s None" if "A l = Some []"
    using tl_absD(1) [OF assms that] by (simp add: threadlist_remhead_def tl_repr_def chain_def)
  show "\<exists>s'. threadlist_remhead s l = Ok s' (Some t) \<and> tl_abs s' (A(l \<mapsto> ts))" if "A l = Some (t # ts)"
  proof -
    have r: "tl_repr s l (t # ts)" using tl_absD(1) [OF assms that] .
    have "nxt s (HeadOf l) = Some (NodeOf t)" "nxt s (NodeOf t) = Some (after l ts)"
      using tl_repr_links(1) [of s l "[]" "t # ts"] tl_repr_links(1) [of s l "[t]" ts] before_simps(2) [of l "[]" t] r
      by simp_all
    then show ?thesis
      using tl_abs_remove [OF assms, of l "[]" t ts] threadlist_remove_sim(1) [OF assms, of l "[]" t ts] that
        tl_absD(3) [OF assms, of t]
      by (simp add: threadlist_remhead_def)
  qed
qed

lemma threadlist_remtail_sim:
  assumes "tl_abs s A"
  shows "A l = Some [] \<Longrightarrow> threadlist_remtail s l = Ok s None"
    and "A l = Some (ts @ [t]) \<Longrightarrow> \<exists>s'. threadlist_remtail s l = Ok s' (Some t) \<and> tl_abs s' (A(l \<mapsto> ts))"
proof -
  show "threadlist_remtail s l = Ok s None" if "A l = Some []"
    using tl_absD(1) [OF assms that] by (simp add: threadlist_remtail_def tl_repr_def chain_def)
  show "\<exists>s'. threadlist_remtail s l = Ok s' (Some t) \<and> tl_abs s' (A(l \<mapsto> ts))" if "A l = Some (ts @ [t])"
  proof -
    have r: "tl_repr s l (ts @ [t])" using tl_absD(1) [OF assms that] .
    have "prv s (TailOf l) = Some (NodeOf t)" "prv s (NodeOf t) = Some (before l ts)"
      using tl_repr_links(2) [of s l "ts @ [t]" "[]"] tl_repr_links(2) [of s l ts "[t]"] r by simp_all
    then show ?thesis
      using tl_abs_remove [OF assms, of l ts t "[]"] threadlist_remove_sim(1) [OF assms, of l ts t "[]"] that
        tl_absD(3) [OF assms, of t]
      by (simp add: threadlist_remtail_def)
  qed
qed

lemma threadlist_insertafter_sim:
  assumes "tl_abs s A" and "A l = Some (xs @ t # ys)" and "\<not> on_list A u"
  shows "\<exists>s'. threadlist_insertafter s l t u = Ok s' () \<and> tl_abs s' (A(l \<mapsto> xs @ t # u # ys))"
proof -
  have "t \<noteq> u" using assms(2,3) on_listI [of A l "xs @ t # ys" t] by auto
  then show ?thesis
    using tl_abs_insert [OF assms(1), of l "xs @ [t]" ys u] assms tl_absD(1) [OF assms(1,2)]
      insertafternode_link [OF tl_repr_links(1) [of s l "xs @ [t]" ys], of u]
    by (simp add: threadlist_insertafter_def)
qed

lemma threadlist_insertbefore_sim:
  assumes "tl_abs s A" and "A l = Some (xs @ t # ys)" and "\<not> on_list A u"
  shows "\<exists>s'. threadlist_insertbefore s l u t = Ok s' () \<and> tl_abs s' (A(l \<mapsto> xs @ u # t # ys))"
proof -
  have "before l xs \<noteq> NodeOf u"
    using before_cases [of l xs] assms(2,3) on_listI [of A l "xs @ t # ys" u] by auto
  then show ?thesis
    using tl_abs_insert [OF assms(1), of l xs "t # ys" u] assms tl_absD(1) [OF assms(1,2)]
      insertbeforenode_link [OF tl_repr_links(2) [of s l xs "t # ys"], of u]
    by (simp add: threadlist_insertbefore_def)
qed

text \<open>The pointer code satisfies the contract.\<close>

interpretation ptr_lists: thread_lists tl_abs threadlist_addhead threadlist_addtail threadlist_remhead
    threadlist_remtail threadlist_remove
proof unfold_locales
  show "distinct ts" if "tl_abs s A" "A l = Some ts" for s :: "'a tlstore" and A l ts
    using tl_absD(1) [OF that] by (simp add: tl_repr_def)
qed (fact threadlist_addhead_sim threadlist_addtail_sim threadlist_remhead_sim threadlist_remtail_sim
      threadlist_remove_sim(2) tl_absD(2))+

section \<open>Sequences of operations\<close>

lemma threadlist_init_sim:
  assumes abs: "tl_abs s A" and l: "A l = None"
  shows "tl_abs (threadlist_init s l) (A(l \<mapsto> []))"
proof (rule tl_absI)
  have node: "tl_node (threadlist_init s l) x = tl_node s x" if "x \<noteq> HeadOf l" "x \<noteq> TailOf l" for x
    using that by (simp add: threadlist_init_def Let_def set_prev_def set_next_def set_self_def)
  show "tl_repr (threadlist_init s l) m us" if m: "(A(l \<mapsto> [])) m = Some us" for m us
  proof (cases "m = l")
    case True
    then show ?thesis using m by (simp add: tl_repr_def chain_def threadlist_init_def Let_def)
  next
    case False
    then have "A m = Some us" using m by simp
    moreover have "tl_count (threadlist_init s l) m = tl_count s m"
      using False by (simp add: threadlist_init_def Let_def)
    ultimately show ?thesis
      using False by (intro tl_repr_frame [OF tl_absD(1) [OF abs]] node) (auto simp: set_chain)
  qed
  have on: "on_list (A(l \<mapsto> [])) t = on_list A t" for t
    using l by (auto simp: on_list_def) (metis option.distinct(1))
  show "nxt (threadlist_init s l) (NodeOf t) = None \<and> prv (threadlist_init s l) (NodeOf t) = None"
    if "\<not> on_list (A(l \<mapsto> [])) t" for t
    using that tl_absD(4,5) [OF abs] node by (simp add: on)
  show "slf (threadlist_init s l) (NodeOf t) = Some t" for t
    using tl_absD(3) [OF abs] node by simp
  show "set ts \<inter> set us = {}"
    if "(A(l \<mapsto> [])) k = Some ts" "(A(l \<mapsto> [])) m = Some us" "k \<noteq> m" for k m ts us
    by (rule disjoint_update [OF tl_absD(2) [OF abs] _ that]) simp_all
qed

lemma threadlist_isempty_sim:
  "tl_abs s A \<Longrightarrow> A l = Some ts \<Longrightarrow> length ts < 2 ^ 32 \<Longrightarrow> threadlist_isempty s l \<longleftrightarrow> ts = []"
  using tl_absD(1) [of s A l ts] unat_of_nat_32 [of "length ts"]
  by (auto simp: threadlist_isempty_def tl_repr_def word32_eq_iff)

text \<open>A store in which \<open>threadlistnode_init\<close> has run for every thread and no list exists yet.\<close>

definition tl_store0 :: "'l tlstore" where
  "tl_store0 = \<lparr>tl_node = (\<lambda>p. case p of
       NodeOf t \<Rightarrow> \<lparr>tln_prev = None, tln_next = None, tln_self = Some t\<rparr>
     | _ \<Rightarrow> \<lparr>tln_prev = None, tln_next = None, tln_self = None\<rparr>), tl_count = (\<lambda>_. 0)\<rparr>"

lemma tl_store0_abs: "tl_abs tl_store0 (\<lambda>_. None)"
  by (rule tl_absI) (simp_all add: tl_store0_def)

text \<open>Calls into the component, their results, and what they mean on lists.\<close>

datatype 'l tlop =
    Op_init 'l | Op_addhead 'l tid | Op_addtail 'l tid | Op_remhead 'l | Op_remtail 'l
  | Op_insertafter 'l tid tid | Op_insertbefore 'l tid tid | Op_remove 'l tid | Op_isempty 'l

datatype tlres = RUnit | RThread "tid option" | RBool bool

definition ret_unit :: "('s, unit) outcome \<Rightarrow> ('s, tlres) outcome" where
  "ret_unit r = and_then r (\<lambda>s _. Ok s RUnit)"

definition ret_thread :: "('s, tid option) outcome \<Rightarrow> ('s, tlres) outcome" where
  "ret_thread r = and_then r (\<lambda>s t. Ok s (RThread t))"

fun tl_exec :: "'l tlop \<Rightarrow> 'l tlstore \<Rightarrow> ('l tlstore, tlres) outcome" where
  "tl_exec (Op_init l) s = Ok (threadlist_init s l) RUnit"
| "tl_exec (Op_addhead l t) s = ret_unit (threadlist_addhead s l t)"
| "tl_exec (Op_addtail l t) s = ret_unit (threadlist_addtail s l t)"
| "tl_exec (Op_remhead l) s = ret_thread (threadlist_remhead s l)"
| "tl_exec (Op_remtail l) s = ret_thread (threadlist_remtail s l)"
| "tl_exec (Op_insertafter l on t) s = ret_unit (threadlist_insertafter s l on t)"
| "tl_exec (Op_insertbefore l t on) s = ret_unit (threadlist_insertbefore s l t on)"
| "tl_exec (Op_remove l t) s = ret_unit (threadlist_remove s l t)"
| "tl_exec (Op_isempty l) s = Ok s (RBool (threadlist_isempty s l))"

fun insert_after :: "tid \<Rightarrow> tid \<Rightarrow> tid list \<Rightarrow> tid list" where
  "insert_after on t [] = []"
| "insert_after on t (x # xs) = (if x = on then x # t # xs else x # insert_after on t xs)"

fun insert_before :: "tid \<Rightarrow> tid \<Rightarrow> tid list \<Rightarrow> tid list" where
  "insert_before on t [] = []"
| "insert_before on t (x # xs) = (if x = on then t # x # xs else x # insert_before on t xs)"

text \<open>The specification is undefined on calls that break the component's preconditions.\<close>

inductive tl_spec :: "'l tlop \<Rightarrow> ('l \<rightharpoonup> tid list) \<Rightarrow> ('l \<rightharpoonup> tid list) \<Rightarrow> tlres \<Rightarrow> bool" where
  init: "A l = None \<Longrightarrow> tl_spec (Op_init l) A (A(l \<mapsto> [])) RUnit"
| addhead: "A l = Some ts \<Longrightarrow> \<not> on_list A t \<Longrightarrow> tl_spec (Op_addhead l t) A (A(l \<mapsto> t # ts)) RUnit"
| addtail: "A l = Some ts \<Longrightarrow> \<not> on_list A t \<Longrightarrow> tl_spec (Op_addtail l t) A (A(l \<mapsto> ts @ [t])) RUnit"
| remhead_empty: "A l = Some [] \<Longrightarrow> tl_spec (Op_remhead l) A A (RThread None)"
| remhead: "A l = Some (t # ts) \<Longrightarrow> tl_spec (Op_remhead l) A (A(l \<mapsto> ts)) (RThread (Some t))"
| remtail_empty: "A l = Some [] \<Longrightarrow> tl_spec (Op_remtail l) A A (RThread None)"
| remtail: "A l = Some (ts @ [t]) \<Longrightarrow> tl_spec (Op_remtail l) A (A(l \<mapsto> ts)) (RThread (Some t))"
| insertafter: "A l = Some ts \<Longrightarrow> on \<in> set ts \<Longrightarrow> \<not> on_list A t \<Longrightarrow>
    tl_spec (Op_insertafter l on t) A (A(l \<mapsto> insert_after on t ts)) RUnit"
| insertbefore: "A l = Some ts \<Longrightarrow> on \<in> set ts \<Longrightarrow> \<not> on_list A t \<Longrightarrow>
    tl_spec (Op_insertbefore l t on) A (A(l \<mapsto> insert_before on t ts)) RUnit"
| remove: "A l = Some ts \<Longrightarrow> t \<in> set ts \<Longrightarrow> tl_spec (Op_remove l t) A (A(l \<mapsto> remove1 t ts)) RUnit"
| isempty: "A l = Some ts \<Longrightarrow> length ts < 2 ^ 32 \<Longrightarrow> tl_spec (Op_isempty l) A A (RBool (ts = []))"

lemma insert_after_split: "on \<notin> set xs \<Longrightarrow> insert_after on t (xs @ on # ys) = xs @ on # t # ys"
  by (induction xs) auto

lemma insert_before_split: "on \<notin> set xs \<Longrightarrow> insert_before on t (xs @ on # ys) = xs @ t # on # ys"
  by (induction xs) auto

lemma tl_spec_step:
  "tl_spec op A A' r \<Longrightarrow> tl_abs s A \<Longrightarrow> \<exists>s'. tl_exec op s = Ok s' r \<and> tl_abs s' A'"
proof (induction rule: tl_spec.induct)
  case (insertafter A l ts on t)
  then obtain xs ys where "ts = xs @ on # ys" "on \<notin> set xs" by (meson split_list_first)
  then show ?case using insertafter threadlist_insertafter_sim [of s A l xs on ys t]
    by (auto simp: insert_after_split ret_unit_def simp del: fun_upd_apply)
next
  case (insertbefore A l ts on t)
  then obtain xs ys where "ts = xs @ on # ys" "on \<notin> set xs" by (meson split_list_first)
  then show ?case using insertbefore threadlist_insertbefore_sim [of s A l xs on ys t]
    by (auto simp: insert_before_split ret_unit_def simp del: fun_upd_apply)
next
  case (remove A l ts t)
  then obtain xs ys where "ts = xs @ t # ys" "t \<notin> set xs" by (meson split_list_first)
  then show ?case using remove threadlist_remove_sim(2) [of s A l xs t ys]
    by (auto simp: remove1_append ret_unit_def simp del: fun_upd_apply)
next
  case (addhead A l ts t)
  then show ?case using threadlist_addhead_sim [of s A l ts t] by (auto simp: ret_unit_def simp del: fun_upd_apply)
next
  case (addtail A l ts t)
  then show ?case using threadlist_addtail_sim [of s A l ts t] by (auto simp: ret_unit_def simp del: fun_upd_apply)
next
  case (remhead A l t ts)
  then show ?case using threadlist_remhead_sim(2) [of s A l t ts] by (auto simp: ret_thread_def simp del: fun_upd_apply)
next
  case (remtail A l ts t)
  then show ?case using threadlist_remtail_sim(2) [of s A l ts t] by (auto simp: ret_thread_def simp del: fun_upd_apply)
qed (simp_all add: ret_thread_def threadlist_init_sim threadlist_remhead_sim(1) threadlist_remtail_sim(1)
       threadlist_isempty_sim)

fun tl_run :: "'l tlop list \<Rightarrow> 'l tlstore \<Rightarrow> ('l tlstore, tlres list) outcome" where
  "tl_run [] s = Ok s []"
| "tl_run (op # ops) s =
     and_then (tl_exec op s) (\<lambda>s1 r. and_then (tl_run ops s1) (\<lambda>s2 rs. Ok s2 (r # rs)))"

inductive tl_specs :: "'l tlop list \<Rightarrow> ('l \<rightharpoonup> tid list) \<Rightarrow> ('l \<rightharpoonup> tid list) \<Rightarrow> tlres list \<Rightarrow> bool" where
  Nil: "tl_specs [] A A []"
| Cons: "tl_spec op A B r \<Longrightarrow> tl_specs ops B C rs \<Longrightarrow> tl_specs (op # ops) A C (r # rs)"

inductive_cases tl_specs_ConsE: "tl_specs (op # ops) A C rs"

text \<open>
  C14. The pointer code refines mathematical lists: any sequence of thread-list calls that respects
  the preconditions (a thread is added only while it is on no list, is removed from or used as a
  position only on a list it is on) runs without following a null pointer, every call returns what
  the list specification says, and the final pointer structure again represents the specified lists.
\<close>

theorem threadlist_refines_lists:
  "tl_specs ops A A' rs \<Longrightarrow> tl_abs s A \<Longrightarrow> \<exists>s'. tl_run ops s = Ok s' rs \<and> tl_abs s' A'"
proof (induction arbitrary: s rule: tl_specs.induct)
  case (Cons op A B r ops C rs)
  then obtain s1 where s1: "tl_exec op s = Ok s1 r" "tl_abs s1 B" using tl_spec_step by blast
  then obtain s2 where "tl_run ops s1 = Ok s2 rs" "tl_abs s2 C" using Cons.IH by blast
  with s1 show ?case by simp
qed simp

text \<open>Threads 7, 8, 9 on one list, 8 inserted in the middle, then popped from both ends.\<close>

theorem threadlist_refines_lists_witness:
  "\<exists>s'. tl_run [Op_init 0, Op_addtail 0 7, Op_addtail 0 9, Op_insertafter 0 7 8, Op_remtail 0, Op_remhead (0 :: nat)]
          tl_store0 = Ok s' [RUnit, RUnit, RUnit, RUnit, RThread (Some 9), RThread (Some 7)] \<and>
        tl_abs s' [0 \<mapsto> [8]]"
proof (rule threadlist_refines_lists [OF _ tl_store0_abs])
  have a: "tl_spec (Op_init 0) (\<lambda>_. None) [0 \<mapsto> []] RUnit"
    "tl_spec (Op_addtail 0 7) [0 \<mapsto> []] ([0 \<mapsto> []](0 \<mapsto> [] @ [7])) RUnit"
    "tl_spec (Op_addtail 0 9) [0 \<mapsto> [7]] ([0 \<mapsto> [7]](0 \<mapsto> [7] @ [9])) RUnit"
    "tl_spec (Op_insertafter 0 7 8) [0 \<mapsto> [7, 9]] ([0 \<mapsto> [7, 9]](0 \<mapsto> insert_after 7 8 [7, 9])) RUnit"
    "tl_spec (Op_remtail 0) [0 \<mapsto> [7, 8, 9]] ([0 \<mapsto> [7, 8, 9]](0 \<mapsto> [7, 8])) (RThread (Some 9))"
    "tl_spec (Op_remhead 0) [0 \<mapsto> [7, 8]] ([0 \<mapsto> [7, 8]](0 \<mapsto> [8])) (RThread (Some 7))" for z :: nat
    by (intro tl_spec.intros; simp add: on_list_def)+
  show "tl_specs [Op_init 0, Op_addtail 0 7, Op_addtail 0 9, Op_insertafter 0 7 8, Op_remtail 0, Op_remhead (0 :: nat)]
      (\<lambda>_. None) [0 \<mapsto> [8]] [RUnit, RUnit, RUnit, RUnit, RThread (Some 9), RThread (Some 7)]"
    using a by (auto intro!: tl_specs.intros)
qed

text \<open>
  C15. Moving a whole list with \<open>while ((t = threadlist_remhead(l)) != NULL) threadlist_addtail(m, t)\<close>,
  as \<open>wchan_wakeall\<close> does, terminates after one round more than the list has threads, never faults,
  leaves \<open>l\<close> empty and \<open>m\<close> extended by the threads of \<open>l\<close> in their order.
\<close>

theorem threadlist_move_all:
  assumes "tl_abs s A" and "A l = Some ts" and "A m = Some us" and "l \<noteq> m"
  shows "\<exists>s'. drain threadlist_remhead (\<lambda>s t. threadlist_addtail s m t) (Suc (length ts)) s l = Some (Ok s' ()) \<and>
           tl_abs s' (A(l \<mapsto> [], m \<mapsto> us @ ts))"
  by (rule ptr_lists.move_all_ok [OF assms]) simp

lemma two_lists_store: "tl_abs (threadlist_init (threadlist_init tl_store0 False) True) [False \<mapsto> [], True \<mapsto> []]"
  using threadlist_init_sim [OF threadlist_init_sim [OF tl_store0_abs, of False], of True] by simp

lemma three_threads_store: "\<exists>s. tl_abs s [False \<mapsto> [4, 2], True \<mapsto> [6]]"
proof -
  let ?A = "[False \<mapsto> [], True \<mapsto> []](False \<mapsto> [] @ [2])"
  have "\<not> on_list [False \<mapsto> [], True \<mapsto> []] 2" "\<not> on_list ?A 4" "\<not> on_list (?A(False \<mapsto> [4, 2])) 6"
    by (auto simp: on_list_def split: if_splits)
  note off = this
  obtain s1 where "tl_abs s1 ?A"
    using threadlist_addtail_sim [OF two_lists_store _ off(1), of False "[]"] by auto
  then obtain s2 where "tl_abs s2 (?A(False \<mapsto> [4, 2]))"
    using threadlist_addhead_sim [OF _ _ off(2), of s1 False "[2]"] by auto
  then obtain s3 where "tl_abs s3 (?A(False \<mapsto> [4, 2], True \<mapsto> [] @ [6]))"
    using threadlist_addtail_sim [OF _ _ off(3), of s2 True "[]"] by auto
  moreover have "?A(False \<mapsto> [4, 2], True \<mapsto> [] @ [6]) = [False \<mapsto> [4, 2], True \<mapsto> [6]]"
    by (auto simp: fun_eq_iff)
  ultimately show ?thesis by metis
qed

theorem threadlist_move_all_witness:
  "\<exists>s s'. tl_abs s [False \<mapsto> [4, 2], True \<mapsto> [6]] \<and>
     drain threadlist_remhead (\<lambda>s t. threadlist_addtail s True t) (Suc (length [4 :: tid, 2])) s False = Some (Ok s' ()) \<and>
     tl_abs s' ([False \<mapsto> [4, 2], True \<mapsto> [6]](False \<mapsto> [], True \<mapsto> [6] @ [4, 2]))"
proof -
  obtain s where s: "tl_abs s [False \<mapsto> [4, 2], True \<mapsto> [6]]" using three_threads_store by blast
  have "\<exists>s'. drain threadlist_remhead (\<lambda>s t. threadlist_addtail s True t) (Suc (length [4 :: tid, 2])) s False = Some (Ok s' ()) \<and>
     tl_abs s' ([False \<mapsto> [4, 2], True \<mapsto> [6]](False \<mapsto> [], True \<mapsto> [6] @ [4, 2]))"
    by (rule threadlist_move_all [OF s]) simp_all
  with s show ?thesis by blast
qed

end
