(* ===== verification/Kern_Array.thy ===== *)
theory Kern_Array
  imports Prelude
begin

text \<open>
  The resizable arrays of \<open>kern/lib/array.c\<close> and \<open>kern/include/array.h\<close>, over elements of any type.
  A block of memory is the list of its slots, \<open>None\<close> where nothing was stored yet; the null pointer
  is the empty block. Sizes are 32-bit and wrap: \<open>kmalloc(newmax*sizeof(*a->v))\<close> returns a block of
  that many bytes, four to a slot, so it can be smaller than \<open>newmax\<close> slots. The argument \<open>kmalloc\<close>
  says for each requested size whether the allocation succeeds. \<open>ARRAYS_CHECKED\<close> is defined, so
  \<open>ARRAYASSERT\<close> panics.
\<close>

section \<open>Model\<close>

record 'a karray =
  arr_v :: "'a option list"
  arr_num :: u32
  arr_max :: u32

definition array_init :: "'a karray" where
  "array_init = \<lparr>arr_v = [], arr_num = 0, arr_max = 0\<rparr>"

definition array_create :: "(u32 \<Rightarrow> bool) \<Rightarrow> 'a karray option" where
  "array_create kmalloc = (if kmalloc 12 then Some array_init else None)"

definition array_cleanup :: "'a karray \<Rightarrow> ('a karray, unit) outcome" where
  "array_cleanup a = kassert (arr_num a = 0) (Ok (a\<lparr>arr_v := []\<rparr>) ())"

definition array_num :: "'a karray \<Rightarrow> u32" where
  "array_num a = arr_num a"

text \<open>Reading a slot that was never stored to yields an indeterminate value: \<open>Ok a None\<close>.\<close>

definition array_get :: "'a karray \<Rightarrow> u32 \<Rightarrow> ('a karray, 'a option) outcome" where
  "array_get a i =
     kassert (i < arr_num a)
       (if unat i < length (arr_v a) then Ok a (arr_v a ! unat i) else Fault)"

definition store_slot :: "'a karray \<Rightarrow> u32 \<Rightarrow> 'a \<Rightarrow> ('a karray, unit) outcome" where
  "store_slot a i x =
     (if unat i < length (arr_v a) then Ok (a\<lparr>arr_v := (arr_v a)[unat i := Some x]\<rparr>) () else Fault)"

definition array_set :: "'a karray \<Rightarrow> u32 \<Rightarrow> 'a \<Rightarrow> ('a karray, unit) outcome" where
  "array_set a i x = kassert (i < arr_num a) (store_slot a i x)"

text \<open>\<open>while (num > newmax) newmax = newmax ? newmax*2 : 4;\<close> which need not terminate.\<close>

partial_function (option) grow_loop :: "u32 \<Rightarrow> u32 \<Rightarrow> u32 option" where
  "grow_loop n newmax =
     (if n > newmax then grow_loop n (if newmax \<noteq> 0 then newmax * 2 else 4) else Some newmax)"

text \<open>Number of whole slots in a block or a copy of \<open>n * sizeof(void *)\<close> bytes.\<close>

definition slots_of :: "u32 \<Rightarrow> nat" where
  "slots_of n = unat (n * 4) div 4"

definition memcpy_slots :: "'a option list \<Rightarrow> 'a option list \<Rightarrow> nat \<Rightarrow> 'a option list option" where
  "memcpy_slots dst src n =
     (if n \<le> length dst \<and> n \<le> length src then Some (take n src @ drop n dst) else None)"

text \<open>The result is \<open>None\<close> when the loop does not terminate.\<close>

definition array_preallocate ::
    "(u32 \<Rightarrow> bool) \<Rightarrow> 'a karray \<Rightarrow> u32 \<Rightarrow> ('a karray, unit) outcome option" where
  "array_preallocate kmalloc a n =
     (if n > arr_max a then
        (case grow_loop n (arr_max a) of
           None \<Rightarrow> None
         | Some newmax \<Rightarrow>
             Some (if \<not> kmalloc (newmax * 4) then Err a ENOMEM
                   else case memcpy_slots (replicate (slots_of newmax) None) (arr_v a) (slots_of (arr_num a)) of
                          None \<Rightarrow> Fault
                        | Some newptr \<Rightarrow> Ok (a\<lparr>arr_v := newptr, arr_max := newmax\<rparr>) ()))
      else Some (Ok a ()))"

definition array_setsize ::
    "(u32 \<Rightarrow> bool) \<Rightarrow> 'a karray \<Rightarrow> u32 \<Rightarrow> ('a karray, unit) outcome option" where
  "array_setsize kmalloc a n =
     map_option (\<lambda>r. and_then r (\<lambda>a1 _. Ok (a1\<lparr>arr_num := n\<rparr>) ())) (array_preallocate kmalloc a n)"

definition array_add ::
    "(u32 \<Rightarrow> bool) \<Rightarrow> 'a karray \<Rightarrow> 'a \<Rightarrow> ('a karray, u32) outcome option" where
  "array_add kmalloc a x =
     (let index = arr_num a
      in map_option (\<lambda>r. and_then r (\<lambda>a1 _. and_then (store_slot a1 index x) (\<lambda>a2 _. Ok a2 index)))
           (array_setsize kmalloc a (index + 1)))"

definition memmove_down :: "'a option list \<Rightarrow> nat \<Rightarrow> nat \<Rightarrow> 'a option list option" where
  "memmove_down v i n =
     (if i + 1 + n \<le> length v then Some (take i v @ take n (drop (i + 1) v) @ drop (i + n) v) else None)"

definition array_remove :: "'a karray \<Rightarrow> u32 \<Rightarrow> ('a karray, unit) outcome" where
  "array_remove a index =
     kassert (arr_num a \<le> arr_max a) (kassert (index < arr_num a)
       (case memmove_down (arr_v a) (unat index) (slots_of (arr_num a - (index + 1))) of
          None \<Rightarrow> Fault
        | Some v \<Rightarrow> Ok (a\<lparr>arr_v := v, arr_num := arr_num a - 1\<rparr>) ()))"

section \<open>Growing\<close>

definition arr_wf :: "'a karray \<Rightarrow> bool" where
  "arr_wf a \<longleftrightarrow>
     arr_num a \<le> arr_max a \<and> length (arr_v a) = unat (arr_max a) \<and>
     (arr_max a = 0 \<or> (\<exists>k. 2 \<le> k \<and> k \<le> 29 \<and> unat (arr_max a) = 2 ^ k))"

definition contents :: "'a karray \<Rightarrow> 'a option list" where
  "contents a = take (unat (arr_num a)) (arr_v a)"

lemma slots_of_small: "unat n < 2 ^ 30 \<Longrightarrow> slots_of n = unat n"
  by (simp add: slots_of_def unat_word_ariths)

lemma unat_double: "unat (x :: u32) < 2 ^ 31 \<Longrightarrow> unat (x * 2) = 2 * unat x"
  by (simp add: unat_word_ariths)

lemma grow_loop_pow2:
  "unat m = 2 ^ k \<Longrightarrow> k \<le> j \<Longrightarrow> j \<le> 31 \<Longrightarrow> unat n \<le> 2 ^ j \<Longrightarrow> j = k \<or> 2 ^ (j - 1) < unat n \<Longrightarrow>
    \<exists>m'. grow_loop n m = Some m' \<and> unat m' = 2 ^ j"
proof (induction "j - k" arbitrary: k m)
  case 0
  then show ?case by (subst grow_loop.simps) (simp add: word_less_nat_alt)
next
  case (Suc d)
  then have kj: "k < j" by simp
  then have "(2::nat) ^ k \<le> 2 ^ (j - 1)" by (intro power_increasing) simp_all
  also have "\<dots> < unat n" using Suc.prems(5) kj by simp
  finally have lt: "m < n" using Suc.prems(1) by (simp add: word_less_nat_alt)
  have "(2::nat) ^ k < 2 ^ 31" using kj Suc.prems(3) by (intro power_strict_increasing) simp_all
  then have m2: "unat (m * 2) = 2 ^ Suc k" using unat_double [of m] Suc.prems(1) by simp
  have m0: "m \<noteq> 0" using Suc.prems(1) by auto
  have "\<exists>m'. grow_loop n (m * 2) = Some m' \<and> unat m' = 2 ^ j"
    using Suc.hyps(1) [OF _ m2] Suc.hyps(2) Suc.prems(3-5) kj by auto
  then show ?case using lt m0 by (subst grow_loop.simps) simp
qed

lemma pow2_between:
  assumes "1 < n" and "n \<le> 2 ^ 31"
  shows "\<exists>j. 0 < j \<and> j \<le> 31 \<and> 2 ^ (j - 1) < n \<and> n \<le> (2::nat) ^ j"
proof -
  define j where "j = (LEAST j. n \<le> 2 ^ j)"
  have le: "n \<le> 2 ^ j" unfolding j_def by (rule LeastI [of _ 31]) (fact assms(2))
  have "j \<le> 31" unfolding j_def by (rule Least_le) (fact assms(2))
  moreover have "0 < j" using le assms(1) by (cases j) auto
  moreover from this have "\<not> n \<le> 2 ^ (j - 1)" using not_less_Least [of "j - 1" "\<lambda>j. n \<le> 2 ^ j"] j_def by simp
  ultimately show ?thesis using le by auto
qed

text \<open>From capacity 0 or a power of two, the loop ends for every request up to \<open>2 ^ 31\<close>.\<close>

lemma grow_loop_ends:
  assumes m: "m = 0 \<or> (\<exists>k. 2 \<le> k \<and> unat m = 2 ^ k)" and n: "m < n" "unat n \<le> 2 ^ 31"
  shows "\<exists>m' j. grow_loop n m = Some m' \<and> unat m' = 2 ^ j \<and> 2 \<le> j \<and> j \<le> 31 \<and> unat n \<le> 2 ^ j \<and>
           (j = 2 \<or> 2 ^ (j - 1) < unat n)"
proof -
  have ge: "\<exists>m' j. grow_loop n p = Some m' \<and> unat m' = 2 ^ j \<and> 2 \<le> j \<and> j \<le> 31 \<and> unat n \<le> 2 ^ j \<and>
      (j = 2 \<or> 2 ^ (j - 1) < unat n)" if k: "2 \<le> k" "k \<le> 31" "unat p = 2 ^ k" "k = 2 \<or> p < n" for p k
  proof (cases "unat n \<le> 2 ^ k")
    case True
    then have "k = 2" using k by (auto simp: word_less_nat_alt)
    then obtain m' where "grow_loop n p = Some m'" "unat m' = 2 ^ 2"
      using grow_loop_pow2 [of p 2 2 n] k True by auto
    then show ?thesis using \<open>k = 2\<close> True by (intro exI [of _ m'] exI [of _ "2::nat"]) simp
  next
    case False
    have "(2::nat) ^ 2 \<le> 2 ^ k" using k(1) by (intro power_increasing) simp_all
    then have "1 < unat n" using False by simp
    then obtain j where j: "0 < j" "j \<le> 31" "2 ^ (j - 1) < unat n" "unat n \<le> (2::nat) ^ j"
      using pow2_between n(2) by blast
    have "(2::nat) ^ k < 2 ^ j" using False j(4) by (meson less_le_trans not_le)
    then have "k < j" using power_less_imp_less_exp [of "2::nat" k j] by simp
    then show ?thesis using grow_loop_pow2 [of p k j n] k j by force
  qed
  show ?thesis
  proof (cases "m = 0")
    case True
    then show ?thesis using ge [of 2 4] n(1) by (subst grow_loop.simps) auto
  next
    case False
    then obtain k where k: "2 \<le> k" "unat m = 2 ^ k" using m by auto
    then have "(2::nat) ^ k < 2 ^ 32" using unat_less_32 [of m] by simp
    then have "k < 32" using power_less_imp_less_exp [of "2::nat" k 32] by simp
    then show ?thesis using ge [of k m] k n(1) by auto
  qed
qed

text \<open>For a larger request it never ends: the capacity doubles to \<open>2 ^ 31\<close>, then wraps to 0 and starts over.\<close>

definition grow_cycle :: "u32 \<Rightarrow> bool" where
  "grow_cycle m \<longleftrightarrow> m = 0 \<or> (\<exists>k. 2 \<le> k \<and> k \<le> 31 \<and> m = 2 ^ k)"

lemma grow_cycle_step: "grow_cycle m \<Longrightarrow> grow_cycle (if m \<noteq> 0 then m * 2 else 4)"
proof (cases "m = 0")
  case True
  have "(4 :: u32) = 2 ^ 2" by simp
  then show ?thesis using True unfolding grow_cycle_def by (intro disjI2 exI [of _ "2::nat"]) simp
next
  case False
  assume "grow_cycle m"
  then obtain k where k: "2 \<le> k" "k \<le> 31" "m = 2 ^ k" using False by (auto simp: grow_cycle_def)
  then have m2: "m * 2 = 2 ^ Suc k" by simp
  show ?thesis
  proof (cases "k = 31")
    case True
    then have "m * 2 = 0" using m2 by simp
    then show ?thesis using False by (simp add: grow_cycle_def)
  next
    case False
    then show ?thesis using k m2 \<open>m \<noteq> 0\<close> by (auto simp: grow_cycle_def intro!: exI [of _ "Suc k"])
  qed
qed

lemma grow_cycle_small: "grow_cycle m \<Longrightarrow> unat m \<le> 2 ^ 31"
proof -
  assume "grow_cycle m"
  then consider "m = 0" | k where "k \<le> 31" "m = 2 ^ k" by (auto simp: grow_cycle_def)
  then show ?thesis
  proof cases
    case 2
    have le: "(2::nat) ^ k \<le> 2 ^ 31" using 2(1) by (intro power_increasing) simp_all
    then show ?thesis using 2 by (simp add: unat_pow2_32)
  qed simp
qed

lemma grow_loop_diverges:
  assumes "grow_loop n m = Some r" and "grow_cycle m"
  shows "unat n \<le> 2 ^ 31"
proof -
  have "grow_cycle m \<longrightarrow> unat n \<le> 2 ^ 31"
  proof (rule grow_loop.raw_induct [of "\<lambda>n m r. grow_cycle m \<longrightarrow> unat n \<le> 2 ^ 31", OF _ assms(1)])
    fix loop n m r
    assume "\<And>n m r. loop n m = Some r \<Longrightarrow> grow_cycle m \<longrightarrow> unat n \<le> 2 ^ 31"
      and "(if m < n then loop n (if m \<noteq> 0 then m * 2 else 4) else Some m) = Some r"
    then show "grow_cycle m \<longrightarrow> unat n \<le> 2 ^ 31"
      using grow_cycle_step [of m] grow_cycle_small [of m] by (auto simp: word_less_nat_alt split: if_splits)
  qed
  then show ?thesis using assms(2) by simp
qed

section \<open>Operations keep the array well formed\<close>

lemma array_init_wf [simp]: "arr_wf array_init" "contents array_init = []"
  by (simp_all add: arr_wf_def contents_def array_init_def)

lemma arr_wf_bounds:
  assumes "arr_wf a"
  shows "unat (arr_num a) \<le> unat (arr_max a)" and "unat (arr_max a) \<le> 2 ^ 29"
    and "length (arr_v a) = unat (arr_max a)" and "length (contents a) = unat (arr_num a)"
proof -
  show le: "unat (arr_num a) \<le> unat (arr_max a)" and len: "length (arr_v a) = unat (arr_max a)"
    using assms by (simp_all add: arr_wf_def word_le_nat_alt)
  then show "length (contents a) = unat (arr_num a)" by (simp add: contents_def)
  show "unat (arr_max a) \<le> 2 ^ 29"
  proof (cases "arr_max a = 0")
    case False
    then obtain k where "k \<le> 29" "unat (arr_max a) = 2 ^ k" using assms by (auto simp: arr_wf_def)
    then show ?thesis by (simp only:) (rule power_increasing, simp_all)
  qed simp
qed

text \<open>Growing keeps the contents, or fails with \<open>ENOMEM\<close> and leaves the array as it was.\<close>

lemma array_preallocate_ok:
  assumes wf: "arr_wf a" and n: "unat n \<le> 2 ^ 29"
  shows "array_preallocate kmalloc a n = Some (Err a ENOMEM) \<or>
    (\<exists>a'. array_preallocate kmalloc a n = Some (Ok a' ()) \<and> arr_wf a' \<and> contents a' = contents a \<and>
          arr_num a' = arr_num a \<and> n \<le> arr_max a')"
proof (cases "arr_max a < n")
  case False
  then show ?thesis using wf by (simp add: array_preallocate_def)
next
  case True
  note b = arr_wf_bounds [OF wf]
  obtain m j where m: "grow_loop n (arr_max a) = Some m" "unat m = 2 ^ j" "2 \<le> j" "j \<le> 31" "unat n \<le> 2 ^ j"
      "j = 2 \<or> 2 ^ (j - 1) < unat n"
    using grow_loop_ends [of "arr_max a" n] True n wf by (force simp: arr_wf_def)
  have "j \<le> 29"
  proof (cases "j = 2")
    case False
    then have "2 ^ (j - 1) < (2::nat) ^ 29" using m(6) n by simp
    then show ?thesis using power_less_imp_less_exp [of "2::nat" "j - 1" 29] by simp
  qed simp
  then have m29: "unat m \<le> 2 ^ 29" using m(2) by (simp only:) (rule power_increasing, simp_all)
  have s: "slots_of m = unat m" "slots_of (arr_num a) = unat (arr_num a)"
    using m29 b(1,2) by (auto intro!: slots_of_small)
  have lt: "unat (arr_max a) < unat m" using True m(2,5) by (simp add: word_less_nat_alt)
  have le: "arr_num a \<le> m" using b(1) lt by (simp add: word_le_nat_alt)
  show ?thesis
  proof (cases "kmalloc (m * 4)")
    case False
    then show ?thesis using True m(1) by (simp add: array_preallocate_def)
  next
    case ok: True
    let ?v = "take (unat (arr_num a)) (arr_v a) @ replicate (unat m - unat (arr_num a)) None"
    have "array_preallocate kmalloc a n = Some (Ok (a\<lparr>arr_v := ?v, arr_max := m\<rparr>) ())"
      using True m(1) ok s b lt by (simp add: array_preallocate_def memcpy_slots_def)
    moreover have "arr_wf (a\<lparr>arr_v := ?v, arr_max := m\<rparr>)"
      using m(2,3) \<open>j \<le> 29\<close> b le lt by (auto simp: arr_wf_def)
    moreover have "contents (a\<lparr>arr_v := ?v, arr_max := m\<rparr>) = contents a"
      using b by (simp add: contents_def)
    moreover have "n \<le> m" using m(2,5) by (simp add: word_le_nat_alt)
    ultimately show ?thesis by auto
  qed
qed

lemma array_add_ok:
  assumes wf: "arr_wf a" and n: "unat (arr_num a) < 2 ^ 29"
  shows "array_add kmalloc a x = Some (Err a ENOMEM) \<or>
    (\<exists>a'. array_add kmalloc a x = Some (Ok a' (arr_num a)) \<and> arr_wf a' \<and> contents a' = contents a @ [Some x])"
proof -
  have u: "unat (arr_num a + 1) = Suc (unat (arr_num a))" using n by (simp add: unat_word_ariths)
  then have "unat (arr_num a + 1) \<le> 2 ^ 29" using n by simp
  from array_preallocate_ok [OF wf this, of kmalloc] show ?thesis
  proof
    assume "array_preallocate kmalloc a (arr_num a + 1) = Some (Err a ENOMEM)"
    then show ?thesis by (simp add: array_add_def array_setsize_def)
  next
    assume "\<exists>a'. array_preallocate kmalloc a (arr_num a + 1) = Some (Ok a' ()) \<and> arr_wf a' \<and>
        contents a' = contents a \<and> arr_num a' = arr_num a \<and> arr_num a + 1 \<le> arr_max a'"
    then obtain a1 where a1: "array_preallocate kmalloc a (arr_num a + 1) = Some (Ok a1 ())" "arr_wf a1"
        "contents a1 = contents a" "arr_num a1 = arr_num a" "arr_num a + 1 \<le> arr_max a1" by auto
    have lt: "unat (arr_num a) < length (arr_v a1)"
      using arr_wf_bounds(3) [OF a1(2)] a1(5) u by (simp add: word_le_nat_alt)
    let ?a = "a1\<lparr>arr_num := arr_num a + 1, arr_v := (arr_v a1)[unat (arr_num a) := Some x]\<rparr>"
    have "array_add kmalloc a x = Some (Ok ?a (arr_num a))"
      using a1(1) lt by (simp add: array_add_def array_setsize_def store_slot_def Let_def)
    moreover have "arr_wf ?a" using a1 by (simp add: arr_wf_def)
    moreover have "contents ?a = contents a @ [Some x]"
      using lt u a1(3,4) by (simp add: contents_def take_Suc_conv_app_nth)
    ultimately show ?thesis by auto
  qed
qed

lemma array_remove_ok:
  assumes wf: "arr_wf a" and i: "i < arr_num a"
  shows "\<exists>a'. array_remove a i = Ok a' () \<and> arr_wf a' \<and>
    contents a' = take (unat i) (contents a) @ drop (Suc (unat i)) (contents a)"
proof -
  note b = arr_wf_bounds [OF wf]
  have i': "unat i < unat (arr_num a)" using i by (simp add: word_less_nat_alt)
  have u1: "unat (i + 1) = Suc (unat i)" using i' b by (simp add: unat_word_ariths)
  have um: "unat (arr_num a - (i + 1)) = unat (arr_num a) - Suc (unat i)"
    using u1 i' by (subst unat_sub) (simp_all add: word_le_nat_alt)
  have ud: "unat (arr_num a - 1) = unat (arr_num a) - 1" using i' by (subst unat_sub) (simp_all add: word_le_nat_alt)
  have s: "slots_of (arr_num a - (i + 1)) = unat (arr_num a) - Suc (unat i)"
    using um b by (subst slots_of_small) simp_all
  let ?v = "take (unat i) (arr_v a) @ take (unat (arr_num a) - Suc (unat i)) (drop (Suc (unat i)) (arr_v a)) @
    drop (unat i + (unat (arr_num a) - Suc (unat i))) (arr_v a)"
  let ?a = "a\<lparr>arr_v := ?v, arr_num := arr_num a - 1\<rparr>"
  have "array_remove a i = Ok ?a ()"
    using i b i' s wf by (simp add: array_remove_def memmove_down_def arr_wf_def)
  moreover have "arr_wf ?a"
    using wf b i' ud by (auto simp: arr_wf_def word_le_nat_alt)
  moreover have "contents ?a = take (unat i) (contents a) @ drop (Suc (unat i)) (contents a)"
  proof -
    obtain k where k: "unat (arr_num a) = Suc k" using i' by (cases "unat (arr_num a)") auto
    then have "unat i \<le> k" using i' by simp
    then show ?thesis using b ud k by (auto simp: contents_def drop_take min_def dest: le_antisym)
  qed
  ultimately show ?thesis by blast
qed

lemma array_get_ok: "arr_wf a \<Longrightarrow> unat i < unat (arr_num a) \<Longrightarrow> array_get a i = Ok a (contents a ! unat i)"
  using arr_wf_bounds [of a] by (simp add: array_get_def contents_def word_less_nat_alt)

lemma array_set_ok:
  "arr_wf a \<Longrightarrow> unat i < unat (arr_num a) \<Longrightarrow>
    \<exists>a'. array_set a i x = Ok a' () \<and> arr_wf a' \<and> contents a' = (contents a)[unat i := Some x]"
  using arr_wf_bounds [of a]
  by (auto simp: array_set_def store_slot_def contents_def word_less_nat_alt arr_wf_def take_update_swap)

section \<open>The contract of a vector\<close>

text \<open>
  Clients search a vector for an element and excise it (\<open>proc_remthread\<close>, \<open>sfs_reclaim\<close>):
  \<open>for (i=0; i<num; i++) if (get(i) == x) { remove(i); return; }\<close>, here with the result whether it
  was found.
\<close>

function (sequential) scan_remove ::
    "('v \<Rightarrow> u32) \<Rightarrow> ('v \<Rightarrow> u32 \<Rightarrow> ('v, 'a option) outcome) \<Rightarrow> ('v \<Rightarrow> u32 \<Rightarrow> ('v, unit) outcome) \<Rightarrow>
     'a \<Rightarrow> 'v \<Rightarrow> u32 \<Rightarrow> ('v, bool) outcome" where
  "scan_remove num get rem x a i =
     (if i < num a then
        and_then (get a i)
          (\<lambda>_ y. if y = Some x then and_then (rem a i) (\<lambda>a2 _. Ok a2 True)
                 else scan_remove num get rem x a (i + 1))
      else Ok a False)"
  by pat_completeness auto
termination
proof (relation "measure (\<lambda>(num, get, rem, x, a, i). unat (num a) - unat i)", goal_cases)
  case (2 num get rem x a i)
  then show ?case using unat_plus1_32 [of i "num a"] by (simp add: word_less_nat_alt)
qed simp

declare scan_remove.simps [simp del]

locale vector =
  fixes invar :: "'v \<Rightarrow> bool"
    and items :: "'v \<Rightarrow> 'a option list"
    and room :: "'v \<Rightarrow> bool"
    and num :: "'v \<Rightarrow> u32"
    and get :: "'v \<Rightarrow> u32 \<Rightarrow> ('v, 'a option) outcome"
    and add :: "'v \<Rightarrow> 'a \<Rightarrow> ('v, u32) outcome option"
    and rem :: "'v \<Rightarrow> u32 \<Rightarrow> ('v, unit) outcome"
  assumes num_items: "invar a \<Longrightarrow> unat (num a) = length (items a)"
    and get_item: "invar a \<Longrightarrow> unat i < length (items a) \<Longrightarrow> get a i = Ok a (items a ! unat i)"
    and add_item: "invar a \<Longrightarrow> room a \<Longrightarrow>
      add a x = Some (Err a ENOMEM) \<or>
      (\<exists>a'. add a x = Some (Ok a' (num a)) \<and> invar a' \<and> items a' = items a @ [Some x])"
    and rem_item: "invar a \<Longrightarrow> unat i < length (items a) \<Longrightarrow>
      \<exists>a'. rem a i = Ok a' () \<and> invar a' \<and> items a' = take (unat i) (items a) @ drop (Suc (unat i)) (items a)"
begin

lemma remove1_nth:
  "i < length xs \<Longrightarrow> xs ! i = x \<Longrightarrow> x \<notin> set (take i xs) \<Longrightarrow> remove1 x xs = take i xs @ drop (Suc i) xs"
  by (subst id_take_nth_drop [of i xs]) (simp_all add: remove1_append)

text \<open>The search removes the first occurrence, or reports that there is none.\<close>

lemma scan_remove_ok:
  assumes inv: "invar a"
  shows "unat i \<le> length (items a) \<Longrightarrow> Some x \<notin> set (take (unat i) (items a)) \<Longrightarrow>
    (if Some x \<in> set (items a)
     then \<exists>a'. scan_remove num get rem x a i = Ok a' True \<and> invar a' \<and> items a' = remove1 (Some x) (items a)
     else scan_remove num get rem x a i = Ok a False)"
proof (induction "length (items a) - unat i" arbitrary: i)
  case 0
  then have "\<not> i < num a" "Some x \<notin> set (items a)" using num_items [OF inv] by (simp_all add: word_less_nat_alt)
  then show ?case by (simp add: scan_remove.simps [of num get rem x a i])
next
  case (Suc d)
  then have lt: "unat i < length (items a)" by simp
  then have lt': "i < num a" using num_items [OF inv] by (simp add: word_less_nat_alt)
  have "unat (num a) < 2 ^ 32" by simp
  then have u: "unat (i + 1) = Suc (unat i)" using lt num_items [OF inv] by (simp add: unat_word_ariths)
  show ?case
  proof (cases "items a ! unat i = Some x")
    case True
    moreover from this have "Some x \<in> set (items a)" using lt by (metis nth_mem)
    moreover have "remove1 (Some x) (items a) = take (unat i) (items a) @ drop (Suc (unat i)) (items a)"
      using remove1_nth [OF lt True] Suc.prems by simp
    ultimately show ?thesis
      using rem_item [OF inv lt] get_item [OF inv lt] lt' by (auto simp: scan_remove.simps [of num get rem x a i])
  next
    case False
    then have "scan_remove num get rem x a i = scan_remove num get rem x a (i + 1)"
      using get_item [OF inv lt] lt' by (simp add: scan_remove.simps [of num get rem x a i])
    moreover have "Some x \<notin> set (take (unat (i + 1)) (items a))"
      using Suc.prems(2) False lt u by (simp add: take_Suc_conv_app_nth)
    ultimately show ?thesis using Suc.hyps(1) [of "i + 1"] Suc.hyps(2) u lt by simp
  qed
qed

lemma add_then_scan_remove:
  assumes inv: "invar a" and "room a" and ok: "add a x = Some (Ok a1 i)" and new: "Some x \<notin> set (items a)"
  shows "\<exists>a2. scan_remove num get rem x a1 0 = Ok a2 True \<and> invar a2 \<and> items a2 = items a"
proof -
  have "invar a1" "items a1 = items a @ [Some x]" using add_item [OF assms(1,2), of x] ok by auto
  then show ?thesis using scan_remove_ok [of a1 0 x] new by (auto simp: remove1_append)
qed

end

interpretation karr: vector arr_wf contents "\<lambda>a. unat (arr_num a) < 2 ^ 29" array_num array_get
    "array_add kmalloc" array_remove for kmalloc
proof unfold_locales
  fix a :: "'a karray" and i :: u32 and x :: 'a
  assume wf: "arr_wf a"
  note len = arr_wf_bounds(4) [OF wf]
  show "unat (array_num a) = length (contents a)" using len by (simp add: array_num_def)
  show "array_get a i = Ok a (contents a ! unat i)" if "unat i < length (contents a)"
    using array_get_ok [OF wf] that len by simp
  show "array_add kmalloc a x = Some (Err a ENOMEM) \<or>
      (\<exists>a'. array_add kmalloc a x = Some (Ok a' (array_num a)) \<and> arr_wf a' \<and> contents a' = contents a @ [Some x])"
    if "unat (arr_num a) < 2 ^ 29"
    using array_add_ok [OF wf that] by (simp add: array_num_def)
  show "\<exists>a'. array_remove a i = Ok a' () \<and> arr_wf a' \<and>
      contents a' = take (unat i) (contents a) @ drop (Suc (unat i)) (contents a)" if "unat i < length (contents a)"
    using array_remove_ok [OF wf] that len by (simp add: word_less_nat_alt)
qed

section \<open>Properties\<close>

text \<open>
  C16. A request to grow a well-formed array runs forever exactly when it asks for more than \<open>2 ^ 31\<close>
  slots: up to there the doubling loop reaches the request, above it the capacity wraps to 0 and the
  loop starts over.
\<close>

theorem array_preallocate_terminates_iff:
  assumes wf: "arr_wf a"
  shows "array_preallocate kmalloc a n = None \<longleftrightarrow> 2 ^ 31 < unat n"
proof
  assume "array_preallocate kmalloc a n = None"
  then have m: "arr_max a < n" "grow_loop n (arr_max a) = None"
    by (auto simp: array_preallocate_def split: if_splits option.splits)
  have "arr_max a = 0 \<or> (\<exists>k. 2 \<le> k \<and> unat (arr_max a) = 2 ^ k)" using wf by (auto simp: arr_wf_def)
  then show "2 ^ 31 < unat n" using grow_loop_ends [OF _ m(1)] m(2) by (cases "unat n \<le> 2 ^ 31") auto
next
  assume n: "2 ^ 31 < unat n"
  have "unat (arr_max a) \<le> 2 ^ 29" by (rule arr_wf_bounds(2) [OF wf])
  then have lt: "arr_max a < n" using n by (simp add: word_less_nat_alt)
  have "grow_cycle (arr_max a)"
  proof (cases "arr_max a = 0")
    case False
    then obtain k where "2 \<le> k" "k \<le> 29" "unat (arr_max a) = 2 ^ k" using wf by (auto simp: arr_wf_def)
    moreover from this have "arr_max a = 2 ^ k" by (simp add: word32_eq_iff unat_pow2_32)
    ultimately show ?thesis by (auto simp: grow_cycle_def intro!: exI [of _ k])
  qed (simp add: grow_cycle_def)
  then have "grow_loop n (arr_max a) = None" using grow_loop_diverges [of n "arr_max a"] n by force
  then show "array_preallocate kmalloc a n = None" using lt by (simp add: array_preallocate_def)
qed

theorem array_preallocate_terminates_iff_witness:
  "arr_wf (array_init :: u8 karray) \<and> array_preallocate (\<lambda>_. True) (array_init :: u8 karray) 0x80000001 = None"
  using array_preallocate_terminates_iff [where a = "array_init :: u8 karray" and kmalloc = "\<lambda>_. True" and n = "0x80000001"] by simp

text \<open>
  C17. Adding an element below \<open>2 ^ 29\<close> elements terminates; it either fails with \<open>ENOMEM\<close> leaving the
  array untouched, or returns the old element count as the index, at which \<open>array_get\<close> finds the new
  element, while every earlier index still reads what it read before; searching the new array for an
  element that was not in it before removes exactly that element again.
\<close>

theorem array_add_get_remove:
  assumes wf: "arr_wf a" and n: "unat (arr_num a) < 2 ^ 29"
  shows "array_add kmalloc a x = Some (Err a ENOMEM) \<or>
    (\<exists>a'. array_add kmalloc a x = Some (Ok a' (arr_num a)) \<and> arr_wf a' \<and>
       array_get a' (arr_num a) = Ok a' (Some x) \<and>
       (\<forall>j y. array_get a j = Ok a y \<longrightarrow> array_get a' j = Ok a' y) \<and>
       (Some x \<notin> set (contents a) \<longrightarrow>
         (\<exists>a2. scan_remove array_num array_get array_remove x a' 0 = Ok a2 True \<and> arr_wf a2 \<and> contents a2 = contents a)))"
proof -
  consider "array_add kmalloc a x = Some (Err a ENOMEM)"
    | a' where "array_add kmalloc a x = Some (Ok a' (arr_num a))" "arr_wf a'" "contents a' = contents a @ [Some x]"
    using array_add_ok [OF assms, of kmalloc x] by blast
  then show ?thesis
  proof cases
    case 2
    note len = arr_wf_bounds(4) [OF wf] arr_wf_bounds(4) [OF 2(2)]
    have num: "unat (arr_num a') = Suc (unat (arr_num a))" using len 2(3) by simp
    have new: "array_get a' (arr_num a) = Ok a' (Some x)"
      using array_get_ok [OF 2(2), of "arr_num a"] num len 2(3) by (simp add: nth_append)
    have old: "array_get a' j = Ok a' y" if "array_get a j = Ok a y" for j y
    proof -
      have "unat j < unat (arr_num a)" using that by (simp add: array_get_def kassert_def word_less_nat_alt split: if_splits)
      then show ?thesis using that array_get_ok [OF wf, of j] array_get_ok [OF 2(2), of j] num len 2(3)
        by (simp add: nth_append)
    qed
    show ?thesis using 2 new old karr.add_then_scan_remove [OF wf n 2(1)] by blast
  qed simp
qed

theorem array_add_get_remove_witness:
  "\<exists>a'. array_add (\<lambda>_. True) (array_init :: u8 karray) 7 = Some (Ok a' 0) \<and> array_get a' 0 = Ok a' (Some 7)"
proof -
  have "array_add (\<lambda>_. True) (array_init :: u8 karray) 7 \<noteq> Some (Err array_init ENOMEM)"
    by (auto simp: array_add_def array_setsize_def array_preallocate_def array_init_def grow_loop.simps
        memcpy_slots_def slots_of_def store_slot_def Let_def)
  then show ?thesis using array_add_get_remove [of "array_init :: u8 karray" "\<lambda>_. True" 7]
    by (auto simp: array_init_def [symmetric]) (auto simp: array_init_def)
qed

end
