(* ===== verification/Bswap.thy ===== *)
theory Bswap
  imports Prelude
begin

text \<open>
  Byte order and 64-bit register pairs: \<open>kern/lib/bswap.c\<close>. The kernel is built for a big-endian
  machine, so \<open>_BYTE_ORDER == _BIG_ENDIAN\<close> selects the branches that are modelled.
\<close>

section \<open>Model\<close>

definition bswap16 :: "u16 \<Rightarrow> u16" where
  "bswap16 val = push_bit 8 (val AND 0x00ff) OR drop_bit 8 (val AND 0xff00)"

definition bswap32 :: "u32 \<Rightarrow> u32" where
  "bswap32 val =
     push_bit 24 (val AND 0x000000ff) OR push_bit 8 (val AND 0x0000ff00) OR
     drop_bit 8 (val AND 0x00ff0000) OR drop_bit 24 (val AND 0xff000000)"


definition ntohs :: "u16 \<Rightarrow> u16" where "ntohs val = val"
definition htons :: "u16 \<Rightarrow> u16" where "htons val = val"
definition ntohl :: "u32 \<Rightarrow> u32" where "ntohl val = val"
definition htonl :: "u32 \<Rightarrow> u32" where "htonl val = val"
definition ntohll :: "u64 \<Rightarrow> u64" where "ntohll val = val"
definition htonll :: "u64 \<Rightarrow> u64" where "htonll val = val"

definition join32to64 :: "u32 \<Rightarrow> u32 \<Rightarrow> u64" where
  "join32to64 x1 x2 = push_bit 32 (ucast x1) OR ucast x2"

definition split64to32 :: "u64 \<Rightarrow> u32 \<times> u32" where
  "split64to32 x = (ucast (drop_bit 32 x), ucast (x AND 0xffffffff))"

section \<open>Bytes\<close>

text \<open>The bytes of a word in memory, most significant first.\<close>

definition byte_at :: "nat \<Rightarrow> 'a::len word \<Rightarrow> u8" where
  "byte_at k x = ucast (drop_bit (8 * k) x)"

definition bytes16 :: "u16 \<Rightarrow> u8 list" where
  "bytes16 x = [byte_at 1 x, byte_at 0 x]"

definition bytes32 :: "u32 \<Rightarrow> u8 list" where
  "bytes32 x = [byte_at 3 x, byte_at 2 x, byte_at 1 x, byte_at 0 x]"

lemma bit_byte_at [simp]: "n < 8 \<Longrightarrow> bit (byte_at k x) n = bit x (8 * k + n)"
  by (simp add: byte_at_def bit_simps)

lemma less8_cases:
  "(n::nat) < 8 \<Longrightarrow> (n = 0 \<Longrightarrow> P) \<Longrightarrow> (n = 1 \<Longrightarrow> P) \<Longrightarrow> (n = 2 \<Longrightarrow> P) \<Longrightarrow> (n = 3 \<Longrightarrow> P) \<Longrightarrow> (n = 4 \<Longrightarrow> P) \<Longrightarrow>
    (n = 5 \<Longrightarrow> P) \<Longrightarrow> (n = 6 \<Longrightarrow> P) \<Longrightarrow> (n = 7 \<Longrightarrow> P) \<Longrightarrow> P"
  by linarith

lemma byte_at_bswap16: "byte_at 0 (bswap16 x) = byte_at 1 x" "byte_at 1 (bswap16 x) = byte_at 0 x"
  by (rule bit_eqI; simp; erule less8_cases; simp add: bswap16_def bit_simps)+

lemma byte_at_bswap32:
  "byte_at 0 (bswap32 x) = byte_at 3 x" "byte_at 1 (bswap32 x) = byte_at 2 x"
  "byte_at 2 (bswap32 x) = byte_at 1 x" "byte_at 3 (bswap32 x) = byte_at 0 x"
  by (rule bit_eqI; simp; erule less8_cases; simp add: bswap32_def bit_simps)+

lemma bytes32_inject: "bytes32 x = bytes32 y \<Longrightarrow> x = y"
proof (rule bit_eqI)
  fix n
  assume b: "bytes32 x = bytes32 y" and n: "possible_bit TYPE(u32) n"
  have "byte_at k x = byte_at k y" if "k < 4" for k
    using b that by (auto simp: bytes32_def less_Suc_eq numeral_eq_Suc)
  moreover have "n div 8 < 4" "n mod 8 < 8" using n by simp_all
  ultimately have "bit (byte_at (n div 8) x) (n mod 8) = bit (byte_at (n div 8) y) (n mod 8)" by simp
  then show "bit x n = bit y n" by simp
qed

section \<open>Properties\<close>

text \<open>
  C18. \<open>bswap16\<close> and \<open>bswap32\<close> reverse the bytes of their argument, so applying \<open>bswap32\<close> twice is the
  identity.
\<close>

theorem bswap_reverses_bytes:
  "bytes16 (bswap16 h) = rev (bytes16 h) \<and> bytes32 (bswap32 x) = rev (bytes32 x) \<and> bswap32 (bswap32 x) = x"
proof -
  have r: "bytes32 (bswap32 y) = rev (bytes32 y)" for y by (simp add: bytes32_def byte_at_bswap32 del: One_nat_def)
  then have "bswap32 (bswap32 x) = x" by (intro bytes32_inject) simp
  then show ?thesis using r by (simp add: bytes16_def byte_at_bswap16 del: One_nat_def)
qed


text \<open>
  C20. Joining two 32-bit words and splitting the result, in either order, loses nothing.
\<close>

theorem join_split_64:
  "split64to32 (join32to64 x y) = (x, y) \<and> join32to64 (fst (split64to32 z)) (snd (split64to32 z)) = z"
proof
  have m: "(0xffffffff :: u64) = mask 32" by (simp add: mask_eq_exp_minus_1)
  have "ucast (drop_bit 32 (join32to64 x y)) = x"
    by (rule bit_eqI) (auto simp: join32to64_def bit_simps dest: bit_imp_le_length)
  moreover have "ucast (join32to64 x y AND 0xffffffff) = y"
    unfolding m by (rule bit_eqI) (simp add: join32to64_def bit_simps)
  ultimately show "split64to32 (join32to64 x y) = (x, y)" by (simp add: split64to32_def)
  show "join32to64 (fst (split64to32 z)) (snd (split64to32 z)) = z"
    unfolding split64to32_def m by (rule bit_eqI) (auto simp: join32to64_def bit_simps)
qed

end
