(* ===== verification/Timespec.thy ===== *)
theory Timespec
  imports Prelude
begin

text \<open>
  Arithmetic on \<open>struct timespec\<close>: \<open>kern/lib/time.c\<close>, with the field widths of
  \<open>kern/include/kern/time.h\<close> (64-bit seconds, 32-bit nanoseconds, both signed).
\<close>

record timespec =
  tv_sec :: u64
  tv_nsec :: u32

definition timespec_add :: "timespec \<Rightarrow> timespec \<Rightarrow> timespec" where
  "timespec_add ts1 ts2 =
     (let nsec = tv_nsec ts1 + tv_nsec ts2;
          sec = tv_sec ts1 + tv_sec ts2
      in if 1000000000 \<le> sint nsec
         then \<lparr>tv_sec = sec + 1, tv_nsec = nsec - 1000000000\<rparr>
         else \<lparr>tv_sec = sec, tv_nsec = nsec\<rparr>)"

definition timespec_sub :: "timespec \<Rightarrow> timespec \<Rightarrow> timespec" where
  "timespec_sub ts1 ts2 =
     (let r = (if sint (tv_nsec ts1) < sint (tv_nsec ts2)
               then \<lparr>tv_sec = tv_sec ts1 - 1, tv_nsec = tv_nsec ts1 + 1000000000\<rparr>
               else ts1)
      in \<lparr>tv_sec = tv_sec r - tv_sec ts2, tv_nsec = tv_nsec r - tv_nsec ts2\<rparr>)"

section \<open>Correctness\<close>

definition ts_wf :: "timespec \<Rightarrow> bool" where
  "ts_wf t \<longleftrightarrow> uint (tv_nsec t) < 1000000000"

text \<open>The instant in nanoseconds.\<close>

definition ts_ns :: "timespec \<Rightarrow> int" where
  "ts_ns t = sint (tv_sec t) * 1000000000 + sint (tv_nsec t)"

lemma sint_small_32:
  assumes "uint (x :: u32) < 2147483648"
  shows "sint x = uint x"
proof -
  have "- (2 ^ 31) \<le> uint x" by (rule order_trans [OF _ uint_nonnegative]) simp
  then show ?thesis using assms by (subst sint_uint, subst signed_take_bit_int_eq_self) simp_all
qed

lemma uint_add_32: "uint (x :: u32) + uint y < 4294967296 \<Longrightarrow> uint (x + y) = uint x + uint y"
  by (simp add: uint_word_ariths)

lemma uint_sub_32:
  assumes "uint (y :: u32) \<le> uint x"
  shows "uint (x - y) = uint x - uint y"
proof -
  have "uint x < 4294967296" using uint_bounded [of x] by simp
  then have "0 \<le> uint x - uint y" "uint x - uint y < 4294967296"
    using assms uint_nonnegative [of y] by linarith+
  then show ?thesis by (simp add: uint_word_ariths)
qed

lemma sint_add_64:
  "- (2 ^ 63) \<le> sint (x :: u64) + sint y \<Longrightarrow> sint x + sint y < 2 ^ 63 \<Longrightarrow> sint (x + y) = sint x + sint y"
  by (simp add: sint_word_ariths signed_take_bit_int_eq_self)

lemma ts_wf_sint: "ts_wf a \<Longrightarrow> sint (tv_nsec a) = uint (tv_nsec a)"
  by (simp add: ts_wf_def sint_small_32)

text \<open>What the two branches of each operation compute, on unsigned readings.\<close>

lemma nsec_sum:
  assumes "ts_wf a" and "ts_wf b"
  shows "uint (tv_nsec a + tv_nsec b) = uint (tv_nsec a) + uint (tv_nsec b)"
    and "sint (tv_nsec a + tv_nsec b) = uint (tv_nsec a) + uint (tv_nsec b)"
proof -
  show u: "uint (tv_nsec a + tv_nsec b) = uint (tv_nsec a) + uint (tv_nsec b)"
    using assms by (intro uint_add_32) (simp add: ts_wf_def)
  then show "sint (tv_nsec a + tv_nsec b) = uint (tv_nsec a) + uint (tv_nsec b)"
    using assms by (subst sint_small_32) (simp_all add: ts_wf_def)
qed

lemma timespec_add_sec:
  assumes "ts_wf a" and "ts_wf b"
  shows "tv_sec (timespec_add a b) =
    tv_sec a + tv_sec b + (if 1000000000 \<le> uint (tv_nsec a) + uint (tv_nsec b) then 1 else 0)"
  using nsec_sum(2) [OF assms] by (simp add: timespec_add_def Let_def)

lemma timespec_add_nsec:
  assumes "ts_wf a" and "ts_wf b"
  shows "uint (tv_nsec (timespec_add a b)) =
    uint (tv_nsec a) + uint (tv_nsec b) -
      (if 1000000000 \<le> uint (tv_nsec a) + uint (tv_nsec b) then 1000000000 else 0)"
  using nsec_sum [OF assms] uint_sub_32 [of 1000000000 "tv_nsec a + tv_nsec b"]
  by (simp add: timespec_add_def Let_def)

lemma timespec_add_wf: "ts_wf a \<Longrightarrow> ts_wf b \<Longrightarrow> ts_wf (timespec_add a b)"
  using timespec_add_nsec [of a b] by (auto simp: ts_wf_def split: if_splits)

lemma timespec_sub_sec:
  assumes "ts_wf a" and "ts_wf b"
  shows "tv_sec (timespec_sub a b) =
    tv_sec a - tv_sec b - (if uint (tv_nsec a) < uint (tv_nsec b) then 1 else 0)"
  using assms by (simp add: timespec_sub_def Let_def ts_wf_sint)

lemma timespec_sub_nsec:
  assumes "ts_wf a" and "ts_wf b"
  shows "uint (tv_nsec (timespec_sub a b)) =
    uint (tv_nsec a) - uint (tv_nsec b) + (if uint (tv_nsec a) < uint (tv_nsec b) then 1000000000 else 0)"
proof -
  have "uint (tv_nsec a + 1000000000) = uint (tv_nsec a) + 1000000000"
    using assms uint_add_32 [of "tv_nsec a" 1000000000] by (simp add: ts_wf_def)
  moreover have "uint (tv_nsec b) \<le> uint (tv_nsec a) + 1000000000"
    using assms(2) uint_nonnegative [of "tv_nsec a"] unfolding ts_wf_def by linarith
  ultimately show ?thesis
    using assms uint_sub_32 [of "tv_nsec b" "tv_nsec a"] uint_sub_32 [of "tv_nsec b" "tv_nsec a + 1000000000"]
    by (simp add: timespec_sub_def Let_def ts_wf_sint)
qed

section \<open>Properties\<close>

text \<open>
  C21. On normalised times whose sum in seconds does not overflow, \<open>timespec_add\<close> returns a
  normalised time that is the exact sum in nanoseconds.
\<close>

theorem timespec_add_exact:
  assumes wf: "ts_wf a" "ts_wf b"
    and range: "- (2 ^ 63) \<le> sint (tv_sec a) + sint (tv_sec b)" "sint (tv_sec a) + sint (tv_sec b) < 2 ^ 63 - 1"
  shows "ts_wf (timespec_add a b) \<and> ts_ns (timespec_add a b) = ts_ns a + ts_ns b"
proof
  show wf': "ts_wf (timespec_add a b)" using wf by (rule timespec_add_wf)
  have s: "sint (tv_sec a + tv_sec b) = sint (tv_sec a) + sint (tv_sec b)" using range by (intro sint_add_64) simp_all
  then have "sint (tv_sec a + tv_sec b + 1) = sint (tv_sec a) + sint (tv_sec b) + 1"
    using range by (subst sint_add_64) simp_all
  then show "ts_ns (timespec_add a b) = ts_ns a + ts_ns b"
    using s timespec_add_nsec [OF wf] ts_wf_sint [OF wf'] ts_wf_sint [OF wf(1)] ts_wf_sint [OF wf(2)]
    by (auto simp: ts_ns_def timespec_add_sec [OF wf] algebra_simps)
qed

theorem timespec_add_exact_witness:
  "ts_ns (timespec_add \<lparr>tv_sec = 3, tv_nsec = 600000000\<rparr> \<lparr>tv_sec = 5, tv_nsec = 700000000\<rparr>) = 9300000000"
  using timespec_add_exact [of "\<lparr>tv_sec = 3, tv_nsec = 600000000\<rparr>" "\<lparr>tv_sec = 5, tv_nsec = 700000000\<rparr>"]
  by (simp add: ts_wf_def ts_ns_def)

text \<open>
  C22. \<open>timespec_sub\<close> undoes \<open>timespec_add\<close> on normalised times, whether or not the seconds wrap.
\<close>

theorem timespec_sub_add:
  assumes wf: "ts_wf a" "ts_wf b"
  shows "timespec_sub (timespec_add a b) b = a"
proof (rule timespec.equality)
  have n: "uint (tv_nsec a) < 1000000000" "uint (tv_nsec b) < 1000000000" using wf by (simp_all add: ts_wf_def)
  have wf': "ts_wf (timespec_add a b)" using wf by (rule timespec_add_wf)
  have borrow: "uint (tv_nsec (timespec_add a b)) < uint (tv_nsec b) \<longleftrightarrow> 1000000000 \<le> uint (tv_nsec a) + uint (tv_nsec b)"
    using timespec_add_nsec [OF wf] n by auto
  have "uint (tv_nsec (timespec_sub (timespec_add a b) b)) = uint (tv_nsec a)"
    using timespec_sub_nsec [OF wf' wf(2)] timespec_add_nsec [OF wf] borrow by auto
  then show "tv_nsec (timespec_sub (timespec_add a b) b) = tv_nsec a" by (simp add: word_uint_eq_iff)
  show "tv_sec (timespec_sub (timespec_add a b) b) = tv_sec a"
    using borrow by (simp add: timespec_sub_sec [OF wf' wf(2)] timespec_add_sec [OF wf])
qed simp

theorem timespec_sub_add_witness:
  "timespec_sub (timespec_add \<lparr>tv_sec = 1, tv_nsec = 999999999\<rparr> \<lparr>tv_sec = 2, tv_nsec = 1\<rparr>) \<lparr>tv_sec = 2, tv_nsec = 1\<rparr> =
    \<lparr>tv_sec = 1, tv_nsec = 999999999\<rparr>"
  by (rule timespec_sub_add) (simp_all add: ts_wf_def)

end
