(* ===== verification/Tlb.thy ===== *)
theory Tlb
  imports Prelude
begin

text \<open>
  The translation buffer of the processor as \<open>kern/arch/mips/include/tlb.h\<close> and
  \<open>kern/arch/mips/vm/tlb-mips161.S\<close> present it: 64 entries of a high and a low word, selected by the
  six bits of the index register; and the shootdown routines of \<open>kern/arch/mips/vm/mipsvm.c\<close>.
\<close>

section \<open>Model\<close>

type_synonym tlb = "(u32 \<times> u32) list"

record tlbshootdown =
  ts_placeholder :: u32

definition NUM_TLB :: nat where "NUM_TLB = 64"
definition TLBLO_DIRTY :: u32 where "TLBLO_DIRTY = 0x400"
definition TLBLO_VALID :: u32 where "TLBLO_VALID = 0x200"

definition TLBHI_INVALID :: "u32 \<Rightarrow> u32" where
  "TLBHI_INVALID entryno = push_bit 12 (0x80000 + entryno)"

definition TLBLO_INVALID :: u32 where "TLBLO_INVALID = 0"

definition tlb_slot :: "u32 \<Rightarrow> nat" where
  "tlb_slot i = unat (i AND 0x3f)"

definition tlb_read :: "tlb \<Rightarrow> u32 \<Rightarrow> u32 \<times> u32" where
  "tlb_read tlb i = tlb ! tlb_slot i"

definition tlb_write :: "tlb \<Rightarrow> u32 \<Rightarrow> u32 \<Rightarrow> u32 \<Rightarrow> tlb" where
  "tlb_write tlb ehi elo i = tlb[tlb_slot i := (ehi, elo)]"

definition vm_tlbshootdown :: "tlbshootdown \<Rightarrow> tlb \<Rightarrow> tlb" where
  "vm_tlbshootdown ts tlb =
     (let (ehi, elo) = tlb_read tlb (ts_placeholder ts)
      in tlb_write tlb ehi (elo AND NOT TLBLO_VALID) (ts_placeholder ts))"

definition vm_tlbshootdown_all :: "tlb \<Rightarrow> tlb" where
  "vm_tlbshootdown_all tlb = fold (\<lambda>i. vm_tlbshootdown \<lparr>ts_placeholder = of_nat i\<rparr>) [0..<64] tlb"

section \<open>Effect of a shootdown\<close>

definition entry_valid :: "u32 \<times> u32 \<Rightarrow> bool" where
  "entry_valid e \<longleftrightarrow> snd e AND TLBLO_VALID \<noteq> 0"

lemma tlb_slot_less [simp]: "tlb_slot i < 64"
proof -
  have "(0x3f :: u32) = mask 6" by (simp add: mask_eq_exp_minus_1)
  then have "i AND 0x3f = take_bit 6 i" by (simp only: take_bit_eq_mask)
  then have "unat (i AND 0x3f) = take_bit 6 (unat i)" by (simp only: unsigned_take_bit_eq)
  then show ?thesis using take_bit_nat_less_exp [of 6 "unat i"] by (simp add: tlb_slot_def)
qed

lemma tlb_slot_of_nat: "i < 64 \<Longrightarrow> tlb_slot (of_nat i) = i"
proof -
  assume i: "i < 64"
  have "(0x3f :: u32) = mask 6" by (simp add: mask_eq_exp_minus_1)
  then have "unat ((of_nat i :: u32) AND 0x3f) = take_bit 6 (unat (of_nat i :: u32))"
    by (simp only: flip: take_bit_eq_mask unsigned_take_bit_eq)
  also have "\<dots> = i" using i by (simp add: unat_of_nat_32 take_bit_nat_eq_self)
  finally show ?thesis by (simp add: tlb_slot_def)
qed

lemma vm_tlbshootdown_nth:
  assumes "length tlb = 64"
  shows "length (vm_tlbshootdown ts tlb) = 64"
    and "\<not> entry_valid (vm_tlbshootdown ts tlb ! tlb_slot (ts_placeholder ts))"
    and "j \<noteq> tlb_slot (ts_placeholder ts) \<Longrightarrow> vm_tlbshootdown ts tlb ! j = tlb ! j"
  using assms
  by (simp_all add: vm_tlbshootdown_def tlb_write_def tlb_read_def entry_valid_def split_beta and.assoc)

lemma fold_shootdown:
  assumes "length tlb = 64"
  shows "length (fold (\<lambda>i. vm_tlbshootdown \<lparr>ts_placeholder = of_nat i\<rparr>) [0..<n] tlb) = 64"
    and "n \<le> 64 \<Longrightarrow> i < n \<Longrightarrow> \<not> entry_valid (fold (\<lambda>i. vm_tlbshootdown \<lparr>ts_placeholder = of_nat i\<rparr>) [0..<n] tlb ! i)"
proof (induction n)
  case 0
  { case 1 then show ?case using assms by simp }
  { case 2 then show ?case by simp }
next
  case (Suc n)
  let ?t = "fold (\<lambda>i. vm_tlbshootdown \<lparr>ts_placeholder = of_nat i\<rparr>) [0..<n] tlb"
  { case 1 then show ?case using Suc.IH(1) vm_tlbshootdown_nth(1) by simp }
  { case 2
    then have n: "tlb_slot (of_nat n) = n" by (intro tlb_slot_of_nat) simp
    show ?case
    proof (cases "i = n")
      case True
      then show ?thesis using vm_tlbshootdown_nth(2) [OF Suc.IH(1), of "\<lparr>ts_placeholder = of_nat n\<rparr>"] n by simp
    next
      case False
      then show ?thesis
        using vm_tlbshootdown_nth(3) [OF Suc.IH(1), of i "\<lparr>ts_placeholder = of_nat n\<rparr>"] n 2 Suc.IH(2) by simp
    qed }
qed

text \<open>After \<open>vm_tlbshootdown_all\<close> no entry translates.\<close>

lemma vm_tlbshootdown_all_invalid:
  "length tlb = 64 \<Longrightarrow> i < 64 \<Longrightarrow> \<not> entry_valid (vm_tlbshootdown_all tlb ! i)"
  unfolding vm_tlbshootdown_all_def by (rule fold_shootdown(2)) simp_all

lemma vm_tlbshootdown_all_length: "length tlb = 64 \<Longrightarrow> length (vm_tlbshootdown_all tlb) = 64"
  unfolding vm_tlbshootdown_all_def by (rule fold_shootdown(1))

end
