(* ===== verification/Kstate.thy ===== *)
theory Kstate
  imports Threadlist Tlb
begin

text \<open>
  The state shared by the thread system and the lowest-level operations on it: interrupt priority
  levels (\<open>kern/thread/spl.c\<close>, \<open>kern/include/spl.h\<close>) and spinlocks (\<open>kern/thread/spinlock.c\<close>).

  An operation runs on a processor \<open>c\<close>, its \<open>curcpu\<close>; \<open>curthread\<close> is the thread whose registers that
  processor holds, \<open>c_curthread\<close>. The model starts after boot, when \<open>CURCPU_EXISTS()\<close> holds. Thread
  lists are the mathematical lists that \<open>Threadlist\<close> shows the pointer code to implement; \<open>t_linked\<close>
  says whether the list node of a thread has non-null links.
\<close>

section \<open>State\<close>

type_synonym cpuid = nat
type_synonym wid = nat

datatype threadstate = S_RUN | S_READY | S_SLEEP | S_ZOMBIE

text \<open>Run queue and zombies of a processor, a wait channel, and the local list of a routine.\<close>

datatype lid = RunQ cpuid | Zombies cpuid | Wchan wid | LocalList cpuid

datatype lockid = RunqLock cpuid | IpiLock cpuid | Lk nat

text \<open>Where a switched-out thread resumes: in \<open>thread_switch\<close> with its local \<open>spl\<close>, or in \<open>thread_startup\<close>.\<close>

datatype frame = In_switch nat | In_startup

record sthread =
  t_wchan_name :: "string option"
  t_state :: threadstate
  t_stack :: "u32 list option"
  t_context :: "frame option"
  t_cpu :: "cpuid option"
  t_proc :: "nat option"
  t_linked :: bool
  t_in_interrupt :: bool
  t_curspl :: nat
  t_iplhigh_count :: int

record kcpu =
  c_curthread :: tid
  c_hardclocks :: u32
  c_spinlocks :: u32
  c_isidle :: bool
  c_ipi_pending :: u32
  c_shootdown :: "tlbshootdown list"
  c_numshootdown :: int
  c_irqon :: bool

record spinlock =
  splk_lock :: bool
  splk_holder :: "cpuid option"

record kstate =
  k_thread :: "tid \<Rightarrow> sthread"
  k_live :: "tid \<Rightarrow> bool"
  k_cpu :: "cpuid \<Rightarrow> kcpu"
  k_ncpus :: nat
  k_list :: "lid \<Rightarrow> tid list"
  k_lock :: "lockid \<Rightarrow> spinlock"
  k_wcname :: "wid \<Rightarrow> string"
  k_tlb :: "cpuid \<Rightarrow> tlb"

definition upd_thread :: "tid \<Rightarrow> (sthread \<Rightarrow> sthread) \<Rightarrow> kstate \<Rightarrow> kstate" where
  "upd_thread t f s = s\<lparr>k_thread := (k_thread s)(t := f (k_thread s t))\<rparr>"

definition upd_cpu :: "cpuid \<Rightarrow> (kcpu \<Rightarrow> kcpu) \<Rightarrow> kstate \<Rightarrow> kstate" where
  "upd_cpu c f s = s\<lparr>k_cpu := (k_cpu s)(c := f (k_cpu s c))\<rparr>"

definition upd_lock :: "lockid \<Rightarrow> spinlock \<Rightarrow> kstate \<Rightarrow> kstate" where
  "upd_lock l k s = s\<lparr>k_lock := (k_lock s)(l := k)\<rparr>"

definition curthread :: "kstate \<Rightarrow> cpuid \<Rightarrow> tid" where
  "curthread s c = c_curthread (k_cpu s c)"

lemma upd_sel [simp]:
  "k_thread (upd_thread t f s) = (k_thread s)(t := f (k_thread s t))"
  "k_live (upd_thread t f s) = k_live s"
  "k_cpu (upd_thread t f s) = k_cpu s"
  "k_ncpus (upd_thread t f s) = k_ncpus s"
  "k_list (upd_thread t f s) = k_list s"
  "k_lock (upd_thread t f s) = k_lock s"
  "k_wcname (upd_thread t f s) = k_wcname s"
  "k_tlb (upd_thread t f s) = k_tlb s"
  "k_thread (upd_cpu c g s) = k_thread s"
  "k_live (upd_cpu c g s) = k_live s"
  "k_cpu (upd_cpu c g s) = (k_cpu s)(c := g (k_cpu s c))"
  "k_ncpus (upd_cpu c g s) = k_ncpus s"
  "k_list (upd_cpu c g s) = k_list s"
  "k_lock (upd_cpu c g s) = k_lock s"
  "k_wcname (upd_cpu c g s) = k_wcname s"
  "k_tlb (upd_cpu c g s) = k_tlb s"
  "k_thread (upd_lock l k s) = k_thread s"
  "k_live (upd_lock l k s) = k_live s"
  "k_cpu (upd_lock l k s) = k_cpu s"
  "k_ncpus (upd_lock l k s) = k_ncpus s"
  "k_list (upd_lock l k s) = k_list s"
  "k_lock (upd_lock l k s) = (k_lock s)(l := k)"
  "k_wcname (upd_lock l k s) = k_wcname s"
  "k_tlb (upd_lock l k s) = k_tlb s"
  by (simp_all add: upd_thread_def upd_cpu_def upd_lock_def)

section \<open>Thread lists in the kernel state\<close>

text \<open>Adding a thread that is already linked is outside the contract of \<open>Threadlist\<close>.\<close>

definition k_addtail :: "lid \<Rightarrow> tid \<Rightarrow> kstate \<Rightarrow> (kstate, unit) outcome" where
  "k_addtail l t s =
     (if t_linked (k_thread s t) then Fault
      else Ok (upd_thread t (\<lambda>r. r\<lparr>t_linked := True\<rparr>) (s\<lparr>k_list := (k_list s)(l := k_list s l @ [t])\<rparr>)) ())"

definition k_addhead :: "lid \<Rightarrow> tid \<Rightarrow> kstate \<Rightarrow> (kstate, unit) outcome" where
  "k_addhead l t s =
     (if t_linked (k_thread s t) then Fault
      else Ok (upd_thread t (\<lambda>r. r\<lparr>t_linked := True\<rparr>) (s\<lparr>k_list := (k_list s)(l := t # k_list s l)\<rparr>)) ())"

definition k_remhead :: "lid \<Rightarrow> kstate \<Rightarrow> (kstate, tid option) outcome" where
  "k_remhead l s =
     (case k_list s l of
        [] \<Rightarrow> Ok s None
      | t # ts \<Rightarrow> Ok (upd_thread t (\<lambda>r. r\<lparr>t_linked := False\<rparr>) (s\<lparr>k_list := (k_list s)(l := ts)\<rparr>)) (Some t))"

definition k_remtail :: "lid \<Rightarrow> kstate \<Rightarrow> (kstate, tid option) outcome" where
  "k_remtail l s =
     (if k_list s l = [] then Ok s None
      else Ok (upd_thread (last (k_list s l)) (\<lambda>r. r\<lparr>t_linked := False\<rparr>)
                 (s\<lparr>k_list := (k_list s)(l := butlast (k_list s l))\<rparr>)) (Some (last (k_list s l))))"

section \<open>Interrupt priority levels\<close>

definition IPL_NONE :: nat where "IPL_NONE = 0"
definition IPL_HIGH :: nat where "IPL_HIGH = 1"

text \<open>\<open>cpu_irqoff\<close> and \<open>cpu_irqon\<close> set the interrupt enable bit of the processor.\<close>

definition cpu_irqoff :: "cpuid \<Rightarrow> kstate \<Rightarrow> kstate" where
  "cpu_irqoff c s = upd_cpu c (\<lambda>r. r\<lparr>c_irqon := False\<rparr>) s"

definition cpu_irqon :: "cpuid \<Rightarrow> kstate \<Rightarrow> kstate" where
  "cpu_irqon c s = upd_cpu c (\<lambda>r. r\<lparr>c_irqon := True\<rparr>) s"

definition splraise :: "cpuid \<Rightarrow> nat \<Rightarrow> nat \<Rightarrow> kstate \<Rightarrow> (kstate, unit) outcome" where
  "splraise c oldspl newspl s =
     kassert (oldspl = IPL_NONE) (kassert (newspl = IPL_HIGH)
       (let cur = curthread s c;
            s1 = (if t_iplhigh_count (k_thread s cur) = 0 then cpu_irqoff c s else s)
        in Ok (upd_thread cur (\<lambda>r. r\<lparr>t_iplhigh_count := t_iplhigh_count r + 1\<rparr>) s1) ()))"

definition spllower :: "cpuid \<Rightarrow> nat \<Rightarrow> nat \<Rightarrow> kstate \<Rightarrow> (kstate, unit) outcome" where
  "spllower c oldspl newspl s =
     kassert (oldspl = IPL_HIGH) (kassert (newspl = IPL_NONE)
       (let cur = curthread s c;
            s1 = upd_thread cur (\<lambda>r. r\<lparr>t_iplhigh_count := t_iplhigh_count r - 1\<rparr>) s
        in Ok (if t_iplhigh_count (k_thread s1 cur) = 0 then cpu_irqon c s1 else s1) ()))"

definition splx :: "cpuid \<Rightarrow> nat \<Rightarrow> kstate \<Rightarrow> (kstate, nat) outcome" where
  "splx c spl s =
     (let cur = curthread s c;
          old = t_curspl (k_thread s cur)
      in if old < spl then
           and_then (splraise c old spl s)
             (\<lambda>s1 _. Ok (upd_thread cur (\<lambda>r. r\<lparr>t_curspl := spl\<rparr>) s1) old)
         else if spl < old then
           and_then (spllower c old spl (upd_thread cur (\<lambda>r. r\<lparr>t_curspl := spl\<rparr>) s))
             (\<lambda>s1 _. Ok s1 old)
         else Ok s spl)"

definition spl0 :: "cpuid \<Rightarrow> kstate \<Rightarrow> (kstate, nat) outcome" where
  "spl0 c s = splx c IPL_NONE s"

definition splhigh :: "cpuid \<Rightarrow> kstate \<Rightarrow> (kstate, nat) outcome" where
  "splhigh c s = splx c IPL_HIGH s"

section \<open>Spinlocks\<close>

definition spinlock_init :: "spinlock" where
  "spinlock_init = \<lparr>splk_lock = False, splk_holder = None\<rparr>"

definition spinlock_cleanup :: "lockid \<Rightarrow> kstate \<Rightarrow> (kstate, unit) outcome" where
  "spinlock_cleanup l s =
     kassert (splk_holder (k_lock s l) = None) (kassert (\<not> splk_lock (k_lock s l)) (Ok s ()))"

text \<open>
  \<open>spinlock_acquire\<close> in a state in which nobody else moves: it spins if the lock word is set.
\<close>

definition spinlock_acquire :: "cpuid \<Rightarrow> lockid \<Rightarrow> kstate \<Rightarrow> (kstate, unit) outcome" where
  "spinlock_acquire c l s =
     and_then (splraise c IPL_NONE IPL_HIGH s)
       (\<lambda>s1 _. if splk_holder (k_lock s1 l) = Some c then Panic
               else let s2 = upd_cpu c (\<lambda>r. r\<lparr>c_spinlocks := c_spinlocks r + 1\<rparr>) s1
                    in if splk_lock (k_lock s2 l) then Blocked
                       else Ok (upd_lock l \<lparr>splk_lock = True, splk_holder = Some c\<rparr> s2) ())"

definition spinlock_release :: "cpuid \<Rightarrow> lockid \<Rightarrow> kstate \<Rightarrow> (kstate, unit) outcome" where
  "spinlock_release c l s =
     kassert (splk_holder (k_lock s l) = Some c) (kassert (0 < c_spinlocks (k_cpu s c))
       (let s1 = upd_cpu c (\<lambda>r. r\<lparr>c_spinlocks := c_spinlocks r - 1\<rparr>) s;
            s2 = upd_lock l \<lparr>splk_lock = False, splk_holder = None\<rparr> s1
        in spllower c IPL_HIGH IPL_NONE s2))"

definition spinlock_do_i_hold :: "cpuid \<Rightarrow> lockid \<Rightarrow> kstate \<Rightarrow> bool" where
  "spinlock_do_i_hold c l s = (splk_holder (k_lock s l) = Some c)"

section \<open>What locking leaves alone\<close>

text \<open>
  Two views of the state. \<open>sched_eq\<close>: the two states agree on everything the scheduler decides, and
  may differ in interrupt levels, lock ownership and pending interrupts. \<open>ipl_same\<close>: they agree on
  exactly those.
\<close>

definition forget_ipl :: "sthread \<Rightarrow> sthread" where
  "forget_ipl r = r\<lparr>t_curspl := 0, t_iplhigh_count := 0\<rparr>"

definition forget_cpu :: "kcpu \<Rightarrow> kcpu" where
  "forget_cpu r = r\<lparr>c_spinlocks := 0, c_irqon := False, c_ipi_pending := 0\<rparr>"

definition sched_eq :: "kstate \<Rightarrow> kstate \<Rightarrow> bool" where
  "sched_eq s s' \<longleftrightarrow>
     k_live s' = k_live s \<and> k_list s' = k_list s \<and> k_ncpus s' = k_ncpus s \<and> k_wcname s' = k_wcname s \<and>
     k_tlb s' = k_tlb s \<and> (\<forall>t. forget_ipl (k_thread s' t) = forget_ipl (k_thread s t)) \<and>
     (\<forall>d. forget_cpu (k_cpu s' d) = forget_cpu (k_cpu s d))"

definition ipl_same :: "kstate \<Rightarrow> kstate \<Rightarrow> bool" where
  "ipl_same s s' \<longleftrightarrow>
     k_lock s' = k_lock s \<and>
     (\<forall>t. t_curspl (k_thread s' t) = t_curspl (k_thread s t)) \<and>
     (\<forall>t. t_iplhigh_count (k_thread s' t) = t_iplhigh_count (k_thread s t)) \<and>
     (\<forall>d. c_spinlocks (k_cpu s' d) = c_spinlocks (k_cpu s d)) \<and>
     (\<forall>d. c_irqon (k_cpu s' d) = c_irqon (k_cpu s d))"

lemma sched_eq_refl [simp]: "sched_eq s s"
  by (simp add: sched_eq_def)

lemma sched_eq_trans: "sched_eq s s1 \<Longrightarrow> sched_eq s1 s2 \<Longrightarrow> sched_eq s s2"
  by (simp add: sched_eq_def)

lemma ipl_same_refl [simp]: "ipl_same s s"
  by (simp add: ipl_same_def)

lemma ipl_same_trans: "ipl_same s s1 \<Longrightarrow> ipl_same s1 s2 \<Longrightarrow> ipl_same s s2"
  by (simp add: ipl_same_def)

lemma forget_ipl_eqD:
  assumes "forget_ipl r = forget_ipl r'"
  shows "t_wchan_name r = t_wchan_name r'" "t_state r = t_state r'" "t_stack r = t_stack r'"
    "t_context r = t_context r'" "t_cpu r = t_cpu r'" "t_proc r = t_proc r'" "t_linked r = t_linked r'"
    "t_in_interrupt r = t_in_interrupt r'"
  using assms by (cases r; cases r'; simp add: forget_ipl_def)+

lemma forget_cpu_eqD:
  assumes "forget_cpu q = forget_cpu q'"
  shows "c_curthread q = c_curthread q'" "c_hardclocks q = c_hardclocks q'" "c_isidle q = c_isidle q'"
    "c_shootdown q = c_shootdown q'" "c_numshootdown q = c_numshootdown q'"
  using assms by (cases q; cases q'; simp add: forget_cpu_def)+

lemma sched_eqD:
  assumes "sched_eq s s'"
  shows "k_live s' = k_live s" "k_list s' = k_list s" "k_ncpus s' = k_ncpus s"
    "t_state (k_thread s' t) = t_state (k_thread s t)" "t_stack (k_thread s' t) = t_stack (k_thread s t)"
    "t_context (k_thread s' t) = t_context (k_thread s t)" "t_cpu (k_thread s' t) = t_cpu (k_thread s t)"
    "t_proc (k_thread s' t) = t_proc (k_thread s t)" "t_linked (k_thread s' t) = t_linked (k_thread s t)"
    "t_in_interrupt (k_thread s' t) = t_in_interrupt (k_thread s t)"
    "c_curthread (k_cpu s' d) = c_curthread (k_cpu s d)" "c_isidle (k_cpu s' d) = c_isidle (k_cpu s d)"
    "curthread s' d = curthread s d"
  using assms forget_ipl_eqD [of "k_thread s' t" "k_thread s t"] forget_cpu_eqD [of "k_cpu s' d" "k_cpu s d"]
  by (simp_all add: sched_eq_def curthread_def)

lemma ipl_sameD:
  assumes "ipl_same s s'"
  shows "k_lock s' = k_lock s" "t_curspl (k_thread s' t) = t_curspl (k_thread s t)"
    "t_iplhigh_count (k_thread s' t) = t_iplhigh_count (k_thread s t)"
    "c_spinlocks (k_cpu s' d) = c_spinlocks (k_cpu s d)" "c_irqon (k_cpu s' d) = c_irqon (k_cpu s d)"
  using assms by (simp_all add: ipl_same_def)

section \<open>Taking and giving back a lock\<close>

definition held_by :: "cpuid \<Rightarrow> spinlock" where
  "held_by c = \<lparr>splk_lock = True, splk_holder = Some c\<rparr>"

text \<open>Interrupts are on exactly when the current thread has no reason to keep them off.\<close>

definition irq_ok :: "kstate \<Rightarrow> cpuid \<Rightarrow> bool" where
  "irq_ok s c \<longleftrightarrow>
     0 \<le> t_iplhigh_count (k_thread s (curthread s c)) \<and>
     (c_irqon (k_cpu s c) \<longleftrightarrow> t_iplhigh_count (k_thread s (curthread s c)) = 0)"

text \<open>The states after \<open>spinlock_acquire\<close> and \<open>spinlock_release\<close>.\<close>

definition acq :: "cpuid \<Rightarrow> lockid \<Rightarrow> kstate \<Rightarrow> kstate" where
  "acq c l s =
     upd_lock l (held_by c)
       (upd_cpu c (\<lambda>r. r\<lparr>c_spinlocks := c_spinlocks r + 1,
            c_irqon := c_irqon r \<and> t_iplhigh_count (k_thread s (curthread s c)) \<noteq> 0\<rparr>)
         (upd_thread (curthread s c) (\<lambda>r. r\<lparr>t_iplhigh_count := t_iplhigh_count r + 1\<rparr>) s))"

definition rel :: "cpuid \<Rightarrow> lockid \<Rightarrow> kstate \<Rightarrow> kstate" where
  "rel c l s =
     upd_lock l spinlock_init
       (upd_cpu c (\<lambda>r. r\<lparr>c_spinlocks := c_spinlocks r - 1,
            c_irqon := c_irqon r \<or> t_iplhigh_count (k_thread s (curthread s c)) = 1\<rparr>)
         (upd_thread (curthread s c) (\<lambda>r. r\<lparr>t_iplhigh_count := t_iplhigh_count r - 1\<rparr>) s))"

lemma acquire_acq:
  "k_lock s l = spinlock_init \<Longrightarrow> spinlock_acquire c l s = Ok (acq c l s) ()"
  by (auto simp: spinlock_acquire_def splraise_def acq_def Let_def cpu_irqoff_def upd_lock_def upd_cpu_def
      upd_thread_def curthread_def spinlock_init_def held_by_def IPL_NONE_def IPL_HIGH_def fun_eq_iff
      intro!: kstate.equality kcpu.equality)

lemma release_rel:
  "k_lock s l = held_by c \<Longrightarrow> 0 < c_spinlocks (k_cpu s c) \<Longrightarrow> spinlock_release c l s = Ok (rel c l s) ()"
  by (auto simp: spinlock_release_def spllower_def rel_def Let_def cpu_irqon_def upd_lock_def upd_cpu_def
      upd_thread_def curthread_def spinlock_init_def held_by_def IPL_NONE_def IPL_HIGH_def fun_eq_iff
      intro!: kstate.equality kcpu.equality)

lemma acq_sched: "sched_eq s (acq c l s)"
  by (simp add: sched_eq_def acq_def forget_ipl_def forget_cpu_def)

lemma rel_sched: "sched_eq s (rel c l s)"
  by (simp add: sched_eq_def rel_def forget_ipl_def forget_cpu_def)

lemma acq_sel [simp]:
  "k_live (acq c l s) = k_live s" "k_list (acq c l s) = k_list s" "k_ncpus (acq c l s) = k_ncpus s"
  "k_lock (acq c l s) = (k_lock s)(l := held_by c)" "curthread (acq c l s) d = curthread s d"
  "t_state (k_thread (acq c l s) t) = t_state (k_thread s t)"
  "t_stack (k_thread (acq c l s) t) = t_stack (k_thread s t)"
  "t_context (k_thread (acq c l s) t) = t_context (k_thread s t)"
  "t_cpu (k_thread (acq c l s) t) = t_cpu (k_thread s t)"
  "t_proc (k_thread (acq c l s) t) = t_proc (k_thread s t)"
  "t_linked (k_thread (acq c l s) t) = t_linked (k_thread s t)"
  "t_curspl (k_thread (acq c l s) t) = t_curspl (k_thread s t)"
  "t_in_interrupt (k_thread (acq c l s) t) = t_in_interrupt (k_thread s t)"
  "t_iplhigh_count (k_thread (acq c l s) t) =
     (if t = curthread s c then t_iplhigh_count (k_thread s t) + 1 else t_iplhigh_count (k_thread s t))"
  "c_curthread (k_cpu (acq c l s) d) = c_curthread (k_cpu s d)"
  "c_isidle (k_cpu (acq c l s) d) = c_isidle (k_cpu s d)"
  "c_spinlocks (k_cpu (acq c l s) d) = (if d = c then c_spinlocks (k_cpu s d) + 1 else c_spinlocks (k_cpu s d))"
  "c_irqon (k_cpu (acq c l s) d) =
     (if d = c then c_irqon (k_cpu s c) \<and> t_iplhigh_count (k_thread s (curthread s c)) \<noteq> 0 else c_irqon (k_cpu s d))"
  by (auto simp: acq_def curthread_def)

lemma rel_sel [simp]:
  "k_live (rel c l s) = k_live s" "k_list (rel c l s) = k_list s" "k_ncpus (rel c l s) = k_ncpus s"
  "k_lock (rel c l s) = (k_lock s)(l := spinlock_init)" "curthread (rel c l s) d = curthread s d"
  "t_state (k_thread (rel c l s) t) = t_state (k_thread s t)"
  "t_stack (k_thread (rel c l s) t) = t_stack (k_thread s t)"
  "t_context (k_thread (rel c l s) t) = t_context (k_thread s t)"
  "t_cpu (k_thread (rel c l s) t) = t_cpu (k_thread s t)"
  "t_proc (k_thread (rel c l s) t) = t_proc (k_thread s t)"
  "t_linked (k_thread (rel c l s) t) = t_linked (k_thread s t)"
  "t_curspl (k_thread (rel c l s) t) = t_curspl (k_thread s t)"
  "t_in_interrupt (k_thread (rel c l s) t) = t_in_interrupt (k_thread s t)"
  "t_iplhigh_count (k_thread (rel c l s) t) =
     (if t = curthread s c then t_iplhigh_count (k_thread s t) - 1 else t_iplhigh_count (k_thread s t))"
  "c_curthread (k_cpu (rel c l s) d) = c_curthread (k_cpu s d)"
  "c_isidle (k_cpu (rel c l s) d) = c_isidle (k_cpu s d)"
  "c_spinlocks (k_cpu (rel c l s) d) = (if d = c then c_spinlocks (k_cpu s d) - 1 else c_spinlocks (k_cpu s d))"
  "c_irqon (k_cpu (rel c l s) d) =
     (if d = c then c_irqon (k_cpu s c) \<or> t_iplhigh_count (k_thread s (curthread s c)) = 1 else c_irqon (k_cpu s d))"
  by (auto simp: rel_def curthread_def)

end
