(* ===== verification/Thread.thy ===== *)
theory Thread
  imports Kstate
begin

text \<open>
  The thread system of \<open>kern/thread/thread.c\<close>: creation and destruction of threads, the context
  switch, wait channels, migration and inter-processor interrupts.

  \<open>thread_switch\<close> is modelled in two halves, since another thread runs in between. \<open>thread_switch\<close>
  itself goes up to the first look at the run queue; \<open>switch_pick\<close> is one round of the idle loop,
  which on success loads the chosen thread (\<open>switchframe_switch\<close>) and runs that thread's continuation:
  the end of its own \<open>thread_switch\<close>, or \<open>thread_startup\<close> up to the call of the entry point. While a
  processor idles it has released its run queue lock. \<open>as_activate\<close> and the machine-dependent
  initialisation do not touch the modelled state.
\<close>

section \<open>Threads\<close>

definition THREAD_STACK_MAGIC :: u32 where "THREAD_STACK_MAGIC = 0xbaadf00d"

definition STACK_WORDS :: nat where "STACK_WORDS = 1024"

definition thread_checkstack_init :: "tid \<Rightarrow> kstate \<Rightarrow> (kstate, unit) outcome" where
  "thread_checkstack_init t s =
     (case t_stack (k_thread s t) of
        None \<Rightarrow> Fault
      | Some v \<Rightarrow>
          if length v < 4 then Fault
          else Ok (upd_thread t (\<lambda>r. r\<lparr>t_stack := Some (v[0 := THREAD_STACK_MAGIC, 1 := THREAD_STACK_MAGIC,
                     2 := THREAD_STACK_MAGIC, 3 := THREAD_STACK_MAGIC])\<rparr>) s) ())"

definition thread_checkstack :: "tid \<Rightarrow> kstate \<Rightarrow> (kstate, unit) outcome" where
  "thread_checkstack t s =
     (case t_stack (k_thread s t) of
        None \<Rightarrow> Ok s ()
      | Some v \<Rightarrow>
          if length v < 4 then Fault
          else kassert (v ! 0 = THREAD_STACK_MAGIC) (kassert (v ! 1 = THREAD_STACK_MAGIC)
                 (kassert (v ! 2 = THREAD_STACK_MAGIC) (kassert (v ! 3 = THREAD_STACK_MAGIC) (Ok s ())))))"

text \<open>
  \<open>fresh\<close> is the address \<open>kmalloc\<close> returns for the new thread; the two flags say whether the
  allocations of the structure and of the copy of the name succeed.
\<close>

definition new_thread :: sthread where
  "new_thread =
     \<lparr>t_wchan_name = Some ''NEW'', t_state = S_READY, t_stack = None, t_context = None, t_cpu = None,
      t_proc = None, t_linked = False, t_in_interrupt = False, t_curspl = IPL_HIGH, t_iplhigh_count = 1\<rparr>"

definition thread_create :: "bool \<Rightarrow> bool \<Rightarrow> tid \<Rightarrow> kstate \<Rightarrow> kstate \<times> tid option" where
  "thread_create kmalloc_ok kstrdup_ok fresh s =
     (if \<not> kmalloc_ok then (s, None)
      else if \<not> kstrdup_ok then (s, None)
      else (s\<lparr>k_thread := (k_thread s)(fresh := new_thread), k_live := (k_live s)(fresh := True)\<rparr>, Some fresh))"

definition thread_destroy :: "cpuid \<Rightarrow> tid \<Rightarrow> kstate \<Rightarrow> (kstate, unit) outcome" where
  "thread_destroy c t s =
     kassert (t \<noteq> curthread s c) (kassert (t_state (k_thread s t) \<noteq> S_RUN)
       (kassert (t_proc (k_thread s t) = None)
         (kassert (\<not> t_linked (k_thread s t))
           (Ok (upd_thread t (\<lambda>r. r\<lparr>t_wchan_name := Some ''DESTROYED''\<rparr>) (s\<lparr>k_live := (k_live s)(t := False)\<rparr>)) ()))))"

lemma thread_destroy_list [simp]: "thread_destroy c t s = Ok s' u \<Longrightarrow> k_list s' = k_list s"
  by (auto simp: thread_destroy_def outcome_iffs)

text \<open>The loop of \<open>exorcise\<close> runs once per zombie.\<close>

function exorcise :: "cpuid \<Rightarrow> kstate \<Rightarrow> (kstate, unit) outcome" where
  "exorcise c s =
     and_then (k_remhead (Zombies c) s)
       (\<lambda>s1 z. case z of
          None \<Rightarrow> Ok s1 ()
        | Some z \<Rightarrow>
            kassert (z \<noteq> curthread s1 c) (kassert (t_state (k_thread s1 z) = S_ZOMBIE)
              (and_then (thread_destroy c z s1) (\<lambda>s2 _. exorcise c s2))))"
  by pat_completeness auto
termination
  by (relation "measure (\<lambda>(c, s). length (k_list s (Zombies c)))")
     (auto simp: k_remhead_def split: list.splits)

declare exorcise.simps [simp del]

section \<open>Inter-processor interrupts\<close>

definition IPI_PANIC :: nat where "IPI_PANIC = 0"
definition IPI_OFFLINE :: nat where "IPI_OFFLINE = 1"
definition IPI_UNIDLE :: nat where "IPI_UNIDLE = 2"
definition IPI_TLBSHOOTDOWN :: nat where "IPI_TLBSHOOTDOWN = 3"
definition TLBSHOOTDOWN_MAX :: nat where "TLBSHOOTDOWN_MAX = 16"
definition TLBSHOOTDOWN_ALL :: int where "TLBSHOOTDOWN_ALL = - 1"

text \<open>\<open>mainbus_send_ipi\<close> raises the interrupt line of the target; what it leads to is \<open>c_ipi_pending\<close>.\<close>

definition ipi_send :: "cpuid \<Rightarrow> cpuid \<Rightarrow> nat \<Rightarrow> kstate \<Rightarrow> (kstate, unit) outcome" where
  "ipi_send c target code s =
     kassert (code < 32)
       (and_then (spinlock_acquire c (IpiLock target) s)
         (\<lambda>s1 _. spinlock_release c (IpiLock target)
            (upd_cpu target (\<lambda>r. r\<lparr>c_ipi_pending := c_ipi_pending r OR push_bit code 1\<rparr>) s1)))"

fun ipi_broadcast_to :: "cpuid \<Rightarrow> nat \<Rightarrow> cpuid list \<Rightarrow> kstate \<Rightarrow> (kstate, unit) outcome" where
  "ipi_broadcast_to c code [] s = Ok s ()"
| "ipi_broadcast_to c code (i # is) s =
     (if i \<noteq> c then and_then (ipi_send c i code s) (\<lambda>s1 _. ipi_broadcast_to c code is s1)
      else ipi_broadcast_to c code is s)"

definition ipi_broadcast :: "cpuid \<Rightarrow> nat \<Rightarrow> kstate \<Rightarrow> (kstate, unit) outcome" where
  "ipi_broadcast c code s = ipi_broadcast_to c code [0..<k_ncpus s] s"

definition ipi_tlbshootdown :: "cpuid \<Rightarrow> cpuid \<Rightarrow> tlbshootdown \<Rightarrow> kstate \<Rightarrow> (kstate, unit) outcome" where
  "ipi_tlbshootdown c target mapping s =
     and_then (spinlock_acquire c (IpiLock target) s)
       (\<lambda>s1 _.
          let n = c_numshootdown (k_cpu s1 target)
          in and_then
               (if n = int TLBSHOOTDOWN_MAX then
                  Ok (upd_cpu target (\<lambda>r. r\<lparr>c_numshootdown := TLBSHOOTDOWN_ALL\<rparr>) s1) ()
                else if n < 0 \<or> length (c_shootdown (k_cpu s1 target)) \<le> nat n then Fault
                else Ok (upd_cpu target
                       (\<lambda>r. r\<lparr>c_shootdown := (c_shootdown r)[nat n := mapping], c_numshootdown := n + 1\<rparr>) s1) ())
               (\<lambda>s2 _. spinlock_release c (IpiLock target)
                  (upd_cpu target (\<lambda>r. r\<lparr>c_ipi_pending := c_ipi_pending r OR push_bit IPI_TLBSHOOTDOWN 1\<rparr>) s2)))"

section \<open>Making threads runnable\<close>

definition thread_make_runnable :: "cpuid \<Rightarrow> tid \<Rightarrow> bool \<Rightarrow> kstate \<Rightarrow> (kstate, unit) outcome" where
  "thread_make_runnable c target already_have_lock s =
     (case t_cpu (k_thread s target) of
        None \<Rightarrow> Fault
      | Some targetcpu \<Rightarrow>
          and_then (if already_have_lock then kassert (spinlock_do_i_hold c (RunqLock targetcpu) s) (Ok s ())
                    else spinlock_acquire c (RunqLock targetcpu) s)
            (\<lambda>s1 _. and_then (k_addtail (RunQ targetcpu) target (upd_thread target (\<lambda>r. r\<lparr>t_state := S_READY\<rparr>) s1))
              (\<lambda>s2 _. and_then (if c_isidle (k_cpu s2 targetcpu) then ipi_send c targetcpu IPI_UNIDLE s2 else Ok s2 ())
                (\<lambda>s3 _. if already_have_lock then Ok s3 () else spinlock_release c (RunqLock targetcpu) s3))))"

text \<open>
  \<open>thread_fork\<close>: the flags are the results of the three allocations, \<open>addthread\<close> that of
  \<open>proc_addthread\<close> on the target process \<open>p\<close>.
\<close>

definition thread_fork ::
    "cpuid \<Rightarrow> bool \<Rightarrow> bool \<Rightarrow> bool \<Rightarrow> errno option \<Rightarrow> tid \<Rightarrow> nat option \<Rightarrow> kstate \<Rightarrow> (kstate, unit) outcome" where
  "thread_fork c kmalloc_ok kstrdup_ok stack_ok addthread fresh proc s =
     (case thread_create kmalloc_ok kstrdup_ok fresh s of
        (s1, None) \<Rightarrow> Err s1 ENOMEM
      | (s1, Some t) \<Rightarrow>
          if \<not> stack_ok then and_then (thread_destroy c t s1) (\<lambda>s2 _. Err s2 ENOMEM)
          else and_then (thread_checkstack_init t (upd_thread t (\<lambda>r. r\<lparr>t_stack := Some (replicate STACK_WORDS 0)\<rparr>) s1))
            (\<lambda>s2 _.
               let s3 = upd_thread t (\<lambda>r. r\<lparr>t_cpu := t_cpu (k_thread s2 (curthread s2 c))\<rparr>) s2;
                   p = (case proc of None \<Rightarrow> t_proc (k_thread s3 (curthread s3 c)) | Some q \<Rightarrow> Some q)
               in case addthread of
                    Some e \<Rightarrow> and_then (thread_destroy c t s3) (\<lambda>s4 _. Err s4 e)
                  | None \<Rightarrow>
                      thread_make_runnable c t False
                        (upd_thread t (\<lambda>r. r\<lparr>t_proc := p, t_iplhigh_count := t_iplhigh_count r + 1,
                           t_context := Some In_startup\<rparr>) s3)))"

section \<open>The context switch\<close>

text \<open>
  How a call of \<open>thread_switch\<close> leaves the processor: it returned to its caller, the processor idles,
  or the processor runs the named thread.
\<close>

datatype switched = Sw_return | Sw_idle | Sw_to tid

text \<open>What a thread does when \<open>switchframe_switch\<close> has loaded it, its run queue lock held.\<close>

definition switch_in :: "cpuid \<Rightarrow> kstate \<Rightarrow> (kstate, unit) outcome" where
  "switch_in c s =
     (let cur = curthread s c
      in case t_context (k_thread s cur) of
           None \<Rightarrow> Fault
         | Some fr \<Rightarrow>
             and_then (spinlock_release c (RunqLock c) (upd_thread cur (\<lambda>r. r\<lparr>t_wchan_name := None, t_state := S_RUN\<rparr>) s))
               (\<lambda>s1 _. and_then (exorcise c s1)
                 (\<lambda>s2 _. and_then (case fr of In_switch spl \<Rightarrow> splx c spl s2 | In_startup \<Rightarrow> spl0 c s2)
                   (\<lambda>s3 _. Ok s3 ()))))"

text \<open>One round of the idle loop, with the run queue lock held; without work it releases the lock and idles.\<close>

definition switch_pick :: "cpuid \<Rightarrow> kstate \<Rightarrow> (kstate, switched) outcome" where
  "switch_pick c s =
     and_then (k_remhead (RunQ c) s)
       (\<lambda>s1 next. case next of
          None \<Rightarrow> and_then (spinlock_release c (RunqLock c) s1) (\<lambda>s2 _. Ok s2 Sw_idle)
        | Some t \<Rightarrow>
            and_then (switch_in c (upd_cpu c (\<lambda>r. r\<lparr>c_isidle := False, c_curthread := t\<rparr>) s1))
              (\<lambda>s2 _. Ok s2 (Sw_to t)))"

definition idle_round :: "cpuid \<Rightarrow> kstate \<Rightarrow> (kstate, switched) outcome" where
  "idle_round c s = and_then (spinlock_acquire c (RunqLock c) s) (\<lambda>s1 _. switch_pick c s1)"

text \<open>Putting the current thread where its new state says, with the run queue lock held.\<close>

definition switch_out :: "cpuid \<Rightarrow> threadstate \<Rightarrow> wid option \<Rightarrow> lockid option \<Rightarrow> kstate \<Rightarrow> (kstate, unit) outcome" where
  "switch_out c newstate wc lk s =
     (let cur = curthread s c
      in case newstate of
           S_RUN \<Rightarrow> Panic
         | S_READY \<Rightarrow> thread_make_runnable c cur True s
         | S_SLEEP \<Rightarrow>
             (case (wc, lk) of
                (Some w, Some l) \<Rightarrow>
                  and_then (k_addtail (Wchan w) cur (upd_thread cur (\<lambda>r. r\<lparr>t_wchan_name := Some (k_wcname s w)\<rparr>) s))
                    (\<lambda>s1 _. spinlock_release c l s1)
              | _ \<Rightarrow> Fault)
         | S_ZOMBIE \<Rightarrow> k_addtail (Zombies c) cur (upd_thread cur (\<lambda>r. r\<lparr>t_wchan_name := Some ''ZOMBIE''\<rparr>) s))"

definition thread_switch ::
    "cpuid \<Rightarrow> threadstate \<Rightarrow> wid option \<Rightarrow> lockid option \<Rightarrow> kstate \<Rightarrow> (kstate, switched) outcome" where
  "thread_switch c newstate wc lk s =
     and_then (splhigh c s)
       (\<lambda>s1 spl.
          let cur = curthread s1 c
          in if c_isidle (k_cpu s1 c) then and_then (splx c spl s1) (\<lambda>s2 _. Ok s2 Sw_return)
             else and_then (thread_checkstack cur s1)
               (\<lambda>s2 _. and_then (spinlock_acquire c (RunqLock c) s2)
                 (\<lambda>s3 _.
                    if newstate = S_READY \<and> k_list s3 (RunQ c) = [] then
                      and_then (spinlock_release c (RunqLock c) s3)
                        (\<lambda>s4 _. and_then (splx c spl s4) (\<lambda>s5 _. Ok s5 Sw_return))
                    else and_then (switch_out c newstate wc lk s3)
                      (\<lambda>s4 _. switch_pick c
                         (upd_cpu c (\<lambda>r. r\<lparr>c_isidle := True\<rparr>)
                           (upd_thread cur (\<lambda>r. r\<lparr>t_state := newstate, t_context := Some (In_switch spl)\<rparr>) s4))))))"

definition thread_yield :: "cpuid \<Rightarrow> kstate \<Rightarrow> (kstate, switched) outcome" where
  "thread_yield c s = thread_switch c S_READY None None s"

text \<open>\<open>proc_remthread\<close> detaches the thread from its process; \<open>thread_exit\<close> never returns.\<close>

definition thread_exit :: "cpuid \<Rightarrow> kstate \<Rightarrow> (kstate, switched) outcome" where
  "thread_exit c s =
     (let cur = curthread s c;
          s1 = upd_thread cur (\<lambda>r. r\<lparr>t_proc := None\<rparr>) s
      in kassert (t_proc (k_thread s1 cur) = None)
           (and_then (thread_checkstack cur s1)
             (\<lambda>s2 _. and_then (splhigh c s2)
               (\<lambda>s3 _. and_then (thread_switch c S_ZOMBIE None None s3)
                 (\<lambda>s4 r. if r = Sw_return then Panic else Ok s4 r)))))"

section \<open>Wait channels\<close>

definition wchan_create :: "bool \<Rightarrow> wid \<Rightarrow> string \<Rightarrow> kstate \<Rightarrow> kstate \<times> wid option" where
  "wchan_create kmalloc_ok fresh name s =
     (if \<not> kmalloc_ok then (s, None)
      else (s\<lparr>k_list := (k_list s)(Wchan fresh := []), k_wcname := (k_wcname s)(fresh := name)\<rparr>, Some fresh))"

definition wchan_destroy :: "wid \<Rightarrow> kstate \<Rightarrow> (kstate, unit) outcome" where
  "wchan_destroy wc s = kassert (k_list s (Wchan wc) = []) (Ok s ())"

text \<open>A sleeper that is resumed later takes the lock again: \<open>wchan_sleep_resume\<close>.\<close>

definition wchan_sleep_resume :: "cpuid \<Rightarrow> lockid \<Rightarrow> kstate \<Rightarrow> (kstate, unit) outcome" where
  "wchan_sleep_resume c lk s = spinlock_acquire c lk s"

definition wchan_sleep :: "cpuid \<Rightarrow> wid \<Rightarrow> lockid \<Rightarrow> kstate \<Rightarrow> (kstate, switched) outcome" where
  "wchan_sleep c wc lk s =
     kassert (\<not> t_in_interrupt (k_thread s (curthread s c)))
       (kassert (spinlock_do_i_hold c lk s) (kassert (c_spinlocks (k_cpu s c) = 1)
         (and_then (thread_switch c S_SLEEP (Some wc) (Some lk) s)
           (\<lambda>s1 r. if r = Sw_return then and_then (wchan_sleep_resume c lk s1) (\<lambda>s2 _. Ok s2 Sw_return)
                   else Ok s1 r))))"

definition wchan_wakeone :: "cpuid \<Rightarrow> wid \<Rightarrow> lockid \<Rightarrow> kstate \<Rightarrow> (kstate, unit) outcome" where
  "wchan_wakeone c wc lk s =
     kassert (spinlock_do_i_hold c lk s)
       (and_then (k_remhead (Wchan wc) s)
         (\<lambda>s1 target. case target of None \<Rightarrow> Ok s1 () | Some t \<Rightarrow> thread_make_runnable c t False s1))"

definition wchan_isempty :: "cpuid \<Rightarrow> wid \<Rightarrow> lockid \<Rightarrow> kstate \<Rightarrow> (kstate, bool) outcome" where
  "wchan_isempty c wc lk s = kassert (spinlock_do_i_hold c lk s) (Ok s (k_list s (Wchan wc) = []))"

lemma k_addtail_Ok_list: "k_addtail l t s = Ok s' u \<Longrightarrow> k_list s' = (k_list s)(l := k_list s l @ [t])"
  by (auto simp: k_addtail_def split: if_splits)

lemma splraise_Ok_list: "splraise c a b s = Ok s' u \<Longrightarrow> k_list s' = k_list s"
  by (auto simp: splraise_def cpu_irqoff_def Let_def outcome_iffs)

lemma spllower_Ok_list: "spllower c a b s = Ok s' u \<Longrightarrow> k_list s' = k_list s"
  by (auto simp: spllower_def cpu_irqon_def Let_def outcome_iffs)

lemma spinlock_Ok_list:
  "spinlock_acquire c l s = Ok s' u \<Longrightarrow> k_list s' = k_list s"
  "spinlock_release c l s = Ok s' u \<Longrightarrow> k_list s' = k_list s"
  by (auto simp: spinlock_acquire_def spinlock_release_def Let_def outcome_iffs
      dest!: splraise_Ok_list spllower_Ok_list split: if_splits)

lemma ipi_send_Ok_list: "ipi_send c d k s = Ok s' u \<Longrightarrow> k_list s' = k_list s"
  by (auto simp: ipi_send_def outcome_iffs dest!: spinlock_Ok_list)

lemma thread_make_runnable_Ok_list:
  "thread_make_runnable c t b s = Ok s' u \<Longrightarrow>
    \<exists>d. t_cpu (k_thread s t) = Some d \<and> k_list s' = (k_list s)(RunQ d := k_list s (RunQ d) @ [t])"
  by (auto simp: thread_make_runnable_def outcome_iffs split: option.splits if_splits
      dest!: spinlock_Ok_list ipi_send_Ok_list k_addtail_Ok_list)

lemma k_remhead_Ok: "k_remhead l s = Ok s' (Some t) \<Longrightarrow> \<exists>ts. k_list s l = t # ts \<and> k_list s' = (k_list s)(l := ts)"
  by (auto simp: k_remhead_def split: list.splits)

text \<open>The two loops of \<open>wchan_wakeall\<close>, and the loop that gives the victims of a migration back.\<close>

function list_move :: "lid \<Rightarrow> lid \<Rightarrow> kstate \<Rightarrow> (kstate, unit) outcome" where
  "list_move a b s =
     (if a = b then Fault
      else and_then (k_remhead a s)
        (\<lambda>s1 t. case t of None \<Rightarrow> Ok s1 () | Some t \<Rightarrow> and_then (k_addtail b t s1) (\<lambda>s2 _. list_move a b s2)))"
  by pat_completeness auto
termination
  by (relation "measure (\<lambda>(a, b, s). length (k_list s a))") (auto dest!: k_remhead_Ok k_addtail_Ok_list)

function wake_list :: "cpuid \<Rightarrow> kstate \<Rightarrow> (kstate, unit) outcome" where
  "wake_list c s =
     and_then (k_remhead (LocalList c) s)
       (\<lambda>s1 t. case t of None \<Rightarrow> Ok s1 () | Some t \<Rightarrow>
          and_then (thread_make_runnable c t False s1) (\<lambda>s2 _. wake_list c s2))"
  by pat_completeness auto
termination
  by (relation "measure (\<lambda>(c, s). length (k_list s (LocalList c)))")
     (auto dest!: k_remhead_Ok thread_make_runnable_Ok_list)

declare list_move.simps [simp del] wake_list.simps [simp del]

definition wchan_wakeall :: "cpuid \<Rightarrow> wid \<Rightarrow> lockid \<Rightarrow> kstate \<Rightarrow> (kstate, unit) outcome" where
  "wchan_wakeall c wc lk s =
     kassert (spinlock_do_i_hold c lk s)
       (and_then (list_move (Wchan wc) (LocalList c) (s\<lparr>k_list := (k_list s)(LocalList c := [])\<rparr>))
         (\<lambda>s1 _. and_then (wake_list c s1)
           (\<lambda>s2 _. kassert (k_list s2 (LocalList c) = []) (Ok s2 ()))))"

section \<open>Migration\<close>

definition tl_count_of :: "kstate \<Rightarrow> lid \<Rightarrow> u32" where
  "tl_count_of s l = of_nat (length (k_list s l))"

text \<open>The counting loop over all processors.\<close>

fun count_runnable :: "cpuid \<Rightarrow> cpuid list \<Rightarrow> u32 \<Rightarrow> u32 \<Rightarrow> kstate \<Rightarrow> (kstate, u32 \<times> u32) outcome" where
  "count_runnable c [] my_count total_count s = Ok s (my_count, total_count)"
| "count_runnable c (i # is) my_count total_count s =
     and_then (spinlock_acquire c (RunqLock i) s)
       (\<lambda>s1 _. let n = tl_count_of s1 (RunQ i)
               in and_then (spinlock_release c (RunqLock i) s1)
                    (\<lambda>s2 _. count_runnable c is (if i = c then n else my_count) (total_count + n) s2))"

text \<open>Taking \<open>n\<close> threads off the tail of the own run queue.\<close>

fun take_victims :: "cpuid \<Rightarrow> nat \<Rightarrow> kstate \<Rightarrow> (kstate, unit) outcome" where
  "take_victims c 0 s = Ok s ()"
| "take_victims c (Suc n) s =
     and_then (k_remtail (RunQ c) s)
       (\<lambda>s1 t. case t of None \<Rightarrow> Fault | Some t \<Rightarrow>
          and_then (k_addhead (LocalList c) t s1) (\<lambda>s2 _. take_victims c n s2))"

text \<open>Filling up processor \<open>d\<close>; the result is the remaining \<open>to_send\<close>.\<close>

function fill_cpu :: "cpuid \<Rightarrow> cpuid \<Rightarrow> u32 \<Rightarrow> u32 \<Rightarrow> kstate \<Rightarrow> (kstate, u32) outcome" where
  "fill_cpu c d one_share to_send s =
     (if tl_count_of s (RunQ d) < one_share \<and> 0 < to_send then
        and_then (k_remhead (LocalList c) s)
          (\<lambda>s1 t. case t of None \<Rightarrow> Fault | Some t \<Rightarrow>
             if t = curthread s1 c then
               and_then (k_addtail (LocalList c) t s1) (\<lambda>s2 _. fill_cpu c d one_share (to_send - 1) s2)
             else
               and_then (k_addtail (RunQ d) t (upd_thread t (\<lambda>r. r\<lparr>t_cpu := Some d\<rparr>) s1))
                 (\<lambda>s2 _. and_then (if c_isidle (k_cpu s2 d) then ipi_send c d IPI_UNIDLE s2 else Ok s2 ())
                   (\<lambda>s3 _. fill_cpu c d one_share (to_send - 1) s3)))
      else Ok s to_send)"
  by pat_completeness auto
termination
proof (relation "measure (\<lambda>(c, d, one_share, to_send, s). unat to_send)", goal_cases)
  case 1
  show ?case by simp
qed (auto simp: word_less_nat_alt unat_sub word_le_nat_alt)

declare fill_cpu.simps [simp del]

fun distribute :: "cpuid \<Rightarrow> cpuid list \<Rightarrow> u32 \<Rightarrow> u32 \<Rightarrow> kstate \<Rightarrow> (kstate, unit) outcome" where
  "distribute c [] one_share to_send s = Ok s ()"
| "distribute c (i # is) one_share to_send s =
     (if \<not> 0 < to_send then Ok s ()
      else if i = c then distribute c is one_share to_send s
      else and_then (spinlock_acquire c (RunqLock i) s)
        (\<lambda>s1 _. and_then (fill_cpu c i one_share to_send s1)
          (\<lambda>s2 to_send'. and_then (spinlock_release c (RunqLock i) s2)
            (\<lambda>s3 _. distribute c is one_share to_send' s3))))"

definition thread_consider_migration :: "cpuid \<Rightarrow> kstate \<Rightarrow> (kstate, unit) outcome" where
  "thread_consider_migration c s =
     (let numcpus = of_nat (k_ncpus s)
      in and_then (count_runnable c [0..<k_ncpus s] 0 0 s)
        (\<lambda>s1 (my_count, total_count).
           if numcpus = 0 then Fault
           else
             let one_share = (total_count + numcpus - 1) div numcpus
             in if my_count < one_share then Ok s1 ()
                else
                  let to_send = my_count - one_share
                  in and_then (spinlock_acquire c (RunqLock c) (s1\<lparr>k_list := (k_list s1)(LocalList c := [])\<rparr>))
                    (\<lambda>s2 _. and_then (take_victims c (unat to_send) s2)
                      (\<lambda>s3 _. and_then (spinlock_release c (RunqLock c) s3)
                        (\<lambda>s4 _. and_then (distribute c [0..<k_ncpus s] one_share to_send s4)
                          (\<lambda>s5 _. and_then
                             (if k_list s5 (LocalList c) \<noteq> [] then
                                and_then (spinlock_acquire c (RunqLock c) s5)
                                  (\<lambda>s6 _. and_then (list_move (LocalList c) (RunQ c) s6)
                                    (\<lambda>s7 _. spinlock_release c (RunqLock c) s7))
                              else Ok s5 ())
                             (\<lambda>s8 _. kassert (k_list s8 (LocalList c) = []) (Ok s8 ()))))))))"

section \<open>Handling an inter-processor interrupt\<close>

text \<open>\<open>cpu_halt\<close> stops the processor for good.\<close>

datatype ipi_result = Halted | Handled

definition interprocessor_interrupt :: "cpuid \<Rightarrow> kstate \<Rightarrow> (kstate, ipi_result) outcome" where
  "interprocessor_interrupt c s =
     and_then (spinlock_acquire c (IpiLock c) s)
       (\<lambda>s1 _.
          let bits = c_ipi_pending (k_cpu s1 c)
          in if bits AND push_bit IPI_PANIC 1 \<noteq> 0 then
               and_then (spinlock_release c (IpiLock c) s1) (\<lambda>s2 _. Ok s2 Halted)
             else if bits AND push_bit IPI_OFFLINE 1 \<noteq> 0 then
               and_then (spinlock_release c (IpiLock c) s1)
                 (\<lambda>s2 _. and_then (spinlock_acquire c (RunqLock c) s2)
                   (\<lambda>s3 _. and_then (spinlock_release c (RunqLock c) s3) (\<lambda>s4 _. Ok s4 Halted)))
             else
               let s2 = (if bits AND push_bit IPI_TLBSHOOTDOWN 1 \<noteq> 0 then
                           let n = c_numshootdown (k_cpu s1 c);
                               tlb = (if n = TLBSHOOTDOWN_ALL then vm_tlbshootdown_all (k_tlb s1 c)
                                      else fold vm_tlbshootdown (take (nat n) (c_shootdown (k_cpu s1 c))) (k_tlb s1 c))
                           in upd_cpu c (\<lambda>r. r\<lparr>c_numshootdown := 0\<rparr>) (s1\<lparr>k_tlb := (k_tlb s1)(c := tlb)\<rparr>)
                         else s1)
               in and_then (spinlock_release c (IpiLock c) (upd_cpu c (\<lambda>r. r\<lparr>c_ipi_pending := 0\<rparr>) s2))
                    (\<lambda>s3 _. Ok s3 Handled))"

definition thread_shutdown :: "cpuid \<Rightarrow> kstate \<Rightarrow> (kstate, unit) outcome" where
  "thread_shutdown c s = ipi_broadcast c IPI_OFFLINE s"

text \<open>\<open>thread_panic\<close> stops the other processors and empties the run queue without unlinking its threads.\<close>

definition thread_panic :: "cpuid \<Rightarrow> kstate \<Rightarrow> (kstate, unit) outcome" where
  "thread_panic c s =
     and_then (ipi_broadcast c IPI_PANIC s) (\<lambda>s1 _. Ok (s1\<lparr>k_list := (k_list s1)(RunQ c := [])\<rparr>) ())"

section \<open>Clock interrupts\<close>

text \<open>\<open>kern/thread/clock.c\<close>; the channel \<open>lbolt\<close> and its lock are arguments.\<close>

definition SCHEDULE_HARDCLOCKS :: u32 where "SCHEDULE_HARDCLOCKS = 4"
definition MIGRATE_HARDCLOCKS :: u32 where "MIGRATE_HARDCLOCKS = 16"

definition schedule :: "kstate \<Rightarrow> kstate" where
  "schedule s = s"

definition timerclock :: "cpuid \<Rightarrow> wid \<Rightarrow> lockid \<Rightarrow> kstate \<Rightarrow> (kstate, unit) outcome" where
  "timerclock c lbolt lbolt_lock s =
     and_then (spinlock_acquire c lbolt_lock s)
       (\<lambda>s1 _. and_then (wchan_wakeall c lbolt lbolt_lock s1) (\<lambda>s2 _. spinlock_release c lbolt_lock s2))"

definition hardclock :: "cpuid \<Rightarrow> kstate \<Rightarrow> (kstate, switched) outcome" where
  "hardclock c s =
     (let s1 = upd_cpu c (\<lambda>r. r\<lparr>c_hardclocks := c_hardclocks r + 1\<rparr>) s;
          n = c_hardclocks (k_cpu s1 c)
      in and_then (if n mod MIGRATE_HARDCLOCKS = 0 then thread_consider_migration c s1 else Ok s1 ())
           (\<lambda>s2 _. thread_yield c (if n mod SCHEDULE_HARDCLOCKS = 0 then schedule s2 else s2)))"

end
