(* ===== verification/Sched.thy ===== *)
theory Sched
  imports Thread
begin

text \<open>
  Correctness of the thread system: where every thread is, that no operation loses one or runs one
  twice, that interrupt levels are balanced, and that no assertion of the modelled code can fail.
\<close>

section \<open>Operations in terms of lists\<close>

lemma curthread_upd [simp]:
  "curthread (upd_thread t f s) c = curthread s c"
  "curthread (upd_cpu d g s) c = (if c = d then c_curthread (g (k_cpu s d)) else curthread s c)"
  "curthread (upd_lock l k s) c = curthread s c"
  "curthread (s\<lparr>k_list := L\<rparr>) c = curthread s c"
  "curthread (s\<lparr>k_live := V\<rparr>) c = curthread s c"
  "curthread (s\<lparr>k_thread := T\<rparr>) c = curthread s c"
  by (simp_all add: curthread_def)

lemma c_curthread_fold [simp]: "c_curthread (k_cpu s c) = curthread s c"
  by (simp add: curthread_def)

lemma upd_thread_twice [simp]: "upd_thread t f (upd_thread t g s) = upd_thread t (\<lambda>r. f (g r)) s"
  by (simp add: upd_thread_def)

lemma upd_thread_list [simp]: "upd_thread t f s\<lparr>k_list := L\<rparr> = upd_thread t f (s\<lparr>k_list := L\<rparr>)"
  by (simp add: upd_thread_def)

text \<open>A processor that may take another lock without its lock counter wrapping.\<close>

definition lock_room :: "nat \<Rightarrow> kstate \<Rightarrow> cpuid \<Rightarrow> bool" where
  "lock_room n s c \<longleftrightarrow> unat (c_spinlocks (k_cpu s c)) + n < 1000"

lemma word_succ_pos: "unat (x :: u32) < 1000 \<Longrightarrow> 0 < x + 1"
  by (simp add: word_less_nat_alt unat_word_ariths)

lemma unat_succ_small: "unat (x :: u32) < 1000 \<Longrightarrow> unat (x + 1) = Suc (unat x)"
  by (simp add: unat_word_ariths)

lemma irq_ok_acq: "irq_ok s c \<Longrightarrow> irq_ok (acq c l s) c"
  by (auto simp: irq_ok_def)

lemma lock_room_acq: "lock_room (Suc n) s c \<Longrightarrow> lock_room n (acq c l s) c"
  by (auto simp: lock_room_def unat_succ_small)

lemma ipi_send_ok:
  assumes "k_lock s (IpiLock d) = spinlock_init" and "irq_ok s c" and "lock_room 0 s c" and "code < 32"
  shows "\<exists>s'. ipi_send c d code s = Ok s' () \<and> sched_eq s s' \<and> ipl_same s s'"
proof -
  let ?l = "IpiLock d"
  let ?f = "\<lambda>r. r\<lparr>c_ipi_pending := c_ipi_pending r OR 2 ^ code\<rparr>"
  let ?s = "rel c ?l (upd_cpu d ?f (acq c ?l s))"
  have p: "0 < c_spinlocks (k_cpu s c) + 1" using assms(3) by (intro word_succ_pos) (simp add: lock_room_def)
  have "ipi_send c d code s = Ok ?s ()"
    using assms(1,4) p acquire_acq [OF assms(1), of c] by (cases "c = d") (simp_all add: ipi_send_def release_rel)
  moreover have "sched_eq s ?s"
    by (simp add: sched_eq_def rel_def acq_def forget_ipl_def forget_cpu_def)
  moreover have "ipl_same s ?s"
    using assms(1,2) by (auto simp: ipl_same_def irq_ok_def)
  ultimately show ?thesis by blast
qed

text \<open>Moving a thread to the end of a run queue.\<close>

definition mk_ready :: "tid \<Rightarrow> cpuid \<Rightarrow> kstate \<Rightarrow> kstate" where
  "mk_ready t d s =
     upd_thread t (\<lambda>r. r\<lparr>t_state := S_READY, t_linked := True\<rparr>)
       (s\<lparr>k_list := (k_list s)(RunQ d := k_list s (RunQ d) @ [t])\<rparr>)"

lemma sched_eq_upd_thread:
  assumes "sched_eq s s'" and "\<And>r r'. forget_ipl r = forget_ipl r' \<Longrightarrow> forget_ipl (f r) = forget_ipl (f' r')"
  shows "sched_eq (upd_thread t f s) (upd_thread t f' s')"
  using assms(1) assms(2) [of "k_thread s t" "k_thread s' t"] by (simp add: sched_eq_def)

lemma sched_eq_list: "sched_eq s s' \<Longrightarrow> sched_eq (s\<lparr>k_list := L\<rparr>) (s'\<lparr>k_list := L\<rparr>)"
  by (simp add: sched_eq_def)

lemma sched_eq_mk_ready:
  assumes "sched_eq s s'"
  shows "sched_eq (mk_ready t d s)
      (upd_thread t (\<lambda>r. r\<lparr>t_state := S_READY, t_linked := True\<rparr>)
        (s'\<lparr>k_list := (k_list s')(RunQ d := k_list s' (RunQ d) @ [t])\<rparr>))"
  unfolding mk_ready_def
proof (rule sched_eq_upd_thread)
  show "sched_eq (s\<lparr>k_list := (k_list s)(RunQ d := k_list s (RunQ d) @ [t])\<rparr>)
      (s'\<lparr>k_list := (k_list s')(RunQ d := k_list s' (RunQ d) @ [t])\<rparr>)"
    using sched_eq_list [OF assms] assms by (simp add: sched_eqD(2) [OF assms])
  show "forget_ipl (r\<lparr>t_state := S_READY, t_linked := True\<rparr>) = forget_ipl (r'\<lparr>t_state := S_READY, t_linked := True\<rparr>)"
    if "forget_ipl r = forget_ipl r'" for r r'
    using that by (cases r; cases r') (simp add: forget_ipl_def)
qed

lemma thread_make_runnable_ok:
  assumes "t_cpu (k_thread s t) = Some d" and "\<not> t_linked (k_thread s t)"
    and "k_lock s (RunqLock d) = spinlock_init" and "k_lock s (IpiLock d) = spinlock_init"
    and "irq_ok s c" and "lock_room 1 s c"
  shows "\<exists>s'. thread_make_runnable c t False s = Ok s' () \<and> sched_eq (mk_ready t d s) s' \<and> ipl_same s s'"
proof -
  define m where "m = upd_thread t (\<lambda>r. r\<lparr>t_state := S_READY, t_linked := True\<rparr>)
     (acq c (RunqLock d) s\<lparr>k_list := (k_list s)(RunQ d := k_list s (RunQ d) @ [t])\<rparr>)"
  have add: "k_addtail (RunQ d) t (upd_thread t (\<lambda>r. r\<lparr>t_state := S_READY\<rparr>) (acq c (RunqLock d) s)) = Ok m ()"
    using assms(2) by (simp add: k_addtail_def m_def)
  have irq: "irq_ok m c" using irq_ok_acq [OF assms(5)] by (auto simp: irq_ok_def m_def)
  have "lock_room 0 m c" using lock_room_acq [of 0 s c "RunqLock d"] assms(6) by (simp add: lock_room_def m_def)
  moreover have "k_lock m (IpiLock d) = spinlock_init" using assms(4) by (simp add: m_def)
  ultimately obtain s3 where s3: "(if c_isidle (k_cpu m d) then ipi_send c d IPI_UNIDLE m else Ok m ()) = Ok s3 ()"
      "sched_eq m s3" "ipl_same m s3"
    using ipi_send_ok [of m d c IPI_UNIDLE] irq by (cases "c_isidle (k_cpu m d)") (auto simp: IPI_UNIDLE_def)
  have pos: "0 < c_spinlocks (k_cpu s3 c)"
    using ipl_sameD(4) [OF s3(3)] word_succ_pos assms(6) by (simp add: lock_room_def m_def)
  have held: "k_lock s3 (RunqLock d) = held_by c" using ipl_sameD(1) [OF s3(3)] by (simp add: m_def)
  have "thread_make_runnable c t False s = Ok (rel c (RunqLock d) s3) ()"
    using assms(1) release_rel [OF held pos]
    by (simp add: thread_make_runnable_def acquire_acq [OF assms(3), of c] add s3(1))
  moreover have "sched_eq (mk_ready t d s) (rel c (RunqLock d) s3)"
    using sched_eq_mk_ready [OF acq_sched, of t d s c "RunqLock d"] sched_eq_trans [OF s3(2) rel_sched]
    by (auto intro: sched_eq_trans simp: m_def)
  moreover have "ipl_same s (rel c (RunqLock d) s3)"
    using ipl_sameD [OF s3(3)] sched_eqD(13) [OF s3(2)] assms(3,5) by (auto simp: ipl_same_def irq_ok_def m_def)
  ultimately show ?thesis by blast
qed

section \<open>Where threads are\<close>

text \<open>
  The location invariant. Every thread on a list is live, resumable, in the state that list stands
  for and (on the lists of a processor) bound to that processor; no thread is on two lists; every
  processor has a live current thread bound to it, running and on no list unless the processor idles;
  every live thread is either the running thread of its processor or on a list.
\<close>

fun list_ok :: "kstate \<Rightarrow> lid \<Rightarrow> sthread \<Rightarrow> bool" where
  "list_ok s (RunQ c) r \<longleftrightarrow> c < k_ncpus s \<and> t_state r = S_READY \<and> t_cpu r = Some c"
| "list_ok s (Zombies c) r \<longleftrightarrow> c < k_ncpus s \<and> t_state r = S_ZOMBIE \<and> t_cpu r = Some c \<and> t_proc r = None"
| "list_ok s (Wchan w) r \<longleftrightarrow> t_state r = S_SLEEP \<and> (\<exists>c < k_ncpus s. t_cpu r = Some c)"
| "list_ok s (LocalList c) r \<longleftrightarrow>
     c < k_ncpus s \<and> (\<exists>d < k_ncpus s. t_cpu r = Some d) \<and> (t_state r = S_SLEEP \<or> t_state r = S_READY \<and> t_cpu r = Some c)"

definition stack_ok :: "sthread \<Rightarrow> bool" where
  "stack_ok r \<longleftrightarrow> (case t_stack r of None \<Rightarrow> True | Some v \<Rightarrow> 4 \<le> length v \<and> (\<forall>i < 4. v ! i = THREAD_STACK_MAGIC))"

definition on_lists :: "kstate \<Rightarrow> tid \<Rightarrow> bool" where
  "on_lists s t \<longleftrightarrow> (\<exists>l. t \<in> set (k_list s l))"

definition lists_inv :: "kstate \<Rightarrow> bool" where
  "lists_inv s \<longleftrightarrow>
     (\<forall>l. distinct (k_list s l)) \<and>
     (\<forall>l m t. t \<in> set (k_list s l) \<longrightarrow> t \<in> set (k_list s m) \<longrightarrow> l = m) \<and>
     (\<forall>t. t_linked (k_thread s t) \<longleftrightarrow> on_lists s t) \<and>
     (\<forall>l t. t \<in> set (k_list s l) \<longrightarrow> k_live s t \<and> t_context (k_thread s t) \<noteq> None \<and> list_ok s l (k_thread s t))"

definition cpus_inv :: "kstate \<Rightarrow> bool" where
  "cpus_inv s \<longleftrightarrow>
     (\<forall>c < k_ncpus s. k_live s (curthread s c) \<and> t_cpu (k_thread s (curthread s c)) = Some c \<and>
        (if c_isidle (k_cpu s c) then on_lists s (curthread s c)
         else t_state (k_thread s (curthread s c)) = S_RUN \<and> \<not> on_lists s (curthread s c)))"

definition live_inv :: "kstate \<Rightarrow> bool" where
  "live_inv s \<longleftrightarrow>
     (\<forall>t. k_live s t \<longrightarrow> stack_ok (k_thread s t) \<and>
        (on_lists s t \<or> (\<exists>c < k_ncpus s. curthread s c = t \<and> \<not> c_isidle (k_cpu s c))))"

definition loc_inv :: "kstate \<Rightarrow> bool" where
  "loc_inv s \<longleftrightarrow> lists_inv s \<and> cpus_inv s \<and> live_inv s"

lemma list_ok_cong:
  "k_ncpus s' = k_ncpus s \<Longrightarrow> t_state r' = t_state r \<Longrightarrow> t_cpu r' = t_cpu r \<Longrightarrow> t_proc r' = t_proc r \<Longrightarrow>
    list_ok s' l r' = list_ok s l r"
  by (cases l) simp_all

lemma loc_inv_sched_eq: "sched_eq s s' \<Longrightarrow> loc_inv s' = loc_inv s"
proof -
  assume e: "sched_eq s s'"
  note d = sched_eqD [OF e]
  have "list_ok s' l (k_thread s' t) = list_ok s l (k_thread s t)" for l t by (intro list_ok_cong) (simp_all add: d)
  then show ?thesis
    by (simp add: loc_inv_def lists_inv_def cpus_inv_def live_inv_def on_lists_def stack_ok_def d)
qed

text \<open>
  The interrupt invariant. \<open>ipl_cpu k s d\<close>: processor \<open>d\<close> holds \<open>k\<close> spinlocks and its current thread
  counts one reason to keep interrupts off per spinlock, and one more when its level is \<open>IPL_HIGH\<close>.
  \<open>ipl_at c H k s\<close>: processor \<open>c\<close> is inside an operation, holding the \<open>k\<close> locks \<open>H\<close>; the others hold none.
  A switched-out thread waits at \<open>IPL_HIGH\<close> with the run queue lock counted in.
\<close>

definition ipl_cpu :: "nat \<Rightarrow> kstate \<Rightarrow> cpuid \<Rightarrow> bool" where
  "ipl_cpu k s d \<longleftrightarrow>
     c_spinlocks (k_cpu s d) = of_nat k \<and>
     t_curspl (k_thread s (curthread s d)) \<le> 1 \<and>
     t_iplhigh_count (k_thread s (curthread s d)) = int k + int (t_curspl (k_thread s (curthread s d))) \<and>
     (c_irqon (k_cpu s d) \<longleftrightarrow> t_iplhigh_count (k_thread s (curthread s d)) = 0) \<and>
     (c_isidle (k_cpu s d) \<longrightarrow> t_curspl (k_thread s (curthread s d)) = 1)"

definition ipl_off :: "kstate \<Rightarrow> bool" where
  "ipl_off s \<longleftrightarrow>
     (\<forall>t. k_live s t \<longrightarrow> (\<forall>c < k_ncpus s. curthread s c \<noteq> t) \<longrightarrow>
        t_curspl (k_thread s t) = 1 \<and> t_iplhigh_count (k_thread s t) = 2) \<and>
     (\<forall>t spl. t_context (k_thread s t) = Some (In_switch spl) \<longrightarrow> spl \<le> 1)"

definition ipl_at :: "cpuid \<Rightarrow> lockid set \<Rightarrow> nat \<Rightarrow> kstate \<Rightarrow> bool" where
  "ipl_at c H k s \<longleftrightarrow>
     (\<forall>l. k_lock s l = (if l \<in> H then held_by c else spinlock_init)) \<and>
     (\<forall>d < k_ncpus s. ipl_cpu (if d = c then k else 0) s d) \<and> ipl_off s"

definition ipl_inv :: "kstate \<Rightarrow> bool" where
  "ipl_inv s \<longleftrightarrow> (\<forall>l. k_lock s l = spinlock_init) \<and> (\<forall>d < k_ncpus s. ipl_cpu 0 s d) \<and> ipl_off s"

definition no_local :: "kstate \<Rightarrow> bool" where
  "no_local s \<longleftrightarrow> (\<forall>c. k_list s (LocalList c) = [])"

text \<open>What holds between kernel events.\<close>

definition sched_inv :: "kstate \<Rightarrow> bool" where
  "sched_inv s \<longleftrightarrow> loc_inv s \<and> ipl_inv s \<and> no_local s"

section \<open>Moves that keep the location invariant\<close>

lemma loc_invD:
  assumes "loc_inv s"
  shows "distinct (k_list s l)"
    and "t \<in> set (k_list s l) \<Longrightarrow> t \<in> set (k_list s m) \<Longrightarrow> l = m"
    and "t_linked (k_thread s t) \<longleftrightarrow> on_lists s t"
    and "t \<in> set (k_list s l) \<Longrightarrow> k_live s t"
    and "t \<in> set (k_list s l) \<Longrightarrow> t_context (k_thread s t) \<noteq> None"
    and "t \<in> set (k_list s l) \<Longrightarrow> list_ok s l (k_thread s t)"
    and "c < k_ncpus s \<Longrightarrow> k_live s (curthread s c)"
    and "c < k_ncpus s \<Longrightarrow> t_cpu (k_thread s (curthread s c)) = Some c"
    and "c < k_ncpus s \<Longrightarrow> c_isidle (k_cpu s c) \<Longrightarrow> on_lists s (curthread s c)"
    and "c < k_ncpus s \<Longrightarrow> \<not> c_isidle (k_cpu s c) \<Longrightarrow> t_state (k_thread s (curthread s c)) = S_RUN"
    and "c < k_ncpus s \<Longrightarrow> \<not> c_isidle (k_cpu s c) \<Longrightarrow> \<not> on_lists s (curthread s c)"
    and "k_live s t \<Longrightarrow> stack_ok (k_thread s t)"
    and "k_live s t \<Longrightarrow> on_lists s t \<or> (\<exists>c < k_ncpus s. curthread s c = t \<and> \<not> c_isidle (k_cpu s c))"
proof -
  have l: "lists_inv s" and c: "cpus_inv s" and v: "live_inv s" using assms by (simp_all add: loc_inv_def)
  show "distinct (k_list s l)" "t \<in> set (k_list s l) \<Longrightarrow> t \<in> set (k_list s m) \<Longrightarrow> l = m"
    "t_linked (k_thread s t) \<longleftrightarrow> on_lists s t" "t \<in> set (k_list s l) \<Longrightarrow> k_live s t"
    "t \<in> set (k_list s l) \<Longrightarrow> t_context (k_thread s t) \<noteq> None"
    "t \<in> set (k_list s l) \<Longrightarrow> list_ok s l (k_thread s t)"
    using l unfolding lists_inv_def by blast+
  show "c < k_ncpus s \<Longrightarrow> k_live s (curthread s c)"
    "c < k_ncpus s \<Longrightarrow> t_cpu (k_thread s (curthread s c)) = Some c"
    "c < k_ncpus s \<Longrightarrow> c_isidle (k_cpu s c) \<Longrightarrow> on_lists s (curthread s c)"
    "c < k_ncpus s \<Longrightarrow> \<not> c_isidle (k_cpu s c) \<Longrightarrow> t_state (k_thread s (curthread s c)) = S_RUN"
    "c < k_ncpus s \<Longrightarrow> \<not> c_isidle (k_cpu s c) \<Longrightarrow> \<not> on_lists s (curthread s c)"
    using c unfolding cpus_inv_def by simp_all
  show "k_live s t \<Longrightarrow> stack_ok (k_thread s t)"
    "k_live s t \<Longrightarrow> on_lists s t \<or> (\<exists>c < k_ncpus s. curthread s c = t \<and> \<not> c_isidle (k_cpu s c))"
    using v unfolding live_inv_def by blast+
qed

lemma curthread_inj:
  "loc_inv s \<Longrightarrow> c < k_ncpus s \<Longrightarrow> d < k_ncpus s \<Longrightarrow> curthread s c = curthread s d \<Longrightarrow> c = d"
  by (metis loc_invD(8) option.inject)

text \<open>Lists after a change at one place.\<close>

lemma lists_invI:
  assumes "\<And>l. distinct (k_list s l)" and "\<And>l m t. t \<in> set (k_list s l) \<Longrightarrow> t \<in> set (k_list s m) \<Longrightarrow> l = m"
    and "\<And>t. t_linked (k_thread s t) \<longleftrightarrow> on_lists s t"
    and "\<And>l t. t \<in> set (k_list s l) \<Longrightarrow> k_live s t \<and> t_context (k_thread s t) \<noteq> None \<and> list_ok s l (k_thread s t)"
  shows "lists_inv s"
  using assms unfolding lists_inv_def by blast

text \<open>A thread moves from one list to another and gets the record \<open>r\<close>.\<close>

definition moved :: "lid \<Rightarrow> tid list \<Rightarrow> lid \<Rightarrow> tid list \<Rightarrow> tid \<Rightarrow> sthread \<Rightarrow> kstate \<Rightarrow> kstate" where
  "moved l ts m us t r s = s\<lparr>k_list := (k_list s)(l := ts, m := us), k_thread := (k_thread s)(t := r)\<rparr>"

lemma moved_sel [simp]:
  "k_list (moved l ts m us t r s) = (k_list s)(l := ts, m := us)"
  "k_thread (moved l ts m us t r s) = (k_thread s)(t := r)"
  "k_live (moved l ts m us t r s) = k_live s" "k_cpu (moved l ts m us t r s) = k_cpu s"
  "k_ncpus (moved l ts m us t r s) = k_ncpus s" "curthread (moved l ts m us t r s) c = curthread s c"
  "k_lock (moved l ts m us t r s) = k_lock s"
  by (simp_all add: moved_def)

lemma loc_inv_move:
  assumes inv: "loc_inv s" and l: "k_list s l = xs @ t # ys" and lm: "m \<noteq> l"
    and us: "set us = insert t (set (k_list s m))" "distinct us"
    and r: "list_ok s m r" "t_context r \<noteq> None" "t_linked r" "stack_ok r"
    and cpu: "\<And>c. c < k_ncpus s \<Longrightarrow> curthread s c = t \<Longrightarrow> t_cpu r = Some c"
  shows "loc_inv (moved l (xs @ ys) m us t r s)"
proof -
  let ?s = "moved l (xs @ ys) m us t r s"
  note D = loc_invD [OF inv]
  have tl: "t \<in> set (k_list s l)" using l by simp
  have td: "t \<notin> set (xs @ ys)" using D(1) [of l] l by auto
  have mem: "x \<in> set (k_list ?s n) \<longleftrightarrow> (if x = t then n = m else x \<in> set (k_list s n))" for x n
  proof (cases "x = t")
    case True
    have "t \<notin> set (k_list s n)" if "n \<noteq> l" using D(2) [OF tl] that by blast
    then show ?thesis using True td us(1) lm by auto
  next
    case False
    then show ?thesis using l us(1) by auto
  qed
  have tn: "on_lists s t" using tl by (auto simp: on_lists_def)
  have on: "on_lists ?s x \<longleftrightarrow> on_lists s x" for x
    using tn unfolding on_lists_def mem by (cases "x = t") simp_all
  have ok: "list_ok ?s n q = list_ok s n q" for n q by (cases n) simp_all
  have "lists_inv ?s"
  proof (rule lists_invI)
    show "distinct (k_list ?s n)" for n using D(1) [of l] D(1) [of n] l us(2) by auto
    show "n = k" if "x \<in> set (k_list ?s n)" "x \<in> set (k_list ?s k)" for n k x
      using that D(2) [of x n k] unfolding mem by (auto split: if_splits)
    show "t_linked (k_thread ?s x) \<longleftrightarrow> on_lists ?s x" for x
      using D(3) [of x] r(3) tn unfolding on by simp
    show "k_live ?s x \<and> t_context (k_thread ?s x) \<noteq> None \<and> list_ok ?s n (k_thread ?s x)"
      if "x \<in> set (k_list ?s n)" for n x
      using that D(4-6) [of x n] D(4) [OF tl] r(1,2) unfolding mem ok by (auto split: if_splits)
  qed
  moreover have "cpus_inv ?s"
    unfolding cpus_inv_def on
  proof (intro allI impI)
    fix c assume "c < k_ncpus ?s"
    then have c: "c < k_ncpus s" by simp
    show "k_live ?s (curthread ?s c) \<and> t_cpu (k_thread ?s (curthread ?s c)) = Some c \<and>
        (if c_isidle (k_cpu ?s c) then on_lists s (curthread ?s c)
         else t_state (k_thread ?s (curthread ?s c)) = S_RUN \<and> \<not> on_lists s (curthread ?s c))"
      using D(7-11) [OF c] cpu [OF c] tn by (cases "curthread s c = t") auto
  qed
  moreover have "live_inv ?s"
    using D(12,13) r(4) unfolding live_inv_def on by auto
  ultimately show ?thesis by (simp add: loc_inv_def)
qed

text \<open>A permutation of one list.\<close>

lemma loc_inv_permute:
  assumes inv: "loc_inv s" and "set us = set (k_list s l)" and "distinct us"
  shows "loc_inv (s\<lparr>k_list := (k_list s)(l := us)\<rparr>)"
proof -
  let ?s = "s\<lparr>k_list := (k_list s)(l := us)\<rparr>"
  note D = loc_invD [OF inv]
  have mem: "set (k_list ?s n) = set (k_list s n)" for n using assms by simp
  have on: "on_lists ?s x \<longleftrightarrow> on_lists s x" for x unfolding on_lists_def mem ..
  have ok: "list_ok ?s n q = list_ok s n q" for n q by (cases n) simp_all
  have "lists_inv ?s"
  proof (rule lists_invI)
    show "distinct (k_list ?s n)" for n using D(1) [of n] assms(3) by simp
    show "n = k" if "x \<in> set (k_list ?s n)" "x \<in> set (k_list ?s k)" for n k x
      using that D(2) [of x n k] unfolding mem by simp
    show "t_linked (k_thread ?s x) \<longleftrightarrow> on_lists ?s x" for x using D(3) [of x] unfolding on by simp
    show "k_live ?s x \<and> t_context (k_thread ?s x) \<noteq> None \<and> list_ok ?s n (k_thread ?s x)"
      if "x \<in> set (k_list ?s n)" for n x
      using that D(4-6) [of x n] unfolding mem ok by simp
  qed
  then show ?thesis using inv unfolding loc_inv_def cpus_inv_def live_inv_def on by simp
qed

text \<open>The current thread goes to the end of a list and its processor idles.\<close>

definition blocked :: "cpuid \<Rightarrow> lid \<Rightarrow> sthread \<Rightarrow> kstate \<Rightarrow> kstate" where
  "blocked c l r s =
     s\<lparr>k_list := (k_list s)(l := k_list s l @ [curthread s c]), k_thread := (k_thread s)(curthread s c := r),
       k_cpu := (k_cpu s)(c := (k_cpu s c)\<lparr>c_isidle := True\<rparr>)\<rparr>"

lemma blocked_sel [simp]:
  "k_list (blocked c l r s) = (k_list s)(l := k_list s l @ [curthread s c])"
  "k_thread (blocked c l r s) = (k_thread s)(curthread s c := r)"
  "k_live (blocked c l r s) = k_live s" "k_ncpus (blocked c l r s) = k_ncpus s"
  "k_lock (blocked c l r s) = k_lock s" "k_wcname (blocked c l r s) = k_wcname s" "k_tlb (blocked c l r s) = k_tlb s"
  "kstate.more (blocked c l r s) = kstate.more s"
  "k_cpu (blocked c l r s) = (k_cpu s)(c := (k_cpu s c)\<lparr>c_isidle := True\<rparr>)"
  by (simp_all add: blocked_def)

lemma blocked_curthread [simp]: "curthread (blocked c l r s) d = curthread s d"
  unfolding curthread_def by (simp add: blocked_def)

lemma loc_inv_block:
  assumes inv: "loc_inv s" and c: "c < k_ncpus s" "\<not> c_isidle (k_cpu s c)"
    and r: "list_ok s l r" "t_context r \<noteq> None" "t_linked r" "stack_ok r" "t_cpu r = Some c"
  shows "loc_inv (blocked c l r s)"
proof -
  let ?t = "curthread s c" and ?s = "blocked c l r s"
  note D = loc_invD [OF inv]
  have off: "\<not> on_lists s ?t" by (rule D(11) [OF c])
  have mem: "x \<in> set (k_list ?s n) \<longleftrightarrow> x \<in> set (k_list s n) \<or> x = ?t \<and> n = l" for x n by auto
  have on: "on_lists ?s x \<longleftrightarrow> on_lists s x \<or> x = ?t" for x unfolding on_lists_def mem by auto
  have ok: "list_ok ?s n q = list_ok s n q" for n q by (cases n) simp_all
  have notin: "?t \<notin> set (k_list s n)" for n using off by (auto simp: on_lists_def)
  have "lists_inv ?s"
  proof (rule lists_invI)
    show "distinct (k_list ?s n)" for n using D(1) [of n] notin by auto
    show "n = k" if "x \<in> set (k_list ?s n)" "x \<in> set (k_list ?s k)" for n k x
      using that D(2) [of x n k] notin unfolding mem by auto
    show "t_linked (k_thread ?s x) \<longleftrightarrow> on_lists ?s x" for x
      using D(3) [of x] r(3) unfolding on by simp
    show "k_live ?s x \<and> t_context (k_thread ?s x) \<noteq> None \<and> list_ok ?s n (k_thread ?s x)"
      if "x \<in> set (k_list ?s n)" for n x
      using that D(4-6) [of x n] D(7) [OF c(1)] r(1,2) notin unfolding mem ok by auto
  qed
  moreover have "cpus_inv ?s" unfolding cpus_inv_def on
  proof (intro allI impI)
    fix d assume "d < k_ncpus ?s"
    then have d: "d < k_ncpus s" by simp
    show "k_live ?s (curthread ?s d) \<and> t_cpu (k_thread ?s (curthread ?s d)) = Some d \<and>
        (if c_isidle (k_cpu ?s d) then on_lists s (curthread ?s d) \<or> curthread ?s d = ?t
         else t_state (k_thread ?s (curthread ?s d)) = S_RUN \<and> \<not> (on_lists s (curthread ?s d) \<or> curthread ?s d = ?t))"
      using D(7-11) [OF d] r(5) curthread_inj [OF inv d c(1)] by (cases "d = c") auto
  qed
  moreover have "live_inv ?s" unfolding live_inv_def on
  proof (intro allI impI)
    fix x assume "k_live ?s x"
    then have x: "k_live s x" by simp
    have "\<exists>d < k_ncpus ?s. curthread ?s d = x \<and> \<not> c_isidle (k_cpu ?s d)" if "\<not> on_lists s x" "x \<noteq> ?t"
    proof -
      have "\<exists>d < k_ncpus s. curthread s d = x \<and> \<not> c_isidle (k_cpu s d)" using D(13) [OF x] that(1) by blast
      then show ?thesis using that(2) by force
    qed
    moreover have "stack_ok (k_thread ?s x)" using D(12) [OF x] r(4) by simp
    ultimately show "stack_ok (k_thread ?s x) \<and> ((on_lists s x \<or> x = ?t) \<or>
        (\<exists>d < k_ncpus ?s. curthread ?s d = x \<and> \<not> c_isidle (k_cpu ?s d)))" by blast
  qed
  ultimately show ?thesis by (simp add: loc_inv_def)
qed

text \<open>An idle processor takes the first thread of its run queue.\<close>

definition picked :: "cpuid \<Rightarrow> tid list \<Rightarrow> tid \<Rightarrow> sthread \<Rightarrow> kstate \<Rightarrow> kstate" where
  "picked c ts t r s =
     s\<lparr>k_list := (k_list s)(RunQ c := ts), k_thread := (k_thread s)(t := r),
       k_cpu := (k_cpu s)(c := (k_cpu s c)\<lparr>c_isidle := False, c_curthread := t\<rparr>)\<rparr>"

lemma picked_sel [simp]:
  "k_list (picked c ts t r s) = (k_list s)(RunQ c := ts)"
  "k_thread (picked c ts t r s) = (k_thread s)(t := r)"
  "k_live (picked c ts t r s) = k_live s" "k_ncpus (picked c ts t r s) = k_ncpus s"
  "k_lock (picked c ts t r s) = k_lock s"
  "k_cpu (picked c ts t r s) = (k_cpu s)(c := (k_cpu s c)\<lparr>c_isidle := False, c_curthread := t\<rparr>)"
  by (simp_all add: picked_def)

lemma picked_curthread [simp]: "curthread (picked c ts t r s) d = (if d = c then t else curthread s d)"
  unfolding curthread_def by (simp add: picked_def)

lemma loc_inv_pick:
  assumes inv: "loc_inv s" and c: "c < k_ncpus s" "c_isidle (k_cpu s c)" and l: "k_list s (RunQ c) = t # ts"
    and r: "t_state r = S_RUN" "\<not> t_linked r" "stack_ok r" "t_cpu r = Some c"
  shows "loc_inv (picked c ts t r s)"
proof -
  let ?s = "picked c ts t r s"
  note D = loc_invD [OF inv]
  have tl: "t \<in> set (k_list s (RunQ c))" using l by simp
  have td: "t \<notin> set ts" using D(1) [of "RunQ c"] l by simp
  have tc: "t_cpu (k_thread s t) = Some c" using D(6) [OF tl] by simp
  have mem: "x \<in> set (k_list ?s n) \<longleftrightarrow> x \<noteq> t \<and> x \<in> set (k_list s n)" for x n
    using D(2) [OF tl, of n] td l by (cases "n = RunQ c") auto
  have on: "on_lists ?s x \<longleftrightarrow> x \<noteq> t \<and> on_lists s x" for x unfolding on_lists_def mem by auto
  have ok: "list_ok ?s n q = list_ok s n q" for n q by (cases n) simp_all
  have other: "curthread s d \<noteq> t" if "d < k_ncpus s" "d \<noteq> c" for d
    using D(8) [OF that(1)] tc that(2) by auto
  have "lists_inv ?s"
  proof (rule lists_invI)
    show "distinct (k_list ?s n)" for n using D(1) [of n] l by (cases "n = RunQ c") auto
    show "n = k" if "x \<in> set (k_list ?s n)" "x \<in> set (k_list ?s k)" for n k x
      using that D(2) [of x n k] unfolding mem by auto
    show "t_linked (k_thread ?s x) \<longleftrightarrow> on_lists ?s x" for x
      using D(3) [of x] r(2) unfolding on by simp
    show "k_live ?s x \<and> t_context (k_thread ?s x) \<noteq> None \<and> list_ok ?s n (k_thread ?s x)"
      if "x \<in> set (k_list ?s n)" for n x
      using that D(4-6) [of x n] unfolding mem ok by simp
  qed
  moreover have "cpus_inv ?s" unfolding cpus_inv_def on
  proof (intro allI impI)
    fix d assume "d < k_ncpus ?s"
    then have d: "d < k_ncpus s" by simp
    show "k_live ?s (curthread ?s d) \<and> t_cpu (k_thread ?s (curthread ?s d)) = Some d \<and>
        (if c_isidle (k_cpu ?s d) then curthread ?s d \<noteq> t \<and> on_lists s (curthread ?s d)
         else t_state (k_thread ?s (curthread ?s d)) = S_RUN \<and> \<not> (curthread ?s d \<noteq> t \<and> on_lists s (curthread ?s d)))"
      using D(7-11) [OF d] r D(4) [OF tl] other [OF d] by (cases "d = c") auto
  qed
  moreover have "live_inv ?s" unfolding live_inv_def on
  proof (intro allI impI)
    fix x assume "k_live ?s x"
    then have x: "k_live s x" by simp
    have "\<exists>d < k_ncpus ?s. curthread ?s d = x \<and> \<not> c_isidle (k_cpu ?s d)" if xt: "x = t \<or> \<not> on_lists s x"
    proof (cases "x = t")
      case True
      then show ?thesis using c(1) by (intro exI [of _ c]) simp
    next
      case False
      then obtain d where "d < k_ncpus s" "curthread s d = x" "\<not> c_isidle (k_cpu s d)" using D(13) [OF x] xt by auto
      then show ?thesis using c(2) by (intro exI [of _ d]) auto
    qed
    moreover have "stack_ok (k_thread ?s x)" using D(12) [OF x] r(3) by simp
    ultimately show "stack_ok (k_thread ?s x) \<and> ((x \<noteq> t \<and> on_lists s x) \<or>
        (\<exists>d < k_ncpus ?s. curthread ?s d = x \<and> \<not> c_isidle (k_cpu ?s d)))" by blast
  qed
  ultimately show ?thesis by (simp add: loc_inv_def)
qed

text \<open>A zombie is destroyed by the thread that now runs on its processor.\<close>

definition reaped :: "cpuid \<Rightarrow> tid list \<Rightarrow> tid \<Rightarrow> sthread \<Rightarrow> kstate \<Rightarrow> kstate" where
  "reaped c zs z r s =
     s\<lparr>k_list := (k_list s)(Zombies c := zs), k_live := (k_live s)(z := False), k_thread := (k_thread s)(z := r)\<rparr>"

lemma reaped_sel [simp]:
  "k_list (reaped c zs z r s) = (k_list s)(Zombies c := zs)"
  "k_thread (reaped c zs z r s) = (k_thread s)(z := r)"
  "k_live (reaped c zs z r s) = (k_live s)(z := False)" "k_ncpus (reaped c zs z r s) = k_ncpus s"
  "k_cpu (reaped c zs z r s) = k_cpu s" "k_lock (reaped c zs z r s) = k_lock s"
  "curthread (reaped c zs z r s) d = curthread s d"
  by (simp_all add: reaped_def)

lemma zombie_not_current:
  assumes inv: "loc_inv s" and z: "z \<in> set (k_list s (Zombies c))" and c: "\<not> c_isidle (k_cpu s c)" and d: "d < k_ncpus s"
  shows "curthread s d \<noteq> z"
proof
  assume e: "curthread s d = z"
  have "t_cpu (k_thread s z) = Some c" using loc_invD(6) [OF inv z] by simp
  then have "d = c" using loc_invD(8) [OF inv d] e by simp
  then have "\<not> on_lists s z" using loc_invD(11) [OF inv d] c e by simp
  then show False using z by (auto simp: on_lists_def)
qed

lemma loc_inv_reap:
  assumes inv: "loc_inv s" and c: "\<not> c_isidle (k_cpu s c)" and l: "k_list s (Zombies c) = z # zs" and r: "\<not> t_linked r"
  shows "loc_inv (reaped c zs z r s)"
proof -
  let ?s = "reaped c zs z r s"
  note D = loc_invD [OF inv]
  have zl: "z \<in> set (k_list s (Zombies c))" using l by simp
  have zd: "z \<notin> set zs" using D(1) [of "Zombies c"] l by simp
  have mem: "x \<in> set (k_list ?s n) \<longleftrightarrow> x \<noteq> z \<and> x \<in> set (k_list s n)" for x n
    using D(2) [OF zl, of n] zd l by (cases "n = Zombies c") auto
  have on: "on_lists ?s x \<longleftrightarrow> x \<noteq> z \<and> on_lists s x" for x unfolding on_lists_def mem by auto
  have ok: "list_ok ?s n q = list_ok s n q" for n q by (cases n) simp_all
  note cur = zombie_not_current [OF inv zl c]
  have "lists_inv ?s"
  proof (rule lists_invI)
    show "distinct (k_list ?s n)" for n using D(1) [of n] l by (cases "n = Zombies c") auto
    show "n = k" if "x \<in> set (k_list ?s n)" "x \<in> set (k_list ?s k)" for n k x
      using that D(2) [of x n k] unfolding mem by auto
    show "t_linked (k_thread ?s x) \<longleftrightarrow> on_lists ?s x" for x
      using D(3) [of x] r unfolding on by simp
    show "k_live ?s x \<and> t_context (k_thread ?s x) \<noteq> None \<and> list_ok ?s n (k_thread ?s x)"
      if "x \<in> set (k_list ?s n)" for n x
      using that D(4-6) [of x n] unfolding mem ok by simp
  qed
  moreover have "cpus_inv ?s" unfolding cpus_inv_def on
  proof (intro allI impI)
    fix d assume "d < k_ncpus ?s"
    then have d: "d < k_ncpus s" by simp
    show "k_live ?s (curthread ?s d) \<and> t_cpu (k_thread ?s (curthread ?s d)) = Some d \<and>
        (if c_isidle (k_cpu ?s d) then curthread ?s d \<noteq> z \<and> on_lists s (curthread ?s d)
         else t_state (k_thread ?s (curthread ?s d)) = S_RUN \<and> \<not> (curthread ?s d \<noteq> z \<and> on_lists s (curthread ?s d)))"
      using D(7-11) [OF d] cur [OF d] by auto
  qed
  moreover have "live_inv ?s"
    using D(12,13) unfolding live_inv_def on by auto
  ultimately show ?thesis by (simp add: loc_inv_def)
qed

text \<open>A new thread enters a run queue.\<close>

definition forked :: "cpuid \<Rightarrow> tid \<Rightarrow> sthread \<Rightarrow> kstate \<Rightarrow> kstate" where
  "forked c t r s =
     s\<lparr>k_list := (k_list s)(RunQ c := k_list s (RunQ c) @ [t]), k_thread := (k_thread s)(t := r),
       k_live := (k_live s)(t := True)\<rparr>"

lemma forked_sel [simp]:
  "k_list (forked c t r s) = (k_list s)(RunQ c := k_list s (RunQ c) @ [t])"
  "k_thread (forked c t r s) = (k_thread s)(t := r)"
  "k_live (forked c t r s) = (k_live s)(t := True)" "k_ncpus (forked c t r s) = k_ncpus s"
  "k_cpu (forked c t r s) = k_cpu s" "curthread (forked c t r s) d = curthread s d"
  by (simp_all add: forked_def)

lemma loc_inv_fork:
  assumes inv: "loc_inv s" and t: "\<not> k_live s t"
    and r: "list_ok s (RunQ c) r" "t_context r \<noteq> None" "t_linked r" "stack_ok r"
  shows "loc_inv (forked c t r s)"
proof -
  let ?s = "forked c t r s"
  note D = loc_invD [OF inv]
  have notin: "t \<notin> set (k_list s n)" for n using D(4) t by blast
  have cur: "curthread s d \<noteq> t" if "d < k_ncpus s" for d using D(7) [OF that] t by auto
  have mem: "x \<in> set (k_list ?s n) \<longleftrightarrow> x \<in> set (k_list s n) \<or> x = t \<and> n = RunQ c" for x n by auto
  have on: "on_lists ?s x \<longleftrightarrow> on_lists s x \<or> x = t" for x unfolding on_lists_def mem by auto
  have ok: "list_ok ?s n q = list_ok s n q" for n q by (cases n) simp_all
  have "lists_inv ?s"
  proof (rule lists_invI)
    show "distinct (k_list ?s n)" for n using D(1) [of n] notin by auto
    show "n = k" if "x \<in> set (k_list ?s n)" "x \<in> set (k_list ?s k)" for n k x
      using that D(2) [of x n k] notin unfolding mem by auto
    show "t_linked (k_thread ?s x) \<longleftrightarrow> on_lists ?s x" for x
      using D(3) [of x] r(3) unfolding on by simp
    show "k_live ?s x \<and> t_context (k_thread ?s x) \<noteq> None \<and> list_ok ?s n (k_thread ?s x)"
      if "x \<in> set (k_list ?s n)" for n x
      using that D(4-6) [of x n] r(1,2) notin unfolding mem ok by auto
  qed
  moreover have "cpus_inv ?s" unfolding cpus_inv_def on
  proof (intro allI impI)
    fix d assume "d < k_ncpus ?s"
    then have d: "d < k_ncpus s" by simp
    show "k_live ?s (curthread ?s d) \<and> t_cpu (k_thread ?s (curthread ?s d)) = Some d \<and>
        (if c_isidle (k_cpu ?s d) then on_lists s (curthread ?s d) \<or> curthread ?s d = t
         else t_state (k_thread ?s (curthread ?s d)) = S_RUN \<and> \<not> (on_lists s (curthread ?s d) \<or> curthread ?s d = t))"
      using D(7-11) [OF d] cur [OF d] by auto
  qed
  moreover have "live_inv ?s"
    using D(12,13) r(4) unfolding live_inv_def on by auto
  ultimately show ?thesis by (simp add: loc_inv_def)
qed

section \<open>Interrupt levels through an operation\<close>

lemma ipl_inv_at: "ipl_inv s \<longleftrightarrow> ipl_at c {} 0 s"
  by (simp add: ipl_inv_def ipl_at_def)

lemma ipl_atD:
  assumes "ipl_at c H k s"
  shows "l \<in> H \<Longrightarrow> k_lock s l = held_by c" and "l \<notin> H \<Longrightarrow> k_lock s l = spinlock_init"
    and "d < k_ncpus s \<Longrightarrow> d \<noteq> c \<Longrightarrow> ipl_cpu 0 s d" and "c < k_ncpus s \<Longrightarrow> ipl_cpu k s c" and "ipl_off s"
proof -
  have d: "\<forall>d < k_ncpus s. ipl_cpu (if d = c then k else 0) s d" and l: "\<forall>l. k_lock s l = (if l \<in> H then held_by c else spinlock_init)"
    and o: "ipl_off s" using assms by (simp_all add: ipl_at_def)
  show "l \<in> H \<Longrightarrow> k_lock s l = held_by c" "l \<notin> H \<Longrightarrow> k_lock s l = spinlock_init" using l by simp_all
  show "d < k_ncpus s \<Longrightarrow> d \<noteq> c \<Longrightarrow> ipl_cpu 0 s d" using d [rule_format, of d] by simp
  show "c < k_ncpus s \<Longrightarrow> ipl_cpu k s c" using d [rule_format, of c] by simp
  show "ipl_off s" by (rule o)
qed

lemma ipl_atI:
  assumes "ipl_at c H j s" and "k_lock s' = k_lock s" and "k_ncpus s' = k_ncpus s"
    and "\<And>d. d < k_ncpus s \<Longrightarrow> ipl_cpu (if d = c then k else 0) s' d" and "ipl_off s'"
  shows "ipl_at c H k s'"
  using assms unfolding ipl_at_def by simp

lemma ipl_at_same:
  assumes "ipl_at c H k s" and "ipl_same s s'" and "k_ncpus s' = k_ncpus s" and "k_live s' = k_live s"
    and "\<And>d. curthread s' d = curthread s d" and "\<And>d. c_isidle (k_cpu s' d) = c_isidle (k_cpu s d)"
    and "\<And>t. t_context (k_thread s' t) = t_context (k_thread s t)"
  shows "ipl_at c H k s'"
  using assms(1) unfolding ipl_at_def ipl_cpu_def ipl_off_def by (simp add: assms(3-) ipl_sameD [OF assms(2)])

lemma irq_ok_at: "ipl_at c H k s \<Longrightarrow> c < k_ncpus s \<Longrightarrow> irq_ok s c"
  using ipl_atD(4) [of c H k s] by (simp add: ipl_cpu_def irq_ok_def)

lemma lock_room_at: "ipl_at c H k s \<Longrightarrow> c < k_ncpus s \<Longrightarrow> k < 100 \<Longrightarrow> lock_room 5 s c"
  using ipl_atD(4) [of c H k s] by (simp add: ipl_cpu_def lock_room_def unat_of_nat_32)

lemma ipl_off_frame:
  assumes "ipl_off s" and "k_live s' = k_live s" and "k_ncpus s' = k_ncpus s"
    and "\<And>d. curthread s' d = curthread s d" and "\<And>t. t_context (k_thread s' t) = t_context (k_thread s t)"
    and "\<And>t. (\<And>d. d < k_ncpus s \<Longrightarrow> curthread s d \<noteq> t) \<Longrightarrow>
      t_curspl (k_thread s' t) = t_curspl (k_thread s t) \<and> t_iplhigh_count (k_thread s' t) = t_iplhigh_count (k_thread s t)"
  shows "ipl_off s'"
  using assms unfolding ipl_off_def by auto

lemma ipl_at_acq:
  assumes at: "ipl_at c H k s" and c: "c < k_ncpus s" and inv: "loc_inv s"
  shows "ipl_at c (insert l H) (Suc k) (acq c l s)"
proof -
  have "ipl_cpu (if d = c then Suc k else 0) (acq c l s) d" if d: "d < k_ncpus s" for d
  proof (cases "d = c")
    case True
    then show ?thesis using ipl_atD(4) [OF at c] by (auto simp: ipl_cpu_def)
  next
    case False
    then have "curthread s d \<noteq> curthread s c" using curthread_inj [OF inv d c] by blast
    then show ?thesis using ipl_atD(3) [OF at d False] False by (simp add: ipl_cpu_def)
  qed
  moreover have "ipl_off (acq c l s)"
    by (rule ipl_off_frame [OF ipl_atD(5) [OF at]]) (use c in auto)
  ultimately show ?thesis using at by (auto simp: ipl_at_def)
qed

lemma ipl_at_rel:
  assumes at: "ipl_at c H (Suc k) s" and c: "c < k_ncpus s" and inv: "loc_inv s"
  shows "ipl_at c (H - {l}) k (rel c l s)"
proof -
  have "ipl_cpu (if d = c then k else 0) (rel c l s) d" if d: "d < k_ncpus s" for d
  proof (cases "d = c")
    case True
    then show ?thesis using ipl_atD(4) [OF at c] by (auto simp: ipl_cpu_def)
  next
    case False
    then have "curthread s d \<noteq> curthread s c" using curthread_inj [OF inv d c] by blast
    then show ?thesis using ipl_atD(3) [OF at d False] False by (simp add: ipl_cpu_def)
  qed
  moreover have "ipl_off (rel c l s)"
    by (rule ipl_off_frame [OF ipl_atD(5) [OF at]]) (use c in auto)
  ultimately show ?thesis using at by (auto simp: ipl_at_def)
qed

lemma spin_pos: "ipl_at c H (Suc k) s \<Longrightarrow> c < k_ncpus s \<Longrightarrow> k < 100 \<Longrightarrow> 0 < c_spinlocks (k_cpu s c)"
  using ipl_atD(4) [of c H "Suc k" s] unat_of_nat_32 [of "Suc k"]
  by (simp add: ipl_cpu_def word_less_nat_alt del: of_nat_Suc)

text \<open>Acquiring and releasing inside an operation succeeds and keeps both invariants.\<close>

lemma acquire_at:
  assumes "ipl_at c H k s" and "c < k_ncpus s" and "loc_inv s" and "l \<notin> H"
  shows "spinlock_acquire c l s = Ok (acq c l s) ()" and "ipl_at c (insert l H) (Suc k) (acq c l s)"
    and "loc_inv (acq c l s)"
  using acquire_acq [OF ipl_atD(2) [OF assms(1,4)]] ipl_at_acq [OF assms(1-3)]
    loc_inv_sched_eq [OF acq_sched [of s c l]] assms(3) by simp_all

lemma release_at:
  assumes "ipl_at c H (Suc k) s" and "c < k_ncpus s" and "loc_inv s" and "l \<in> H" and "k < 100"
  shows "spinlock_release c l s = Ok (rel c l s) ()" and "ipl_at c (H - {l}) k (rel c l s)"
    and "loc_inv (rel c l s)"
  using release_rel [OF ipl_atD(1) [OF assms(1,4)] spin_pos [OF assms(1,2,5)]] ipl_at_rel [OF assms(1-3)]
    loc_inv_sched_eq [OF rel_sched [of s c l]] assms(3) by simp_all

section \<open>Raising and lowering the level\<close>

definition hi :: "cpuid \<Rightarrow> kstate \<Rightarrow> kstate" where
  "hi c s =
     (if t_curspl (k_thread s (curthread s c)) = 0 then
        upd_thread (curthread s c) (\<lambda>r. r\<lparr>t_iplhigh_count := t_iplhigh_count r + 1, t_curspl := 1\<rparr>)
          (upd_cpu c (\<lambda>r. r\<lparr>c_irqon := c_irqon r \<and> t_iplhigh_count (k_thread s (curthread s c)) \<noteq> 0\<rparr>) s)
      else s)"

definition lo :: "cpuid \<Rightarrow> nat \<Rightarrow> kstate \<Rightarrow> kstate" where
  "lo c spl s =
     (if spl = 0 then
        upd_thread (curthread s c) (\<lambda>r. r\<lparr>t_iplhigh_count := t_iplhigh_count r - 1, t_curspl := 0\<rparr>)
          (upd_cpu c (\<lambda>r. r\<lparr>c_irqon := c_irqon r \<or> t_iplhigh_count (k_thread s (curthread s c)) = 1\<rparr>) s)
      else s)"

lemma splhigh_hi:
  "t_curspl (k_thread s (curthread s c)) \<le> 1 \<Longrightarrow> splhigh c s = Ok (hi c s) (t_curspl (k_thread s (curthread s c)))"
  by (auto simp: splhigh_def splx_def splraise_def hi_def Let_def cpu_irqoff_def upd_cpu_def upd_thread_def
      IPL_NONE_def IPL_HIGH_def fun_eq_iff intro!: kstate.equality kcpu.equality)

lemma splx_lo:
  "t_curspl (k_thread s (curthread s c)) = 1 \<Longrightarrow> spl \<le> 1 \<Longrightarrow> splx c spl s = Ok (lo c spl s) 1"
  by (cases "spl = 0") (auto simp: splx_def spllower_def lo_def Let_def cpu_irqon_def upd_cpu_def upd_thread_def
      IPL_NONE_def IPL_HIGH_def fun_eq_iff intro!: kstate.equality kcpu.equality)

lemma hi_sched: "sched_eq s (hi c s)"
  by (simp add: sched_eq_def hi_def forget_ipl_def forget_cpu_def)

lemma lo_sched: "sched_eq s (lo c spl s)"
  by (simp add: sched_eq_def lo_def forget_ipl_def forget_cpu_def)

lemma hi_lo_sel [simp]:
  "k_lock (hi c s) = k_lock s" "k_lock (lo c spl s) = k_lock s"
  "c_spinlocks (k_cpu (hi c s) d) = c_spinlocks (k_cpu s d)"
  "c_spinlocks (k_cpu (lo c spl s) d) = c_spinlocks (k_cpu s d)"
  by (simp_all add: hi_def lo_def)

lemma hi_at:
  assumes at: "ipl_at c H k s" and c: "c < k_ncpus s" and inv: "loc_inv s"
  shows "splhigh c s = Ok (hi c s) (t_curspl (k_thread s (curthread s c)))" and "ipl_at c H k (hi c s)"
    and "loc_inv (hi c s)" and "t_curspl (k_thread (hi c s) (curthread s c)) = 1"
    and "t_curspl (k_thread s (curthread s c)) \<le> 1"
proof -
  have cpu: "ipl_cpu k s c" by (rule ipl_atD(4) [OF at c])
  then show le: "t_curspl (k_thread s (curthread s c)) \<le> 1" by (simp add: ipl_cpu_def)
  then show "splhigh c s = Ok (hi c s) (t_curspl (k_thread s (curthread s c)))" by (rule splhigh_hi)
  show "loc_inv (hi c s)" using loc_inv_sched_eq [OF hi_sched [of s c]] inv by simp
  show "t_curspl (k_thread (hi c s) (curthread s c)) = 1" using le by (auto simp: hi_def)
  note e = sched_eqD [OF hi_sched [of s c]]
  have "ipl_cpu (if d = c then k else 0) (hi c s) d" if d: "d < k_ncpus s" for d
  proof (cases "d = c")
    case True
    then show ?thesis using cpu le unfolding ipl_cpu_def e by (auto simp: hi_def)
  next
    case False
    then have "curthread s d \<noteq> curthread s c" using curthread_inj [OF inv d c] by blast
    then show ?thesis using ipl_atD(3) [OF at d False] False unfolding ipl_cpu_def e by (simp add: hi_def)
  qed
  moreover have "ipl_off (hi c s)"
    by (rule ipl_off_frame [OF ipl_atD(5) [OF at]]) (use c e in \<open>auto simp: hi_def\<close>)
  ultimately show "ipl_at c H k (hi c s)" using at e by (auto simp: ipl_at_def)
qed

lemma lo_at:
  assumes at: "ipl_at c H k s" and c: "c < k_ncpus s" and inv: "loc_inv s"
    and one: "t_curspl (k_thread s (curthread s c)) = 1" and idle: "\<not> c_isidle (k_cpu s c)" and spl: "spl \<le> 1"
  shows "splx c spl s = Ok (lo c spl s) 1" and "ipl_at c H k (lo c spl s)" and "loc_inv (lo c spl s)"
proof -
  have cpu: "ipl_cpu k s c" by (rule ipl_atD(4) [OF at c])
  show "splx c spl s = Ok (lo c spl s) 1" using one spl by (rule splx_lo)
  show "loc_inv (lo c spl s)" using loc_inv_sched_eq [OF lo_sched [of s c spl]] inv by simp
  note e = sched_eqD [OF lo_sched [of s c spl]]
  have "ipl_cpu (if d = c then k else 0) (lo c spl s) d" if d: "d < k_ncpus s" for d
  proof (cases "d = c")
    case True
    then show ?thesis using cpu one idle spl unfolding ipl_cpu_def e by (auto simp: lo_def)
  next
    case False
    then have "curthread s d \<noteq> curthread s c" using curthread_inj [OF inv d c] by blast
    then show ?thesis using ipl_atD(3) [OF at d False] False unfolding ipl_cpu_def e by (simp add: lo_def)
  qed
  moreover have "ipl_off (lo c spl s)"
    by (rule ipl_off_frame [OF ipl_atD(5) [OF at]]) (use c e in \<open>auto simp: lo_def\<close>)
  ultimately show "ipl_at c H k (lo c spl s)" using at e by (auto simp: ipl_at_def)
qed

section \<open>Destroying zombies\<close>

lemma exorcise_step:
  assumes inv: "loc_inv s" and c: "c < k_ncpus s" "\<not> c_isidle (k_cpu s c)" and l: "k_list s (Zombies c) = z # zs"
  shows "exorcise c s = exorcise c (reaped c zs z ((k_thread s z)\<lparr>t_linked := False, t_wchan_name := Some ''DESTROYED''\<rparr>) s)"
proof -
  have z: "z \<in> set (k_list s (Zombies c))" using l by simp
  have "z \<noteq> curthread s c" using zombie_not_current [OF inv z c(2) c(1)] by auto
  moreover have "t_state (k_thread s z) = S_ZOMBIE" "t_proc (k_thread s z) = None" using loc_invD(6) [OF inv z] by simp_all
  ultimately show ?thesis using l
    by (subst exorcise.simps)
       (simp add: k_remhead_def thread_destroy_def reaped_def upd_thread_def)
qed

lemma ipl_at_reap:
  assumes "ipl_at c H k s" and "z \<in> set (k_list s (Zombies c))" and "loc_inv s" and "\<not> c_isidle (k_cpu s c)"
    and "t_context r = t_context (k_thread s z)"
  shows "ipl_at c H k (reaped c zs z r s)"
proof -
  have cur: "curthread s d \<noteq> z" if "d < k_ncpus s" for d using zombie_not_current [OF assms(3,2,4) that] .
  have "ipl_cpu j (reaped c zs z r s) d = ipl_cpu j s d" if "d < k_ncpus s" for d j
    using cur [OF that] by (simp add: ipl_cpu_def)
  moreover have "ipl_off (reaped c zs z r s)"
    using ipl_atD(5) [OF assms(1)] assms(5) unfolding ipl_off_def by auto
  ultimately show ?thesis using assms(1) by (simp add: ipl_at_def)
qed

lemma exorcise_ok:
  "loc_inv s \<Longrightarrow> ipl_at c H k s \<Longrightarrow> c < k_ncpus s \<Longrightarrow> \<not> c_isidle (k_cpu s c) \<Longrightarrow>
    \<exists>s'. exorcise c s = Ok s' () \<and> loc_inv s' \<and> ipl_at c H k s' \<and> k_list s' = (k_list s)(Zombies c := []) \<and>
      k_cpu s' = k_cpu s \<and> k_ncpus s' = k_ncpus s \<and>
      k_live s' = (\<lambda>t. k_live s t \<and> t \<notin> set (k_list s (Zombies c))) \<and>
      (\<forall>t. t \<notin> set (k_list s (Zombies c)) \<longrightarrow> k_thread s' t = k_thread s t)"
proof (induction "k_list s (Zombies c)" arbitrary: s)
  case Nil
  then have "exorcise c s = Ok s ()" by (subst exorcise.simps) (simp add: k_remhead_def)
  then show ?case using Nil by (simp add: fun_upd_idem)
next
  case (Cons z zs)
  let ?r = "(k_thread s z)\<lparr>t_linked := False, t_wchan_name := Some ''DESTROYED''\<rparr>"
  let ?s = "reaped c zs z ?r s"
  have l: "k_list s (Zombies c) = z # zs" using Cons.hyps(2) by simp
  have "loc_inv ?s" using loc_inv_reap [OF Cons.prems(1,4) l] by simp
  moreover have "ipl_at c H k ?s" using ipl_at_reap [OF Cons.prems(2) _ Cons.prems(1,4)] l by simp
  ultimately obtain s' where s': "exorcise c ?s = Ok s' ()" "loc_inv s'" "ipl_at c H k s'"
      "k_list s' = (k_list ?s)(Zombies c := [])" "k_cpu s' = k_cpu ?s" "k_ncpus s' = k_ncpus ?s"
      "k_live s' = (\<lambda>t. k_live ?s t \<and> t \<notin> set (k_list ?s (Zombies c)))"
      "\<forall>t. t \<notin> set (k_list ?s (Zombies c)) \<longrightarrow> k_thread s' t = k_thread ?s t"
    using Cons.hyps(1) [of ?s] Cons.prems(3,4) by auto
  then show ?case using exorcise_step [OF Cons.prems(1,3,4) l] l by (intro exI [of _ s']) auto
qed

section \<open>The switch\<close>

text \<open>The state from which a processor looks at its run queue: idle, holding only its run queue lock.\<close>

definition looking :: "cpuid \<Rightarrow> kstate \<Rightarrow> bool" where
  "looking c s \<longleftrightarrow>
     c < k_ncpus s \<and> loc_inv s \<and> no_local s \<and> c_isidle (k_cpu s c) \<and> ipl_at c {RunqLock c} 1 s"

lemma no_local_eq: "(\<And>d. k_list s' (LocalList d) = k_list s (LocalList d)) \<Longrightarrow> no_local s' = no_local s"
  by (simp add: no_local_def)

lemma switch_pick_idle:
  assumes "looking c s" and "k_list s (RunQ c) = []"
  shows "\<exists>s'. switch_pick c s = Ok s' Sw_idle \<and> sched_inv s' \<and> sched_eq s s'"
proof -
  have at: "ipl_at c {RunqLock c} (Suc 0) s" and c: "c < k_ncpus s" and inv: "loc_inv s" and nl: "no_local s"
    using assms(1) by (simp_all add: looking_def)
  note r = release_at [OF at c inv, of "RunqLock c"]
  have "switch_pick c s = Ok (rel c (RunqLock c) s) Sw_idle"
    using r(1) assms(2) by (simp add: switch_pick_def k_remhead_def)
  moreover have "sched_inv (rel c (RunqLock c) s)"
    using r nl by (simp add: sched_inv_def ipl_inv_at [of _ c] no_local_def)
  ultimately show ?thesis using rel_sched by blast
qed

text \<open>Loading a thread: the one before is switched out with the count a sleeper has, and vice versa.\<close>

lemma ipl_at_pick:
  assumes at: "ipl_at c H 1 s" and c: "c < k_ncpus s" "c_isidle (k_cpu s c)" and inv: "loc_inv s"
    and l: "k_list s (RunQ c) = t # ts"
    and r: "t_curspl r = t_curspl (k_thread s t)" "t_iplhigh_count r = t_iplhigh_count (k_thread s t)"
      "t_context r = t_context (k_thread s t)"
  shows "ipl_at c H 1 (picked c ts t r s)" and "t_curspl r = 1"
proof -
  let ?s = "picked c ts t r s"
  note D = loc_invD [OF inv]
  have tl: "t \<in> set (k_list s (RunQ c))" using l by simp
  have other: "curthread s d \<noteq> t" if "d < k_ncpus s" "d \<noteq> c" for d
    using D(8) [OF that(1)] D(6) [OF tl] that(2) by auto
  have one: "t_curspl (k_thread s x) = 1 \<and> t_iplhigh_count (k_thread s x) = 2"
    if "k_live s x" "\<And>d. d < k_ncpus s \<Longrightarrow> d \<noteq> c \<Longrightarrow> curthread s d \<noteq> x" for x
  proof (cases "x = curthread s c")
    case True
    then show ?thesis using ipl_atD(4) [OF at c(1)] c(2) by (simp add: ipl_cpu_def)
  next
    case False
    then show ?thesis using ipl_atD(5) [OF at] that unfolding ipl_off_def by metis
  qed
  have t1: "t_curspl (k_thread s t) = 1" "t_iplhigh_count (k_thread s t) = 2"
    using one [of t] D(4) [OF tl] other by auto
  then show "t_curspl r = 1" using r by simp
  have "ipl_cpu (if d = c then 1 else 0) ?s d" if d: "d < k_ncpus s" for d
  proof (cases "d = c")
    case True
    then show ?thesis using ipl_atD(4) [OF at c(1)] c(2) t1 r by (simp add: ipl_cpu_def)
  next
    case False
    then show ?thesis using ipl_atD(3) [OF at d False] other [OF d False] by (simp add: ipl_cpu_def)
  qed
  moreover have "ipl_off ?s" unfolding ipl_off_def
  proof (intro conjI allI impI)
    fix x assume x: "k_live ?s x" "\<forall>d < k_ncpus ?s. curthread ?s d \<noteq> x"
    have "x \<noteq> t" using x(2) c(1) by auto
    moreover have "t_curspl (k_thread s x) = 1 \<and> t_iplhigh_count (k_thread s x) = 2" using x by (intro one) auto
    ultimately show "t_curspl (k_thread ?s x) = 1" "t_iplhigh_count (k_thread ?s x) = 2" by simp_all
  next
    fix x spl assume "t_context (k_thread ?s x) = Some (In_switch spl)"
    then show "spl \<le> 1" using ipl_atD(5) [OF at] r(3) unfolding ipl_off_def by (auto split: if_splits)
  qed
  ultimately show "ipl_at c H 1 ?s" by (intro ipl_atI [OF at]) simp_all
qed

text \<open>After a pick the chosen thread runs and the zombies of the processor are gone.\<close>

lemma switch_pick_some:
  assumes look: "looking c s" and l: "k_list s (RunQ c) = t # ts"
  shows "\<exists>s'. switch_pick c s = Ok s' (Sw_to t) \<and> sched_inv s' \<and> curthread s' c = t \<and>
    \<not> c_isidle (k_cpu s' c) \<and> t_state (k_thread s' t) = S_RUN \<and> k_ncpus s' = k_ncpus s \<and>
    k_list s' = (k_list s)(RunQ c := ts, Zombies c := []) \<and>
    k_live s' = (\<lambda>x. k_live s x \<and> x \<notin> set (k_list s (Zombies c))) \<and> (\<forall>d. d \<noteq> c \<longrightarrow> curthread s' d = curthread s d)"
proof -
  have at: "ipl_at c {RunqLock c} 1 s" and c: "c < k_ncpus s" "c_isidle (k_cpu s c)" and inv: "loc_inv s"
    and nl: "no_local s"
    using look by (simp_all add: looking_def)
  let ?r = "(k_thread s t)\<lparr>t_linked := False, t_wchan_name := None, t_state := S_RUN\<rparr>"
  let ?p = "picked c ts t ?r s"
  have tl: "t \<in> set (k_list s (RunQ c))" using l by simp
  have tz: "t \<notin> set (k_list s (Zombies c))" using loc_invD(2) [OF inv tl, of "Zombies c"] by auto
  have ps: "upd_thread t (\<lambda>r. r\<lparr>t_wchan_name := None, t_state := S_RUN\<rparr>) (upd_cpu c (\<lambda>r. r\<lparr>c_isidle := False, c_curthread := t\<rparr>)
      (upd_thread t (\<lambda>r. r\<lparr>t_linked := False\<rparr>) (s\<lparr>k_list := (k_list s)(RunQ c := ts)\<rparr>))) = ?p"
    by (simp add: picked_def upd_thread_def upd_cpu_def)
  have pinv: "loc_inv ?p"
    using loc_inv_pick [OF inv c l, of ?r] loc_invD(12) [OF inv loc_invD(4) [OF inv tl]] loc_invD(6) [OF inv tl]
    by (simp add: stack_ok_def)
  have pat: "ipl_at c {RunqLock c} (Suc 0) ?p" and one: "t_curspl (k_thread s t) = 1"
    using ipl_at_pick [OF at c inv l, of ?r] by simp_all
  obtain fr where fr: "t_context (k_thread s t) = Some fr" using loc_invD(5) [OF inv tl] by auto
  have spl: "spl \<le> 1" if "fr = In_switch spl" for spl
    using ipl_atD(5) [OF at] fr that unfolding ipl_off_def by auto
  let ?q = "rel c (RunqLock c) ?p"
  have cp: "c < k_ncpus ?p" using c by simp
  note q = release_at [OF pat cp pinv, of "RunqLock c", simplified]
  obtain u where u: "exorcise c ?q = Ok u ()" "loc_inv u" "ipl_at c {} 0 u" "k_list u = (k_list ?q)(Zombies c := [])"
      "k_cpu u = k_cpu ?q" "k_ncpus u = k_ncpus ?q"
      "k_live u = (\<lambda>x. k_live ?q x \<and> x \<notin> set (k_list ?q (Zombies c)))"
      "\<forall>x. x \<notin> set (k_list ?q (Zombies c)) \<longrightarrow> k_thread u x = k_thread ?q x"
    using exorcise_ok [OF q(3,2)] c by auto
  have cu: "curthread u d = (if d = c then t else curthread s d)" for d
  proof -
    have "curthread u d = curthread ?q d" unfolding curthread_def u(5) ..
    then show ?thesis by simp
  qed
  have thr: "k_thread u t = k_thread ?q t" using u(8) tz by simp
  define v where "v = lo c (case fr of In_switch spl \<Rightarrow> spl | In_startup \<Rightarrow> 0) u"
  note lo = lo_at [OF u(3) _ u(2), of "case fr of In_switch spl \<Rightarrow> spl | In_startup \<Rightarrow> 0"]
  have lo': "splx c (case fr of In_switch spl \<Rightarrow> spl | In_startup \<Rightarrow> 0) u = Ok v 1" "ipl_at c {} 0 v" "loc_inv v"
    unfolding v_def using lo u(5,6) cu thr one c spl by (auto split: frame.splits)
  have fin: "(case fr of In_switch spl \<Rightarrow> splx c spl u | In_startup \<Rightarrow> spl0 c u) = Ok v 1"
    using lo'(1) by (cases fr) (simp_all add: spl0_def IPL_NONE_def)
  have sw: "switch_pick c s = Ok v (Sw_to t)"
    using l ps q(1) u(1) fr fin by (simp add: switch_pick_def k_remhead_def switch_in_def Let_def)
  note ev = sched_eqD [OF lo_sched [of u c "case fr of In_switch spl \<Rightarrow> spl | In_startup \<Rightarrow> 0"], folded v_def]
  have "sched_inv v"
    using lo' nl u(4) ev(2) by (simp add: sched_inv_def ipl_inv_at [of v c] no_local_def)
  then show ?thesis using sw u c cu thr by (intro exI [of _ v]) (simp add: ev)
qed

lemma looking_acq:
  assumes "sched_inv s" and "c < k_ncpus s" and "c_isidle (k_cpu s c)"
  shows "spinlock_acquire c (RunqLock c) s = Ok (acq c (RunqLock c) s) ()" and "looking c (acq c (RunqLock c) s)"
proof -
  have at: "ipl_at c {} 0 s" and inv: "loc_inv s" and nl: "no_local s"
    using assms(1) by (simp_all add: sched_inv_def ipl_inv_at [of _ c])
  note a = acquire_at [OF at assms(2) inv, of "RunqLock c", simplified]
  show "spinlock_acquire c (RunqLock c) s = Ok (acq c (RunqLock c) s) ()" by (rule a(1))
  show "looking c (acq c (RunqLock c) s)" using a(2,3) assms nl by (simp add: looking_def no_local_def)
qed

text \<open>One round of the idle loop.\<close>

lemma idle_round_ok:
  assumes inv: "sched_inv s" and c: "c < k_ncpus s" "c_isidle (k_cpu s c)"
  shows "k_list s (RunQ c) = [] \<Longrightarrow> \<exists>s'. idle_round c s = Ok s' Sw_idle \<and> sched_inv s' \<and> sched_eq s s'"
    and "k_list s (RunQ c) = t # ts \<Longrightarrow> \<exists>s'. idle_round c s = Ok s' (Sw_to t) \<and> sched_inv s' \<and> curthread s' c = t \<and>
      \<not> c_isidle (k_cpu s' c) \<and> t_state (k_thread s' t) = S_RUN \<and> k_ncpus s' = k_ncpus s \<and>
      k_list s' = (k_list s)(RunQ c := ts, Zombies c := []) \<and>
      k_live s' = (\<lambda>x. k_live s x \<and> x \<notin> set (k_list s (Zombies c)))"
proof -
  note a = looking_acq [OF inv c]
  show "\<exists>s'. idle_round c s = Ok s' Sw_idle \<and> sched_inv s' \<and> sched_eq s s'" if "k_list s (RunQ c) = []"
    using switch_pick_idle [OF a(2)] that a(1) sched_eq_trans [OF acq_sched]
    by (auto simp: idle_round_def)
  show "\<exists>s'. idle_round c s = Ok s' (Sw_to t) \<and> sched_inv s' \<and> curthread s' c = t \<and>
      \<not> c_isidle (k_cpu s' c) \<and> t_state (k_thread s' t) = S_RUN \<and> k_ncpus s' = k_ncpus s \<and>
      k_list s' = (k_list s)(RunQ c := ts, Zombies c := []) \<and>
      k_live s' = (\<lambda>x. k_live s x \<and> x \<notin> set (k_list s (Zombies c)))" if "k_list s (RunQ c) = t # ts"
    using switch_pick_some [OF a(2), of t ts] that a(1) by (auto simp: idle_round_def)
qed

lemma ipl_at_block:
  assumes at: "ipl_at c H k s" and c: "c < k_ncpus s" and inv: "loc_inv s"
    and one: "t_curspl (k_thread s (curthread s c)) = 1" and spl: "spl \<le> 1"
    and r: "t_curspl r = t_curspl (k_thread s (curthread s c))"
      "t_iplhigh_count r = t_iplhigh_count (k_thread s (curthread s c))" "t_context r = Some (In_switch spl)"
  shows "ipl_at c H k (blocked c l r s)"
proof (rule ipl_atI [OF at])
  let ?s = "blocked c l r s"
  show "ipl_cpu (if d = c then k else 0) ?s d" if d: "d < k_ncpus s" for d
  proof (cases "d = c")
    case True
    then show ?thesis using ipl_atD(4) [OF at c] one r by (simp add: ipl_cpu_def)
  next
    case False
    then have "curthread s d \<noteq> curthread s c" using curthread_inj [OF inv d c] by blast
    then show ?thesis using ipl_atD(3) [OF at d False] False by (simp add: ipl_cpu_def)
  qed
  show "ipl_off ?s"
    using ipl_atD(5) [OF at] r spl c unfolding ipl_off_def by auto
qed simp_all

text \<open>What comes before the current thread is put on a list.\<close>

lemma checkstack_ok: "stack_ok (k_thread s t) \<Longrightarrow> thread_checkstack t s = Ok s ()"
  by (auto simp: stack_ok_def thread_checkstack_def split: option.splits)

lemma switch_setup:
  assumes at: "ipl_at c H k s" and c: "c < k_ncpus s" "\<not> c_isidle (k_cpu s c)" and inv: "loc_inv s"
    and H: "RunqLock c \<notin> H"
  defines "spl \<equiv> t_curspl (k_thread s (curthread s c))" and "m \<equiv> acq c (RunqLock c) (hi c s)"
  shows "splhigh c s = Ok (hi c s) spl" and "thread_checkstack (curthread s c) (hi c s) = Ok (hi c s) ()"
    and "spinlock_acquire c (RunqLock c) (hi c s) = Ok m ()" and "ipl_at c (insert (RunqLock c) H) (Suc k) m"
    and "loc_inv m" and "sched_eq s m" and "t_curspl (k_thread m (curthread s c)) = 1" and "spl \<le> 1"
proof -
  note h = hi_at [OF at c(1) inv]
  note e = sched_eqD [OF hi_sched [of s c]]
  note a = acquire_at [OF h(2) _ h(3) H]
  show "splhigh c s = Ok (hi c s) spl" "spl \<le> 1" unfolding spl_def using h(1,5) by simp_all
  show "thread_checkstack (curthread s c) (hi c s) = Ok (hi c s) ()"
    using loc_invD(12) [OF h(3), of "curthread s c"] loc_invD(7) [OF inv c(1)] e by (intro checkstack_ok) simp
  show "spinlock_acquire c (RunqLock c) (hi c s) = Ok m ()" "ipl_at c (insert (RunqLock c) H) (Suc k) m" "loc_inv m"
    unfolding m_def using a c e by simp_all
  show "sched_eq s m" unfolding m_def by (rule sched_eq_trans [OF hi_sched acq_sched])
  show "t_curspl (k_thread m (curthread s c)) = 1" unfolding m_def using h(4) by simp
qed

definition resume_rec :: "threadstate \<Rightarrow> nat \<Rightarrow> string option \<Rightarrow> sthread \<Rightarrow> sthread" where
  "resume_rec st spl w r = r\<lparr>t_wchan_name := w, t_linked := True, t_state := st, t_context := Some (In_switch spl)\<rparr>"

lemma resume_rec_sel [simp]:
  "t_state (resume_rec st spl w r) = st" "t_linked (resume_rec st spl w r)"
  "t_context (resume_rec st spl w r) = Some (In_switch spl)" "t_cpu (resume_rec st spl w r) = t_cpu r"
  "t_proc (resume_rec st spl w r) = t_proc r" "t_curspl (resume_rec st spl w r) = t_curspl r"
  "t_iplhigh_count (resume_rec st spl w r) = t_iplhigh_count r" "stack_ok (resume_rec st spl w r) = stack_ok r"
  by (simp_all add: resume_rec_def stack_ok_def)

text \<open>The current thread of a processor that holds its run queue lock goes to list \<open>l\<close>.\<close>

lemma looking_blocked:
  assumes at: "ipl_at c {RunqLock c} 1 m" and inv: "loc_inv m" and c: "c < k_ncpus m" "\<not> c_isidle (k_cpu m c)"
    and one: "t_curspl (k_thread m (curthread m c)) = 1" and spl: "spl \<le> 1" and nl: "no_local m"
    and ok: "list_ok m l (resume_rec st spl w (k_thread m (curthread m c)))" and l: "\<And>d. l \<noteq> LocalList d"
  shows "looking c (blocked c l (resume_rec st spl w (k_thread m (curthread m c))) m)"
proof -
  let ?r = "resume_rec st spl w (k_thread m (curthread m c))"
  have "stack_ok ?r" "t_cpu ?r = Some c"
    using loc_invD(12) [OF inv loc_invD(7) [OF inv c(1)]] loc_invD(8) [OF inv c(1)] by simp_all
  then have "loc_inv (blocked c l ?r m)" using loc_inv_block [OF inv c ok] by simp
  moreover have "ipl_at c {RunqLock c} 1 (blocked c l ?r m)" by (rule ipl_at_block [OF at c(1) inv one spl]) simp_all
  moreover have "no_local (blocked c l ?r m)" using nl l by (auto simp: no_local_def)
  ultimately show ?thesis using c by (simp add: looking_def)
qed

end
