(* ===== verification/Sched_Steps.thy ===== *)
theory Sched_Steps
  imports Sched
begin

text \<open>
  The operations of the thread system as steps between states that satisfy the scheduler invariant,
  and the executions built from them.
\<close>

section \<open>Yielding, sleeping, exiting\<close>

lemma thread_switch_idle:
  assumes "sched_inv s" and "c < k_ncpus s" and "c_isidle (k_cpu s c)"
  shows "thread_switch c st wc lk s = Ok s Sw_return"
proof -
  have "ipl_cpu 0 s c" using assms by (simp add: sched_inv_def ipl_inv_def)
  then have one: "t_curspl (k_thread s (curthread s c)) = 1" using assms(3) by (simp add: ipl_cpu_def)
  then have "splhigh c s = Ok s 1" using splhigh_hi [of s c] by (simp add: hi_def)
  moreover have "splx c 1 s = Ok s 1" using splx_lo [OF one, of 1] by (simp add: lo_def)
  ultimately show ?thesis using assms(3) by (simp add: thread_switch_def Let_def)
qed

lemma sched_inv_at:
  "sched_inv s \<Longrightarrow> ipl_at c {} 0 s" "sched_inv s \<Longrightarrow> loc_inv s" "sched_inv s \<Longrightarrow> no_local s"
  by (simp_all add: sched_inv_def ipl_inv_at [of _ c])

lemma switch_setup0:
  assumes "sched_inv s" and "c < k_ncpus s" and "\<not> c_isidle (k_cpu s c)"
  defines "spl \<equiv> t_curspl (k_thread s (curthread s c))" and "m \<equiv> acq c (RunqLock c) (hi c s)"
  shows "splhigh c s = Ok (hi c s) spl" and "thread_checkstack (curthread s c) (hi c s) = Ok (hi c s) ()"
    and "spinlock_acquire c (RunqLock c) (hi c s) = Ok m ()" and "ipl_at c {RunqLock c} 1 m"
    and "loc_inv m" and "sched_eq s m" and "t_curspl (k_thread m (curthread s c)) = 1" and "spl \<le> 1"
    and "no_local m" and "c < k_ncpus m" and "\<not> c_isidle (k_cpu m c)" and "curthread m c = curthread s c"
proof -
  have r: "RunqLock c \<notin> {}" by simp
  note S = switch_setup [OF sched_inv_at(1) [OF assms(1)] assms(2,3) sched_inv_at(2) [OF assms(1)] r, folded spl_def m_def]
  show "splhigh c s = Ok (hi c s) spl" by (fact S(1))
  show "thread_checkstack (curthread s c) (hi c s) = Ok (hi c s) ()" by (fact S(2))
  show "spinlock_acquire c (RunqLock c) (hi c s) = Ok m ()" by (fact S(3))
  show "ipl_at c {RunqLock c} 1 m" using S(4) by (simp only: One_nat_def)
  show "loc_inv m" by (fact S(5))
  show e: "sched_eq s m" by (fact S(6))
  show "t_curspl (k_thread m (curthread s c)) = 1" by (fact S(7))
  show "spl \<le> 1" by (fact S(8))
  show "no_local m" using sched_inv_at(3) [OF assms(1)] unfolding no_local_def sched_eqD(2) [OF e] .
  show "c < k_ncpus m" using assms(2) unfolding sched_eqD(3) [OF e] .
  show "\<not> c_isidle (k_cpu m c)" using assms(3) unfolding sched_eqD(12) [OF e] .
  show "curthread m c = curthread s c" by (fact sched_eqD(13) [OF e])
qed

text \<open>With an empty run queue a yield does nothing.\<close>

lemma thread_yield_alone:
  assumes inv: "sched_inv s" and c: "c < k_ncpus s" "\<not> c_isidle (k_cpu s c)" and l: "k_list s (RunQ c) = []"
  shows "\<exists>s'. thread_yield c s = Ok s' Sw_return \<and> sched_inv s' \<and> sched_eq s s'"
proof -
  define spl where "spl = t_curspl (k_thread s (curthread s c))"
  define m where "m = acq c (RunqLock c) (hi c s)"
  note S = switch_setup0 [OF inv c, folded spl_def m_def]
  note e = sched_eqD [OF S(6)]
  have r: "spinlock_release c (RunqLock c) m = Ok (rel c (RunqLock c) m) ()" "ipl_at c {} 0 (rel c (RunqLock c) m)"
      "loc_inv (rel c (RunqLock c) m)"
    using release_at [OF S(4) [unfolded One_nat_def] S(10) S(5), of "RunqLock c"] by simp_all
  have re: "sched_eq s (rel c (RunqLock c) m)" by (rule sched_eq_trans [OF S(6) rel_sched])
  note er = sched_eqD [OF re]
  have one: "t_curspl (k_thread (rel c (RunqLock c) m) (curthread (rel c (RunqLock c) m) c)) = 1" using S(7) e by simp
  note lo = lo_at [OF r(2) _ r(3) one _ S(8)]
  have "thread_yield c s = Ok (lo c spl (rel c (RunqLock c) m)) Sw_return"
    using S(1-3) r(1) lo(1) c l e by (simp add: thread_yield_def thread_switch_def Let_def er sched_eqD [OF hi_sched [of s c]])
  moreover have "sched_eq s (lo c spl (rel c (RunqLock c) m))" by (rule sched_eq_trans [OF re lo_sched])
  moreover have "sched_inv (lo c spl (rel c (RunqLock c) m))"
    using lo(2,3) c er sched_inv_at(3) [OF inv] sched_eqD(2) [OF sched_eq_trans [OF re lo_sched]]
    by (simp add: sched_inv_def ipl_inv_at [of _ c] no_local_def e)
  ultimately show ?thesis by blast
qed

text \<open>The outcome of looking at the run queue of \<open>c\<close>, from a state that differs from \<open>s\<close> by putting its thread away.\<close>

definition after_switch :: "cpuid \<Rightarrow> (lid \<Rightarrow> tid list) \<Rightarrow> kstate \<Rightarrow> kstate \<Rightarrow> switched \<Rightarrow> bool" where
  "after_switch c L s s' r \<longleftrightarrow>
     sched_inv s' \<and> k_ncpus s' = k_ncpus s \<and>
     (case L (RunQ c) of
        [] \<Rightarrow> r = Sw_idle \<and> k_list s' = L \<and> c_isidle (k_cpu s' c) \<and> k_live s' = k_live s
      | t # ts \<Rightarrow> r = Sw_to t \<and> curthread s' c = t \<and> \<not> c_isidle (k_cpu s' c) \<and> t_state (k_thread s' t) = S_RUN \<and>
          k_list s' = L(RunQ c := ts, Zombies c := []) \<and> k_live s' = (\<lambda>x. k_live s x \<and> x \<notin> set (L (Zombies c))))"

lemma switch_pick_after:
  assumes "looking c b" and "k_live b = k_live s" and "k_ncpus b = k_ncpus s"
  shows "\<exists>s' r. switch_pick c b = Ok s' r \<and> after_switch c (k_list b) s s' r"
proof (cases "k_list b (RunQ c)")
  case Nil
  then obtain s' where s': "switch_pick c b = Ok s' Sw_idle" "sched_inv s'" "sched_eq b s'"
    using switch_pick_idle [OF assms(1)] by blast
  then show ?thesis using Nil assms by (auto simp: after_switch_def sched_eqD [OF s'(3)] looking_def)
next
  case (Cons t ts)
  then show ?thesis using switch_pick_some [OF assms(1) Cons] assms(2,3) by (auto simp: after_switch_def)
qed

lemma blocked_eq_upd:
  "upd_cpu c (\<lambda>r. r\<lparr>c_isidle := True\<rparr>)
     (upd_thread (curthread m c) (\<lambda>r. r\<lparr>t_wchan_name := w, t_linked := True, t_state := st, t_context := Some (In_switch spl)\<rparr>)
       (m\<lparr>k_list := (k_list m)(l := k_list m l @ [curthread m c])\<rparr>)) =
   blocked c l (resume_rec st spl w (k_thread m (curthread m c))) m"
  by (simp add: blocked_def resume_rec_def upd_thread_def upd_cpu_def)

lemma thread_yield_switch:
  assumes inv: "sched_inv s" and c: "c < k_ncpus s" "\<not> c_isidle (k_cpu s c)" and l: "k_list s (RunQ c) \<noteq> []"
  shows "\<exists>s' r. thread_yield c s = Ok s' r \<and>
    after_switch c ((k_list s)(RunQ c := k_list s (RunQ c) @ [curthread s c])) s s' r"
proof -
  define spl where "spl = t_curspl (k_thread s (curthread s c))"
  define m where "m = acq c (RunqLock c) (hi c s)"
  note S = switch_setup0 [OF inv c, folded spl_def m_def]
  note e = sched_eqD [OF S(6)] and eh = sched_eqD [OF hi_sched [of s c]]
  note cm = S(10,11)
  let ?w = "t_wchan_name (k_thread m (curthread m c))"
  let ?b = "blocked c (RunQ c) (resume_rec S_READY spl ?w (k_thread m (curthread m c))) m"
  have tc: "t_cpu (k_thread m (curthread m c)) = Some c" using loc_invD(8) [OF S(5) cm(1)] .
  have nl: "\<not> t_linked (k_thread m (curthread m c))"
    using loc_invD(11) [OF S(5) cm] loc_invD(3) [OF S(5), of "curthread m c"] by simp
  have "looking c ?b"
    using S(7) tc cm by (intro looking_blocked [OF S(4,5) cm _ S(8,9)]) (simp_all add: S(12))
  then obtain s' r where p: "switch_pick c ?b = Ok s' r" "after_switch c (k_list ?b) s s' r"
    using switch_pick_after [of c ?b s] e by auto
  have "switch_out c S_READY None None m =
      Ok (upd_thread (curthread m c) (\<lambda>r. r\<lparr>t_state := S_READY, t_linked := True\<rparr>)
           (m\<lparr>k_list := (k_list m)(RunQ c := k_list m (RunQ c) @ [curthread m c])\<rparr>)) ()"
    using tc nl cm ipl_atD(1) [OF S(4), of "RunqLock c"]
    by (simp add: switch_out_def Let_def thread_make_runnable_def k_addtail_def spinlock_do_i_hold_def held_by_def)
  moreover have "upd_cpu c (\<lambda>r. r\<lparr>c_isidle := True\<rparr>)
      (upd_thread (curthread m c) (\<lambda>r. r\<lparr>t_state := S_READY, t_context := Some (In_switch spl)\<rparr>)
        (upd_thread (curthread m c) (\<lambda>r. r\<lparr>t_state := S_READY, t_linked := True\<rparr>)
           (m\<lparr>k_list := (k_list m)(RunQ c := k_list m (RunQ c) @ [curthread m c])\<rparr>))) = ?b"
    by (simp add: blocked_eq_upd [symmetric] upd_thread_def upd_cpu_def)
  ultimately have "thread_yield c s = Ok s' r"
    using S(1-3) c l e eh p(1) by (simp add: thread_yield_def thread_switch_def Let_def)
  then show ?thesis using p(2) e by auto
qed

text \<open>Going to sleep: the channel lock is released after the thread is on the channel.\<close>

lemma rel_blocked:
  "upd_cpu c (\<lambda>r. r\<lparr>c_isidle := True\<rparr>)
     (upd_thread (curthread m c) (\<lambda>r. r\<lparr>t_state := st, t_context := Some (In_switch spl)\<rparr>)
       (rel c l (upd_thread (curthread m c) (\<lambda>r. r\<lparr>t_wchan_name := w, t_linked := True\<rparr>)
          (m\<lparr>k_list := (k_list m)(q := k_list m q @ [curthread m c])\<rparr>)))) =
   rel c l (blocked c q (resume_rec st spl w (k_thread m (curthread m c))) m)"
  by (rule kstate.equality)
     (simp_all add: rel_def resume_rec_def fun_eq_iff)

lemma thread_switch_sleep:
  assumes at: "ipl_at c {lk} 1 s" and c: "c < k_ncpus s" "\<not> c_isidle (k_cpu s c)" and inv: "loc_inv s" "no_local s"
    and lk: "lk \<noteq> RunqLock c"
  shows "\<exists>s' r. thread_switch c S_SLEEP (Some w) (Some lk) s = Ok s' r \<and>
    after_switch c ((k_list s)(Wchan w := k_list s (Wchan w) @ [curthread s c])) s s' r"
proof -
  define spl where "spl = t_curspl (k_thread s (curthread s c))"
  define m where "m = acq c (RunqLock c) (hi c s)"
  have H: "RunqLock c \<notin> {lk}" using lk by auto
  note S = switch_setup [OF at c inv(1) H, folded spl_def m_def]
  note e = sched_eqD [OF S(6)] and eh = sched_eqD [OF hi_sched [of s c]]
  have cm: "c < k_ncpus m" "\<not> c_isidle (k_cpu m c)" using c e by simp_all
  let ?cur = "curthread m c"
  let ?r = "resume_rec S_SLEEP spl (Some (k_wcname m w)) (k_thread m ?cur)"
  let ?d = "blocked c (Wchan w) ?r m"
  have tc: "t_cpu (k_thread m ?cur) = Some c" using loc_invD(8) [OF S(5) cm(1)] .
  have nl: "\<not> t_linked (k_thread m ?cur)"
    using loc_invD(11) [OF S(5) cm] loc_invD(3) [OF S(5), of ?cur] by simp
  have one: "t_curspl (k_thread m ?cur) = 1" using S(7) e by simp
  have "stack_ok ?r" using loc_invD(12) [OF S(5) loc_invD(7) [OF S(5) cm(1)]] by simp
  then have dinv: "loc_inv ?d" using loc_inv_block [OF S(5) cm, of "Wchan w" ?r] tc cm by auto
  have dat: "ipl_at c {RunqLock c, lk} (Suc 1) ?d" by (rule ipl_at_block [OF S(4) cm(1) S(5) one S(8)]) simp_all
  have cd: "c < k_ncpus ?d" using cm by simp
  have "looking c (rel c lk ?d)"
    using release_at(2,3) [OF dat cd dinv, of lk] H cm inv(2) lk e(2)
    by (simp add: looking_def no_local_def insert_Diff_if)
  then obtain s' r where p: "switch_pick c (rel c lk ?d) = Ok s' r" "after_switch c (k_list (rel c lk ?d)) s s' r"
    using switch_pick_after [of c "rel c lk ?d" s] e by auto
  let ?a = "upd_thread ?cur (\<lambda>r. r\<lparr>t_wchan_name := Some (k_wcname m w), t_linked := True\<rparr>)
    (m\<lparr>k_list := (k_list m)(Wchan w := k_list m (Wchan w) @ [?cur])\<rparr>)"
  have "spinlock_release c lk ?a = Ok (rel c lk ?a) ()"
    using ipl_atD(1) [OF S(4), of lk] spin_pos [OF S(4) cm(1)] by (intro release_rel) simp_all
  then have "switch_out c S_SLEEP (Some w) (Some lk) m = Ok (rel c lk ?a) ()"
    using nl by (simp add: switch_out_def Let_def k_addtail_def)
  then have "thread_switch c S_SLEEP (Some w) (Some lk) s = Ok s' r"
    using S(1-3) c e eh p(1) rel_blocked [where c = c and m = m and st = S_SLEEP and spl = spl and l = lk and w = "Some (k_wcname m w)" and q = "Wchan w"]
    by (simp add: thread_switch_def Let_def)
  then show ?thesis using p(2) e by auto
qed

text \<open>A critical section that ends in \<open>wchan_sleep\<close>, as in \<open>P\<close>.\<close>

definition sleep_on :: "cpuid \<Rightarrow> wid \<Rightarrow> nat \<Rightarrow> kstate \<Rightarrow> (kstate, switched) outcome" where
  "sleep_on c w n s = and_then (spinlock_acquire c (Lk n) s) (\<lambda>s1 _. wchan_sleep c w (Lk n) s1)"

lemma after_switch_eq:
  assumes "sched_eq s0 s"
  shows "after_switch c L s s' r = after_switch c L s0 s' r"
  unfolding after_switch_def sched_eqD(1,3) [OF assms] ..

lemma sleep_on_ok:
  assumes inv: "sched_inv s" and c: "c < k_ncpus s" "\<not> c_isidle (k_cpu s c)"
    and ni: "\<not> t_in_interrupt (k_thread s (curthread s c))"
  shows "\<exists>s' r. sleep_on c w n s = Ok s' r \<and>
    after_switch c ((k_list s)(Wchan w := k_list s (Wchan w) @ [curthread s c])) s s' r"
proof -
  let ?a = "acq c (Lk n) s"
  note I = sched_inv_at [OF inv]
  have a: "spinlock_acquire c (Lk n) s = Ok ?a ()" "ipl_at c {Lk n} 1 ?a" "loc_inv ?a"
    using acquire_at [OF I(1) c(1) I(2), of "Lk n"] by simp_all
  have nl: "no_local ?a" using I(3) by (simp add: no_local_def)
  obtain s' r where p: "thread_switch c S_SLEEP (Some w) (Some (Lk n)) ?a = Ok s' r"
      "after_switch c ((k_list s)(Wchan w := k_list s (Wchan w) @ [curthread s c])) ?a s' r"
    using thread_switch_sleep [OF a(2) _ _ a(3) nl, of w] c by auto
  have r: "r \<noteq> Sw_return" using p(2) by (auto simp: after_switch_def split: list.splits)
  have "spinlock_do_i_hold c (Lk n) ?a" by (simp add: spinlock_do_i_hold_def held_by_def)
  moreover have "c_spinlocks (k_cpu ?a c) = 1" using ipl_atD(4) [OF a(2)] c by (simp add: ipl_cpu_def)
  ultimately have "sleep_on c w n s = Ok s' r"
    using a(1) p(1) r ni by (simp add: sleep_on_def wchan_sleep_def del: acq_sel(17))
  then show ?thesis using p(2) after_switch_eq [OF acq_sched] by blast
qed

text \<open>Exiting.\<close>

lemma detach_inv:
  assumes inv: "sched_inv s" and c: "c < k_ncpus s" "\<not> c_isidle (k_cpu s c)"
  shows "sched_inv (upd_thread (curthread s c) (\<lambda>r. r\<lparr>t_proc := None\<rparr>) s)" (is "sched_inv ?s")
proof -
  note I = sched_inv_at [OF inv]
  have off: "\<not> on_lists s (curthread s c)" by (rule loc_invD(11) [OF I(2) c])
  have on: "on_lists ?s x = on_lists s x" for x by (simp add: on_lists_def)
  have lok: "list_ok ?s l (k_thread ?s x) = list_ok s l (k_thread s x)" if "x \<in> set (k_list s l)" for l x
    using that off by (intro list_ok_cong) (auto simp: on_lists_def)
  have sok: "stack_ok (k_thread ?s x) = stack_ok (k_thread s x)" for x by (simp add: stack_ok_def)
  have "lists_inv ?s"
  proof (rule lists_invI)
    show "distinct (k_list ?s l)" for l using loc_invD(1) [OF I(2)] by simp
    show "l = m" if "x \<in> set (k_list ?s l)" "x \<in> set (k_list ?s m)" for l m x
      using loc_invD(2) [OF I(2), of x l m] that by simp
    show "t_linked (k_thread ?s x) \<longleftrightarrow> on_lists ?s x" for x using loc_invD(3) [OF I(2), of x] by (auto simp: on)
    show "k_live ?s x \<and> t_context (k_thread ?s x) \<noteq> None \<and> list_ok ?s l (k_thread ?s x)"
      if "x \<in> set (k_list ?s l)" for l x
    proof -
      have x: "x \<in> set (k_list s l)" using that by simp
      show ?thesis using loc_invD(4-6) [OF I(2) x] lok [OF x] by auto
    qed
  qed
  moreover have "cpus_inv ?s"
  proof -
    have "t_cpu (k_thread ?s x) = t_cpu (k_thread s x)" "t_state (k_thread ?s x) = t_state (k_thread s x)" for x by simp_all
    then show ?thesis using I(2) unfolding loc_inv_def cpus_inv_def on by (simp only: upd_sel curthread_upd) blast
  qed
  moreover have "live_inv ?s" using loc_invD(12,13) [OF I(2)] unfolding live_inv_def on sok by simp
  moreover have "ipl_inv ?s"
    using I(1) [of c] unfolding ipl_inv_at [of _ c] by (rule ipl_at_same) (simp_all add: ipl_same_def)
  ultimately show ?thesis using I(3) by (simp add: sched_inv_def loc_inv_def no_local_def)
qed

lemma sched_inv_hi:
  assumes inv: "sched_inv s" and c: "c < k_ncpus s"
  shows "sched_inv (hi c s)"
  using hi_at(2,3) [OF sched_inv_at(1) [OF inv] c sched_inv_at(2) [OF inv]] sched_inv_at(3) [OF inv]
    sched_eqD(2) [OF hi_sched [of s c]]
  by (simp add: sched_inv_def ipl_inv_at [of _ c] no_local_def)

lemma thread_switch_zombie:
  assumes inv: "sched_inv s" and c: "c < k_ncpus s" "\<not> c_isidle (k_cpu s c)"
    and p: "t_proc (k_thread s (curthread s c)) = None"
  shows "\<exists>s' r. thread_switch c S_ZOMBIE None None s = Ok s' r \<and>
    after_switch c ((k_list s)(Zombies c := k_list s (Zombies c) @ [curthread s c])) s s' r"
proof -
  define spl where "spl = t_curspl (k_thread s (curthread s c))"
  define m where "m = acq c (RunqLock c) (hi c s)"
  note S = switch_setup0 [OF inv c, folded spl_def m_def]
  note e = sched_eqD [OF S(6)] and eh = sched_eqD [OF hi_sched [of s c]]
  note cm = S(10,11)
  let ?b = "blocked c (Zombies c) (resume_rec S_ZOMBIE spl (Some ''ZOMBIE'') (k_thread m (curthread m c))) m"
  have tc: "t_cpu (k_thread m (curthread m c)) = Some c" using loc_invD(8) [OF S(5) cm(1)] .
  have nl: "\<not> t_linked (k_thread m (curthread m c))"
    using loc_invD(11) [OF S(5) cm] loc_invD(3) [OF S(5), of "curthread m c"] by simp
  have pm: "t_proc (k_thread m (curthread m c)) = None" using p e by simp
  have "looking c ?b"
    using S(7) tc cm pm by (intro looking_blocked [OF S(4,5) cm _ S(8,9)]) (simp_all add: S(12))
  then obtain s' r where q: "switch_pick c ?b = Ok s' r" "after_switch c (k_list ?b) s s' r"
    using switch_pick_after [of c ?b s] e by auto
  have "switch_out c S_ZOMBIE None None m =
      Ok (upd_thread (curthread m c) (\<lambda>r. r\<lparr>t_wchan_name := Some ''ZOMBIE'', t_linked := True\<rparr>)
           (m\<lparr>k_list := (k_list m)(Zombies c := k_list m (Zombies c) @ [curthread m c])\<rparr>)) ()"
    using nl by (simp add: switch_out_def Let_def k_addtail_def)
  moreover have "upd_cpu c (\<lambda>r. r\<lparr>c_isidle := True\<rparr>)
      (upd_thread (curthread m c) (\<lambda>r. r\<lparr>t_state := S_ZOMBIE, t_context := Some (In_switch spl)\<rparr>)
        (upd_thread (curthread m c) (\<lambda>r. r\<lparr>t_wchan_name := Some ''ZOMBIE'', t_linked := True\<rparr>)
           (m\<lparr>k_list := (k_list m)(Zombies c := k_list m (Zombies c) @ [curthread m c])\<rparr>))) = ?b"
    by (simp add: blocked_eq_upd [symmetric] upd_thread_def upd_cpu_def)
  ultimately have "thread_switch c S_ZOMBIE None None s = Ok s' r"
    using S(1-3) c e eh q(1) by (simp add: thread_switch_def Let_def)
  then show ?thesis using q(2) e by auto
qed

lemma thread_exit_ok:
  assumes inv: "sched_inv s" and c: "c < k_ncpus s" "\<not> c_isidle (k_cpu s c)"
  shows "\<exists>s' r. thread_exit c s = Ok s' r \<and> r \<noteq> Sw_return \<and>
    after_switch c ((k_list s)(Zombies c := k_list s (Zombies c) @ [curthread s c])) s s' r"
proof -
  let ?d = "upd_thread (curthread s c) (\<lambda>r. r\<lparr>t_proc := None\<rparr>) s"
  have d: "sched_inv ?d" by (rule detach_inv [OF inv c])
  have cd: "c < k_ncpus ?d" using c by simp
  note h = hi_at [OF sched_inv_at(1) [OF d] cd sched_inv_at(2) [OF d]]
  note eh = sched_eqD [OF hi_sched [of ?d c]]
  obtain s' r where p: "thread_switch c S_ZOMBIE None None (hi c ?d) = Ok s' r"
      "after_switch c ((k_list s)(Zombies c := k_list s (Zombies c) @ [curthread s c])) (hi c ?d) s' r"
    using thread_switch_zombie [OF sched_inv_hi [OF d cd], of c] c eh by auto
  have r: "r \<noteq> Sw_return" using p(2) by (auto simp: after_switch_def split: list.splits)
  have "stack_ok (k_thread ?d (curthread s c))"
    using loc_invD(12) [OF sched_inv_at(2) [OF d], of "curthread s c"] loc_invD(7) [OF sched_inv_at(2) [OF inv] c(1)] by simp
  then have "thread_exit c s = Ok s' r"
    using checkstack_ok h(1) p(1) r by (simp add: thread_exit_def Let_def)
  moreover have "after_switch c L s s' r = after_switch c L (hi c ?d) s' r" for L
    unfolding after_switch_def eh(1,3) upd_sel ..
  ultimately show ?thesis using p(2) r by blast
qed

section \<open>Waking and forking\<close>

text \<open>A sleeping thread that is first on list \<open>l\<close> becomes runnable on its processor.\<close>

lemma wake_first:
  assumes inv: "loc_inv s" and at: "ipl_at c H k s" and c: "c < k_ncpus s" and l: "k_list s l = t # ts"
    and q: "\<And>d. l \<noteq> RunQ d" "\<And>d. l \<noteq> Zombies d" and H: "\<And>d. RunqLock d \<notin> H" "\<And>d. IpiLock d \<notin> H" and k: "k < 100"
  defines "s1 \<equiv> upd_thread t (\<lambda>r. r\<lparr>t_linked := False\<rparr>) (s\<lparr>k_list := (k_list s)(l := ts)\<rparr>)"
  shows "\<exists>s' d. k_remhead l s = Ok s1 (Some t) \<and> thread_make_runnable c t False s1 = Ok s' () \<and>
    t_cpu (k_thread s t) = Some d \<and> loc_inv s' \<and> ipl_at c H k s' \<and>
    k_list s' = (k_list s)(l := ts, RunQ d := k_list s (RunQ d) @ [t]) \<and> k_ncpus s' = k_ncpus s \<and>
    k_live s' = k_live s \<and> (\<forall>x. x \<noteq> t \<longrightarrow> t_cpu (k_thread s' x) = t_cpu (k_thread s x)) \<and>
    (\<forall>e. curthread s' e = curthread s e \<and> c_isidle (k_cpu s' e) = c_isidle (k_cpu s e)) \<and>
    (\<forall>x. t_in_interrupt (k_thread s' x) = t_in_interrupt (k_thread s x))"
proof -
  note D = loc_invD [OF inv]
  have tl: "t \<in> set (k_list s l)" using l by simp
  obtain d where d: "d < k_ncpus s" "t_cpu (k_thread s t) = Some d"
    using D(6) [OF tl] q by (cases l) auto
  have pop: "k_remhead l s = Ok s1 (Some t)" using l by (simp add: k_remhead_def s1_def)
  let ?r = "(k_thread s t)\<lparr>t_state := S_READY, t_linked := True\<rparr>"
  let ?m = "moved l ([] @ ts) (RunQ d) (k_list s (RunQ d) @ [t]) t ?r s"
  have nd: "t \<notin> set (k_list s (RunQ d))" using D(2) [OF tl, of "RunQ d"] q(1) by auto
  have minv: "loc_inv ?m"
  proof (rule loc_inv_move [OF inv])
    show "k_list s l = [] @ t # ts" "RunQ d \<noteq> l" using l q(1) [of d] by auto
    show "distinct (k_list s (RunQ d) @ [t])" using D(1) [of "RunQ d"] nd by simp
    show "list_ok s (RunQ d) ?r" using d by simp
    show "t_context ?r \<noteq> None" using D(5) [OF tl] by simp
    show "stack_ok ?r" using D(12) [OF D(4) [OF tl]] by (simp add: stack_ok_def)
    show "t_cpu ?r = Some e" if "e < k_ncpus s" "curthread s e = t" for e using D(8) [OF that(1)] that(2) by simp
  qed simp_all
  have s1i: "ipl_same s s1" by (simp add: ipl_same_def s1_def)
  have at1: "ipl_at c H k s1" by (rule ipl_at_same [OF at s1i]) (simp_all add: s1_def)
  have c1: "c < k_ncpus s1" using c by (simp add: s1_def)
  have room: "lock_room 1 s1 c" using lock_room_at [OF at1 c1 k] by (simp add: lock_room_def)
  obtain s' where s': "thread_make_runnable c t False s1 = Ok s' ()" "sched_eq (mk_ready t d s1) s'" "ipl_same s1 s'"
    using thread_make_runnable_ok [of s1 t d c] d(2) ipl_atD(2) [OF at1] H irq_ok_at [OF at1 c1] room
    by (auto simp: s1_def)
  have eq: "mk_ready t d s1 = ?m" using q(1) [of d]
    by (simp add: mk_ready_def s1_def moved_def upd_thread_def fun_upd_twist)
  have e: "sched_eq ?m s'" using s'(2) by (simp only: eq)
  note E = sched_eqD [OF e]
  have "loc_inv s'" using loc_inv_sched_eq [OF e] minv by simp
  moreover have "ipl_at c H k s'"
    by (rule ipl_at_same [OF at ipl_same_trans [OF s1i s'(3)]]) (simp_all add: E)
  ultimately show ?thesis using pop s'(1) d(2) E by (intro exI [of _ s'] exI [of _ d]) simp
qed

definition wakeone_on :: "cpuid \<Rightarrow> wid \<Rightarrow> nat \<Rightarrow> kstate \<Rightarrow> (kstate, unit) outcome" where
  "wakeone_on c w n s =
     and_then (spinlock_acquire c (Lk n) s)
       (\<lambda>s1 _. and_then (wchan_wakeone c w (Lk n) s1) (\<lambda>s2 _. spinlock_release c (Lk n) s2))"

text \<open>The lists after \<open>wchan_wakeone\<close>: the longest sleeper goes to the run queue of its processor.\<close>

definition woken_lists :: "wid \<Rightarrow> kstate \<Rightarrow> lid \<Rightarrow> tid list" where
  "woken_lists w s =
     (case k_list s (Wchan w) of
        [] \<Rightarrow> k_list s
      | t # ts \<Rightarrow>
          (case t_cpu (k_thread s t) of None \<Rightarrow> k_list s
           | Some d \<Rightarrow> (k_list s)(Wchan w := ts, RunQ d := k_list s (RunQ d) @ [t])))"

lemma end_section:
  assumes "ipl_at c {l} 1 s" and "c < k_ncpus s" and "loc_inv s" and "no_local s"
  shows "spinlock_release c l s = Ok (rel c l s) ()" and "sched_inv (rel c l s)"
proof -
  have "ipl_at c {l} (Suc 0) s" using assms(1) by simp
  note r = release_at [OF this assms(2,3), of l]
  show "spinlock_release c l s = Ok (rel c l s) ()" using r by simp
  show "sched_inv (rel c l s)" using r assms(4) by (simp add: sched_inv_def ipl_inv_at [of _ c] no_local_def)
qed

lemma begin_section:
  assumes inv: "sched_inv s" and c: "c < k_ncpus s"
  shows "spinlock_acquire c l s = Ok (acq c l s) ()" and "ipl_at c {l} 1 (acq c l s)" and "loc_inv (acq c l s)"
    and "no_local (acq c l s)" and "spinlock_do_i_hold c l (acq c l s)"
proof -
  note I = sched_inv_at [OF inv]
  show "spinlock_acquire c l s = Ok (acq c l s) ()" "ipl_at c {l} 1 (acq c l s)" "loc_inv (acq c l s)"
    using acquire_at [OF I(1) c I(2), of l] by simp_all
  show "no_local (acq c l s)" using I(3) by (simp add: no_local_def)
  show "spinlock_do_i_hold c l (acq c l s)" by (simp add: spinlock_do_i_hold_def held_by_def)
qed

lemma wakeone_on_ok:
  assumes inv: "sched_inv s" and c: "c < k_ncpus s"
  shows "\<exists>s'. wakeone_on c w n s = Ok s' () \<and> sched_inv s' \<and> k_list s' = woken_lists w s \<and>
    k_ncpus s' = k_ncpus s \<and> k_live s' = k_live s"
proof -
  let ?a = "acq c (Lk n) s"
  note B = begin_section [OF inv c, of "Lk n"]
  have ca: "c < k_ncpus ?a" using c by simp
  show ?thesis
  proof (cases "k_list s (Wchan w)")
    case Nil
    then have "wchan_wakeone c w (Lk n) ?a = Ok ?a ()" using B(5) by (simp add: wchan_wakeone_def k_remhead_def)
    then show ?thesis using B(1) end_section [OF B(2) ca B(3,4)] Nil by (simp add: wakeone_on_def woken_lists_def)
  next
    case (Cons t ts)
    then have la: "k_list ?a (Wchan w) = t # ts" by simp
    obtain s1 s' d where s': "k_remhead (Wchan w) ?a = Ok s1 (Some t)" "thread_make_runnable c t False s1 = Ok s' ()"
        "t_cpu (k_thread ?a t) = Some d" "loc_inv s'" "ipl_at c {Lk n} 1 s'"
        "k_list s' = (k_list ?a)(Wchan w := ts, RunQ d := k_list ?a (RunQ d) @ [t])" "k_ncpus s' = k_ncpus ?a" "k_live s' = k_live ?a"
      using wake_first [OF B(3,2) ca la] by auto
    have "no_local s'" using B(4) s'(6) by (simp add: no_local_def)
    moreover have "c < k_ncpus s'" using ca s'(7) by simp
    ultimately have "wakeone_on c w n s = Ok (rel c (Lk n) s') ()" "sched_inv (rel c (Lk n) s')"
      using end_section [OF s'(5) _ s'(4)] B(1,5) s'(1,2) by (simp_all add: wakeone_on_def wchan_wakeone_def)
    then show ?thesis using s'(3,6-8) Cons by (intro exI [of _ "rel c (Lk n) s'"]) (simp add: woken_lists_def)
  qed
qed

text \<open>Waking everybody: first onto the local list, then to the run queues.\<close>

lemma list_move_eq:
  "a \<noteq> b \<Longrightarrow> \<forall>t \<in> set (k_list s a). t_linked (k_thread s t) \<Longrightarrow>
    list_move a b s = Ok (s\<lparr>k_list := (k_list s)(a := [], b := k_list s b @ k_list s a)\<rparr>) ()"
proof (induction "k_list s a" arbitrary: s)
  case Nil
  then show ?case by (subst list_move.simps) (simp add: k_remhead_def fun_upd_idem)
next
  case (Cons t ts)
  have l: "k_list s a = t # ts" using Cons.hyps(2) by simp
  let ?s = "s\<lparr>k_list := (k_list s)(a := ts, b := k_list s b @ [t])\<rparr>"
  have r: "(k_thread s)(t := (k_thread s t)\<lparr>t_linked := True\<rparr>) = k_thread s"
    using Cons.prems(2) l by (auto simp: fun_eq_iff)
  have "list_move a b s = list_move a b ?s"
    using Cons.prems(1) l r by (subst list_move.simps) (simp add: k_remhead_def k_addtail_def upd_thread_def)
  also have "\<dots> = Ok (?s\<lparr>k_list := (k_list ?s)(a := [], b := k_list ?s b @ k_list ?s a)\<rparr>) ()"
    by (rule Cons.hyps(1)) (use Cons.prems l in simp_all)
  also have "?s\<lparr>k_list := (k_list ?s)(a := [], b := k_list ?s b @ k_list ?s a)\<rparr> =
      s\<lparr>k_list := (k_list s)(a := [], b := k_list s b @ k_list s a)\<rparr>"
    using Cons.prems(1) l by (auto simp: fun_eq_iff intro!: kstate.equality)
  finally show ?case .
qed

lemma wchan_to_local:
  "loc_inv s \<Longrightarrow> c < k_ncpus s \<Longrightarrow>
    loc_inv (s\<lparr>k_list := (k_list s)(Wchan w := [], LocalList c := k_list s (LocalList c) @ k_list s (Wchan w))\<rparr>)"
proof (induction "k_list s (Wchan w)" arbitrary: s)
  case Nil
  then show ?case by (simp add: fun_upd_idem)
next
  case (Cons t ts)
  have l: "k_list s (Wchan w) = t # ts" using Cons.hyps(2) by simp
  note D = loc_invD [OF Cons.prems(1)]
  have tl: "t \<in> set (k_list s (Wchan w))" using l by simp
  let ?s = "moved (Wchan w) ([] @ ts) (LocalList c) (k_list s (LocalList c) @ [t]) t (k_thread s t) s"
  have "loc_inv ?s"
  proof (rule loc_inv_move [OF Cons.prems(1)])
    show "k_list s (Wchan w) = [] @ t # ts" using l by simp
    show "distinct (k_list s (LocalList c) @ [t])" using D(1) [of "LocalList c"] D(2) [OF tl, of "LocalList c"] by auto
    show "list_ok s (LocalList c) (k_thread s t)" using D(6) [OF tl] Cons.prems(2) by auto
    show "t_context (k_thread s t) \<noteq> None" by (rule D(5) [OF tl])
    show "t_linked (k_thread s t)" using D(3) [of t] tl by (auto simp: on_lists_def)
    show "stack_ok (k_thread s t)" by (rule D(12) [OF D(4) [OF tl]])
    show "t_cpu (k_thread s t) = Some e" if "e < k_ncpus s" "curthread s e = t" for e using D(8) [OF that(1)] that(2) by simp
  qed simp_all
  moreover have "?s = s\<lparr>k_list := (k_list s)(Wchan w := ts, LocalList c := k_list s (LocalList c) @ [t])\<rparr>"
    by (simp add: moved_def)
  ultimately have "loc_inv (s\<lparr>k_list := (k_list s)(Wchan w := ts, LocalList c := k_list s (LocalList c) @ [t])\<rparr>)" by simp
  from Cons.hyps(1) [OF _ this] Cons.prems(2)
  show ?case using l by (simp add: fun_upd_twist)
qed

definition spread :: "cpuid \<Rightarrow> tid list \<Rightarrow> kstate \<Rightarrow> lid \<Rightarrow> tid list" where
  "spread c ts s l =
     (case l of
        RunQ d \<Rightarrow> k_list s l @ filter (\<lambda>t. t_cpu (k_thread s t) = Some d) ts
      | LocalList e \<Rightarrow> if e = c then [] else k_list s l
      | _ \<Rightarrow> k_list s l)"

lemma wake_list_ok:
  "loc_inv s \<Longrightarrow> ipl_at c H k s \<Longrightarrow> c < k_ncpus s \<Longrightarrow> (\<And>d. RunqLock d \<notin> H) \<Longrightarrow> (\<And>d. IpiLock d \<notin> H) \<Longrightarrow> k < 100 \<Longrightarrow>
    \<exists>s'. wake_list c s = Ok s' () \<and> loc_inv s' \<and> ipl_at c H k s' \<and> k_list s' = spread c (k_list s (LocalList c)) s \<and>
      k_ncpus s' = k_ncpus s \<and> k_live s' = k_live s"
proof (induction "k_list s (LocalList c)" arbitrary: s)
  case Nil
  then have "wake_list c s = Ok s ()" by (subst wake_list.simps) (simp add: k_remhead_def)
  moreover have "k_list s = spread c (k_list s (LocalList c)) s"
    using Nil.hyps by (auto simp: fun_eq_iff spread_def split: lid.splits)
  ultimately show ?case using Nil by auto
next
  case (Cons t ts)
  have l: "k_list s (LocalList c) = t # ts" using Cons.hyps(2) by simp
  obtain s1 s2 d where s2: "k_remhead (LocalList c) s = Ok s1 (Some t)" "thread_make_runnable c t False s1 = Ok s2 ()"
      "t_cpu (k_thread s t) = Some d" "loc_inv s2" "ipl_at c H k s2"
      "k_list s2 = (k_list s)(LocalList c := ts, RunQ d := k_list s (RunQ d) @ [t])" "k_ncpus s2 = k_ncpus s"
      "k_live s2 = k_live s" "\<forall>x. x \<noteq> t \<longrightarrow> t_cpu (k_thread s2 x) = t_cpu (k_thread s x)"
    using wake_first [OF Cons.prems(1-3) l _ _ Cons.prems(4-6)] by auto
  obtain s' where s': "wake_list c s2 = Ok s' ()" "loc_inv s'" "ipl_at c H k s'"
      "k_list s' = spread c (k_list s2 (LocalList c)) s2" "k_ncpus s' = k_ncpus s2" "k_live s' = k_live s2"
    using Cons.hyps(1) [OF _ s2(4,5) _ Cons.prems(4-6)] s2(6,7) Cons.prems(3) by auto
  have "t \<notin> set ts" using loc_invD(1) [OF Cons.prems(1), of "LocalList c"] l by simp
  then have f: "filter (\<lambda>x. t_cpu (k_thread s2 x) = Some e) ts = filter (\<lambda>x. t_cpu (k_thread s x) = Some e) ts" for e
    using s2(9) by (intro filter_cong) auto
  have "wake_list c s = Ok s' ()"
    using s2(1,2) s'(1) by (subst wake_list.simps) simp
  moreover have "k_list s' = spread c (k_list s (LocalList c)) s"
    unfolding s'(4) using s2(3,6) f l by (auto simp: fun_eq_iff spread_def split: lid.splits)
  ultimately show ?case using s' s2(7,8) by (intro exI [of _ s']) simp
qed

definition wakeall_on :: "cpuid \<Rightarrow> wid \<Rightarrow> nat \<Rightarrow> kstate \<Rightarrow> (kstate, unit) outcome" where
  "wakeall_on c w n s =
     and_then (spinlock_acquire c (Lk n) s)
       (\<lambda>s1 _. and_then (wchan_wakeall c w (Lk n) s1) (\<lambda>s2 _. spinlock_release c (Lk n) s2))"

definition all_woken :: "wid \<Rightarrow> kstate \<Rightarrow> lid \<Rightarrow> tid list" where
  "all_woken w s l =
     (case l of
        RunQ d \<Rightarrow> k_list s l @ filter (\<lambda>t. t_cpu (k_thread s t) = Some d) (k_list s (Wchan w))
      | Wchan v \<Rightarrow> if v = w then [] else k_list s l
      | _ \<Rightarrow> k_list s l)"

lemma wakeall_on_ok:
  assumes inv: "sched_inv s" and c: "c < k_ncpus s"
  shows "\<exists>s'. wakeall_on c w n s = Ok s' () \<and> sched_inv s' \<and> k_list s' = all_woken w s \<and>
    k_ncpus s' = k_ncpus s \<and> k_live s' = k_live s"
proof -
  let ?a = "acq c (Lk n) s"
  note B = begin_section [OF inv c, of "Lk n"]
  have nl: "k_list s (LocalList e) = []" for e using sched_inv_at(3) [OF inv] by (simp add: no_local_def)
  have a0: "?a\<lparr>k_list := (k_list ?a)(LocalList c := [])\<rparr> = ?a" using nl by (auto intro!: kstate.equality simp: fun_eq_iff)
  let ?m = "?a\<lparr>k_list := (k_list s)(Wchan w := [], LocalList c := k_list s (Wchan w))\<rparr>"
  have lk: "\<forall>t \<in> set (k_list ?a (Wchan w)). t_linked (k_thread ?a t)"
    using loc_invD(3) [OF B(3)] by (auto simp: on_lists_def)
  have mv: "list_move (Wchan w) (LocalList c) ?a = Ok ?m ()"
    using list_move_eq [OF _ lk, of "LocalList c"] nl by simp
  have minv: "loc_inv ?m" using wchan_to_local [OF B(3), of c w] c nl by simp
  have mat: "ipl_at c {Lk n} 1 ?m" by (rule ipl_at_same [OF B(2)]) (simp_all add: ipl_same_def)
  obtain s' where s': "wake_list c ?m = Ok s' ()" "loc_inv s'" "ipl_at c {Lk n} 1 s'"
      "k_list s' = spread c (k_list ?m (LocalList c)) ?m" "k_ncpus s' = k_ncpus ?m" "k_live s' = k_live ?m"
    using wake_list_ok [OF minv mat] c by auto
  have ls: "k_list s' = all_woken w s"
    unfolding s'(4) using nl by (auto simp: fun_eq_iff spread_def all_woken_def split: lid.splits)
  have nl': "no_local s'" unfolding no_local_def ls using nl by (simp add: all_woken_def)
  have "wchan_wakeall c w (Lk n) ?a = Ok s' ()"
    using B(5) a0 mv s'(1) nl' by (simp add: wchan_wakeall_def no_local_def)
  moreover have "c < k_ncpus s'" using c s'(5) by simp
  ultimately have "wakeall_on c w n s = Ok (rel c (Lk n) s') ()" "sched_inv (rel c (Lk n) s')"
    using end_section [OF s'(3) _ s'(2) nl'] B(1) by (simp_all add: wakeall_on_def)
  then show ?thesis using ls s'(5,6) by (intro exI [of _ "rel c (Lk n) s'"]) simp
qed

text \<open>A record that belongs to no live thread may change.\<close>

lemma dead_update:
  assumes inv: "sched_inv s" and t: "\<not> k_live s t" and r: "\<not> t_linked r" "t_context r = None"
  shows "sched_inv (s\<lparr>k_thread := (k_thread s)(t := r)\<rparr>)" (is "sched_inv ?s")
proof -
  note I = sched_inv_at [OF inv]
  note D = loc_invD [OF I(2)]
  have notin: "t \<notin> set (k_list s l)" for l using D(4) t by blast
  have cur: "curthread s d \<noteq> t" if "d < k_ncpus s" for d using D(7) [OF that] t by auto
  have on: "on_lists ?s x = on_lists s x" for x by (simp add: on_lists_def)
  have ok: "list_ok ?s l q = list_ok s l q" for l q by (cases l) simp_all
  have "lists_inv ?s"
  proof (rule lists_invI)
    show "distinct (k_list ?s l)" for l using D(1) by simp
    show "l = m" if "x \<in> set (k_list ?s l)" "x \<in> set (k_list ?s m)" for l m x using D(2) [of x l m] that by simp
    show "t_linked (k_thread ?s x) \<longleftrightarrow> on_lists ?s x" for x
      using D(3) [of x] r(1) notin unfolding on by (auto simp: on_lists_def)
    show "k_live ?s x \<and> t_context (k_thread ?s x) \<noteq> None \<and> list_ok ?s l (k_thread ?s x)"
      if "x \<in> set (k_list ?s l)" for l x
      using D(4-6) [of x l] that notin [of l] unfolding ok by auto
  qed
  moreover have "cpus_inv ?s" unfolding cpus_inv_def on using D(7-11) cur by simp
  moreover have "live_inv ?s" unfolding live_inv_def on using D(12,13) t by auto
  moreover have "ipl_inv ?s"
    using I(1) [of 0] cur t r(2) unfolding ipl_inv_at [of _ 0] ipl_at_def ipl_cpu_def ipl_off_def by auto
  ultimately show ?thesis using I(3) by (simp add: sched_inv_def loc_inv_def no_local_def)
qed

text \<open>The record of a new thread when it is made runnable.\<close>

definition started :: "cpuid \<Rightarrow> nat option \<Rightarrow> sthread" where
  "started c p =
     new_thread\<lparr>t_stack := Some ((replicate STACK_WORDS 0)[0 := THREAD_STACK_MAGIC, 1 := THREAD_STACK_MAGIC,
         2 := THREAD_STACK_MAGIC, 3 := THREAD_STACK_MAGIC]),
       t_cpu := Some c, t_proc := p, t_iplhigh_count := 2, t_context := Some In_startup\<rparr>"

lemma thread_fork_success:
  assumes inv: "sched_inv s" and c: "c < k_ncpus s" and t: "\<not> k_live s t"
  shows "\<exists>s' p'. thread_fork c True True True None t p s = Ok s' () \<and> sched_inv s' \<and>
    k_list s' = (k_list s)(RunQ c := k_list s (RunQ c) @ [t]) \<and> k_live s' = (k_live s)(t := True) \<and>
    k_ncpus s' = k_ncpus s \<and> (\<forall>d. c_isidle (k_cpu s' d) = c_isidle (k_cpu s d) \<and> curthread s' d = curthread s d)"
proof -
  note I = sched_inv_at [OF inv]
  note D = loc_invD [OF I(2)]
  have cur: "curthread s d \<noteq> t" if "d < k_ncpus s" for d using D(7) [OF that] t by auto
  define p' where "p' = (case p of None \<Rightarrow> t_proc (k_thread s (curthread s c)) | Some q \<Rightarrow> Some q)"
  define b where "b = s\<lparr>k_live := (k_live s)(t := True), k_thread := (k_thread s)(t := started c p')\<rparr>"
  have curb: "curthread b d = curthread s d" for d by (simp add: b_def)
  have unf: "thread_fork c True True True None t p s = thread_make_runnable c t False b"
    using cur [OF c] D(8) [OF c]
    by (cases p) (simp_all add: thread_fork_def thread_create_def thread_checkstack_init_def Let_def upd_thread_def
        b_def started_def p'_def new_thread_def STACK_WORDS_def)
  have atb: "ipl_at c {} 0 b"
    using I(1) [of c] cur unfolding ipl_at_def ipl_cpu_def ipl_off_def curb
    by (auto simp: b_def started_def new_thread_def IPL_HIGH_def)
  have cb: "c < k_ncpus b" using c by (simp add: b_def)
  have "lock_room 1 b c" using lock_room_at [OF atb cb] by (simp add: lock_room_def)
  then obtain s' where s': "thread_make_runnable c t False b = Ok s' ()" "sched_eq (mk_ready t c b) s'" "ipl_same b s'"
    using thread_make_runnable_ok [of b t c c] ipl_atD(2) [OF atb] irq_ok_at [OF atb cb]
    by (auto simp: b_def started_def new_thread_def)
  let ?r = "(started c p')\<lparr>t_state := S_READY, t_linked := True\<rparr>"
  have eq: "mk_ready t c b = forked c t ?r s"
    by (simp add: mk_ready_def b_def forked_def upd_thread_def)
  have so: "stack_ok ?r" by (auto simp: started_def stack_ok_def STACK_WORDS_def nth_list_update)
  have "loc_inv (forked c t ?r s)"
    using c so by (intro loc_inv_fork [OF I(2) t]) (simp_all add: started_def)
  then have "loc_inv s'" using loc_inv_sched_eq [OF s'(2)] eq by simp
  moreover have E: "k_list s' = (k_list s)(RunQ c := k_list s (RunQ c) @ [t])" "k_live s' = (k_live s)(t := True)"
      "k_ncpus s' = k_ncpus s" "\<forall>d. c_isidle (k_cpu s' d) = c_isidle (k_cpu s d) \<and> curthread s' d = curthread s d"
    using sched_eqD(1-3,12,13) [OF s'(2)] by (simp_all add: eq)
  moreover have "ipl_at c {} 0 s'"
    by (rule ipl_at_same [OF atb s'(3)])
       (use sched_eqD [OF s'(2)] in \<open>simp_all add: eq\<close>, simp_all add: b_def started_def)
  ultimately show ?thesis using unf s'(1) I(3) by (auto simp: sched_inv_def ipl_inv_at [of _ c] no_local_def)
qed

lemma thread_fork_failure:
  assumes inv: "sched_inv s" and c: "c < k_ncpus s" and t: "\<not> k_live s t"
    and fail: "\<not> (a \<and> b \<and> st \<and> ad = None)"
  shows "\<exists>s' e. thread_fork c a b st ad t p s = Err s' e \<and> sched_inv s' \<and> k_list s' = k_list s \<and>
    k_live s' = k_live s \<and> k_ncpus s' = k_ncpus s"
proof -
  have cur: "curthread s c \<noteq> t" using loc_invD(7) [OF sched_inv_at(2) [OF inv] c] t by auto
  have lv: "(k_live s)(t := False) = k_live s" using t by (auto simp: fun_eq_iff)
  have lv': "s\<lparr>k_live := k_live s, k_thread := T\<rparr> = s\<lparr>k_thread := T\<rparr>" for T by (simp add: kstate.surjective)
  have upd: "sched_inv (s\<lparr>k_thread := (k_thread s)(t := r)\<rparr>)" if "\<not> t_linked r" "t_context r = None" for r
    by (rule dead_update [OF inv t that])
  consider "\<not> a \<or> \<not> b" | "a" "b" "\<not> st" | e where "a" "b" "st" "ad = Some e" using fail by auto
  then show ?thesis
  proof cases
    case 1
    then show ?thesis using inv by (auto simp: thread_fork_def thread_create_def)
  next
    case 2
    let ?r = "new_thread\<lparr>t_wchan_name := Some ''DESTROYED''\<rparr>"
    have "thread_fork c a b st ad t p s = Err (s\<lparr>k_thread := (k_thread s)(t := ?r)\<rparr>) ENOMEM"
      using 2 cur lv lv'
      by (simp add: thread_fork_def thread_create_def thread_destroy_def new_thread_def upd_thread_def not_sym)
    then show ?thesis using upd [of ?r] by (auto simp: new_thread_def)
  next
    case 3
    let ?r = "new_thread\<lparr>t_stack := Some ((replicate STACK_WORDS 0)[0 := THREAD_STACK_MAGIC, 1 := THREAD_STACK_MAGIC,
         2 := THREAD_STACK_MAGIC, 3 := THREAD_STACK_MAGIC]), t_cpu := t_cpu (k_thread s (curthread s c)),
         t_wchan_name := Some ''DESTROYED''\<rparr>"
    have "thread_fork c a b st ad t p s = Err (s\<lparr>k_thread := (k_thread s)(t := ?r)\<rparr>) e"
      using 3 cur lv lv'
      by (simp add: thread_fork_def thread_create_def thread_destroy_def new_thread_def upd_thread_def not_sym
          thread_checkstack_init_def Let_def STACK_WORDS_def)
    then show ?thesis using upd [of ?r] by (auto simp: new_thread_def)
  qed
qed

lemma after_switch_away: "after_switch c L s s' r \<Longrightarrow> r \<noteq> Sw_return"
  by (cases "L (RunQ c)") (simp_all add: after_switch_def)

end
