(* ===== verification/Migration.thy ===== *)
theory Migration
  imports Sched_Steps
begin

text \<open>
  Correctness of \<open>thread_consider_migration\<close>: it loses no thread, moves nobody else's threads, never
  moves the thread whose registers the processor still holds, and fills other processors up to an even
  share at most.
\<close>

section \<open>Loop invariant\<close>

definition runnable :: "kstate \<Rightarrow> tid set" where
  "runnable s = (\<Union>d. set (k_list s (RunQ d)))"

text \<open>
  \<open>mig c share s0 s\<close>: \<open>s\<close> is a state inside the operation started in \<open>s0\<close>. The victims are on the local
  list; other processors only got threads appended, up to \<open>share\<close>.
\<close>

definition mig :: "cpuid \<Rightarrow> nat \<Rightarrow> kstate \<Rightarrow> kstate \<Rightarrow> bool" where
  "mig c share s0 s \<longleftrightarrow>
     loc_inv s \<and> k_ncpus s = k_ncpus s0 \<and> k_live s = k_live s0 \<and>
     (\<forall>t \<in> set (k_list s (LocalList c)). t_state (k_thread s t) = S_READY) \<and>
     runnable s \<union> set (k_list s (LocalList c)) = runnable s0 \<and>
     (\<forall>d. d \<noteq> c \<longrightarrow> (\<exists>ex. k_list s (RunQ d) = k_list s0 (RunQ d) @ ex) \<and>
        length (k_list s (RunQ d)) \<le> max (length (k_list s0 (RunQ d))) share) \<and>
     (\<forall>l. (\<forall>d. l \<noteq> RunQ d) \<longrightarrow> l \<noteq> LocalList c \<longrightarrow> k_list s l = k_list s0 l) \<and>
     (\<forall>d. curthread s d = curthread s0 d)"

lemma migD:
  assumes "mig c share s0 s"
  shows "loc_inv s" and "k_ncpus s = k_ncpus s0" and "k_live s = k_live s0"
    and "t \<in> set (k_list s (LocalList c)) \<Longrightarrow> t_state (k_thread s t) = S_READY"
    and "runnable s \<union> set (k_list s (LocalList c)) = runnable s0"
    and "d \<noteq> c \<Longrightarrow> \<exists>ex. k_list s (RunQ d) = k_list s0 (RunQ d) @ ex"
    and "d \<noteq> c \<Longrightarrow> length (k_list s (RunQ d)) \<le> max (length (k_list s0 (RunQ d))) share"
    and "(\<And>d. l \<noteq> RunQ d) \<Longrightarrow> l \<noteq> LocalList c \<Longrightarrow> k_list s l = k_list s0 l"
    and "curthread s d = curthread s0 d"
  using assms unfolding mig_def by blast+

lemma migI:
  assumes "loc_inv s" and "k_ncpus s = k_ncpus s0" and "k_live s = k_live s0"
    and "\<And>t. t \<in> set (k_list s (LocalList c)) \<Longrightarrow> t_state (k_thread s t) = S_READY"
    and "runnable s \<union> set (k_list s (LocalList c)) = runnable s0"
    and "\<And>d. d \<noteq> c \<Longrightarrow> \<exists>ex. k_list s (RunQ d) = k_list s0 (RunQ d) @ ex"
    and "\<And>d. d \<noteq> c \<Longrightarrow> length (k_list s (RunQ d)) \<le> max (length (k_list s0 (RunQ d))) share"
    and "\<And>l. (\<And>d. l \<noteq> RunQ d) \<Longrightarrow> l \<noteq> LocalList c \<Longrightarrow> k_list s l = k_list s0 l"
    and "\<And>d. curthread s d = curthread s0 d"
  shows "mig c share s0 s"
  using assms unfolding mig_def by blast

lemma mig_sched_eq:
  assumes "sched_eq s s'"
  shows "mig c share s0 s' = mig c share s0 s"
  unfolding mig_def runnable_def loc_inv_sched_eq [OF assms] sched_eqD(1-4,13) [OF assms] ..

lemma runnable_moved:
  assumes "l \<noteq> m"
  shows "runnable (moved l ts m us t r s) = (\<Union>d. set (((k_list s)(l := ts, m := us)) (RunQ d)))"
  by (simp add: runnable_def)

lemma UN_runq_split: "(\<Union>d. set (L (RunQ d))) = set (L (RunQ c)) \<union> (\<Union>d \<in> - {c}. set (L (RunQ d)))"
  by auto

section \<open>Steps of the loops\<close>

text \<open>Taking the last thread of the own run queue.\<close>

lemma mig_victim:
  assumes m: "mig c share s0 s" and l: "k_list s (RunQ c) = ys @ [t]" and c: "c < k_ncpus s"
  shows "mig c share s0 (s\<lparr>k_list := (k_list s)(RunQ c := ys, LocalList c := t # k_list s (LocalList c))\<rparr>)" (is "mig c share s0 ?s")
proof -
  note M = migD [OF m] and D = loc_invD [OF migD(1) [OF m]]
  have tl: "t \<in> set (k_list s (RunQ c))" using l by simp
  have lo: "list_ok s (RunQ c) (k_thread s t)" by (rule D(6) [OF tl])
  have tn: "t \<notin> set (k_list s (LocalList c))" using D(2) [OF tl, of "LocalList c"] by auto
  have eq: "?s = moved (RunQ c) (ys @ []) (LocalList c) (t # k_list s (LocalList c)) t (k_thread s t) s"
    by (simp add: moved_def)
  have li: "loc_inv ?s" unfolding eq
  proof (rule loc_inv_move [OF M(1)])
    show "k_list s (RunQ c) = ys @ t # []" using l by simp
    show "distinct (t # k_list s (LocalList c))" using D(1) [of "LocalList c"] tn by simp
    show "list_ok s (LocalList c) (k_thread s t)" using lo c by auto
    show "t_context (k_thread s t) \<noteq> None" "t_linked (k_thread s t)" "stack_ok (k_thread s t)"
      using D(5) [OF tl] D(3) [of t] D(12) [OF D(4) [OF tl]] tl by (auto simp: on_lists_def)
    show "t_cpu (k_thread s t) = Some e" if "e < k_ncpus s" "curthread s e = t" for e using D(8) [OF that(1)] that(2) by simp
  qed simp_all
  show ?thesis
  proof (rule migI [OF li])
    show "t_state (k_thread ?s x) = S_READY" if "x \<in> set (k_list ?s (LocalList c))" for x
      using that M(4) lo by auto
    show "runnable ?s \<union> set (k_list ?s (LocalList c)) = runnable s0"
      unfolding M(5) [symmetric] unfolding runnable_def UN_runq_split [of _ c] using l by auto
  qed (use M in auto)
qed

lemma take_victims_ok:
  "mig c share s0 s \<Longrightarrow> c < k_ncpus s \<Longrightarrow> k_list s (RunQ c) = xs @ vs \<Longrightarrow>
    \<exists>s'. take_victims c (length vs) s = Ok s' () \<and> mig c share s0 s' \<and> k_list s' (RunQ c) = xs \<and>
      k_list s' (LocalList c) = vs @ k_list s (LocalList c) \<and> (\<forall>d. d \<noteq> c \<longrightarrow> k_list s' (RunQ d) = k_list s (RunQ d)) \<and>
      ipl_same s s' \<and> k_cpu s' = k_cpu s \<and> k_thread s' = k_thread s"
proof (induction vs arbitrary: s rule: rev_induct)
  case Nil
  then show ?case by simp
next
  case (snoc t vs)
  let ?s = "s\<lparr>k_list := (k_list s)(RunQ c := xs @ vs, LocalList c := t # k_list s (LocalList c))\<rparr>"
  have l: "k_list s (RunQ c) = (xs @ vs) @ [t]" using snoc.prems(3) by simp
  have m: "mig c share s0 ?s" by (rule mig_victim [OF snoc.prems(1) l snoc.prems(2)])
  have lk: "t_linked (k_thread s t)"
    using loc_invD(3) [OF migD(1) [OF snoc.prems(1)], of t] l by (auto simp: on_lists_def intro!: exI [of _ "RunQ c"])
  have r: "(k_thread s)(t := (k_thread s t)\<lparr>t_linked := True\<rparr>) = k_thread s" using lk by (auto simp: fun_eq_iff)
  have step: "take_victims c (length (vs @ [t])) s = take_victims c (length vs) ?s"
    using l r by (simp add: k_remtail_def k_addhead_def upd_thread_def butlast_append)
  obtain s' where s': "take_victims c (length vs) ?s = Ok s' ()" "mig c share s0 s'" "k_list s' (RunQ c) = xs"
      "k_list s' (LocalList c) = vs @ k_list ?s (LocalList c)" "\<forall>d. d \<noteq> c \<longrightarrow> k_list s' (RunQ d) = k_list ?s (RunQ d)"
      "ipl_same ?s s'" "k_cpu s' = k_cpu ?s" "k_thread s' = k_thread ?s"
    using snoc.IH [OF m] snoc.prems(2) by auto
  then show ?case using step by (intro exI [of _ s']) (auto simp: ipl_same_def)
qed

lemmas loc_inv_move_head = loc_inv_move [where xs = "[]", unfolded append_Nil]

text \<open>Giving the first victim to processor \<open>d\<close>.\<close>

lemma mig_give:
  assumes m: "mig c share s0 s" and l: "k_list s (LocalList c) = t # ts" and d: "d < k_ncpus s" "d \<noteq> c"
    and cur: "t \<noteq> curthread s c" and room: "length (k_list s (RunQ d)) < share"
  shows "mig c share s0 (moved (LocalList c) ts (RunQ d) (k_list s (RunQ d) @ [t]) t ((k_thread s t)\<lparr>t_cpu := Some d\<rparr>) s)" (is "mig c share s0 ?s")
proof -
  note M = migD [OF m] and D = loc_invD [OF migD(1) [OF m]]
  have tl: "t \<in> set (k_list s (LocalList c))" using l by simp
  have st: "t_state (k_thread s t) = S_READY" by (rule M(4) [OF tl])
  have tc: "t_cpu (k_thread s t) = Some c" using D(6) [OF tl] st by auto
  have tn: "t \<notin> set (k_list s (RunQ d))" using D(2) [OF tl, of "RunQ d"] by auto
  have td: "t \<notin> set ts" using D(1) [of "LocalList c"] l by simp
  have li: "loc_inv ?s"
  proof (rule loc_inv_move_head [OF M(1) l])
    show "distinct (k_list s (RunQ d) @ [t])" using D(1) [of "RunQ d"] tn by simp
    show "list_ok s (RunQ d) ((k_thread s t)\<lparr>t_cpu := Some d\<rparr>)" using d(1) st by simp
    show "t_context ((k_thread s t)\<lparr>t_cpu := Some d\<rparr>) \<noteq> None" using D(5) [OF tl] by simp
    show "t_linked ((k_thread s t)\<lparr>t_cpu := Some d\<rparr>)" using D(3) [of t] tl by (auto simp: on_lists_def)
    show "stack_ok ((k_thread s t)\<lparr>t_cpu := Some d\<rparr>)" using D(12) [OF D(4) [OF tl]] by (simp add: stack_ok_def)
    show "t_cpu ((k_thread s t)\<lparr>t_cpu := Some d\<rparr>) = Some e" if "e < k_ncpus s" "curthread s e = t" for e
      using D(8) [OF that(1)] that(2) tc cur by auto
  qed simp_all
  show ?thesis
  proof (rule migI [OF li])
    show "t_state (k_thread ?s x) = S_READY" if "x \<in> set (k_list ?s (LocalList c))" for x
      using that M(4) [of x] l td by auto
    show "runnable ?s \<union> set (k_list ?s (LocalList c)) = runnable s0"
      unfolding M(5) [symmetric] unfolding runnable_def UN_runq_split [of _ d] using l d(2) by auto
    show "\<exists>ex. k_list ?s (RunQ e) = k_list s0 (RunQ e) @ ex" if "e \<noteq> c" for e
      using M(6) [OF that] by (cases "e = d") auto
    show "length (k_list ?s (RunQ e)) \<le> max (length (k_list s0 (RunQ e))) share" if "e \<noteq> c" for e
      using M(7) [OF that] room by (cases "e = d") auto
  qed (use M in auto)
qed

lemma mig_rotate:
  assumes m: "mig c share s0 s" and l: "k_list s (LocalList c) = t # ts"
  shows "mig c share s0 (s\<lparr>k_list := (k_list s)(LocalList c := ts @ [t])\<rparr>)"
proof -
  note M = migD [OF m]
  have "distinct (t # ts)" using loc_invD(1) [OF M(1), of "LocalList c"] l by simp
  then have "loc_inv (s\<lparr>k_list := (k_list s)(LocalList c := ts @ [t])\<rparr>)"
    using l by (intro loc_inv_permute [OF M(1)]) auto
  then show ?thesis using M l by (intro migI) (auto simp: runnable_def)
qed

section \<open>Filling up another processor\<close>

lemma linked_of_list: "loc_inv s \<Longrightarrow> t \<in> set (k_list s l) \<Longrightarrow> t_linked (k_thread s t)"
  using loc_invD(3) [of s t] by (auto simp: on_lists_def)

lemma upd_linked_same:
  "t_linked (k_thread s t) \<Longrightarrow> (k_thread s)(t := (k_thread s t)\<lparr>t_linked := True\<rparr>) = k_thread s"
  by (auto simp: fun_eq_iff)

lemma rotate_calls:
  assumes "k_list s (LocalList c) = t # ts" and "t_linked (k_thread s t)"
  shows "\<exists>s1. k_remhead (LocalList c) s = Ok s1 (Some t) \<and> curthread s1 c = curthread s c \<and>
    k_addtail (LocalList c) t s1 = Ok (s\<lparr>k_list := (k_list s)(LocalList c := ts @ [t])\<rparr>) ()"
  using assms upd_linked_same [OF assms(2)] by (simp add: k_remhead_def k_addtail_def upd_thread_def)

lemma give_calls:
  assumes "k_list s (LocalList c) = t # ts" and "t_linked (k_thread s t)"
  shows "\<exists>s1. k_remhead (LocalList c) s = Ok s1 (Some t) \<and> curthread s1 c = curthread s c \<and>
    k_addtail (RunQ d) t (upd_thread t (\<lambda>r. r\<lparr>t_cpu := Some d\<rparr>) s1) =
      Ok (moved (LocalList c) ts (RunQ d) (k_list s (RunQ d) @ [t]) t ((k_thread s t)\<lparr>t_cpu := Some d\<rparr>) s) ()"
proof -
  have "(k_thread s t)\<lparr>t_linked := False, t_cpu := Some d, t_linked := True\<rparr> = (k_thread s t)\<lparr>t_cpu := Some d\<rparr>"
    using assms(2) by (cases "k_thread s t") simp
  then show ?thesis using assms(1) by (simp add: k_remhead_def k_addtail_def upd_thread_def moved_def)
qed

lemma ipl_same_moved:
  "t_curspl r = t_curspl (k_thread s t) \<Longrightarrow> t_iplhigh_count r = t_iplhigh_count (k_thread s t) \<Longrightarrow>
    ipl_same s (moved l ts m us t r s)"
  by (auto simp: ipl_same_def)

lemma fill_cpu_ok:
  "mig c share s0 s \<Longrightarrow> ipl_at c {RunqLock d} 1 s \<Longrightarrow> c < k_ncpus s \<Longrightarrow> d < k_ncpus s \<Longrightarrow> d \<noteq> c \<Longrightarrow> share < 2 ^ 32 \<Longrightarrow>
    length (k_list s (RunQ d)) < 2 ^ 32 \<Longrightarrow> unat to_send \<le> length (k_list s (LocalList c)) \<Longrightarrow>
    \<exists>s' n'. fill_cpu c d (of_nat share) to_send s = Ok s' n' \<and> mig c share s0 s' \<and> ipl_at c {RunqLock d} 1 s' \<and>
      unat n' \<le> length (k_list s' (LocalList c)) \<and> (\<forall>e. e \<noteq> d \<longrightarrow> k_list s' (RunQ e) = k_list s (RunQ e))"
proof (induction "unat to_send" arbitrary: to_send s)
  case 0
  then have "\<not> 0 < to_send" by (simp add: word_less_nat_alt)
  then have "fill_cpu c d (of_nat share) to_send s = Ok s to_send" by (subst fill_cpu.simps) simp
  then show ?case using 0 by auto
next
  case (Suc k)
  let ?n = "to_send - 1"
  have pos: "0 < to_send" using Suc.hyps(2) by (simp add: word_less_nat_alt)
  have un: "unat ?n = k" using pos Suc.hyps(2) by (simp add: unat_sub word_less_nat_alt word_le_nat_alt)
  have cnt: "tl_count_of s (RunQ d) < of_nat share \<longleftrightarrow> length (k_list s (RunQ d)) < share"
    using Suc.prems(6,7) by (simp add: tl_count_of_def word_less_nat_alt unat_of_nat_32)
  obtain t ts where l: "k_list s (LocalList c) = t # ts"
    using Suc.prems(8) Suc.hyps(2) by (cases "k_list s (LocalList c)") auto
  have lk: "t_linked (k_thread s t)" using linked_of_list [OF migD(1) [OF Suc.prems(1)], of t "LocalList c"] l by simp
  show ?case
  proof (cases "length (k_list s (RunQ d)) < share")
    case False
    then have "fill_cpu c d (of_nat share) to_send s = Ok s to_send" using cnt by (subst fill_cpu.simps) simp
    then show ?thesis using Suc.prems by auto
  next
    case True
    show ?thesis
    proof (cases "t = curthread s c")
      case cur: True
      let ?s = "s\<lparr>k_list := (k_list s)(LocalList c := ts @ [t])\<rparr>"
      have eq: "fill_cpu c d (of_nat share) to_send s = fill_cpu c d (of_nat share) ?n ?s"
        using rotate_calls [OF l lk] True cnt pos cur by (subst fill_cpu.simps) auto
      have "mig c share s0 ?s" by (rule mig_rotate [OF Suc.prems(1) l])
      moreover have "ipl_at c {RunqLock d} 1 ?s" by (rule ipl_at_same [OF Suc.prems(2)]) (simp_all add: ipl_same_def)
      ultimately show ?thesis
        using Suc.hyps(1) [of ?n ?s] Suc.prems un Suc.hyps(2) l unfolding eq by auto
    next
      case cur: False
      define m where "m = moved (LocalList c) ts (RunQ d) (k_list s (RunQ d) @ [t]) t ((k_thread s t)\<lparr>t_cpu := Some d\<rparr>) s"
      have mm: "mig c share s0 m" unfolding m_def by (rule mig_give [OF Suc.prems(1) l Suc.prems(4,5) cur True])
      have mi: "ipl_same s m" unfolding m_def by (rule ipl_same_moved) simp_all
      have mat: "ipl_at c {RunqLock d} 1 m" by (rule ipl_at_same [OF Suc.prems(2) mi]) (simp_all add: m_def)
      have cm: "c < k_ncpus m" using Suc.prems(3) by (simp add: m_def)
      have "lock_room 0 m c" using lock_room_at [OF mat cm] by (simp add: lock_room_def)
      then obtain s3 where s3: "(if c_isidle (k_cpu m d) then ipi_send c d IPI_UNIDLE m else Ok m ()) = Ok s3 ()"
          "sched_eq m s3" "ipl_same m s3"
        using ipi_send_ok [of m d c IPI_UNIDLE] ipl_atD(2) [OF mat] irq_ok_at [OF mat cm]
        by (cases "c_isidle (k_cpu m d)") (auto simp: IPI_UNIDLE_def)
      note e = sched_eqD [OF s3(2)]
      have eq: "fill_cpu c d (of_nat share) to_send s = fill_cpu c d (of_nat share) ?n s3"
        using give_calls [OF l lk, of d, folded m_def] True cnt pos cur s3(1) by (subst fill_cpu.simps) auto
      have "mig c share s0 s3" using mig_sched_eq [OF s3(2)] mm by simp
      moreover have "ipl_at c {RunqLock d} 1 s3" by (rule ipl_at_same [OF mat s3(3)]) (simp_all add: e)
      moreover have "length (k_list s3 (RunQ d)) < 2 ^ 32" using True Suc.prems(6) e(2) by (simp add: m_def)
      moreover have "unat ?n \<le> length (k_list s3 (LocalList c))" using un Suc.prems(8) Suc.hyps(2) l e(2) by (simp add: m_def)
      ultimately obtain s' n' where s': "fill_cpu c d (of_nat share) ?n s3 = Ok s' n'" "mig c share s0 s'"
          "ipl_at c {RunqLock d} 1 s'" "unat n' \<le> length (k_list s' (LocalList c))"
          "\<forall>e. e \<noteq> d \<longrightarrow> k_list s' (RunQ e) = k_list s3 (RunQ e)"
        using Suc.hyps(1) [of ?n s3] un Suc.prems(3-6) e(3) by (auto simp: m_def)
      then show ?thesis using eq e(2) by (auto simp: m_def)
    qed
  qed
qed

section \<open>The whole operation\<close>

lemma mig_frame:
  assumes "sched_eq s s'" and "mig c share s0 s"
  shows "mig c share s0 s'"
  using assms mig_sched_eq by blast

lemma distribute_ok:
  "mig c share s0 s \<Longrightarrow> ipl_at c {} 0 s \<Longrightarrow> c < k_ncpus s \<Longrightarrow> share < 2 ^ 32 \<Longrightarrow>
    (\<And>i. i \<in> set is \<Longrightarrow> i < k_ncpus s) \<Longrightarrow> (\<And>d. d \<in> set is \<Longrightarrow> length (k_list s0 (RunQ d)) < 2 ^ 32) \<Longrightarrow>
    unat to_send \<le> length (k_list s (LocalList c)) \<Longrightarrow>
    \<exists>s'. distribute c is (of_nat share) to_send s = Ok s' () \<and> mig c share s0 s' \<and> ipl_at c {} 0 s' \<and>
      k_list s' (RunQ c) = k_list s (RunQ c)"
proof (induction "is" arbitrary: s to_send)
  case Nil
  then show ?case by simp
next
  case (Cons i "is")
  show ?case
  proof (cases "0 < to_send \<and> i \<noteq> c")
    case False
    then show ?thesis using Cons by (cases "0 < to_send") auto
  next
    case True
    let ?a = "acq c (RunqLock i) s"
    have li: "loc_inv s" by (rule migD(1) [OF Cons.prems(1)])
    have a: "spinlock_acquire c (RunqLock i) s = Ok ?a ()" "ipl_at c {RunqLock i} 1 ?a"
      using acquire_at [OF Cons.prems(2,3) li, of "RunqLock i"] by simp_all
    have am: "mig c share s0 ?a" by (rule mig_frame [OF acq_sched Cons.prems(1)])
    have "length (k_list ?a (RunQ i)) < 2 ^ 32"
      using migD(7) [OF am, of i] True Cons.prems(4) Cons.prems(6) [of i] by (simp add: max_def split: if_splits)
    then obtain b n' where b: "fill_cpu c i (of_nat share) to_send ?a = Ok b n'" "mig c share s0 b" "ipl_at c {RunqLock i} 1 b"
        "unat n' \<le> length (k_list b (LocalList c))" "\<forall>e. e \<noteq> i \<longrightarrow> k_list b (RunQ e) = k_list ?a (RunQ e)"
      using fill_cpu_ok [OF am a(2), of to_send] Cons.prems(3-5,7) True by auto
    have n: "k_ncpus b = k_ncpus s" using migD(2) [OF b(2)] migD(2) [OF Cons.prems(1)] by simp
    let ?r = "rel c (RunqLock i) b"
    have r: "spinlock_release c (RunqLock i) b = Ok ?r ()" "ipl_at c {} 0 ?r"
      using release_at [OF b(3) [unfolded One_nat_def] _ migD(1) [OF b(2)], of "RunqLock i"] Cons.prems(3) n by simp_all
    have rm: "mig c share s0 ?r" by (rule mig_frame [OF rel_sched b(2)])
    obtain s' where "distribute c is (of_nat share) n' ?r = Ok s' ()" "mig c share s0 s'" "ipl_at c {} 0 s'"
        "k_list s' (RunQ c) = k_list ?r (RunQ c)"
      using Cons.IH [OF rm r(2), of n'] Cons.prems(3-6) n b(4) by auto
    then show ?thesis using True a(1) b(1,5) r(1) by auto
  qed
qed

definition queue_lengths :: "kstate \<Rightarrow> cpuid list \<Rightarrow> nat" where
  "queue_lengths s is = sum_list (map (\<lambda>i. length (k_list s (RunQ i))) is)"

lemma count_runnable_ok:
  "loc_inv s \<Longrightarrow> ipl_at c {} 0 s \<Longrightarrow> c < k_ncpus s \<Longrightarrow>
    \<exists>s'. count_runnable c is m n s =
        Ok s' (if c \<in> set is then of_nat (length (k_list s (RunQ c))) else m, n + of_nat (queue_lengths s is)) \<and>
      sched_eq s s' \<and> ipl_at c {} 0 s'"
proof (induction "is" arbitrary: s m n)
  case Nil
  then show ?case by (auto simp: queue_lengths_def)
next
  case (Cons i "is")
  let ?a = "acq c (RunqLock i) s"
  let ?r = "rel c (RunqLock i) ?a"
  have a: "spinlock_acquire c (RunqLock i) s = Ok ?a ()" "ipl_at c {RunqLock i} 1 ?a" "loc_inv ?a"
    using acquire_at [OF Cons.prems(2,3,1), of "RunqLock i"] by simp_all
  have r: "spinlock_release c (RunqLock i) ?a = Ok ?r ()" "ipl_at c {} 0 ?r" "loc_inv ?r"
    using release_at [OF a(2) [unfolded One_nat_def] _ a(3), of "RunqLock i"] Cons.prems(3) by simp_all
  have e: "sched_eq s ?r" by (rule sched_eq_trans [OF acq_sched rel_sched])
  let ?n = "tl_count_of ?a (RunQ i)"
  obtain s' where s': "count_runnable c is (if i = c then ?n else m) (n + ?n) ?r =
        Ok s' (if c \<in> set is then of_nat (length (k_list ?r (RunQ c))) else (if i = c then ?n else m),
          n + ?n + of_nat (queue_lengths ?r is))" "sched_eq ?r s'" "ipl_at c {} 0 s'"
    using Cons.IH [OF r(3,2)] Cons.prems(3) by fastforce
  have "sched_eq s s'" by (rule sched_eq_trans [OF e s'(2)])
  then show ?case using s' a(1) r(1)
    by (auto simp: queue_lengths_def tl_count_of_def add.assoc Let_def)
qed

lemma local_to_runq:
  "loc_inv s \<Longrightarrow> c < k_ncpus s \<Longrightarrow> (\<And>t. t \<in> set (k_list s (LocalList c)) \<Longrightarrow> t_state (k_thread s t) = S_READY) \<Longrightarrow>
    loc_inv (s\<lparr>k_list := (k_list s)(LocalList c := [], RunQ c := k_list s (RunQ c) @ k_list s (LocalList c))\<rparr>)"
proof (induction "k_list s (LocalList c)" arbitrary: s)
  case Nil
  then show ?case by (simp add: fun_upd_idem)
next
  case (Cons t ts)
  have l: "k_list s (LocalList c) = t # ts" using Cons.hyps(2) by simp
  note D = loc_invD [OF Cons.prems(1)]
  have tl: "t \<in> set (k_list s (LocalList c))" using l by simp
  have tn: "t \<notin> set (k_list s (RunQ c))" using D(2) [OF tl, of "RunQ c"] by auto
  let ?s = "moved (LocalList c) ts (RunQ c) (k_list s (RunQ c) @ [t]) t (k_thread s t) s"
  have "loc_inv ?s"
  proof (rule loc_inv_move_head [OF Cons.prems(1) l])
    show "distinct (k_list s (RunQ c) @ [t])" using D(1) [of "RunQ c"] tn by simp
    show "list_ok s (RunQ c) (k_thread s t)" using D(6) [OF tl] Cons.prems(2,3) tl by auto
    show "t_context (k_thread s t) \<noteq> None" using D(5) [OF tl] by simp
    show "t_linked (k_thread s t)" by (rule linked_of_list [OF Cons.prems(1) tl])
    show "stack_ok (k_thread s t)" using D(12) [OF D(4) [OF tl]] by simp
    show "t_cpu (k_thread s t) = Some e" if "e < k_ncpus s" "curthread s e = t" for e
      using D(8) [OF that(1)] that(2) by simp
  qed simp_all
  moreover have "ts = k_list ?s (LocalList c)" by simp
  ultimately have "loc_inv (?s\<lparr>k_list := (k_list ?s)(LocalList c := [], RunQ c := k_list ?s (RunQ c) @ k_list ?s (LocalList c))\<rparr>)"
    using Cons.hyps(1) [of ?s] Cons.prems(2,3) l by auto
  moreover have "?s\<lparr>k_list := (k_list ?s)(LocalList c := [], RunQ c := k_list ?s (RunQ c) @ k_list ?s (LocalList c))\<rparr> =
      s\<lparr>k_list := (k_list s)(LocalList c := [], RunQ c := k_list s (RunQ c) @ k_list s (LocalList c))\<rparr>"
    using l by (auto intro!: kstate.equality simp: fun_eq_iff moved_def)
  ultimately show ?case by simp
qed

lemma mig_back:
  assumes m: "mig c share s0 s" and c: "c < k_ncpus s"
  shows "mig c share s0 (s\<lparr>k_list := (k_list s)(LocalList c := [], RunQ c := k_list s (RunQ c) @ k_list s (LocalList c))\<rparr>)" (is "mig c share s0 ?s")
proof (rule migI)
  note M = migD [OF m]
  show "loc_inv ?s" by (rule local_to_runq [OF M(1) c M(4)])
  show "runnable ?s \<union> set (k_list ?s (LocalList c)) = runnable s0"
    unfolding M(5) [symmetric] unfolding runnable_def UN_runq_split [of _ c] by auto
qed (use migD [OF m] in auto)

lemma give_back_ok:
  assumes m: "mig c share s0 s" and at: "ipl_at c {} 0 s" and c: "c < k_ncpus s"
  shows "\<exists>s'. (if k_list s (LocalList c) \<noteq> [] then
                 and_then (spinlock_acquire c (RunqLock c) s)
                   (\<lambda>s6 _. and_then (list_move (LocalList c) (RunQ c) s6) (\<lambda>s7 _. spinlock_release c (RunqLock c) s7))
               else Ok s ()) = Ok s' () \<and> mig c share s0 s' \<and> ipl_at c {} 0 s' \<and> k_list s' (LocalList c) = []"
proof (cases "k_list s (LocalList c) = []")
  case True
  then show ?thesis using m at by simp
next
  case False
  let ?a = "acq c (RunqLock c) s"
  have a: "spinlock_acquire c (RunqLock c) s = Ok ?a ()" "ipl_at c {RunqLock c} 1 ?a" "loc_inv ?a"
    using acquire_at [OF at c migD(1) [OF m], of "RunqLock c"] by simp_all
  have am: "mig c share s0 ?a" by (rule mig_frame [OF acq_sched m])
  have ca: "c < k_ncpus ?a" using c by simp
  let ?m = "?a\<lparr>k_list := (k_list ?a)(LocalList c := [], RunQ c := k_list ?a (RunQ c) @ k_list ?a (LocalList c))\<rparr>"
  have mv: "list_move (LocalList c) (RunQ c) ?a = Ok ?m ()"
    using linked_of_list [OF a(3)] by (intro list_move_eq) auto
  have mm: "mig c share s0 ?m" by (rule mig_back [OF am ca])
  have mat: "ipl_at c {RunqLock c} (Suc 0) ?m"
    by (rule ipl_at_same [OF a(2) [unfolded One_nat_def]]) (simp_all add: ipl_same_def)
  have cm: "c < k_ncpus ?m" using ca by simp
  let ?r = "rel c (RunqLock c) ?m"
  have r: "spinlock_release c (RunqLock c) ?m = Ok ?r ()" "ipl_at c {} 0 ?r"
    using release_at [OF mat cm migD(1) [OF mm], of "RunqLock c"] by simp_all
  have "mig c share s0 ?r" by (rule mig_frame [OF rel_sched mm])
  then show ?thesis using False a(1) mv r by (intro exI [of _ ?r]) simp
qed

lemma mig_start: "loc_inv s \<Longrightarrow> no_local s \<Longrightarrow> mig c share s s"
  by (rule migI) (auto simp: no_local_def)

lemma mig_trans_eq: "sched_eq s s' \<Longrightarrow> mig c share s' t \<Longrightarrow> mig c share s t"
  unfolding mig_def runnable_def by (simp add: sched_eqD(1-4,13))

text \<open>One processor's even share, rounded up.\<close>

definition even_share :: "kstate \<Rightarrow> nat" where
  "even_share s = (queue_lengths s [0..<k_ncpus s] + k_ncpus s - 1) div k_ncpus s"

lemma queue_le_lengths: "c \<in> set is \<Longrightarrow> length (k_list s (RunQ c)) \<le> queue_lengths s is"
  unfolding queue_lengths_def by (induction "is") auto

lemma even_share_word:
  assumes "queue_lengths s [0..<k_ncpus s] + k_ncpus s < 2 ^ 32" and "0 < k_ncpus s"
  shows "(0 + of_nat (queue_lengths s [0..<k_ncpus s]) + of_nat (k_ncpus s) - 1) div of_nat (k_ncpus s) = (of_nat (even_share s) :: u32)"
    and "even_share s < 2 ^ 32"
proof -
  let ?q = "queue_lengths s [0..<k_ncpus s]"
  have "(of_nat ?q + of_nat (k_ncpus s) - 1 :: u32) = of_nat (?q + k_ncpus s - 1)"
    using assms(2) by simp
  then show "(0 + of_nat ?q + of_nat (k_ncpus s) - 1) div of_nat (k_ncpus s) = (of_nat (even_share s) :: u32)"
    using assms by (simp add: even_share_def word_arith_nat_div unat_of_nat_32 del: of_nat_diff of_nat_add)
  have "even_share s \<le> ?q + k_ncpus s - 1" unfolding even_share_def by (rule div_le_dividend)
  then show "even_share s < 2 ^ 32" using assms by linarith
qed

lemma victims_ok:
  assumes inv: "sched_inv s" and c: "c < k_ncpus s" and n: "n \<le> length (k_list s (RunQ c))"
  shows "\<exists>s2 s3 s4. spinlock_acquire c (RunqLock c) (s\<lparr>k_list := (k_list s)(LocalList c := [])\<rparr>) = Ok s2 () \<and>
    take_victims c n s2 = Ok s3 () \<and> spinlock_release c (RunqLock c) s3 = Ok s4 () \<and>
    mig c share s s4 \<and> ipl_at c {} 0 s4 \<and> length (k_list s4 (LocalList c)) = n"
proof -
  have nl: "k_list s (LocalList e) = []" for e using sched_inv_at(3) [OF inv] by (simp add: no_local_def)
  have eq: "s\<lparr>k_list := (k_list s)(LocalList c := [])\<rparr> = s" using nl by (auto intro!: kstate.equality simp: fun_eq_iff)
  let ?a = "acq c (RunqLock c) s"
  note B = begin_section [OF inv c, of "RunqLock c"]
  have am: "mig c share s ?a"
    by (rule mig_frame [OF acq_sched mig_start [OF sched_inv_at(2,3) [OF inv]]])
  let ?k = "length (k_list s (RunQ c)) - n"
  have "k_list ?a (RunQ c) = take ?k (k_list s (RunQ c)) @ drop ?k (k_list s (RunQ c))" by simp
  then obtain s3 where s3: "take_victims c (length (drop ?k (k_list s (RunQ c)))) ?a = Ok s3 ()" "mig c share s s3"
      "k_list s3 (LocalList c) = drop ?k (k_list s (RunQ c)) @ k_list ?a (LocalList c)" "ipl_same ?a s3"
      "k_cpu s3 = k_cpu ?a" "k_thread s3 = k_thread ?a"
    using take_victims_ok [OF am, of "take ?k (k_list s (RunQ c))" "drop ?k (k_list s (RunQ c))"] c by auto
  have n3: "k_ncpus s3 = k_ncpus s" by (rule migD(2) [OF s3(2)])
  have at3: "ipl_at c {RunqLock c} (Suc 0) s3"
  proof (rule ipl_at_same [OF B(2) [unfolded One_nat_def] s3(4)])
    show "curthread s3 d = curthread ?a d" for d unfolding curthread_def s3(5) ..
  qed (simp_all add: n3 migD(3) [OF s3(2)] s3(5,6))
  have c3: "c < k_ncpus s3" using c n3 by simp
  let ?r = "rel c (RunqLock c) s3"
  have r: "spinlock_release c (RunqLock c) s3 = Ok ?r ()" "ipl_at c {} 0 ?r"
    using release_at [OF at3 c3 migD(1) [OF s3(2)], of "RunqLock c"] by simp_all
  have rm: "mig c share s ?r" by (rule mig_frame [OF rel_sched s3(2)])
  have ln: "length (drop ?k (k_list s (RunQ c))) = n" using n by simp
  show ?thesis unfolding eq
    using B(1) s3(1) [unfolded ln] r rm s3(3) nl n by (intro exI [of _ ?a] exI [of _ s3] exI [of _ ?r]) simp
qed

lemma thread_consider_migration_ok:
  assumes inv: "sched_inv s" and c: "c < k_ncpus s" and room: "queue_lengths s [0..<k_ncpus s] + k_ncpus s < 2 ^ 32"
  shows "\<exists>s'. thread_consider_migration c s = Ok s' () \<and> sched_inv s' \<and> mig c (even_share s) s s'"
proof -
  let ?L = "length (k_list s (RunQ c))" and ?T = "queue_lengths s [0..<k_ncpus s]"
  have cin: "c \<in> set [0..<k_ncpus s]" using c by simp
  note I = sched_inv_at [OF inv]
  have len: "length (k_list s (RunQ d)) < 2 ^ 32" if "d < k_ncpus s" for d
    using queue_le_lengths [of d "[0..<k_ncpus s]" s] that room by simp
  obtain s1 where s1: "count_runnable c [0..<k_ncpus s] 0 0 s = Ok s1 (of_nat ?L, 0 + of_nat ?T)" "sched_eq s s1" "ipl_at c {} 0 s1"
    using count_runnable_ok [OF I(2,1) c, of "[0..<k_ncpus s]" 0 0] cin by auto
  note e = sched_eqD [OF s1(2)]
  have inv1: "sched_inv s1" using I s1(2,3) loc_inv_sched_eq [OF s1(2)] e(2)
    by (simp add: sched_inv_def ipl_inv_at [of _ c] no_local_def)
  have nz: "(of_nat (k_ncpus s) :: u32) \<noteq> 0" using c room unat_of_nat_32 [of "k_ncpus s"] by auto
  note sh = even_share_word [OF room] have np: "0 < k_ncpus s" using c by simp
  have lt: "(of_nat ?L :: u32) < of_nat (even_share s) \<longleftrightarrow> ?L < even_share s"
    using len [OF c] sh(2) [OF np] by (simp add: word_less_nat_alt unat_of_nat_32)
  have m1: "mig c (even_share s) s s1" by (rule mig_frame [OF s1(2) mig_start [OF I(2,3)]])
  show ?thesis
  proof (cases "?L < even_share s")
    case True
    then have "thread_consider_migration c s = Ok s1 ()"
      using s1(1) nz lt sh(1) [OF np] by (simp add: thread_consider_migration_def Let_def)
    then show ?thesis using inv1 m1 by auto
  next
    case False
    let ?n = "of_nat ?L - of_nat (even_share s) :: u32"
    have un: "unat ?n = ?L - even_share s"
      using False len [OF c] sh(2) [OF np] by (simp add: unat_sub word_le_nat_alt unat_of_nat_32)
    obtain s2 s3 s4 where v: "spinlock_acquire c (RunqLock c) (s1\<lparr>k_list := (k_list s1)(LocalList c := [])\<rparr>) = Ok s2 ()"
        "take_victims c (unat ?n) s2 = Ok s3 ()" "spinlock_release c (RunqLock c) s3 = Ok s4 ()"
        "mig c (even_share s) s1 s4" "ipl_at c {} 0 s4" "length (k_list s4 (LocalList c)) = unat ?n"
      using victims_ok [OF inv1, of c "unat ?n" "even_share s"] c un e(2,3) by auto
    have m4: "mig c (even_share s) s s4" using v(4) by (rule mig_trans_eq [OF s1(2)])
    have n4: "k_ncpus s4 = k_ncpus s" by (rule migD(2) [OF m4])
    obtain s5 where s5: "distribute c [0..<k_ncpus s] (of_nat (even_share s)) ?n s4 = Ok s5 ()"
        "mig c (even_share s) s s5" "ipl_at c {} 0 s5"
      using distribute_ok [OF m4 v(5), of "[0..<k_ncpus s]" ?n] c n4 v(6) len sh(2) [OF np] by auto
    have "c < k_ncpus s5" using c migD(2) [OF s5(2)] by simp
    then obtain s8 where s8: "(if k_list s5 (LocalList c) \<noteq> [] then
                 and_then (spinlock_acquire c (RunqLock c) s5)
                   (\<lambda>s6 _. and_then (list_move (LocalList c) (RunQ c) s6) (\<lambda>s7 _. spinlock_release c (RunqLock c) s7))
               else Ok s5 ()) = Ok s8 ()" "mig c (even_share s) s s8" "ipl_at c {} 0 s8" "k_list s8 (LocalList c) = []"
      using give_back_ok [OF s5(2,3)] by blast
    have "k_list s8 (LocalList e) = []" for e
      using migD(8) [OF s8(2), of "LocalList e"] s8(4) I(3) by (cases "e = c") (auto simp: no_local_def)
    then have "no_local s8" by (simp add: no_local_def)
    then have "sched_inv s8" using migD(1) [OF s8(2)] s8(3) by (simp add: sched_inv_def ipl_inv_at [of _ c])
    moreover have "thread_consider_migration c s = Ok s8 ()"
      using s1(1) nz lt False sh(1) [OF np] v(1-3) s5(1) s8(1,4)
      by (simp add: thread_consider_migration_def Let_def)
    ultimately show ?thesis using s8(2) by blast
  qed
qed

end
