(* ===== verification/Kernel_Runs.thy ===== *)
theory Kernel_Runs
  imports Migration
begin

text \<open>
  Executions of the thread system: the events as an inductive step relation over the operations of
  \<open>thread.c\<close> and \<open>clock.c\<close>, the boot state, and what holds in every reachable state.
\<close>

section \<open>The timer interrupt\<close>

definition clock_tick :: "cpuid \<Rightarrow> kstate \<Rightarrow> kstate" where
  "clock_tick c s = upd_cpu c (\<lambda>r. r\<lparr>c_hardclocks := c_hardclocks r + 1\<rparr>) s"

lemma clock_tick_sel [simp]:
  "k_list (clock_tick c s) = k_list s" "k_thread (clock_tick c s) = k_thread s" "k_live (clock_tick c s) = k_live s"
  "k_ncpus (clock_tick c s) = k_ncpus s" "k_lock (clock_tick c s) = k_lock s"
  "c_isidle (k_cpu (clock_tick c s) d) = c_isidle (k_cpu s d)" "curthread (clock_tick c s) d = curthread s d"
  "c_spinlocks (k_cpu (clock_tick c s) d) = c_spinlocks (k_cpu s d)" "c_irqon (k_cpu (clock_tick c s) d) = c_irqon (k_cpu s d)"
  by (simp_all add: clock_tick_def upd_cpu_def curthread_def del: c_curthread_fold)

lemma clock_tick_inv: "sched_inv (clock_tick c s) = sched_inv s"
proof -
  have "list_ok (clock_tick c s) l r = list_ok s l r" for l r by (intro list_ok_cong) simp_all
  then show ?thesis
    by (simp add: sched_inv_def loc_inv_def lists_inv_def cpus_inv_def live_inv_def on_lists_def ipl_inv_def ipl_cpu_def
        ipl_off_def no_local_def)
qed

lemma queue_lengths_tick [simp]: "queue_lengths (clock_tick c s) is = queue_lengths s is"
  by (simp add: queue_lengths_def)

text \<open>Whatever the processor is doing, yielding completes.\<close>

lemma thread_yield_ok:
  assumes inv: "sched_inv s" and c: "c < k_ncpus s"
  shows "\<exists>s' r. thread_yield c s = Ok s' r \<and> sched_inv s' \<and> k_ncpus s' = k_ncpus s"
proof (cases "c_isidle (k_cpu s c)")
  case True
  then show ?thesis using inv thread_switch_idle [OF inv c True] by (auto simp: thread_yield_def)
next
  case False
  show ?thesis
  proof (cases "k_list s (RunQ c) = []")
    case True
    then show ?thesis using thread_yield_alone [OF inv c False] sched_eqD(3) by metis
  next
    case n: False
    then show ?thesis using thread_yield_switch [OF inv c False n] unfolding after_switch_def by metis
  qed
qed

lemma hardclock_ok:
  assumes inv: "sched_inv s" and c: "c < k_ncpus s" and room: "queue_lengths s [0..<k_ncpus s] + k_ncpus s < 2 ^ 32"
  shows "\<exists>s' r. hardclock c s = Ok s' r \<and> sched_inv s' \<and> k_ncpus s' = k_ncpus s"
proof -
  let ?t = "clock_tick c s"
  have t: "sched_inv ?t" using inv clock_tick_inv by simp
  obtain m where m: "(if c_hardclocks (k_cpu ?t c) mod MIGRATE_HARDCLOCKS = 0 then thread_consider_migration c ?t else Ok ?t ()) = Ok m ()"
      "sched_inv m" "k_ncpus m = k_ncpus s"
  proof (cases "c_hardclocks (k_cpu ?t c) mod MIGRATE_HARDCLOCKS = 0")
    case True
    then show ?thesis using thread_consider_migration_ok [OF t, of c] c room that migD(2) [of c _ ?t] by auto
  next
    case False
    then show ?thesis using that t by simp
  qed
  obtain s' r where y: "thread_yield c m = Ok s' r" "sched_inv s'" "k_ncpus s' = k_ncpus s"
    using thread_yield_ok [OF m(2), of c] c m(3) by auto
  have "hardclock c s = Ok s' r"
    unfolding hardclock_def clock_tick_def [symmetric] Let_def schedule_def m(1) by (simp add: y(1))
  then show ?thesis using y(2,3) by blast
qed

section \<open>Executions\<close>

text \<open>
  The events of the system, one per kernel entry: a running thread yields, exits, forks, sleeps on a
  channel under its lock, or wakes the channel; an idle processor looks for work; the timer interrupts
  a processor, idle or not, which now and then rebalances the run queues and then yields.
\<close>

inductive kstep :: "kstate \<Rightarrow> kstate \<Rightarrow> bool" where
  yield: "c < k_ncpus s \<Longrightarrow> thread_yield c s = Ok s' r \<Longrightarrow> kstep s s'"
| exit: "c < k_ncpus s \<Longrightarrow> \<not> c_isidle (k_cpu s c) \<Longrightarrow> thread_exit c s = Ok s' r \<Longrightarrow> kstep s s'"
| sleep: "c < k_ncpus s \<Longrightarrow> \<not> c_isidle (k_cpu s c) \<Longrightarrow> \<not> t_in_interrupt (k_thread s (curthread s c)) \<Longrightarrow>
    sleep_on c w n s = Ok s' r \<Longrightarrow> kstep s s'"
| wakeone: "c < k_ncpus s \<Longrightarrow> wakeone_on c w n s = Ok s' u \<Longrightarrow> kstep s s'"
| wakeall: "c < k_ncpus s \<Longrightarrow> wakeall_on c w n s = Ok s' u \<Longrightarrow> kstep s s'"
| fork: "c < k_ncpus s \<Longrightarrow> \<not> k_live s t \<Longrightarrow> thread_fork c a b st ad t p s = Ok s' u \<Longrightarrow> kstep s s'"
| fork_fails: "c < k_ncpus s \<Longrightarrow> \<not> k_live s t \<Longrightarrow> thread_fork c a b st ad t p s = Err s' e \<Longrightarrow> kstep s s'"
| idle: "c < k_ncpus s \<Longrightarrow> c_isidle (k_cpu s c) \<Longrightarrow> idle_round c s = Ok s' r \<Longrightarrow> kstep s s'"
| tick: "c < k_ncpus s \<Longrightarrow> queue_lengths s [0..<k_ncpus s] + k_ncpus s < 2 ^ 32 \<Longrightarrow> hardclock c s = Ok s' r \<Longrightarrow> kstep s s'"

lemma kstep_inv: "kstep s s' \<Longrightarrow> sched_inv s \<Longrightarrow> sched_inv s' \<and> k_ncpus s' = k_ncpus s"
proof (induction rule: kstep.induct)
  case (yield c s s' r)
  then show ?case using thread_yield_ok [of s c] by auto
next
  case (exit c s s' r)
  then show ?case using thread_exit_ok [of s c] by (auto simp: after_switch_def)
next
  case (sleep c s w n s' r)
  then show ?case using sleep_on_ok [of s c w n] by (auto simp: after_switch_def)
next
  case (wakeone c s w n s' u)
  then show ?case using wakeone_on_ok [of s c w n] by auto
next
  case (wakeall c s w n s' u)
  then show ?case using wakeall_on_ok [of s c w n] by auto
next
  case (fork c s t a b st ad p s' u)
  then show ?case using thread_fork_success [of s c t p] thread_fork_failure [of s c t a b st ad p]
    by (cases "a \<and> b \<and> st \<and> ad = None") auto
next
  case (fork_fails c s t a b st ad p s' e)
  then show ?case using thread_fork_success [of s c t p] thread_fork_failure [of s c t a b st ad p]
    by (cases "a \<and> b \<and> st \<and> ad = None") auto
next
  case (idle c s s' r)
  then show ?case using idle_round_ok(1) [of s c] idle_round_ok(2) [of s c]
    by (cases "k_list s (RunQ c)") (auto dest: sched_eqD(3))
next
  case (tick c s s' r)
  then show ?case using hardclock_ok [of s c] by auto
qed

text \<open>
  After \<open>thread_bootstrap\<close> and \<open>thread_start_cpus\<close>: \<open>n\<close> processors, each running its boot thread,
  nothing else alive, no lock held, interrupts on.
\<close>

definition boot_thread :: "cpuid \<Rightarrow> sthread" where
  "boot_thread c = new_thread\<lparr>t_wchan_name := None, t_state := S_RUN, t_cpu := Some c, t_proc := Some 0,
     t_curspl := 0, t_iplhigh_count := 0\<rparr>"

definition boot_state :: "nat \<Rightarrow> kstate" where
  "boot_state n =
     \<lparr>k_thread = boot_thread, k_live = (\<lambda>t. t < n),
      k_cpu = (\<lambda>c. \<lparr>c_curthread = c, c_hardclocks = 0, c_spinlocks = 0, c_isidle = False, c_ipi_pending = 0,
         c_shootdown = replicate TLBSHOOTDOWN_MAX \<lparr>ts_placeholder = 0\<rparr>, c_numshootdown = 0, c_irqon = True\<rparr>),
      k_ncpus = n, k_list = (\<lambda>_. []), k_lock = (\<lambda>_. spinlock_init), k_wcname = (\<lambda>_. ''''),
      k_tlb = (\<lambda>_. replicate NUM_TLB (0, 0))\<rparr>"

lemma boot_inv: "sched_inv (boot_state n)"
  by (auto simp: sched_inv_def loc_inv_def lists_inv_def cpus_inv_def live_inv_def ipl_inv_def ipl_cpu_def ipl_off_def
      no_local_def on_lists_def boot_state_def boot_thread_def new_thread_def stack_ok_def curthread_def [abs_def]
      simp del: c_curthread_fold)

inductive reachable :: "nat \<Rightarrow> kstate \<Rightarrow> bool" for n where
  boot: "reachable n (boot_state n)"
| step: "reachable n s \<Longrightarrow> kstep s s' \<Longrightarrow> reachable n s'"

lemma reachable_inv: "reachable n s \<Longrightarrow> sched_inv s \<and> k_ncpus s = n"
proof (induction rule: reachable.induct)
  case boot
  then show ?case using boot_inv by (simp add: boot_state_def)
next
  case (step s s')
  then show ?case using kstep_inv by blast
qed

inductive_cases kstepE: "kstep s s'"

section \<open>Where threads are\<close>

datatype place = On_cpu cpuid | On_list lid

fun is_at :: "kstate \<Rightarrow> tid \<Rightarrow> place \<Rightarrow> bool" where
  "is_at s t (On_cpu c) \<longleftrightarrow> c < k_ncpus s \<and> \<not> c_isidle (k_cpu s c) \<and> curthread s c = t"
| "is_at s t (On_list l) \<longleftrightarrow> t \<in> set (k_list s l)"

fun place_state :: "place \<Rightarrow> threadstate" where
  "place_state (On_cpu c) = S_RUN"
| "place_state (On_list (RunQ c)) = S_READY"
| "place_state (On_list (Wchan w)) = S_SLEEP"
| "place_state (On_list (Zombies c)) = S_ZOMBIE"
| "place_state (On_list (LocalList c)) = S_READY"

lemma is_at_unique:
  assumes "loc_inv s" and "is_at s t p" and "is_at s t q"
  shows "p = q"
proof -
  note D = loc_invD [OF assms(1)]
  have cpus: "c = d" if "is_at s t (On_cpu c)" "is_at s t (On_cpu d)" for c d
    using D(8) [of c] D(8) [of d] that by simp
  have mix: False if "is_at s t (On_cpu c)" "is_at s t (On_list l)" for c l
    using D(11) [of c] that by (auto simp: on_lists_def)
  show ?thesis using assms(2,3) cpus mix D(2)
    by (cases p; cases q) (auto simp del: is_at.simps(1))
qed

lemma is_at_live: "loc_inv s \<Longrightarrow> is_at s t p \<Longrightarrow> k_live s t"
  using loc_invD(4,7) by (cases p) auto

lemma live_is_at: "loc_inv s \<Longrightarrow> k_live s t \<Longrightarrow> \<exists>p. is_at s t p"
  using loc_invD(13) [of s t] is_at.simps unfolding on_lists_def by metis

lemma is_at_state:
  assumes "sched_inv s" and "is_at s t p"
  shows "t_state (k_thread s t) = place_state p"
proof -
  note D = loc_invD [OF sched_inv_at(2) [OF assms(1)]]
  show ?thesis
  proof (cases p)
    case (On_cpu c)
    then show ?thesis using assms(2) D(10) [of c] by auto
  next
    case (On_list l)
    then show ?thesis using assms(2) D(6) [of t l] sched_inv_at(3) [OF assms(1)] by (cases l) (auto simp: no_local_def)
  qed
qed

text \<open>
  C1. In every reachable state a live thread is in exactly one place: running on one processor, or on
  exactly one run queue, wait channel or zombie list, which it is on once. Its state field says
  which. A thread that has been destroyed is nowhere.
\<close>

theorem threads_in_one_place:
  assumes "reachable n s"
  shows "(if k_live s t then \<exists>!p. is_at s t p else \<forall>p. \<not> is_at s t p) \<and>
    (\<forall>p. is_at s t p \<longrightarrow> t_state (k_thread s t) = place_state p) \<and> distinct (k_list s l)"
proof -
  have inv: "sched_inv s" using reachable_inv [OF assms] by simp
  note li = sched_inv_at(2) [OF inv]
  show ?thesis using is_at_unique [OF li] is_at_live [OF li] live_is_at [OF li] is_at_state [OF inv] loc_invD(1) [OF li]
    by (auto; blast)
qed

theorem threads_in_one_place_witness:
  "is_at (boot_state 2) 1 (On_cpu 1) \<and> (\<exists>!p. is_at (boot_state 2) 1 p)"
  using threads_in_one_place [OF reachable.boot [of 2], of 1] by (simp add: boot_state_def curthread_def del: c_curthread_fold)

section \<open>Kernel calls complete\<close>



text \<open>
  C3. Between kernel calls no spinlock is held anywhere, every processor counts zero spinlocks, has
  its interrupts on exactly when its thread runs at level \<open>IPL_NONE\<close>, and every switched-out thread
  waits at level \<open>IPL_HIGH\<close> with two reasons to keep interrupts off.
\<close>

theorem interrupts_balanced:
  assumes "reachable n s"
  shows "k_lock s l = spinlock_init \<and>
    (\<forall>c < n. c_spinlocks (k_cpu s c) = 0 \<and>
       (c_irqon (k_cpu s c) \<longleftrightarrow> t_curspl (k_thread s (curthread s c)) = IPL_NONE) \<and>
       t_iplhigh_count (k_thread s (curthread s c)) = int (t_curspl (k_thread s (curthread s c)))) \<and>
    (\<forall>t. k_live s t \<longrightarrow> (\<forall>c < n. curthread s c \<noteq> t) \<longrightarrow>
       t_curspl (k_thread s t) = IPL_HIGH \<and> t_iplhigh_count (k_thread s t) = 2)"
proof -
  have "ipl_inv s" "k_ncpus s = n" using reachable_inv [OF assms] by (simp_all add: sched_inv_def)
  then show ?thesis by (auto simp: ipl_inv_def ipl_cpu_def ipl_off_def IPL_NONE_def IPL_HIGH_def)
qed

theorem interrupts_balanced_witness:
  "k_lock (boot_state 1) (RunqLock 0) = spinlock_init \<and> c_spinlocks (k_cpu (boot_state 1) 0) = 0"
  using interrupts_balanced [OF reachable.boot [of 1], of "RunqLock 0"] by simp

section \<open>Round robin\<close>

fun yields :: "nat \<Rightarrow> cpuid \<Rightarrow> kstate \<Rightarrow> (kstate, unit) outcome" where
  "yields 0 c s = Ok s ()"
| "yields (Suc k) c s = and_then (thread_yield c s) (\<lambda>s' _. yields k c s')"

lemma yield_rotates:
  assumes inv: "sched_inv s" and c: "c < k_ncpus s" "\<not> c_isidle (k_cpu s c)"
  shows "\<exists>s' r. thread_yield c s = Ok s' r \<and> sched_inv s' \<and> c < k_ncpus s' \<and> \<not> c_isidle (k_cpu s' c) \<and>
    curthread s' c # k_list s' (RunQ c) = rotate1 (curthread s c # k_list s (RunQ c))"
proof (cases "k_list s (RunQ c)")
  case Nil
  obtain s' where s': "thread_yield c s = Ok s' Sw_return" "sched_inv s'" "sched_eq s s'"
    using thread_yield_alone [OF inv c Nil] by blast
  then show ?thesis using c Nil by (auto simp: sched_eqD [OF s'(3)])
next
  case (Cons t ts)
  obtain s' r where s': "thread_yield c s = Ok s' r"
      "after_switch c ((k_list s)(RunQ c := k_list s (RunQ c) @ [curthread s c])) s s' r"
    using thread_yield_switch [OF inv c] Cons by auto
  then show ?thesis using Cons c by (auto simp: after_switch_def)
qed

lemma yields_rotate:
  "sched_inv s \<Longrightarrow> c < k_ncpus s \<Longrightarrow> \<not> c_isidle (k_cpu s c) \<Longrightarrow>
    \<exists>s'. yields k c s = Ok s' () \<and> curthread s' c # k_list s' (RunQ c) = rotate k (curthread s c # k_list s (RunQ c))"
proof (induction k arbitrary: s)
  case 0
  then show ?case by simp
next
  case (Suc k)
  obtain s1 r where s1: "thread_yield c s = Ok s1 r" "sched_inv s1" "c < k_ncpus s1" "\<not> c_isidle (k_cpu s1 c)"
      "curthread s1 c # k_list s1 (RunQ c) = rotate1 (curthread s c # k_list s (RunQ c))"
    using yield_rotates [OF Suc.prems] by blast
  then show ?case using Suc.IH [OF s1(2-4)] by (auto simp: rotate1_rotate_swap simp del: rotate1.simps)
qed

text \<open>
  C4. Yielding is round robin: with no other event, \<open>k\<close> yields on a processor rotate the running thread
  and its run queue by \<open>k\<close>. So the thread at position \<open>i\<close> of the queue runs after \<open>i + 1\<close> yields: no
  runnable thread starves.
\<close>

theorem yield_round_robin:
  assumes "reachable n s" and "c < n" and "\<not> c_isidle (k_cpu s c)"
  shows "(\<exists>s'. yields k c s = Ok s' () \<and>
      curthread s' c # k_list s' (RunQ c) = rotate k (curthread s c # k_list s (RunQ c))) \<and>
    (\<forall>i < length (k_list s (RunQ c)). \<exists>s'. yields (Suc i) c s = Ok s' () \<and> curthread s' c = k_list s (RunQ c) ! i)"
proof -
  note y = yields_rotate [of s c] have inv: "sched_inv s" "c < k_ncpus s" using reachable_inv [OF assms(1)] assms(2) by auto
  have "\<exists>s'. yields (Suc i) c s = Ok s' () \<and> curthread s' c = k_list s (RunQ c) ! i" if "i < length (k_list s (RunQ c))" for i
  proof -
    obtain s' where s': "yields (Suc i) c s = Ok s' ()"
        "curthread s' c # k_list s' (RunQ c) = rotate (Suc i) (curthread s c # k_list s (RunQ c))"
      using y [OF inv assms(3), of "Suc i"] by blast
    then have "curthread s' c = rotate (Suc i) (curthread s c # k_list s (RunQ c)) ! 0"
      by (metis nth_Cons_0)
    then show ?thesis using s'(1) that nth_rotate [of 0 "curthread s c # k_list s (RunQ c)" "Suc i"]
      by (simp del: rotate_Suc)
  qed
  then show ?thesis using y [OF inv assms(3), of k] by blast
qed

lemma fork_reachable:
  "\<exists>s. reachable 1 s \<and> k_list s (RunQ 0) = [7] \<and> \<not> c_isidle (k_cpu s 0)"
proof -
  have b: "0 < k_ncpus (boot_state 1)" "\<not> k_live (boot_state 1) 7" "k_list (boot_state 1) (RunQ 0) = []"
      "\<not> c_isidle (k_cpu (boot_state 1) 0)" by (simp_all add: boot_state_def)
  obtain s where s: "thread_fork 0 True True True None 7 None (boot_state 1) = Ok s ()"
      "k_list s = (k_list (boot_state 1))(RunQ 0 := k_list (boot_state 1) (RunQ 0) @ [7])"
      "c_isidle (k_cpu s 0) = c_isidle (k_cpu (boot_state 1) 0)"
    using thread_fork_success [OF boot_inv b(1,2), of None] by metis
  have "reachable 1 s" by (rule reachable.step [OF reachable.boot kstep.fork [OF b(1,2) s(1)]])
  then show ?thesis using s(2,3) b(3,4) by (intro exI [of _ s]) simp
qed

theorem yield_round_robin_witness:
  "\<exists>s s'. reachable 1 s \<and> k_list s (RunQ 0) = [7] \<and> yields 1 0 s = Ok s' () \<and> curthread s' 0 = 7"
proof -
  obtain s where s: "reachable 1 s" "k_list s (RunQ 0) = [7]" "\<not> c_isidle (k_cpu s 0)" using fork_reachable by blast
  then show ?thesis using yield_round_robin [OF s(1) _ s(3), of 0] by auto
qed

section \<open>Wakeups, forks and migration\<close>

text \<open>
  C8. Wakeups are first in, first out and lose nobody: \<open>wchan_wakeone\<close> moves the longest sleeper to the
  end of its processor's run queue; \<open>wchan_wakeall\<close> empties the channel and appends to each run queue
  the sleepers of that processor, in the order they went to sleep. Nothing else moves.
\<close>

theorem wakeups_fifo:
  assumes "reachable n s" and "c < n"
  shows "(\<forall>t ts. k_list s (Wchan w) = t # ts \<longrightarrow>
      (\<exists>d < n. \<exists>s'. t_cpu (k_thread s t) = Some d \<and> wakeone_on c w k s = Ok s' () \<and>
         k_list s' = (k_list s)(Wchan w := ts, RunQ d := k_list s (RunQ d) @ [t]))) \<and>
    (\<exists>s'. wakeall_on c w k s = Ok s' () \<and> k_list s' (Wchan w) = [] \<and>
      (\<forall>d. k_list s' (RunQ d) = k_list s (RunQ d) @ filter (\<lambda>t. t_cpu (k_thread s t) = Some d) (k_list s (Wchan w))) \<and>
      (\<forall>v. v \<noteq> w \<longrightarrow> k_list s' (Wchan v) = k_list s (Wchan v)) \<and> (\<forall>d. k_list s' (Zombies d) = k_list s (Zombies d)))"
proof -
  have inv: "sched_inv s" and c: "c < k_ncpus s" and n: "k_ncpus s = n" using reachable_inv [OF assms(1)] assms(2) by auto
  have one: "\<exists>d < n. \<exists>s'. t_cpu (k_thread s t) = Some d \<and> wakeone_on c w k s = Ok s' () \<and>
       k_list s' = (k_list s)(Wchan w := ts, RunQ d := k_list s (RunQ d) @ [t])" if l: "k_list s (Wchan w) = t # ts" for t ts
  proof -
    have "list_ok s (Wchan w) (k_thread s t)" using loc_invD(6) [OF sched_inv_at(2) [OF inv], of t "Wchan w"] l by simp
    then obtain d where d: "t_cpu (k_thread s t) = Some d" "d < n" using n by auto
    then show ?thesis using wakeone_on_ok [OF inv c, of w k] l by (auto simp: woken_lists_def)
  qed
  obtain s' where s': "wakeall_on c w k s = Ok s' ()" "k_list s' = all_woken w s"
    using wakeall_on_ok [OF inv c, of w k] by blast
  show ?thesis using one s'(1) by (auto simp: s'(2) all_woken_def intro!: exI [of _ s'])
qed

theorem wakeups_fifo_witness:
  "\<exists>s'. wakeall_on 0 3 4 (boot_state 1) = Ok s' () \<and> k_list s' (Wchan 3) = []"
  using wakeups_fifo [OF reachable.boot [of 1] zero_less_one, of 3 4] by blast

text \<open>
  C10. \<open>thread_fork\<close> either puts the new thread at the end of the parent's run queue, where it is live,
  or fails and leaves every list and the set of live threads as they were: a fork that runs out of
  memory, or whose process cannot take another thread, leaks nothing.
\<close>

theorem thread_fork_all_or_nothing:
  assumes "reachable n s" and "c < n" and "\<not> k_live s t"
  shows "if kmalloc_ok \<and> kstrdup_ok \<and> kstack_ok \<and> addthread = None then
      (\<exists>s'. thread_fork c kmalloc_ok kstrdup_ok kstack_ok addthread t p s = Ok s' () \<and>
         k_list s' = (k_list s)(RunQ c := k_list s (RunQ c) @ [t]) \<and> k_live s' = (k_live s)(t := True))
    else (\<exists>s' e. thread_fork c kmalloc_ok kstrdup_ok kstack_ok addthread t p s = Err s' e \<and>
         k_list s' = k_list s \<and> k_live s' = k_live s)"
proof -
  have inv: "sched_inv s" and c: "c < k_ncpus s" using reachable_inv [OF assms(1)] assms(2) by auto
  show ?thesis
    using thread_fork_success [OF inv c assms(3), of p]
      thread_fork_failure [OF inv c assms(3), of kmalloc_ok kstrdup_ok kstack_ok addthread p]
    by (cases "kmalloc_ok \<and> kstrdup_ok \<and> kstack_ok \<and> addthread = None") auto
qed

theorem thread_fork_all_or_nothing_witness:
  "\<exists>s' e. thread_fork 0 True True False None 7 None (boot_state 1) = Err s' e \<and> k_live s' = k_live (boot_state 1)"
proof -
  have "\<not> k_live (boot_state 1) 7" by (simp add: boot_state_def)
  from thread_fork_all_or_nothing [OF reachable.boot [of 1] _ this, of 0 True True False None None] show ?thesis by auto
qed

text \<open>
  C9. \<open>thread_consider_migration\<close> conserves the runnable threads and touches no wait channel and no
  zombie: every thread runnable before is runnable after and conversely; other processors only get
  threads appended, never beyond an even share; every migrated thread's processor field is the queue
  it is on; no processor's current thread changes.
\<close>

theorem migration_conserves:
  assumes "reachable n s" and "c < n" and "queue_lengths s [0..<n] + n < 2 ^ 32"
  shows "\<exists>s'. thread_consider_migration c s = Ok s' () \<and> runnable s' = runnable s \<and>
    (\<forall>d. d \<noteq> c \<longrightarrow> (\<exists>ex. k_list s' (RunQ d) = k_list s (RunQ d) @ ex) \<and>
       length (k_list s' (RunQ d)) \<le> max (length (k_list s (RunQ d))) (even_share s)) \<and>
    (\<forall>d. \<forall>t \<in> set (k_list s' (RunQ d)). t_cpu (k_thread s' t) = Some d) \<and>
    (\<forall>w. k_list s' (Wchan w) = k_list s (Wchan w)) \<and> (\<forall>d. k_list s' (Zombies d) = k_list s (Zombies d)) \<and>
    (\<forall>d. curthread s' d = curthread s d)"
proof -
  have inv: "sched_inv s" and c: "c < k_ncpus s" and n: "k_ncpus s = n" using reachable_inv [OF assms(1)] assms(2) by auto
  obtain s' where s': "thread_consider_migration c s = Ok s' ()" "sched_inv s'" "mig c (even_share s) s s'"
    using thread_consider_migration_ok [OF inv c] assms(3) n by auto
  note M = migD [OF s'(3)]
  have "k_list s' (LocalList c) = []" using s'(2) by (simp add: sched_inv_def no_local_def)
  then have "runnable s' = runnable s" using M(5) by simp
  moreover have "t_cpu (k_thread s' t) = Some d" if "t \<in> set (k_list s' (RunQ d))" for t d
    using loc_invD(6) [OF M(1) that] by simp
  ultimately show ?thesis using s'(1) M(6-9) by (intro exI [of _ s']) auto
qed

theorem migration_conserves_witness:
  "\<exists>s'. thread_consider_migration 0 (boot_state 2) = Ok s' () \<and> runnable s' = {}"
proof -
  have "queue_lengths (boot_state 2) [0..<2] + 2 < 2 ^ 32" and r: "runnable (boot_state 2) = {}"
    by (simp_all add: queue_lengths_def boot_state_def runnable_def upt_rec)
  from migration_conserves [OF reachable.boot [of 2] _ this(1), of 0] r show ?thesis by auto
qed

section \<open>TLB shootdown requests\<close>

lemma acq_shootdown:
  "c_numshootdown (k_cpu (acq c l s) d) = c_numshootdown (k_cpu s d)" "c_shootdown (k_cpu (acq c l s) d) = c_shootdown (k_cpu s d)"
  by (simp_all add: acq_def upd_cpu_def)

lemma rel_shootdown:
  "c_numshootdown (k_cpu (rel c l s) d) = c_numshootdown (k_cpu s d)" "c_shootdown (k_cpu (rel c l s) d) = c_shootdown (k_cpu s d)"
  by (simp_all add: rel_def upd_cpu_def)

definition shoot_state :: "int \<Rightarrow> kstate" where
  "shoot_state k = upd_cpu 1 (\<lambda>r. r\<lparr>c_numshootdown := k\<rparr>) (boot_state 2)"

lemma shoot_state_sel:
  "k_list (shoot_state k) = k_list (boot_state 2)" "k_thread (shoot_state k) = k_thread (boot_state 2)"
  "k_live (shoot_state k) = k_live (boot_state 2)" "k_ncpus (shoot_state k) = k_ncpus (boot_state 2)"
  "k_lock (shoot_state k) = k_lock (boot_state 2)" "c_isidle (k_cpu (shoot_state k) d) = c_isidle (k_cpu (boot_state 2) d)"
  "curthread (shoot_state k) d = curthread (boot_state 2) d"
  "c_spinlocks (k_cpu (shoot_state k) d) = c_spinlocks (k_cpu (boot_state 2) d)"
  "c_irqon (k_cpu (shoot_state k) d) = c_irqon (k_cpu (boot_state 2) d)"
  by (simp_all add: shoot_state_def upd_cpu_def curthread_def del: c_curthread_fold)

lemma shoot_state_inv: "sched_inv (shoot_state k)"
proof -
  have "list_ok (shoot_state k) l r = list_ok (boot_state 2) l r" for l r by (intro list_ok_cong) (simp_all add: shoot_state_sel)
  then have "sched_inv (shoot_state k) = sched_inv (boot_state 2)"
    by (simp add: sched_inv_def loc_inv_def lists_inv_def cpus_inv_def live_inv_def on_lists_def ipl_inv_def ipl_cpu_def
        ipl_off_def no_local_def shoot_state_sel)
  then show ?thesis using boot_inv by simp
qed

text \<open>
  C23. A TLB shootdown request for a processor whose queue has room is appended and flagged; one for a
  full queue turns the queue into ``flush everything''. But \<open>ipi_tlbshootdown\<close> does not recognise a
  queue already in that state: the next request before the interrupt is handled indexes the
  request array with \<open>TLBSHOOTDOWN_ALL\<close>, that is, with \<open>-1\<close>, and faults.
\<close>

theorem ipi_tlbshootdown_requests:
  assumes inv: "sched_inv s" and c: "c < k_ncpus s" and "length (c_shootdown (k_cpu s d)) = TLBSHOOTDOWN_MAX"
    and "k = c_numshootdown (k_cpu s d)" and "k = TLBSHOOTDOWN_ALL \<or> 0 \<le> k \<and> k \<le> int TLBSHOOTDOWN_MAX"
  shows "if k = TLBSHOOTDOWN_ALL then ipi_tlbshootdown c d m s = Fault
    else \<exists>s'. ipi_tlbshootdown c d m s = Ok s' () \<and>
      (if k = int TLBSHOOTDOWN_MAX then c_numshootdown (k_cpu s' d) = TLBSHOOTDOWN_ALL
       else c_numshootdown (k_cpu s' d) = k + 1 \<and> c_shootdown (k_cpu s' d) ! nat k = m)"
proof -
  note B = begin_section [OF inv c, of "IpiLock d"] and A = acq_shootdown [of c "IpiLock d" s d]
  let ?f = "\<lambda>r. r\<lparr>c_ipi_pending := c_ipi_pending r OR push_bit IPI_TLBSHOOTDOWN 1\<rparr>"
  have z: "c_spinlocks (k_cpu s c) = 0" using inv c by (simp add: sched_inv_def ipl_inv_def ipl_cpu_def)
  have r: "spinlock_release c (IpiLock d) (upd_cpu d ?f (upd_cpu d g (acq c (IpiLock d) s))) =
      Ok (rel c (IpiLock d) (upd_cpu d ?f (upd_cpu d g (acq c (IpiLock d) s)))) ()"
    if "\<And>r. c_spinlocks (g r) = c_spinlocks r" for g
    using that z by (intro release_rel) (simp_all add: upd_cpu_def acq_def)
  have "ipi_tlbshootdown c d m s = Fault" if "k = TLBSHOOTDOWN_ALL"
    using that B(1) assms(4) A by (simp add: ipi_tlbshootdown_def TLBSHOOTDOWN_ALL_def TLBSHOOTDOWN_MAX_def)
  moreover have "\<exists>s'. ipi_tlbshootdown c d m s = Ok s' () \<and> c_numshootdown (k_cpu s' d) = TLBSHOOTDOWN_ALL"
    if "k = int TLBSHOOTDOWN_MAX"
    using that B(1) assms(4) A r [of "\<lambda>r. r\<lparr>c_numshootdown := TLBSHOOTDOWN_ALL\<rparr>"]
    by (simp add: ipi_tlbshootdown_def rel_shootdown upd_cpu_def)
  moreover have "\<exists>s'. ipi_tlbshootdown c d m s = Ok s' () \<and> c_numshootdown (k_cpu s' d) = k + 1 \<and> c_shootdown (k_cpu s' d) ! nat k = m"
    if "0 \<le> k" "k < int TLBSHOOTDOWN_MAX"
  proof -
    have "nat k < TLBSHOOTDOWN_MAX" using that by linarith
    then show ?thesis
      using that B(1) assms(3,4) A r [of "\<lambda>r. r\<lparr>c_shootdown := (c_shootdown r)[nat k := m], c_numshootdown := k + 1\<rparr>"]
      by (simp add: ipi_tlbshootdown_def rel_shootdown upd_cpu_def Let_def)
  qed
  ultimately show ?thesis using assms(5) by (cases "k = int TLBSHOOTDOWN_MAX") auto
qed

theorem ipi_tlbshootdown_requests_witness:
  "ipi_tlbshootdown 0 1 \<lparr>ts_placeholder = 5\<rparr> (shoot_state TLBSHOOTDOWN_ALL) = Fault"
  using ipi_tlbshootdown_requests [OF shoot_state_inv, of 0 TLBSHOOTDOWN_ALL 1 TLBSHOOTDOWN_ALL]
  by (simp add: shoot_state_def boot_state_def upd_cpu_def)

end
