(* ===== verification/Millicode.thy ===== *)
theory Millicode
  imports Prelude
begin

text \<open>
  64-bit integer arithmetic on a 32-bit machine: \<open>common/gcc-millicode\<close>, all routines but division.
  Each routine works on the two 32-bit halves of its arguments; the theorems say that it computes
  the 64-bit operation.
\<close>

section \<open>Model\<close>

text \<open>\<open>union uu\<close> as its two halves; writing both halves and reading the whole is \<open>uu_ll\<close>.\<close>

definition uu_H :: "u64 \<Rightarrow> u32" where "uu_H a = ucast (drop_bit 32 a)"
definition uu_L :: "u64 \<Rightarrow> u32" where "uu_L a = ucast a"
definition uu_ll :: "u32 \<Rightarrow> u32 \<Rightarrow> u64" where "uu_ll h l = push_bit 32 (ucast h) OR ucast l"

definition HHALF :: "u32 \<Rightarrow> u32" where "HHALF x = drop_bit 16 x"
definition LHALF :: "u32 \<Rightarrow> u32" where "LHALF x = x AND (push_bit 16 1 - 1)"
definition LHUP :: "u32 \<Rightarrow> u32" where "LHUP x = push_bit 16 x"

definition adddi3 :: "u64 \<Rightarrow> u64 \<Rightarrow> u64" where
  "adddi3 a b = (let sumL = uu_L a + uu_L b in uu_ll (uu_H a + uu_H b + of_bool (sumL < uu_L b)) sumL)"

definition subdi3 :: "u64 \<Rightarrow> u64 \<Rightarrow> u64" where
  "subdi3 a b = (let diffL = uu_L a - uu_L b in uu_ll (uu_H a - uu_H b - of_bool (diffL > uu_L a)) diffL)"

definition negdi2 :: "u64 \<Rightarrow> u64" where
  "negdi2 a = (let resL = - uu_L a in uu_ll (- uu_H a - of_bool (resL > 0)) resL)"

definition anddi3 :: "u64 \<Rightarrow> u64 \<Rightarrow> u64" where
  "anddi3 a b = uu_ll (uu_H a AND uu_H b) (uu_L a AND uu_L b)"

definition iordi3 :: "u64 \<Rightarrow> u64 \<Rightarrow> u64" where
  "iordi3 a b = uu_ll (uu_H a OR uu_H b) (uu_L a OR uu_L b)"

definition xordi3 :: "u64 \<Rightarrow> u64 \<Rightarrow> u64" where
  "xordi3 a b = uu_ll (uu_H a XOR uu_H b) (uu_L a XOR uu_L b)"

definition one_cmpldi2 :: "u64 \<Rightarrow> u64" where
  "one_cmpldi2 a = uu_ll (NOT (uu_H a)) (NOT (uu_L a))"

definition INT_BITS :: nat where "INT_BITS = 32"

definition ashldi3 :: "u64 \<Rightarrow> nat \<Rightarrow> u64" where
  "ashldi3 a shift =
     (if shift = 0 then a
      else if INT_BITS \<le> shift then uu_ll (push_bit (shift - INT_BITS) (uu_L a)) 0
      else uu_ll (push_bit shift (uu_H a) OR drop_bit (INT_BITS - shift) (uu_L a)) (push_bit shift (uu_L a)))"

definition lshldi3 :: "u64 \<Rightarrow> nat \<Rightarrow> u64" where
  "lshldi3 a shift =
     (if shift = 0 then a
      else if INT_BITS \<le> shift then uu_ll (push_bit (shift - INT_BITS) (uu_L a)) 0
      else uu_ll (push_bit shift (uu_H a) OR drop_bit (INT_BITS - shift) (uu_L a)) (push_bit shift (uu_L a)))"

definition lshrdi3 :: "u64 \<Rightarrow> nat \<Rightarrow> u64" where
  "lshrdi3 a shift =
     (if shift = 0 then a
      else if INT_BITS \<le> shift then uu_ll 0 (drop_bit (shift - INT_BITS) (uu_H a))
      else uu_ll (drop_bit shift (uu_H a)) (drop_bit shift (uu_L a) OR push_bit (INT_BITS - shift) (uu_H a)))"

definition ashrdi3 :: "u64 \<Rightarrow> nat \<Rightarrow> u64" where
  "ashrdi3 a shift =
     (if shift = 0 then a
      else if INT_BITS \<le> shift then
        let s = signed_drop_bit 1 (signed_drop_bit (INT_BITS - 1) (uu_H a))
        in uu_ll s (signed_drop_bit (shift - INT_BITS) (uu_H a))
      else uu_ll (signed_drop_bit shift (uu_H a)) (drop_bit shift (uu_L a) OR push_bit (INT_BITS - shift) (uu_H a)))"

definition cmpdi2 :: "u64 \<Rightarrow> u64 \<Rightarrow> nat" where
  "cmpdi2 a b =
     (if uu_H a <s uu_H b then 0 else if uu_H b <s uu_H a then 2
      else if uu_L a < uu_L b then 0 else if uu_L b < uu_L a then 2 else 1)"

definition ucmpdi2 :: "u64 \<Rightarrow> u64 \<Rightarrow> nat" where
  "ucmpdi2 a b =
     (if uu_H a < uu_H b then 0 else if uu_H b < uu_H a then 2
      else if uu_L a < uu_L b then 0 else if uu_L b < uu_L a then 2 else 1)"

text \<open>
  Multiplication: \<open>lmulq\<close> multiplies two 32-bit numbers by way of their 16-bit halves. \<open>lmulq_sum\<close> is its
  second half, which adds up the partial products.
\<close>

definition lmulq_sum :: "bool \<Rightarrow> u32 \<Rightarrow> u32 \<Rightarrow> u32 \<Rightarrow> u64" where
  "lmulq_sum neg high mid low =
     (let prodh = high + HHALF high;
          prodl = LHUP high;
          (prodh, prodl) =
            (if neg then
               let l = prodl - LHUP mid in (prodh - (HHALF mid + of_bool (l > prodl)), l)
             else
               let l = prodl + LHUP mid in (prodh + (HHALF mid + of_bool (l < prodl)), l));
          (prodh, prodl) =
            (let l = prodl + LHUP low in (prodh + (HHALF low + of_bool (l < prodl)), l));
          (prodh, prodl) =
            (let l = prodl + low in (if l < low then prodh + 1 else prodh, l))
      in uu_ll prodh prodl)"

definition lmulq :: "u32 \<Rightarrow> u32 \<Rightarrow> u64" where
  "lmulq u v =
     (let u1 = HHALF u; u0 = LHALF u; v1 = HHALF v; v0 = LHALF v; low = u0 * v0
      in if u1 = 0 \<and> v1 = 0 then ucast low
         else
           let (udiff, neg0) = (if u1 \<ge> u0 then (u1 - u0, False) else (u0 - u1, True));
               (vdiff, neg) = (if v0 \<ge> v1 then (v0 - v1, neg0) else (v1 - v0, \<not> neg0))
           in lmulq_sum neg (u1 * v1) (udiff * vdiff) low)"

definition muldi3 :: "u64 \<Rightarrow> u64 \<Rightarrow> u64" where
  "muldi3 a b =
     (let (u, negall0) = (if 0 \<le>s a then (a, False) else (- a, True));
          (v, negall) = (if 0 \<le>s b then (b, negall0) else (- b, \<not> negall0));
          u1 = uu_H u; u0 = uu_L u; v1 = uu_H v; v0 = uu_L v;
          prod =
            (if u1 = 0 \<and> v1 = 0 then lmulq u0 v0
             else
               let low = lmulq u0 v0;
                   (negmid0, udiff) = (if u1 \<ge> u0 then (False, u1 - u0) else (True, u0 - u1));
                   (negmid, vdiff) = (if v0 \<ge> v1 then (negmid0, v0 - v1) else (\<not> negmid0, v1 - v0));
                   mid = udiff * vdiff;
                   high = u1 * v1
               in uu_ll (high + (if negmid then - mid else mid) + uu_L low + uu_H low) (uu_L low))
      in if negall then - prod else prod)"

section \<open>Halves of a 64-bit word\<close>

lemma uu_ll_sum: "uu_ll h l = push_bit 32 (ucast h) + ucast l"
proof -
  have "push_bit 32 (ucast h :: u64) AND ucast l = 0"
    by (rule bit_eqI) (auto simp: bit_simps dest: bit_imp_le_length)
  then show ?thesis by (simp add: uu_ll_def disjunctive_add_eq_or)
qed

lemma uu_H_ll [simp]: "uu_H (uu_ll h l) = h"
  by (rule bit_word_eqI) (auto simp: bit_simps uu_H_def uu_ll_def dest: bit_imp_le_length)

lemma uu_L_ll [simp]: "uu_L (uu_ll h l) = l"
  by (rule bit_word_eqI) (auto simp: bit_simps uu_L_def uu_ll_def)

lemma uu_ll_HL [simp]: "uu_ll (uu_H a) (uu_L a) = a"
  by (rule bit_word_eqI) (auto simp: bit_simps uu_H_def uu_L_def uu_ll_def)

text \<open>The upper half, scaled, is a ring homomorphism; the lower half is one up to the carry.\<close>

definition up64 :: "u32 \<Rightarrow> u64" where "up64 x = push_bit 32 (ucast x)"
definition lo64 :: "u32 \<Rightarrow> u64" where "lo64 x = ucast x"

lemma uu_up: "uu_ll h l = up64 h + lo64 l" by (simp add: uu_ll_sum up64_def lo64_def)

lemma uu_val: "a = up64 (uu_H a) + lo64 (uu_L a)" by (simp flip: uu_up)

lemma two_64: "(4294967296 :: u64) * 4294967296 = 0" by simp

lemma ucast_of_int_32: "(ucast (of_int k :: u32) :: u64) = of_int (k mod 4294967296)"
  by (simp add: unsigned_of_int take_bit_eq_mod)

lemma up64_of_int: "up64 (of_int k) = 4294967296 * of_int k"
proof -
  have "(4294967296 * of_int (k mod 4294967296 + 4294967296 * (k div 4294967296)) :: u64) =
      4294967296 * of_int (k mod 4294967296) + 4294967296 * 4294967296 * of_int (k div 4294967296)"
    by (simp only: of_int_add of_int_mult of_int_numeral distrib_left mult.assoc)
  then have "4294967296 * of_int k = (4294967296 * of_int (k mod 4294967296) :: u64)"
    unfolding two_64 mod_mult_div_eq by simp
  then show ?thesis by (simp only: up64_def ucast_of_int_32 push_bit_eq_mult) (simp only: mult.commute power_numeral; simp)
qed

lemma up64_eq: "up64 x = 4294967296 * lo64 x"
  by (simp add: up64_def lo64_def push_bit_eq_mult)

lemma of_int_ex: "\<exists>k. (x :: u32) = of_int k"
  by (rule exI [of _ "uint x"]) simp

lemma up64_hom:
  "up64 (x + y) = up64 x + up64 y" "up64 (x - y) = up64 x - up64 y" "up64 (- x) = - up64 x" "up64 (x * y) = lo64 x * up64 y" "up64 0 = 0"
proof -
  obtain k l where x: "x = of_int k" and y: "y = of_int l" using of_int_ex by blast
  note U = up64_of_int
  show "up64 (x + y) = up64 x + up64 y" unfolding x y of_int_add [symmetric] U by (simp only: of_int_add distrib_left)
  show "up64 (x - y) = up64 x - up64 y" unfolding x y of_int_diff [symmetric] U by (simp only: of_int_diff right_diff_distrib)
  show "up64 (- x) = - up64 x" unfolding x of_int_minus [symmetric] U by (simp only: of_int_minus mult_minus_right)
  have "up64 (x * y) = up64 x * of_int l" unfolding x y of_int_mult [symmetric] U by (simp only: of_int_mult mult.assoc)
  also have "\<dots> = lo64 x * up64 y" unfolding y U unfolding up64_eq by (simp only: mult_ac)
  finally show "up64 (x * y) = lo64 x * up64 y" .
qed (simp add: up64_def)

lemma up64_mult: "up64 (x * y) = 4294967296 * (lo64 x * lo64 y)"
  unfolding up64_hom(4) unfolding up64_eq by (simp only: mult_ac)

lemma up64_of_bool: "up64 (of_bool b) = (if b then 4294967296 else 0)"
  by (simp add: up64_def)

lemma up64_if: "up64 (if b then x else y) = (if b then up64 x else up64 y)" by simp

lemma lo64_uint: "lo64 x = of_int (uint x)"
  by (simp add: lo64_def)

lemma uint_range_32: "0 \<le> uint (x :: u32)" "uint (x :: u32) < 4294967296"
  using uint_ge_0 [of x] uint_lt2p [of x] by simp_all

lemma lo64_add: "lo64 (x + y) = lo64 x + lo64 y - (if x + y < y then 4294967296 else 0)"
proof (cases "uint x + uint y < 4294967296")
  case True
  then have u: "uint (x + y) = uint x + uint y" by (simp add: uint_plus_if')
  then have "\<not> x + y < y" using uint_range_32(1) [of x] by (simp add: word_less_def)
  then show ?thesis unfolding lo64_uint u by (simp only: of_int_add if_False diff_zero)
next
  case False
  then have u: "uint (x + y) = uint x + uint y - 4294967296" by (simp add: uint_plus_if')
  then have "x + y < y" using uint_range_32(2) [of x] unfolding word_less_def by linarith
  then show ?thesis unfolding lo64_uint u by (simp only: of_int_add of_int_diff of_int_numeral if_True)
qed

lemma lo64_sub: "lo64 (x - y) = lo64 x - lo64 y + (if x - y > x then 4294967296 else 0)"
proof (cases "uint y \<le> uint x")
  case True
  then have u: "uint (x - y) = uint x - uint y" by (simp add: uint_sub_if')
  then have "\<not> x - y > x" using uint_range_32(1) [of y] by (simp add: word_less_def)
  then show ?thesis unfolding lo64_uint u by (simp only: of_int_diff if_False add_0_right)
next
  case False
  then have u: "uint (x - y) = uint x - uint y + 4294967296" by (simp add: uint_sub_if')
  then have "x - y > x" using uint_range_32(2) [of y] unfolding word_less_def by linarith
  then show ?thesis unfolding lo64_uint u by (simp only: of_int_add of_int_diff of_int_numeral if_True)
qed

section \<open>Addition, subtraction, negation\<close>

lemma adddi3_eq: "adddi3 a b = a + b"
proof -
  have "adddi3 a b = (up64 (uu_H a) + lo64 (uu_L a)) + (up64 (uu_H b) + lo64 (uu_L b))"
    by (simp add: adddi3_def Let_def uu_up up64_hom up64_of_bool lo64_add del: uu_ll_HL)
  then show ?thesis unfolding uu_val [symmetric] .
qed

lemma subdi3_eq: "subdi3 a b = a - b"
proof -
  have "subdi3 a b = (up64 (uu_H a) + lo64 (uu_L a)) - (up64 (uu_H b) + lo64 (uu_L b))"
    by (simp add: subdi3_def Let_def uu_up up64_hom up64_of_bool lo64_sub)
  then show ?thesis unfolding uu_val [symmetric] .
qed

lemma negdi2_eq: "negdi2 a = - a"
proof -
  have l: "lo64 (- x) = - lo64 x + (if - x > 0 then 4294967296 else 0)" for x using lo64_sub [of 0 x] by (simp add: lo64_def)
  have "negdi2 a = - (up64 (uu_H a) + lo64 (uu_L a))"
    by (simp add: negdi2_def Let_def uu_up up64_hom up64_of_bool l)
  then show ?thesis unfolding uu_val [symmetric] .
qed

lemma logical_eqs: "anddi3 a b = a AND b" "iordi3 a b = a OR b" "xordi3 a b = a XOR b" "one_cmpldi2 a = NOT a"
  by (rule bit_word_eqI; auto simp: bit_simps anddi3_def iordi3_def xordi3_def one_cmpldi2_def uu_H_def uu_L_def uu_ll_def)+

section \<open>Shifts\<close>

lemma bit_uu_ll: "bit (uu_ll h l) n \<longleftrightarrow> (if n < 32 then bit l n else bit h (n - 32))"
  by (auto simp: bit_simps uu_ll_def dest: bit_imp_le_length)

lemma bit_uu_H: "bit (uu_H a) n \<longleftrightarrow> n < 32 \<and> bit a (32 + n)"
  by (auto simp: bit_simps uu_H_def)

lemma bit_uu_L: "bit (uu_L a) n \<longleftrightarrow> n < 32 \<and> bit a n"
  by (auto simp: bit_simps uu_L_def)

lemmas bit_uu = bit_uu_ll bit_uu_H bit_uu_L

lemma ashldi3_eq:
  assumes "shift < 64"
  shows "ashldi3 a shift = push_bit shift a"
proof -
  consider "shift = 0" | "0 < shift" "shift < 32" | "32 \<le> shift" by linarith
  then show ?thesis
  proof cases
    case 2
    show ?thesis unfolding ashldi3_def INT_BITS_def using 2
      by (intro bit_word_eqI) (auto simp: bit_uu bit_push_bit_iff bit_drop_bit_eq bit_or_iff)
  next
    case 3
    show ?thesis unfolding ashldi3_def INT_BITS_def using 3
      by (intro bit_word_eqI) (auto simp: bit_uu bit_push_bit_iff)
  qed (simp add: ashldi3_def)
qed

lemma lshldi3_eq: "shift < 64 \<Longrightarrow> lshldi3 a shift = push_bit shift a"
  using ashldi3_eq [of shift a] by (simp add: ashldi3_def lshldi3_def)

lemma lshrdi3_eq:
  assumes "shift < 64"
  shows "lshrdi3 a shift = drop_bit shift a"
proof -
  consider "shift = 0" | "0 < shift" "shift < 32" | "32 \<le> shift" by linarith
  then show ?thesis
  proof cases
    case 2
    show ?thesis unfolding lshrdi3_def INT_BITS_def using 2
      by (intro bit_word_eqI) (auto simp: bit_uu bit_push_bit_iff bit_drop_bit_eq bit_or_iff add.commute dest: bit_imp_le_length)
  next
    case 3
    show ?thesis unfolding lshrdi3_def INT_BITS_def using 3
      by (intro bit_word_eqI) (auto simp: bit_uu bit_drop_bit_eq dest: bit_imp_le_length)
  qed (simp add: lshrdi3_def)
qed

lemma bit_sdrop_32: "bit (signed_drop_bit m (x :: u32)) n \<longleftrightarrow> n < 32 \<and> bit x (if m + n < 32 then m + n else 31)"
  by (auto simp: bit_simps dest: bit_imp_le_length)

lemma bit_sdrop_64: "bit (signed_drop_bit m (x :: u64)) n \<longleftrightarrow> n < 64 \<and> bit x (if m + n < 64 then m + n else 63)"
  by (auto simp: bit_simps dest: bit_imp_le_length)

lemma ashrdi3_eq:
  assumes "shift < 64"
  shows "ashrdi3 a shift = signed_drop_bit shift a"
proof -
  consider "shift = 0" | "0 < shift" "shift < 32" | "32 \<le> shift" by linarith
  then show ?thesis
  proof cases
    case 2
    show ?thesis unfolding ashrdi3_def INT_BITS_def
    proof (rule bit_word_eqI)
      fix n :: nat
      have "32 + (n + shift - 32) = n + shift" if "\<not> n + shift < 32" using that by simp
      then show "bit (if shift = 0 then a
           else if 32 \<le> shift then
             let s = signed_drop_bit 1 (signed_drop_bit (32 - 1) (uu_H a)) in uu_ll s (signed_drop_bit (shift - 32) (uu_H a))
           else uu_ll (signed_drop_bit shift (uu_H a)) (drop_bit shift (uu_L a) OR push_bit (32 - shift) (uu_H a))) n \<longleftrightarrow>
         bit (signed_drop_bit shift a) n" if "n < LENGTH(64)"
        using 2 that by (cases "n + shift < 32")
          (auto simp: bit_uu bit_push_bit_iff bit_drop_bit_eq bit_sdrop_32 bit_sdrop_64 bit_or_iff add.commute [of shift])
    qed
  next
    case 3
    show ?thesis unfolding ashrdi3_def INT_BITS_def Let_def using 3 assms
      by (intro bit_word_eqI) (auto simp: bit_uu bit_sdrop_32 bit_sdrop_64)
  qed (simp add: ashrdi3_def)
qed

section \<open>Comparisons\<close>

lemma uint_uu_ll: "uint (uu_ll h l) = uint h * 4294967296 + uint l"
proof -
  have "uu_ll h l = of_int (uint h * 4294967296 + uint l)"
    unfolding uu_up up64_eq lo64_uint by (simp only: of_int_add of_int_mult of_int_numeral mult.commute)
  then have "uint (uu_ll h l) = (uint h * 4294967296 + uint l) mod 18446744073709551616"
    by (simp only: uint_word_of_int) simp
  then show ?thesis using uint_range_32 [of h] uint_range_32 [of l] by simp
qed

lemma sint_bit_32: "sint (x :: u32) = uint x - 4294967296 * of_bool (bit x 31)"
  using uint_lt2p [of x] by (simp add: sint_uint signed_take_bit_eq_take_bit_minus bit_uint_iff take_bit_int_eq_self)

lemma sint_bit_64: "sint (x :: u64) = uint x - 18446744073709551616 * of_bool (bit x 63)"
  using uint_lt2p [of x] by (simp add: sint_uint signed_take_bit_eq_take_bit_minus bit_uint_iff take_bit_int_eq_self)

lemma sint_uu_ll: "sint (uu_ll h l) = sint h * 4294967296 + uint l"
  by (simp add: sint_bit_32 sint_bit_64 uint_uu_ll bit_uu)

lemma lex_compare:
  fixes h1 h2 l1 l2 :: int
  assumes "0 \<le> l1" "l1 < 4294967296" "0 \<le> l2" "l2 < 4294967296"
  shows "(if h1 < h2 then 0 else if h2 < h1 then 2 else if l1 < l2 then 0 else if l2 < l1 then 2 else 1) =
    (if h1 * 4294967296 + l1 < h2 * 4294967296 + l2 then 0 else if h1 * 4294967296 + l1 = h2 * 4294967296 + l2 then 1 else (2::nat))"
proof (cases h1 h2 rule: linorder_cases)
  case less
  then have "h1 * 4294967296 + l1 < h2 * 4294967296 + l2" using assms by linarith
  then show ?thesis using less by simp
next
  case greater
  then have "h2 * 4294967296 + l2 < h1 * 4294967296 + l1" using assms by linarith
  then show ?thesis using greater by simp
qed auto

lemma ucmpdi2_eq: "ucmpdi2 a b = (if a < b then 0 else if a = b then 1 else 2)"
proof -
  have u: "uint x = uint (uu_H x) * 4294967296 + uint (uu_L x)" for x using uint_uu_ll [of "uu_H x" "uu_L x"] by simp
  have eq: "a = b \<longleftrightarrow> uint a = uint b" by (metis unsigned_word_eqI)
  show ?thesis unfolding ucmpdi2_def word_less_def eq u by (rule lex_compare) (rule uint_range_32)+
qed

lemma cmpdi2_eq: "cmpdi2 a b = (if sint a < sint b then 0 else if a = b then 1 else 2)"
proof -
  have u: "sint x = sint (uu_H x) * 4294967296 + uint (uu_L x)" for x using sint_uu_ll [of "uu_H x" "uu_L x"] by simp
  have eq: "a = b \<longleftrightarrow> sint a = sint b" by (metis signed_word_eqI)
  show ?thesis unfolding cmpdi2_def word_sless_alt word_less_def eq u by (rule lex_compare) (rule uint_range_32)+
qed

section \<open>Multiplication\<close>

definition half_word :: "u32 \<Rightarrow> bool" where "half_word x \<longleftrightarrow> uint x < 65536"

lemma uint_HHALF: "uint (HHALF x) = uint x div 65536"
  unfolding HHALF_def unsigned_drop_bit_eq by (simp add: drop_bit_eq_div take_bit_int_eq_self uint_range_32)

lemma LHALF_mask: "LHALF x = take_bit 16 x"
  by (simp add: LHALF_def take_bit_eq_mask mask_eq_exp_minus_1)

lemma uint_LHALF: "uint (LHALF x) = uint x mod 65536"
  unfolding LHALF_mask unsigned_take_bit_eq by (simp add: take_bit_eq_mod)

lemma half_word_HHALF: "half_word (HHALF x)"
  using uint_range_32 [of x] unfolding half_word_def uint_HHALF by linarith

lemma half_word_LHALF: "half_word (LHALF x)"
  by (simp add: half_word_def uint_LHALF)

lemma half_word_sub: "half_word x \<Longrightarrow> y \<le> x \<Longrightarrow> half_word (x - y)"
  using uint_range_32(1) [of y] unfolding half_word_def word_le_def by (simp only: uint_sub_if' if_True)

lemma lo64_mult: "half_word x \<Longrightarrow> half_word y \<Longrightarrow> lo64 (x * y) = lo64 x * lo64 y"
proof -
  assume "half_word x" "half_word y"
  then have "uint x * uint y < 65536 * 65536"
    unfolding half_word_def using uint_ge_0 [of x] uint_ge_0 [of y] by (intro mult_strict_mono) auto
  then have "uint (x * y) = uint x * uint y" by (simp add: uint_word_ariths(3))
  then show ?thesis unfolding lo64_uint by (simp only: of_int_mult)
qed

lemma lo64_diff: "y \<le> x \<Longrightarrow> lo64 (x - y) = lo64 x - lo64 y"
  using lo64_sub [of x y] by (simp add: word_less_def word_le_def uint_sub_if')

lemma halves_val: "lo64 x = 65536 * lo64 (HHALF x) + lo64 (LHALF x)"
proof -
  have "uint x = 65536 * (uint x div 65536) + uint x mod 65536" by simp
  then have "lo64 x = of_int (65536 * (uint x div 65536) + uint x mod 65536)" unfolding lo64_uint by simp
  then show ?thesis unfolding lo64_uint uint_HHALF uint_LHALF by (simp only: of_int_add of_int_mult of_int_numeral)
qed

lemma up64_halves: "up64 (HHALF m) + lo64 (LHUP m) = 65536 * lo64 m"
proof -
  have "uu_ll (HHALF m) (LHUP m) = push_bit 16 (lo64 m)"
    by (rule bit_word_eqI) (auto simp: bit_uu HHALF_def LHUP_def lo64_def bit_simps dest: bit_imp_le_length)
  then show ?thesis by (simp add: uu_up push_bit_eq_mult)
qed

text \<open>Adding and subtracting a number times \<open>2 ^ 16\<close> to a pair of 32-bit words, with the carry.\<close>

lemma pair_add: "up64 (h + (HHALF m + of_bool (l + LHUP m < l))) + lo64 (l + LHUP m) = up64 h + lo64 l + 65536 * lo64 m"
  using lo64_add [of "LHUP m" l] up64_halves [of m] by (simp add: up64_hom up64_of_bool algebra_simps)

lemma pair_sub: "up64 (h - (HHALF m + of_bool (l - LHUP m > l))) + lo64 (l - LHUP m) = up64 h + lo64 l - 65536 * lo64 m"
  unfolding up64_halves [of m, symmetric] lo64_sub by (simp add: up64_hom up64_of_bool)

lemma pair_add_low: "up64 (if l + m < m then h + 1 else h) + lo64 (l + m) = up64 h + lo64 l + lo64 m"
  using lo64_add [of l m] up64_of_bool [of True] by (simp add: up64_hom)

lemma pair_start: "up64 (h + HHALF h) + lo64 (LHUP h) = up64 h + 65536 * lo64 h"
  using up64_halves [of h] by (simp add: up64_hom add.assoc)

text \<open>The difference of two numbers as a magnitude and a sign.\<close>

definition with_sign :: "bool \<Rightarrow> u64 \<Rightarrow> u64" where "with_sign neg x = (if neg then - x else x)"

lemma with_sign_diff:
  "(d, neg) = (if a \<ge> b then (a - b, False) else (b - a, True)) \<Longrightarrow> lo64 a - lo64 b = with_sign neg (lo64 d)"
  by (auto simp: with_sign_def lo64_diff split: if_splits)

lemma with_sign_mult: "with_sign (a \<noteq> b) (x * y) = with_sign a x * with_sign b y"
  by (simp add: with_sign_def)

text \<open>Karatsuba's middle term.\<close>

lemma middle_term:
  assumes "(udiff, neg0) = (if u1 \<ge> u0 then (u1 - u0, False) else (u0 - u1, True))"
    and "(vdiff, neg) = (if v0 \<ge> v1 then (v0 - v1, neg0) else (v1 - v0, \<not> neg0))"
  shows "with_sign neg (lo64 udiff * lo64 vdiff) = (lo64 u1 - lo64 u0) * (lo64 v0 - lo64 v1)"
proof -
  define n1 where "n1 = (neg \<noteq> neg0)"
  have n: "neg = (neg0 \<noteq> n1)" by (auto simp: n1_def)
  have "(vdiff, n1) = (if v0 \<ge> v1 then (v0 - v1, False) else (v1 - v0, True))"
    using assms(2) by (auto simp: n1_def split: if_splits)
  then show ?thesis unfolding n with_sign_mult with_sign_diff [OF assms(1)] by (simp only: with_sign_diff)
qed

lemma lmulq_sum_eq:
  "lmulq_sum neg high mid low = up64 high + 65536 * lo64 high + 65536 * with_sign neg (lo64 mid) + 65536 * lo64 low + lo64 low"
  by (cases neg) (simp_all add: lmulq_sum_def Let_def uu_up pair_add_low pair_add pair_sub pair_start with_sign_def)

lemma karatsuba16:
  "4294967296 * (a * b) + 65536 * (a * b) + 65536 * ((a - c) * (d - b)) + 65536 * (c * d) + c * d = (65536 * a + c) * (65536 * b + d :: u64)"
  by (simp add: algebra_simps)

lemma lmulq_eq: "lmulq u v = lo64 u * lo64 v"
proof -
  define u1 u0 v1 v0 where d: "u1 = HHALF u" "u0 = LHALF u" "v1 = HHALF v" "v0 = LHALF v"
  have sm: "half_word u1" "half_word u0" "half_word v1" "half_word v0" by (simp_all add: d half_word_HHALF half_word_LHALF)
  have u: "lo64 u = 65536 * lo64 u1 + lo64 u0" and v: "lo64 v = 65536 * lo64 v1 + lo64 v0" unfolding d by (rule halves_val)+
  show ?thesis
  proof (cases "u1 = 0 \<and> v1 = 0")
    case True
    then have "lmulq u v = lo64 (u0 * v0)" by (simp add: lmulq_def Let_def d lo64_def)
    then show ?thesis using u v True lo64_mult [OF sm(2,4)] by (simp add: lo64_def)
  next
    case False
    obtain udiff neg0 where ud: "(udiff, neg0) = (if u1 \<ge> u0 then (u1 - u0, False) else (u0 - u1, True))" by (cases "u1 \<ge> u0") auto
    obtain vdiff neg where vd: "(vdiff, neg) = (if v0 \<ge> v1 then (v0 - v1, neg0) else (v1 - v0, \<not> neg0))" by (cases "v0 \<ge> v1") auto
    have "half_word udiff" "half_word vdiff" using ud vd sm by (auto split: if_splits intro: half_word_sub)
    then have m: "with_sign neg (lo64 (udiff * vdiff)) = (lo64 u1 - lo64 u0) * (lo64 v0 - lo64 v1)"
      using middle_term [OF ud vd] lo64_mult by simp
    have "lmulq u v = lmulq_sum neg (u1 * v1) (udiff * vdiff) (u0 * v0)"
      using False unfolding lmulq_def d [symmetric] Let_def ud [symmetric] prod.case vd [symmetric] by auto
    then show ?thesis
      unfolding lmulq_sum_eq m up64_eq lo64_mult [OF sm(1,3)] lo64_mult [OF sm(2,4)] u v karatsuba16 .
  qed
qed

lemma karatsuba32:
  "4294967296 * (a * b) + 4294967296 * ((a - c) * (d - b)) + (4294967296 * (c * d) + c * d) = (4294967296 * a + c) * (4294967296 * b + d :: u64)"
proof -
  have "(4294967296 * a + c) * (4294967296 * b + d) =
      4294967296 * 4294967296 * (a * b) + 4294967296 * (a * d) + 4294967296 * (c * b) + c * d"
    by (simp only: distrib_left distrib_right mult_ac add_ac)
  then show ?thesis unfolding two_64 by (simp add: algebra_simps)
qed

text \<open>The product of the magnitudes.\<close>

lemma muldi3_prod:
  assumes ud: "(udiff, neg0) = (if u1 \<ge> u0 then (u1 - u0, False) else (u0 - u1, True))"
    and vd: "(vdiff, neg) = (if v0 \<ge> v1 then (v0 - v1, neg0) else (v1 - v0, \<not> neg0))"
    and low: "low = lmulq u0 v0"
  shows "uu_ll (u1 * v1 + (if neg then - (udiff * vdiff) else udiff * vdiff) + uu_L low + uu_H low) (uu_L low) =
    uu_ll u1 u0 * uu_ll v1 v0"
proof -
  have l: "lo64 (uu_L low) + up64 (uu_H low) = lo64 u0 * lo64 v0" using uu_val [of low] lmulq_eq [of u0 v0] low by (simp add: add.commute)
  have m: "up64 (if neg then - (udiff * vdiff) else udiff * vdiff) = 4294967296 * ((lo64 u1 - lo64 u0) * (lo64 v0 - lo64 v1))"
    unfolding middle_term [OF ud vd, symmetric] by (simp add: up64_hom(3) up64_mult with_sign_def)
  have ul: "up64 (uu_L low) = 4294967296 * (lo64 u0 * lo64 v0)"
  proof -
    have "4294967296 * (lo64 (uu_L low) + up64 (uu_H low)) = 4294967296 * lo64 (uu_L low) + 4294967296 * 4294967296 * lo64 (uu_H low)"
      by (simp only: up64_eq distrib_left mult.assoc)
    then show ?thesis unfolding l two_64 by (simp add: up64_eq)
  qed
  have "uu_ll (u1 * v1 + (if neg then - (udiff * vdiff) else udiff * vdiff) + uu_L low + uu_H low) (uu_L low) =
      4294967296 * (lo64 u1 * lo64 v1) + 4294967296 * ((lo64 u1 - lo64 u0) * (lo64 v0 - lo64 v1)) +
        (4294967296 * (lo64 u0 * lo64 v0) + (lo64 (uu_L low) + up64 (uu_H low)))"
    unfolding uu_up up64_hom(1) m ul up64_mult by (simp only: add_ac)
  also have "\<dots> = uu_ll u1 u0 * uu_ll v1 v0" unfolding l uu_up unfolding up64_eq karatsuba32 ..
  finally show ?thesis .
qed

lemma muldi3_eq: "muldi3 a b = a * b"
proof -
  obtain u negall0 where u: "(u, negall0) = (if 0 \<le>s a then (a, False) else (- a, True))" by (cases "0 \<le>s a") auto
  obtain v negall where v: "(v, negall) = (if 0 \<le>s b then (b, negall0) else (- b, \<not> negall0))" by (cases "0 \<le>s b") auto
  define u1 u0 v1 v0 where d: "u1 = uu_H u" "u0 = uu_L u" "v1 = uu_H v" "v0 = uu_L v"
  have ab: "a * b = (if negall then - (u * v) else u * v)" using u v by (auto split: if_splits)
  obtain udiff neg0 where ud: "(udiff, neg0) = (if u1 \<ge> u0 then (u1 - u0, False) else (u0 - u1, True))" by (cases "u1 \<ge> u0") auto
  obtain vdiff neg where vd: "(vdiff, neg) = (if v0 \<ge> v1 then (v0 - v1, neg0) else (v1 - v0, \<not> neg0))" by (cases "v0 \<ge> v1") auto
  have "lmulq u0 v0 = u * v" if "u1 = 0" "v1 = 0"
    using that uu_val [of u] uu_val [of v] lmulq_eq [of u0 v0] by (simp add: d up64_hom(5))
  moreover have "uu_ll (u1 * v1 + (if neg then - (udiff * vdiff) else udiff * vdiff) + uu_L (lmulq u0 v0) + uu_H (lmulq u0 v0))
      (uu_L (lmulq u0 v0)) = u * v"
    using muldi3_prod [OF ud vd refl] by (simp add: d)
  moreover have "(neg0, udiff) = (if u1 \<ge> u0 then (False, u1 - u0) else (True, u0 - u1))"
      "(neg, vdiff) = (if v0 \<ge> v1 then (neg0, v0 - v1) else (\<not> neg0, v1 - v0))"
    using ud vd by (auto split: if_splits)
  ultimately show ?thesis
    unfolding ab muldi3_def Let_def u [symmetric] prod.case v [symmetric] d [symmetric] by auto
qed

section \<open>The routines are the 64-bit operations\<close>

text \<open>
  C24. Addition, subtraction, negation, multiplication, the logical operations and both comparisons,
  computed on 32-bit halves, are the 64-bit operations.
\<close>

theorem millicode_arithmetic:
  "adddi3 a b = a + b \<and> subdi3 a b = a - b \<and> negdi2 a = - a \<and> muldi3 a b = a * b \<and>
   anddi3 a b = a AND b \<and> iordi3 a b = a OR b \<and> xordi3 a b = a XOR b \<and> one_cmpldi2 a = NOT a \<and>
   cmpdi2 a b = (if sint a < sint b then 0 else if a = b then 1 else 2) \<and>
   ucmpdi2 a b = (if a < b then 0 else if a = b then 1 else 2)"
  by (simp only: adddi3_eq subdi3_eq negdi2_eq muldi3_eq logical_eqs cmpdi2_eq ucmpdi2_eq simp_thms)

text \<open>
  C25. The shifts, computed on 32-bit halves, are the 64-bit shifts for every distance below 64:
  left, logical right, and arithmetic right.
\<close>

theorem millicode_shifts:
  assumes "shift < 64"
  shows "ashldi3 a shift = push_bit shift a \<and> lshldi3 a shift = push_bit shift a \<and>
    lshrdi3 a shift = drop_bit shift a \<and> ashrdi3 a shift = signed_drop_bit shift a"
  using assms by (simp add: ashldi3_eq lshldi3_eq lshrdi3_eq ashrdi3_eq)

theorem millicode_shifts_witness: "ashrdi3 0x8000000000000000 40 = signed_drop_bit 40 0x8000000000000000"
  using millicode_shifts [of 40 "0x8000000000000000"] by simp

end
