(* ===== verification/Qdivrem.thy ===== *)
theory Qdivrem
  imports Millicode
begin

text \<open>
  64-bit division on a 32-bit machine: \<open>common/gcc-millicode/qdivrem.c\<close> (Knuth's algorithm D in base
  \<open>2 ^ 16\<close>) and its four callers. The arrays of digits are lists, the pointers \<open>u\<close>, \<open>v\<close>, \<open>q\<close> into them
  are offsets. The cells the C code leaves uninitialised are arguments.
\<close>

section \<open>Model\<close>

type_synonym digit = u16

definition dB :: u32 where "dB = push_bit 16 1"

definition COMBINE :: "u32 \<Rightarrow> u32 \<Rightarrow> u32" where
  "COMBINE a b = push_bit 16 a OR b"

definition widen :: "digit \<Rightarrow> u32" where "widen x = ucast x"
definition digit_of :: "u32 \<Rightarrow> digit" where "digit_of x = ucast x"

text \<open>\<open>shl(p, len, sh)\<close> with \<open>p\<close> at offset \<open>o\<close>: the loop from \<open>i\<close>.\<close>

function shl_from :: "nat \<Rightarrow> digit list \<Rightarrow> nat \<Rightarrow> nat \<Rightarrow> nat \<Rightarrow> digit list" where
  "shl_from i ds off len sh =
     (if i < len then
        shl_from (i + 1)
          (ds[off + i := digit_of (LHALF (push_bit sh (widen (ds ! (off + i)))) OR drop_bit (16 - sh) (widen (ds ! (off + i + 1))))])
          off len sh
      else ds[off + i := digit_of (LHALF (push_bit sh (widen (ds ! (off + i)))))])"
  by pat_completeness auto
termination
  by (relation "measure (\<lambda>(i, ds, off, len, sh). len - i)") auto

declare shl_from.simps [simp del]

definition shl :: "digit list \<Rightarrow> nat \<Rightarrow> nat \<Rightarrow> nat \<Rightarrow> digit list" where
  "shl ds off len sh = shl_from 0 ds off len sh"

text \<open>
  Finding the first nonzero digit of the divisor: \<open>Short\<close> when only its last digit is left, \<open>Long\<close>
  with the pointer and the number of digits otherwise. The count starts at 4 and stops at 1.
\<close>

datatype vscan = Short nat | Long nat nat

fun skip_v :: "nat \<Rightarrow> digit list \<Rightarrow> nat \<Rightarrow> vscan" where
  "skip_v 0 vs vo = Short vo"
| "skip_v (Suc n) vs vo =
     (if vs ! (vo + 1) = 0 then if n = 1 then Short vo else skip_v n vs (vo + 1) else Long vo (Suc n))"

text \<open>Finding the first nonzero digit of the dividend, which is there because it is not below the divisor.\<close>

function skip_u :: "digit list \<Rightarrow> nat \<Rightarrow> nat \<Rightarrow> (nat \<times> nat) option" where
  "skip_u us uo m =
     (if length us \<le> uo + 1 then None
      else if us ! (uo + 1) = 0 then skip_u us (uo + 1) (m - 1) else Some (uo, m))"
  by pat_completeness auto
termination
  by (relation "measure (\<lambda>(us, uo, m). length us - uo)") auto

declare skip_u.simps [simp del]

text \<open>D1: the number of shifts that makes the first digit of the divisor at least half the base.\<close>

partial_function (option) norm_shift :: "u32 \<Rightarrow> nat \<Rightarrow> nat option" where
  "norm_shift t d = (if t < dB div 2 then norm_shift (push_bit 1 t) (d + 1) else Some d)"

declare norm_shift.simps [code]

text \<open>D3: the correction loop of the estimate, entered at its test (\<open>qhat_loop\<close>) or in its body (\<open>qhat_too_big\<close>).\<close>

partial_function (option) qhat_loop :: "u32 \<Rightarrow> u32 \<Rightarrow> u32 \<Rightarrow> u32 \<Rightarrow> u32 \<Rightarrow> u32 option" where
  "qhat_loop v1 v2 uj2 qhat rhat =
     (if v2 * qhat > COMBINE rhat uj2 then
        if rhat + v1 \<ge> dB then Some (qhat - 1) else qhat_loop v1 v2 uj2 (qhat - 1) (rhat + v1)
      else Some qhat)"

declare qhat_loop.simps [code]

definition qhat_too_big :: "u32 \<Rightarrow> u32 \<Rightarrow> u32 \<Rightarrow> u32 \<Rightarrow> u32 \<Rightarrow> u32 option" where
  "qhat_too_big v1 v2 uj2 qhat rhat =
     (if rhat + v1 \<ge> dB then Some (qhat - 1) else qhat_loop v1 v2 uj2 (qhat - 1) (rhat + v1))"

definition estimate :: "u32 \<Rightarrow> u32 \<Rightarrow> u32 \<Rightarrow> u32 \<Rightarrow> u32 \<Rightarrow> u32 option" where
  "estimate v1 v2 uj0 uj1 uj2 =
     (if uj0 = v1 then qhat_too_big v1 v2 uj2 dB uj1
      else let nn = COMBINE uj0 uj1 in qhat_loop v1 v2 uj2 (nn div v1) (nn mod v1))"

text \<open>D4: multiply and subtract, for \<open>i\<close> down to 1; \<open>a\<close> is the offset of \<open>u[j]\<close>, \<open>b\<close> that of \<open>v[0]\<close>.\<close>

fun mulsub :: "nat \<Rightarrow> digit list \<Rightarrow> digit list \<Rightarrow> nat \<Rightarrow> nat \<Rightarrow> u32 \<Rightarrow> u32 \<Rightarrow> digit list \<times> u32" where
  "mulsub 0 us vs a b qhat t = (us, t)"
| "mulsub (Suc i) us vs a b qhat t =
     (let t = widen (us ! (a + Suc i)) - widen (vs ! (b + Suc i)) * qhat - t
      in mulsub i (us[a + Suc i := digit_of (LHALF t)]) vs a b qhat ((dB - HHALF t) AND (dB - 1)))"

text \<open>D6: add back.\<close>

fun addback :: "nat \<Rightarrow> digit list \<Rightarrow> digit list \<Rightarrow> nat \<Rightarrow> nat \<Rightarrow> u32 \<Rightarrow> digit list \<times> u32" where
  "addback 0 us vs a b t = (us, t)"
| "addback (Suc i) us vs a b t =
     (let t = t + (widen (us ! (a + Suc i)) + widen (vs ! (b + Suc i)))
      in addback i (us[a + Suc i := digit_of (LHALF t)]) vs a b (HHALF t))"

definition div_step :: "digit list \<Rightarrow> nat \<Rightarrow> nat \<Rightarrow> digit list \<Rightarrow> nat \<Rightarrow> (digit list \<times> digit) option" where
  "div_step vs vo n us a =
     Option.bind (estimate (widen (vs ! (vo + 1))) (widen (vs ! (vo + 2))) (widen (us ! a)) (widen (us ! (a + 1))) (widen (us ! (a + 2))))
       (\<lambda>qhat.
          let (us1, t) = mulsub n us vs a vo qhat 0;
              t = widen (us1 ! a) - t;
              us2 = us1[a := digit_of (LHALF t)]
          in if HHALF t \<noteq> 0 then
               let (us3, t) = addback n us2 vs a vo 0
               in Some (us3[a := digit_of (LHALF (widen (us3 ! a) + t))], digit_of (qhat - 1))
             else Some (us2, digit_of qhat))"

text \<open>D7: the loop over \<open>j\<close>; it runs at least once.\<close>

function div_loop ::
    "digit list \<Rightarrow> nat \<Rightarrow> nat \<Rightarrow> nat \<Rightarrow> nat \<Rightarrow> nat \<Rightarrow> nat \<Rightarrow> digit list \<Rightarrow> digit list \<Rightarrow> (digit list \<times> digit list) option" where
  "div_loop vs vo n uo qo m j us qs =
     Option.bind (div_step vs vo n us (uo + j))
       (\<lambda>(us', qd).
          let qs' = qs[qo + j := qd]
          in if j + 1 \<le> m then div_loop vs vo n uo qo m (j + 1) us' qs' else Some (us', qs'))"
  by pat_completeness auto
termination
  by (relation "measure (\<lambda>(vs, vo, n, uo, qo, m, j, us, qs). m - j)") auto

declare div_loop.simps [simp del]

text \<open>The remainder, shifted back: \<open>i\<close> from \<open>m + k\<close> down to \<open>m + 1\<close>, with \<open>a\<close> the offset of \<open>u[m]\<close>.\<close>

fun shift_back :: "nat \<Rightarrow> nat \<Rightarrow> digit list \<Rightarrow> nat \<Rightarrow> digit list" where
  "shift_back d 0 us a = us[a := 0]"
| "shift_back d (Suc k) us a =
     shift_back d k
       (us[a + Suc k := digit_of (drop_bit d (widen (us ! (a + Suc k))) OR LHALF (push_bit (16 - d) (widen (us ! (a + k)))))]) a"

text \<open>The division by a single digit.\<close>

definition short_div :: "digit list \<Rightarrow> u32 \<Rightarrow> u64 \<times> u64" where
  "short_div us t =
     (let q1 = digit_of (widen (us ! 1) div t);
          rbj = COMBINE (widen (us ! 1) mod t) (widen (us ! 2));
          q2 = digit_of (rbj div t);
          rbj = COMBINE (rbj mod t) (widen (us ! 3));
          q3 = digit_of (rbj div t);
          rbj = COMBINE (rbj mod t) (widen (us ! 4));
          q4 = digit_of (rbj div t)
      in (uu_ll (COMBINE (widen q1) (widen q2)) (COMBINE (widen q3) (widen q4)), ucast (rbj mod t)))"

definition digits_of :: "u64 \<Rightarrow> digit list" where
  "digits_of x =
     [digit_of (HHALF (uu_H x)), digit_of (LHALF (uu_H x)), digit_of (HHALF (uu_L x)), digit_of (LHALF (uu_L x))]"

definition from_digits :: "digit list \<Rightarrow> u64" where
  "from_digits ds = uu_ll (COMBINE (widen (ds ! 1)) (widen (ds ! 2))) (COMBINE (widen (ds ! 3)) (widen (ds ! 4)))"

text \<open>
  The quotient and the remainder; \<open>None\<close> when the routine does not return a value (the division by
  zero traps). \<open>v0\<close> and \<open>qspace\<close> are the uninitialised cells.
\<close>

definition qdivrem :: "digit \<Rightarrow> digit list \<Rightarrow> u64 \<Rightarrow> u64 \<Rightarrow> (u64 \<times> u64) option" where
  "qdivrem v0 qspace ull vll =
     (if vll = 0 then None
      else if ull < vll then Some (0, ull)
      else
        let us = 0 # digits_of ull; vs = v0 # digits_of vll
        in case skip_v 4 vs 0 of
             Short vo \<Rightarrow> Some (short_div us (widen (vs ! (vo + 2))))
           | Long vo n \<Rightarrow>
               Option.bind (skip_u us 0 (4 - n)) (\<lambda>(uo, m).
               Option.bind (norm_shift (widen (vs ! (vo + 1))) 0) (\<lambda>d.
                 let qs = replicate (4 - m) 0 @ drop (4 - m) qspace;
                     us = (if d > 0 then shl us uo (m + n) d else us);
                     vs = (if d > 0 then shl vs (vo + 1) (n - 1) d else vs)
                 in Option.bind (div_loop vs vo n uo (4 - m) m 0 us qs) (\<lambda>(us, qs).
                      let us = (if d > 0 then shift_back d n us (uo + m) else us)
                      in Some (from_digits qs, from_digits us)))))"

definition udivdi3 :: "digit \<Rightarrow> digit list \<Rightarrow> u64 \<Rightarrow> u64 \<Rightarrow> u64 option" where
  "udivdi3 v0 qspace a b = map_option fst (qdivrem v0 qspace a b)"

definition umoddi3 :: "digit \<Rightarrow> digit list \<Rightarrow> u64 \<Rightarrow> u64 \<Rightarrow> u64 option" where
  "umoddi3 v0 qspace a b = map_option snd (qdivrem v0 qspace a b)"

definition divdi3 :: "digit \<Rightarrow> digit list \<Rightarrow> u64 \<Rightarrow> u64 \<Rightarrow> u64 option" where
  "divdi3 v0 qspace a b =
     (let (ua, neg) = (if a <s 0 then (- a, True) else (a, False));
          (ub, neg) = (if b <s 0 then (- b, \<not> neg) else (b, neg))
      in map_option (\<lambda>(uq, _). if neg then - uq else uq) (qdivrem v0 qspace ua ub))"

definition moddi3 :: "digit \<Rightarrow> digit list \<Rightarrow> u64 \<Rightarrow> u64 \<Rightarrow> u64 option" where
  "moddi3 v0 qspace a b =
     (let (ua, neg) = (if a <s 0 then (- a, True) else (a, False));
          ub = (if b <s 0 then - b else b)
      in map_option (\<lambda>(_, ur). if neg then - ur else ur) (qdivrem v0 qspace ua ub))"

section \<open>Digits and numbers\<close>

lemma uint_widen [simp]: "uint (widen x) = uint x"
  using uint_lt2p [of x] by (simp add: widen_def unsigned_ucast_eq take_bit_int_eq_self_iff)

lemma uint_digit: "0 \<le> uint (x :: digit)" "uint (x :: digit) < 65536"
  using uint_ge_0 [of x] uint_lt2p [of x] by simp_all

lemma uint_digit_of: "uint (digit_of x) = uint x mod 65536"
  by (simp add: digit_of_def unsigned_ucast_eq take_bit_eq_mod)

lemma uint_dB [simp]: "uint dB = 65536" by (simp add: dB_def)

lemma uint_COMBINE:
  assumes "uint a < 65536" and "uint b < 65536"
  shows "uint (COMBINE a b) = uint a * 65536 + uint b"
proof -
  have b: "\<not> bit b n" if "16 \<le> n" for n
  proof -
    have "take_bit 16 (uint b) = uint b" using assms(2) by (simp add: take_bit_int_eq_self)
    then have "bit (uint b) n \<longleftrightarrow> n < 16 \<and> bit (uint b) n" by (metis bit_take_bit_iff)
    then show ?thesis using that bit_imp_le_length [of b n] by (auto simp: bit_uint_iff)
  qed
  have "push_bit 16 a AND b = 0" by (rule bit_word_eqI) (use b in \<open>auto simp: bit_simps\<close>)
  then have "COMBINE a b = a * 65536 + b" by (simp add: COMBINE_def disjunctive_add_eq_or [symmetric] push_bit_eq_mult)
  then have "uint (COMBINE a b) = (uint a * 65536 + uint b) mod 4294967296"
    by (simp add: uint_word_ariths mod_simps)
  then show ?thesis using assms uint_ge_0 [of a] uint_ge_0 [of b] by simp
qed

text \<open>The number that \<open>k\<close> digits from index \<open>a\<close> form.\<close>

primrec num :: "digit list \<Rightarrow> nat \<Rightarrow> nat \<Rightarrow> int" where
  "num ds a 0 = 0"
| "num ds a (Suc k) = num ds a k * 65536 + uint (ds ! (a + k))"

lemma num_bounds: "0 \<le> num ds a k" "num ds a k < 65536 ^ k"
proof (induction k)
  case (Suc k)
  case 1
  show ?case using Suc uint_digit(1) by simp
  case 2
  show ?case using Suc uint_digit(2) [of "ds ! (a + k)"] by simp
qed simp_all

lemma num_cong: "(\<And>i. a \<le> i \<Longrightarrow> i < a + k \<Longrightarrow> ds ! i = es ! i) \<Longrightarrow> num ds a k = num es a k"
  by (induction k) auto

lemma num_add: "num ds a (j + k) = num ds a j * 65536 ^ k + num ds (a + j) k"
  by (induction k) (simp_all add: algebra_simps)

lemma num_first: "num ds a (Suc k) = uint (ds ! a) * 65536 ^ k + num ds (Suc a) k"
  using num_add [of ds a 1 k] by simp

lemma num_zeros: "(\<And>i. a \<le> i \<Longrightarrow> i < a + k \<Longrightarrow> ds ! i = 0) \<Longrightarrow> num ds a k = 0"
  by (induction k) auto

lemma num_zero_digits: "num ds a k = 0 \<Longrightarrow> a \<le> i \<Longrightarrow> i < a + k \<Longrightarrow> ds ! i = 0"
proof (induction k)
  case (Suc k)
  have "num ds a k = 0" "uint (ds ! (a + k)) = 0"
    using Suc.prems(1) num_bounds(1) [of ds a k] uint_digit(1) [of "ds ! (a + k)"] unfolding num.simps by linarith+
  then show ?case using Suc by (cases "i = a + k") (auto simp: uint_0_iff)
qed simp

section \<open>Multiply and subtract, add back\<close>

lemma borrow_arith:
  fixes r :: int
  assumes "- 4294901760 \<le> r" and "r < 65536"
  shows "r mod 65536 = r + 65536 * ((65536 - (r mod 4294967296) div 65536) mod 65536)"
    and "(65536 - (r mod 4294967296) div 65536) mod 65536 < 65536"
proof -
  have r: "r = 65536 * (r div 65536) + r mod 65536" by simp
  have k: "- 65535 \<le> r div 65536" "r div 65536 \<le> 0" using assms by linarith+
  have "(r mod 4294967296) div 65536 = (r div 65536) mod 65536"
    using zmod_zmult2_eq [of 65536 r 65536] by simp
  moreover have "(r div 65536) mod 65536 = (if r div 65536 = 0 then 0 else r div 65536 + 65536)"
  proof (cases "r div 65536 = 0")
    case False
    then have "(r div 65536) mod 65536 = (r div 65536 + 65536) mod 65536" by simp
    also have "\<dots> = r div 65536 + 65536" by (rule mod_pos_pos_trivial) (use k False in linarith)+
    finally show ?thesis using False by simp
  qed simp
  ultimately have t: "(65536 - (r mod 4294967296) div 65536) mod 65536 = - (r div 65536)"
    using k by (cases "r div 65536 = 0") simp_all
  show "r mod 65536 = r + 65536 * ((65536 - (r mod 4294967296) div 65536) mod 65536)" unfolding t using r by linarith
qed simp

lemma uint_minus_32: "uint (x - y :: u32) = (uint x - uint y) mod 4294967296"
  and uint_plus_32: "uint (x + y :: u32) = (uint x + uint y) mod 4294967296"
  and uint_times_32: "uint (x * y :: u32) = (uint x * uint y) mod 4294967296"
  by (simp_all add: uint_word_ariths)

lemma borrow_word: "uint ((dB - HHALF t) AND (dB - 1)) = (65536 - uint t div 65536) mod 65536"
proof -
  have m: "x AND (dB - 1) = take_bit 16 x" for x by (simp add: dB_def take_bit_eq_mask mask_eq_exp_minus_1)
  have "uint (take_bit 16 (dB - HHALF t)) = uint (dB - HHALF t) mod 65536"
    unfolding unsigned_take_bit_eq by (simp add: take_bit_eq_mod)
  also have "\<dots> = (65536 - uint t div 65536) mod 65536"
    unfolding uint_minus_32 uint_HHALF uint_dB by (simp add: mod_mod_cancel)
  finally show ?thesis unfolding m .
qed

lemma uint_digit_LHALF: "uint (digit_of (LHALF t)) = uint t mod 65536"
  by (simp add: uint_digit_of uint_LHALF)

text \<open>One digit of the subtraction: the digit and the borrow.\<close>

lemma mulsub_digit:
  fixes x y :: digit
  assumes "uint qhat < 65536" and "uint t < 65536"
  defines "T \<equiv> widen x - widen y * qhat - t"
  shows "uint (digit_of (LHALF T)) = uint x - uint y * uint qhat - uint t + 65536 * uint ((dB - HHALF T) AND (dB - 1))"
    and "uint ((dB - HHALF T) AND (dB - 1)) < 65536"
proof -
  let ?r = "uint x - uint y * uint qhat - uint t"
  have T: "uint T = ?r mod 4294967296" unfolding T_def uint_minus_32 uint_times_32 uint_widen by (simp add: mod_simps)
  have "uint y * uint qhat \<le> 65535 * 65535"
    using uint_digit [of y] assms(1) uint_ge_0 [of qhat] by (intro mult_mono) auto
  moreover have "0 \<le> uint y * uint qhat" using uint_digit(1) [of y] uint_ge_0 [of qhat] by simp
  ultimately have "- 4294901760 \<le> ?r" "?r < 65536"
    using uint_digit [of x] assms(2) uint_range_32(1) [of t] by linarith+
  note B = borrow_arith [OF this]
  show "uint (digit_of (LHALF T)) = ?r + 65536 * uint ((dB - HHALF T) AND (dB - 1))"
    unfolding uint_digit_LHALF borrow_word T using B(1) by (simp add: mod_mod_cancel)
  show "uint ((dB - HHALF T) AND (dB - 1)) < 65536" unfolding borrow_word by simp
qed

lemma mulsub_ok:
  "mulsub i us vs a b qhat t = (us', t') \<Longrightarrow> uint qhat < 65536 \<Longrightarrow> uint t < 65536 \<Longrightarrow> a + i < length us \<Longrightarrow>
    num us' (a + 1) i = num us (a + 1) i - uint qhat * num vs (b + 1) i - uint t + uint t' * 65536 ^ i \<and>
    uint t' < 65536 \<and> length us' = length us \<and> (\<forall>k. k \<le> a \<or> a + i < k \<longrightarrow> us' ! k = us ! k)"
proof (induction i arbitrary: us t)
  case (Suc i)
  define T where "T = widen (us ! (a + Suc i)) - widen (vs ! (b + Suc i)) * qhat - t"
  define us1 where "us1 = us[a + Suc i := digit_of (LHALF T)]"
  define t1 where "t1 = (dB - HHALF T) AND (dB - 1)"
  have rec: "mulsub i us1 vs a b qhat t1 = (us', t')" using Suc.prems(1) by (simp add: T_def us1_def t1_def Let_def)
  note D = mulsub_digit [OF Suc.prems(2,3), of "us ! (a + Suc i)" "vs ! (b + Suc i)", folded T_def, folded t1_def]
  have len: "a + i < length us1" using Suc.prems(4) by (simp add: us1_def)
  have IH: "num us' (a + 1) i = num us1 (a + 1) i - uint qhat * num vs (b + 1) i - uint t1 + uint t' * 65536 ^ i"
      "uint t' < 65536" "length us' = length us1" "\<And>k. k \<le> a \<or> a + i < k \<Longrightarrow> us' ! k = us1 ! k"
    using Suc.IH [OF rec Suc.prems(2) D(2)] len by blast+
  have n1: "num us1 (a + 1) i = num us (a + 1) i" unfolding us1_def by (rule num_cong) simp
  have "us' ! (a + 1 + i) = digit_of (LHALF T)" using IH(4) [of "a + 1 + i"] Suc.prems(4) by (simp add: us1_def)
  then have "num us' (a + 1) (Suc i) =
      (num us (a + 1) i - uint qhat * num vs (b + 1) i - uint t1 + uint t' * 65536 ^ i) * 65536 +
      (uint (us ! (a + Suc i)) - uint (vs ! (b + Suc i)) * uint qhat - uint t + 65536 * uint t1)"
    using IH(1) n1 D(1) by simp
  then have "num us' (a + 1) (Suc i) =
      num us (a + 1) (Suc i) - uint qhat * num vs (b + 1) (Suc i) - uint t + uint t' * 65536 ^ Suc i"
    by (simp add: algebra_simps)
  then show ?case using IH(2-4) by (simp add: us1_def)
qed simp

text \<open>One digit of the addition.\<close>

lemma addback_digit:
  fixes x y :: digit
  assumes "uint t \<le> 1"
  defines "T \<equiv> t + (widen x + widen y)"
  shows "uint (digit_of (LHALF T)) = uint x + uint y + uint t - 65536 * uint (HHALF T)" and "uint (HHALF T) \<le> 1"
proof -
  have b: "0 \<le> uint t" "uint x < 65536" "uint y < 65536" "0 \<le> uint x" "0 \<le> uint y"
    using uint_digit [of x] uint_digit [of y] uint_range_32(1) [of t] by simp_all
  have T: "uint T = uint x + uint y + uint t"
    unfolding T_def uint_plus_32 uint_widen using b assms(1) by simp
  show "uint (digit_of (LHALF T)) = uint x + uint y + uint t - 65536 * uint (HHALF T)"
    unfolding uint_digit_LHALF uint_HHALF T using minus_mult_div_eq_mod [of "uint x + uint y + uint t" 65536] by simp
  show "uint (HHALF T) \<le> 1" unfolding uint_HHALF T using b assms(1) by linarith
qed

lemma addback_ok:
  "addback i us vs a b t = (us', t') \<Longrightarrow> uint t \<le> 1 \<Longrightarrow> a + i < length us \<Longrightarrow>
    num us' (a + 1) i = num us (a + 1) i + num vs (b + 1) i + uint t - uint t' * 65536 ^ i \<and>
    uint t' \<le> 1 \<and> length us' = length us \<and> (\<forall>k. k \<le> a \<or> a + i < k \<longrightarrow> us' ! k = us ! k)"
proof (induction i arbitrary: us t)
  case (Suc i)
  define T where "T = t + (widen (us ! (a + Suc i)) + widen (vs ! (b + Suc i)))"
  define us1 where "us1 = us[a + Suc i := digit_of (LHALF T)]"
  have rec: "addback i us1 vs a b (HHALF T) = (us', t')" using Suc.prems(1) by (simp add: T_def us1_def Let_def)
  note D = addback_digit [OF Suc.prems(2), of "us ! (a + Suc i)" "vs ! (b + Suc i)", folded T_def]
  have len: "a + i < length us1" using Suc.prems(3) by (simp add: us1_def)
  have IH: "num us' (a + 1) i = num us1 (a + 1) i + num vs (b + 1) i + uint (HHALF T) - uint t' * 65536 ^ i"
      "uint t' \<le> 1" "length us' = length us1" "\<And>k. k \<le> a \<or> a + i < k \<Longrightarrow> us' ! k = us1 ! k"
    using Suc.IH [OF rec D(2)] len by blast+
  have n1: "num us1 (a + 1) i = num us (a + 1) i" unfolding us1_def by (rule num_cong) simp
  have "us' ! (a + 1 + i) = digit_of (LHALF T)" using IH(4) [of "a + 1 + i"] Suc.prems(3) by (simp add: us1_def)
  then have "num us' (a + 1) (Suc i) =
      (num us (a + 1) i + num vs (b + 1) i + uint (HHALF T) - uint t' * 65536 ^ i) * 65536 +
      (uint (us ! (a + Suc i)) + uint (vs ! (b + Suc i)) + uint t - 65536 * uint (HHALF T))"
    using IH(1) n1 D(1) by simp
  then have "num us' (a + 1) (Suc i) = num us (a + 1) (Suc i) + num vs (b + 1) (Suc i) + uint t - uint t' * 65536 ^ Suc i"
    by (simp add: algebra_simps)
  then show ?case using IH(2-4) by (simp add: us1_def)
qed simp

section \<open>The estimate\<close>

text \<open>
  Knuth's bounds, over the integers: \<open>q\<close> is the true quotient digit of \<open>U / V\<close>, where the leading
  digits of \<open>U\<close> are \<open>x = u0 b\<^sup>2 + u1 b + u2\<close> and those of \<open>V\<close> are \<open>y = v1 b + v2\<close>.
\<close>

lemma div_bounds_int:
  fixes U V q :: int
  assumes "0 < V"
  shows "U < q * V \<Longrightarrow> U div V < q" and "U div V * V \<le> U" and "U < (U div V + 1) * V"
proof -
  have d: "U = U div V * V + U mod V" "0 \<le> U mod V" "U mod V < V" using assms by simp_all
  show le: "U div V * V \<le> U" using d by linarith
  show "U < (U div V + 1) * V" unfolding distrib_right mult_1 using d by linarith
  show "U div V < q" if "U < q * V"
  proof (rule ccontr)
    assume "\<not> U div V < q"
    then have "q * V \<le> U div V * V" using assms by (intro mult_right_mono) auto
    then show False using le that by linarith
  qed
qed

lemma estimate_too_big:
  fixes U V x y e qhat :: int
  assumes "U < (x + 1) * e" and "y * e \<le> V" and "0 < e" and "0 \<le> qhat" and "x < qhat * y" and "0 < V"
  shows "U div V < qhat"
proof -
  have "U < (x + 1) * e" by (rule assms(1))
  also have "\<dots> \<le> (qhat * y) * e" using assms(3,5) by (intro mult_right_mono) auto
  also have "\<dots> \<le> qhat * V" using assms(2,4) by (simp add: mult.assoc mult_left_mono)
  finally show ?thesis by (rule div_bounds_int(1) [OF assms(6)])
qed

lemma estimate_close:
  fixes U V x y e qhat b :: int
  assumes "x * e \<le> U" and "V < (y + 1) * e" and "0 < e" and "qhat * y \<le> x" and "0 < V" and "U < V * b" and "b \<le> y" and "0 \<le> U"
  shows "qhat \<le> U div V + 1"
proof (rule ccontr)
  define q where "q = U div V"
  assume "\<not> qhat \<le> U div V + 1"
  then have big: "q + 2 \<le> qhat" by (simp add: q_def)
  have q0: "0 \<le> q" using assms(5,8) by (simp add: q_def pos_imp_zdiv_nonneg_iff)
  have "q < b" unfolding q_def using assms(6) by (intro div_bounds_int(1) [OF assms(5)]) (simp add: mult.commute)
  have U: "U < (q + 1) * V" unfolding q_def by (rule div_bounds_int(3) [OF assms(5)])
  have y0: "0 \<le> y" using assms(4,7) \<open>q < b\<close> q0 by linarith
  have "(q + 2) * y \<le> qhat * y" using big y0 by (rule mult_right_mono)
  then have "(q + 2) * y * e \<le> x * e" using assms(3,4) by (intro mult_right_mono) auto
  also have "\<dots> < (q + 1) * V" using assms(1) U by linarith
  also have "\<dots> \<le> (q + 1) * ((y + 1) * e)" using assms(2) q0 by (intro mult_left_mono) auto
  finally have "(q + 2) * y * e < (q + 1) * (y + 1) * e" by (simp add: mult.assoc)
  then have "(q + 2) * y < (q + 1) * (y + 1)" using assms(3) by (simp add: mult_less_cancel_right_pos)
  then have "y < q + 1" by (simp add: algebra_simps)
  then show False using assms(7) \<open>q < b\<close> by linarith
qed

text \<open>
  The correction loop keeps \<open>qhat * v1 + rhat\<close>. It ends with an estimate that the first two digits of
  the divisor do not refute, and never goes below \<open>Q\<close> if no refuted estimate does.
\<close>

definition estimating :: "u32 \<Rightarrow> u32 \<Rightarrow> u32 \<Rightarrow> int \<Rightarrow> int \<Rightarrow> bool" where
  "estimating v1 v2 uj2 N Q \<longleftrightarrow>
     32768 \<le> uint v1 \<and> uint v1 < 65536 \<and> uint v2 < 65536 \<and> uint uj2 < 65536 \<and>
     (\<forall>k \<ge> 0. N * 65536 + uint uj2 < k * (uint v1 * 65536 + uint v2) \<longrightarrow> Q < k)"

lemma estimatingD:
  assumes "estimating v1 v2 uj2 N Q"
  shows "32768 \<le> uint v1" "uint v1 < 65536" "uint v2 < 65536" "uint uj2 < 65536"
    and "0 \<le> k \<Longrightarrow> N * 65536 + uint uj2 < k * (uint v1 * 65536 + uint v2) \<Longrightarrow> Q < k"
  using assms by (auto simp: estimating_def)

lemma qhat_test:
  assumes ctx: "estimating v1 v2 uj2 N Q"
    and "uint qhat * uint v1 + uint rhat = N" and "uint qhat \<le> 65535" and "uint rhat < 65536"
  shows "v2 * qhat > COMBINE rhat uj2 \<longleftrightarrow> N * 65536 + uint uj2 < uint qhat * (uint v1 * 65536 + uint v2)"
proof -
  have "uint v2 * uint qhat \<le> 65535 * 65535" using estimatingD(3) [OF ctx] assms(3) uint_ge_0 [of v2] uint_ge_0 [of qhat] by (intro mult_mono) auto
  then have "uint (v2 * qhat) = uint v2 * uint qhat"
    unfolding uint_times_32 using uint_ge_0 [of v2] uint_ge_0 [of qhat] by (intro mod_pos_pos_trivial) auto
  then have "v2 * qhat > COMBINE rhat uj2 \<longleftrightarrow> uint rhat * 65536 + uint uj2 < uint v2 * uint qhat"
    unfolding word_less_def uint_COMBINE [OF assms(4) estimatingD(4) [OF ctx]] by simp
  also have "\<dots> \<longleftrightarrow> N * 65536 + uint uj2 < uint qhat * (uint v1 * 65536 + uint v2)"
    unfolding assms(2) [symmetric] by (simp add: algebra_simps)
  finally show ?thesis .
qed

lemma qhat_overflow:
  assumes ctx: "estimating v1 v2 uj2 N Q" and "q * uint v1 + r = N" and "q \<le> 65535" and "65536 \<le> r"
  shows "q * (uint v1 * 65536 + uint v2) \<le> N * 65536 + uint uj2"
proof -
  have "q * uint v2 \<le> 65536 * 65536"
  proof (cases "0 \<le> q")
    case True
    then show ?thesis using assms(3) estimatingD(3) [OF ctx] uint_ge_0 [of v2] by (intro mult_mono) auto
  next
    case False
    then show ?thesis using uint_ge_0 [of v2] by (smt (verit) mult_nonneg_nonneg mult_minus_left)
  qed
  also have "\<dots> \<le> r * 65536" using assms(4) by simp
  finally show ?thesis unfolding assms(2) [symmetric] distrib_right distrib_left using uint_range_32(1) [of uj2] by (simp only: mult_ac)
qed

lemma uint_pred: "0 < uint x \<Longrightarrow> uint (x - 1 :: u32) = uint x - 1"
  using uint_range_32(2) [of x] unfolding uint_minus_32 by (simp only: uint_1) (rule mod_pos_pos_trivial; linarith)

lemma uint_rhat: "uint v1 < 65536 \<Longrightarrow> uint rhat < 65536 \<Longrightarrow> uint (rhat + v1 :: u32) = uint rhat + uint v1"
  unfolding uint_plus_32 using uint_ge_0 [of rhat] uint_ge_0 [of v1] by (intro mod_pos_pos_trivial) auto

lemma qhat_loop_ok:
  "estimating v1 v2 uj2 N Q \<Longrightarrow> uint qhat * uint v1 + uint rhat = N \<Longrightarrow> uint qhat \<le> 65535 \<Longrightarrow> uint rhat < 65536 \<Longrightarrow> Q \<le> uint qhat \<Longrightarrow>
    \<exists>q'. qhat_loop v1 v2 uj2 qhat rhat = Some q' \<and> Q \<le> uint q' \<and> uint q' \<le> 65535 \<and>
      uint q' * (uint v1 * 65536 + uint v2) \<le> N * 65536 + uint uj2"
proof (induction "unat qhat" arbitrary: qhat rhat rule: less_induct)
  case less
  note ctx = less.prems(1) and T = qhat_test [OF less.prems(1-4)]
  show ?case
  proof (cases "v2 * qhat > COMBINE rhat uj2")
    case False
    then show ?thesis using T less.prems(3,5) by (subst qhat_loop.simps) auto
  next
    case True
    have pos: "0 < uint qhat"
    proof (rule ccontr)
      assume "\<not> 0 < uint qhat"
      then have "qhat = 0" using uint_ge_0 [of qhat] by (simp add: uint_0_iff)
      then show False using True by simp
    qed
    note p = uint_pred [OF pos] and r = uint_rhat [OF estimatingD(2) [OF ctx] less.prems(4)]
    have Q: "Q \<le> uint (qhat - 1)" using estimatingD(5) [OF ctx, of "uint qhat"] True T pos p by simp
    have inv: "uint (qhat - 1) * uint v1 + uint (rhat + v1) = N" unfolding p r less.prems(2) [symmetric] by (simp add: algebra_simps)
    have b: "uint (qhat - 1) \<le> 65535" using p less.prems(3) by simp
    show ?thesis
    proof (cases "rhat + v1 \<ge> dB")
      case ge: True
      then have "65536 \<le> uint (rhat + v1)" by (simp add: word_le_def)
      then show ?thesis using True ge Q b qhat_overflow [OF ctx inv b] by (subst qhat_loop.simps) auto
    next
      case lt: False
      then have "uint (rhat + v1) < 65536" by (simp add: word_le_def not_le)
      moreover have "unat (qhat - 1) < unat qhat" unfolding unat_eq_nat_uint p zless_nat_conj using pos by simp
      ultimately show ?thesis using less.hyps [OF _ ctx inv b _ Q] True lt by (subst qhat_loop.simps) simp
    qed
  qed
qed

lemma qhat_too_big_ok:
  assumes ctx: "estimating v1 v2 uj2 N Q" and "uint dB * uint v1 + uint rhat = N" and "uint rhat < 65536" and "Q \<le> 65535"
  shows "\<exists>q'. qhat_too_big v1 v2 uj2 dB rhat = Some q' \<and> Q \<le> uint q' \<and> uint q' \<le> 65535 \<and>
      uint q' * (uint v1 * 65536 + uint v2) \<le> N * 65536 + uint uj2"
proof -
  have p: "uint (dB - 1) = 65535" by (simp add: uint_pred)
  note r = uint_rhat [OF estimatingD(2) [OF ctx] assms(3)]
  have inv: "uint (dB - 1) * uint v1 + uint (rhat + v1) = N" unfolding p r assms(2) [symmetric] by simp
  show ?thesis
  proof (cases "rhat + v1 \<ge> dB")
    case True
    then have "65536 \<le> uint (rhat + v1)" by (simp add: word_le_def)
    then show ?thesis using True qhat_overflow [OF ctx inv] p assms(4) by (simp add: qhat_too_big_def)
  next
    case False
    then have "uint (rhat + v1) < 65536" by (simp add: word_le_def not_le)
    then show ?thesis using qhat_loop_ok [OF ctx inv] False p assms(4) by (simp add: qhat_too_big_def)
  qed
qed

lemma estimate_ok:
  fixes v1 v2 uj0 uj1 uj2 :: u32 and U V e :: int
  defines "x \<equiv> (uint uj0 * 65536 + uint uj1) * 65536 + uint uj2" and "y \<equiv> uint v1 * 65536 + uint v2"
  assumes v: "32768 \<le> uint v1" "uint v1 < 65536" "uint v2 < 65536"
    and u: "uint uj0 < 65536" "uint uj1 < 65536" "uint uj2 < 65536"
    and U: "x * e \<le> U" "U < (x + 1) * e" and V: "y * e \<le> V" "V < (y + 1) * e" and e: "0 < e" and UV: "U < V * 65536"
  shows "\<exists>q. estimate v1 v2 uj0 uj1 uj2 = Some q \<and> U div V \<le> uint q \<and> uint q \<le> U div V + 1 \<and> uint q \<le> 65535"
proof -
  let ?N = "uint uj0 * 65536 + uint uj1"
  have y: "65536 \<le> y" unfolding y_def using v(1) uint_range_32(1) [of v2] by linarith
  have x0: "0 \<le> x" unfolding x_def by (intro add_nonneg_nonneg mult_nonneg_nonneg) simp_all
  have V0: "0 < V" using V(1) y e by (smt (verit) mult_pos_pos)
  have U0: "0 \<le> U" using U(1) x0 e by (smt (verit) mult_nonneg_nonneg)
  have Q: "U div V \<le> 65535" using div_bounds_int(1) [OF V0, of U 65536] UV by (simp add: mult.commute)
  have ctx: "estimating v1 v2 uj2 ?N (U div V)"
    unfolding estimating_def using v u(3) estimate_too_big [OF U(2) V(1) e _ _ V0] by (auto simp: x_def y_def)
  have le: "uint uj0 \<le> uint v1"
  proof -
    have "x * e < V * 65536" using U(1) UV by linarith
    also have "\<dots> < (y + 1) * e * 65536" using V(2) by simp
    finally have "x * e < ((y + 1) * 65536) * e" by (simp only: mult_ac)
    then have "x < (y + 1) * 65536" using e by (simp add: mult_less_cancel_right_pos)
    then show ?thesis unfolding x_def y_def distrib_right mult.assoc
      using v(3) uint_range_32(1) [of uj1] uint_range_32(1) [of uj2] by linarith
  qed
  have close: "uint q \<le> U div V + 1" if "uint q * (uint v1 * 65536 + uint v2) \<le> ?N * 65536 + uint uj2" for q :: u32
    using that by (intro estimate_close [OF U(1) V(2) e _ V0 UV y U0]) (simp add: x_def y_def)
  show ?thesis
  proof (cases "uj0 = v1")
    case True
    then have "uint dB * uint v1 + uint uj1 = ?N" by simp
    then show ?thesis using qhat_too_big_ok [OF ctx _ u(2) Q] True close by (auto simp: estimate_def)
  next
    case False
    then have lt: "uint uj0 < uint v1" using le by (simp add: order_less_le) (metis unsigned_word_eqI)
    have nn: "uint (COMBINE uj0 uj1) = ?N" by (rule uint_COMBINE [OF u(1,2)])
    have N0: "0 \<le> ?N" using uint_range_32(1) [of uj0] uint_range_32(1) [of uj1] by linarith
    have d: "uint (COMBINE uj0 uj1 div v1) = ?N div uint v1" "uint (COMBINE uj0 uj1 mod v1) = ?N mod uint v1"
      by (simp_all add: uint_div_distrib uint_mod_distrib nn)
    have v10: "0 < uint v1" using v(1) by linarith
    have small: "?N div uint v1 < 65536" using lt u(2) by (intro div_bounds_int(1) [OF v10]) linarith
    have "U div V < ?N div uint v1 + 1"
    proof (rule estimate_too_big [OF U(2) V(1) e _ _ V0])
      show "0 \<le> ?N div uint v1 + 1" using N0 v10 by (simp add: pos_imp_zdiv_nonneg_iff)
      have "?N + 1 \<le> (?N div uint v1 + 1) * uint v1" using div_bounds_int(3) [OF v10, of ?N] by linarith
      then have "(?N + 1) * 65536 \<le> (?N div uint v1 + 1) * uint v1 * 65536" by simp
      moreover have "0 \<le> (?N div uint v1 + 1) * uint v2"
        using N0 v10 uint_ge_0 [of v2] by (intro mult_nonneg_nonneg) (simp_all add: pos_imp_zdiv_nonneg_iff)
      moreover have "n * 65536 + k < A + B" if "(n + 1) * 65536 \<le> A" "0 \<le> B" "k < 65536" for n k A B :: int
        using that by (simp add: distrib_right)
      ultimately show "x < (?N div uint v1 + 1) * y" unfolding x_def y_def distrib_left mult.assoc [symmetric] using u(3) by blast
    qed
    then have ge: "U div V \<le> uint (COMBINE uj0 uj1 div v1)" using d(1) by simp
    have "?N mod uint v1 < uint v1" using v10 by simp
    then have r: "uint (COMBINE uj0 uj1 mod v1) < 65536" unfolding d(2) using v(2) by linarith
    have "uint (COMBINE uj0 uj1 div v1) * uint v1 + uint (COMBINE uj0 uj1 mod v1) = ?N" unfolding d by simp
    moreover have "uint (COMBINE uj0 uj1 div v1) \<le> 65535" using small d(1) by simp
    ultimately show ?thesis using qhat_loop_ok [OF ctx _ _ r ge] False close unfolding estimate_def Let_def by auto
  qed
qed

section \<open>One quotient digit\<close>

lemma num_3: "num ds a 3 = (uint (ds ! a) * 65536 + uint (ds ! (a + 1))) * 65536 + uint (ds ! (a + 2))"
  by (simp add: numeral_3_eq_3)

lemma num_2: "num ds a 2 = uint (ds ! a) * 65536 + uint (ds ! (a + 1))"
  by (simp add: numeral_2_eq_2)

lemma num_3': "num ds a 3 = num ds a 2 * 65536 + uint (ds ! (a + 2))"
  by (simp add: num_2 num_3)

lemma estimate_num:
  assumes n: "2 \<le> n" and norm: "32768 \<le> uint (vs ! b)" and small: "num us a (n + 1) < num vs b n * 65536"
  shows "\<exists>q. estimate (widen (vs ! b)) (widen (vs ! (b + 1))) (widen (us ! a)) (widen (us ! (a + 1))) (widen (us ! (a + 2))) = Some q \<and>
    num us a (n + 1) div num vs b n \<le> uint q \<and> uint q \<le> num us a (n + 1) div num vs b n + 1 \<and> uint q \<le> 65535"
proof -
  obtain k where k: "n = 2 + k" using n le_Suc_ex by blast
  have k3: "n + 1 = 3 + k" using k by simp
  have U: "num us a (n + 1) = num us a 3 * 65536 ^ k + num us (a + 3) k" unfolding k3 by (rule num_add)
  have V: "num vs b n = num vs b 2 * 65536 ^ k + num vs (b + 2) k" unfolding k by (rule num_add)
  have e: "(0::int) < 65536 ^ k" by simp
  note bU = num_bounds [of us "a + 3" k] and bV = num_bounds [of vs "b + 2" k]
  show ?thesis
  proof (rule estimate_ok [where e = "65536 ^ k"], unfold uint_widen num_2 [symmetric], unfold num_3' [symmetric])
    show "num us a 3 * 65536 ^ k \<le> num us a (n + 1)" "num us a (n + 1) < (num us a 3 + 1) * 65536 ^ k"
      unfolding U distrib_right mult_1 using bU by linarith+
    show "num vs b 2 * 65536 ^ k \<le> num vs b n" "num vs b n < (num vs b 2 + 1) * 65536 ^ k"
      unfolding V distrib_right mult_1 using bV by linarith+
  qed (use norm small e uint_digit in simp_all)
qed

text \<open>The test for a borrow out of the first digit.\<close>

lemma borrow_test:
  fixes x :: digit
  assumes "uint t < 65536"
  shows "HHALF (widen x - t) \<noteq> 0 \<longleftrightarrow> uint x < uint t"
    and "uint (digit_of (LHALF (widen x - t))) = (uint x - uint t) mod 65536"
proof -
  have T: "uint (widen x - t) = (uint x - uint t) mod 4294967296" by (simp add: uint_minus_32)
  show "uint (digit_of (LHALF (widen x - t))) = (uint x - uint t) mod 65536"
    unfolding uint_digit_LHALF T by (simp add: mod_mod_cancel)
  have "uint (HHALF (widen x - t)) = ((uint x - uint t) mod 4294967296) div 65536" unfolding uint_HHALF T ..
  moreover have "(uint x - uint t) mod 4294967296 = (if uint x < uint t then uint x - uint t + 4294967296 else uint x - uint t)"
  proof (cases "uint x < uint t")
    case True
    have "(uint x - uint t) mod 4294967296 = (uint x - uint t + 4294967296) mod 4294967296" by simp
    also have "\<dots> = uint x - uint t + 4294967296"
      using True assms uint_digit(1) [of x] by (intro mod_pos_pos_trivial) linarith+
    finally show ?thesis using True by simp
  next
    case False
    then have "(uint x - uint t) mod 4294967296 = uint x - uint t"
      using uint_digit(2) [of x] uint_range_32(1) [of t] by (intro mod_pos_pos_trivial) linarith+
    then show ?thesis using False by simp
  qed
  moreover have "(uint x - uint t + 4294967296) div 65536 \<noteq> 0" if "uint x < uint t"
    using assms uint_digit(1) [of x] by linarith
  moreover have "(uint x - uint t) div 65536 = 0" if "\<not> uint x < uint t"
    using that uint_digit(2) [of x] uint_range_32(1) [of t] by (intro div_pos_pos_trivial) linarith+
  ultimately show "HHALF (widen x - t) \<noteq> 0 \<longleftrightarrow> uint x < uint t" by (auto simp flip: uint_0_iff)
qed

lemma top_digit_zero:
  fixes d R M :: int
  assumes "R = d * M + r" and "0 \<le> R" and "R < M" and "0 \<le> r" and "r < M"
  shows "d = 0"
proof (rule ccontr)
  assume "d \<noteq> 0"
  then consider "d \<le> - 1" | "1 \<le> d" by linarith
  then show False
  proof cases
    case 1
    then have "d * M \<le> - 1 * M" using assms(4,5) by (intro mult_right_mono) auto
    then show False using assms by linarith
  next
    case 2
    then have "1 * M \<le> d * M" using assms(4,5) by (intro mult_right_mono) auto
    then show False using assms by linarith
  qed
qed

lemma num_update_first:
  "a < length ds \<Longrightarrow> num (ds[a := x]) a (n + 1) = uint x * 65536 ^ n + num ds (a + 1) n"
proof -
  assume "a < length ds"
  moreover have "num (ds[a := x]) (Suc a) n = num ds (Suc a) n" by (rule num_cong) simp
  ultimately show ?thesis using num_first [of "ds[a := x]" a n] by simp
qed

definition sets_window :: "nat \<Rightarrow> nat \<Rightarrow> digit list \<Rightarrow> digit list \<Rightarrow> int \<Rightarrow> bool" where
  "sets_window a n us us' R \<longleftrightarrow>
     num us' a (n + 1) = R \<and> length us' = length us \<and> (\<forall>k. k < a \<or> a + n < k \<longrightarrow> us' ! k = us ! k)"

text \<open>
  The two outcomes of the subtraction, for a window \<open>W\<close> whose digits after it are those of \<open>us\<close> with
  \<open>t\<close> to take from the first: the estimate was right, or it was one too big.
\<close>

lemma step_fits:
  assumes key: "W - uint q * V = (uint (us ! a) - uint t) * 65536 ^ n + num us (a + 1) n"
    and q: "W div V \<le> uint q" and V: "0 < V" and len: "a < length us" and t: "uint t < 65536"
    and ge: "\<not> uint (us ! a) < uint (t :: u32)" and q1: "uint (q :: u32) \<le> W div V + 1"
  shows "uint q = W div V" and "num (us[a := digit_of (LHALF (widen (us ! a) - t))]) a (n + 1) = W mod V"
proof -
  let ?d = "digit_of (LHALF (widen (us ! a) - t))"
  have "uint ?d = uint (us ! a) - uint t"
    using borrow_test(2) [OF t, of "us ! a"] ge uint_digit(2) [of "us ! a"] uint_range_32(1) [of t] by simp
  then have R: "num (us[a := ?d]) a (n + 1) = W - uint q * V" using num_update_first [OF len] key by simp
  then have "uint q * V \<le> W" using num_bounds(1) [of "us[a := ?d]" a "n + 1"] by linarith
  then show e: "uint q = W div V" using q q1 div_bounds_int(3) [OF V, of W] V by (smt (verit) mult_right_mono distrib_right)
  show "num (us[a := ?d]) a (n + 1) = W mod V" using R unfolding e by (simp add: minus_div_mult_eq_mod)
qed

lemma step_borrow:
  assumes key: "W - uint q * V = (uint (us ! a) - uint t) * 65536 ^ n + num us (a + 1) n"
    and q: "W div V \<le> uint q" "uint (q :: u32) \<le> W div V + 1" and V: "0 < V" "V < 65536 ^ n" and Vn: "V = num vs (b + 1) n"
    and len: "a + n < length us" and t: "uint t < 65536" and lt: "uint (us ! a) < uint (t :: u32)"
    and ab: "addback n (us[a := digit_of (LHALF (widen (us ! a) - t))]) vs a b 0 = (us3, t3)"
  shows "uint q = W div V + 1" and "num (us3[a := digit_of (LHALF (widen (us3 ! a) + t3))]) a (n + 1) = W mod V"
    and "length us3 = length us" and "k < a \<or> a + n < k \<Longrightarrow> us3 ! k = us ! k"
proof -
  let ?M = "65536 ^ n :: int" and ?us2 = "us[a := digit_of (LHALF (widen (us ! a) - t))]"
  have "(uint (us ! a) - uint t) * ?M \<le> - 1 * ?M" using lt by (intro mult_right_mono) auto
  then have "W - uint q * V < 0" unfolding key using num_bounds(2) [of us "a + 1" n] by linarith
  then show qq: "uint q = W div V + 1" using q div_bounds_int(2) [OF V(1), of W] by (cases "uint q = W div V") auto
  have n2: "num ?us2 (a + 1) n = num us (a + 1) n" by (rule num_cong) simp
  have A: "num us3 (a + 1) n = num ?us2 (a + 1) n + V - uint t3 * ?M" "length us3 = length ?us2"
      "\<And>k. k \<le> a \<or> a + n < k \<Longrightarrow> us3 ! k = ?us2 ! k"
    using addback_ok [OF ab] len unfolding Vn by auto
  show "length us3 = length us" "k < a \<or> a + n < k \<Longrightarrow> us3 ! k = us ! k" using A(2,3) by auto
  have r1: "W mod V = W - uint q * V + V"
    unfolding qq distrib_right mult_1 using minus_div_mult_eq_mod [of W V] by linarith
  have R: "W mod V = (uint (us ! a) - uint t + uint t3) * ?M + num us3 (a + 1) n"
    unfolding r1 key A(1) n2 by (simp add: algebra_simps)
  have z: "uint (us ! a) - uint t + uint t3 = 0"
    by (rule top_digit_zero [OF R]) (use V num_bounds [of us3 "a + 1" n] pos_mod_bound [OF V(1), of W] in \<open>simp, linarith, simp_all\<close>)
  have e3: "uint (us3 ! a) = (uint (us ! a) - uint t) mod 65536" using A(3) [of a] borrow_test(2) [OF t, of "us ! a"] len by simp
  let ?f = "digit_of (LHALF (widen (us3 ! a) + t3))"
  have "uint ?f = (uint (us ! a) - uint t + uint t3) mod 65536"
    unfolding uint_digit_LHALF uint_plus_32 uint_widen e3 by (simp add: mod_simps mod_mod_cancel)
  then show "num (us3[a := ?f]) a (n + 1) = W mod V"
    using num_update_first [of a us3 ?f n] len A(2) R z by simp
qed

lemma div_step_ok:
  assumes n: "2 \<le> n" and norm: "32768 \<le> uint (vs ! (vo + 1))" and len: "a + n < length us"
    and small: "num us a (n + 1) < num vs (vo + 1) n * 65536"
  defines "W \<equiv> num us a (n + 1)" and "V \<equiv> num vs (vo + 1) n"
  shows "\<exists>us' qd. div_step vs vo n us a = Some (us', qd) \<and> uint qd = W div V \<and> sets_window a n us us' (W mod V)"
proof -
  have V: "0 < V" "V < 65536 ^ n" using num_bounds(2) [of vs "vo + 1" n] small num_bounds(1) [of us a "n + 1"] by (auto simp: V_def)
  obtain q where q: "estimate (widen (vs ! (vo + 1))) (widen (vs ! (vo + 2))) (widen (us ! a)) (widen (us ! (a + 1))) (widen (us ! (a + 2))) = Some q"
      "W div V \<le> uint q" "uint q \<le> W div V + 1" "uint q < 65536"
    using estimate_num [OF n norm small] by (auto simp: W_def V_def)
  obtain us1 t where m: "mulsub n us vs a vo q 0 = (us1, t)" by fastforce
  have M: "num us1 (a + 1) n = num us (a + 1) n - uint q * V + uint t * 65536 ^ n" "uint t < 65536" "length us1 = length us"
      "\<And>k. k \<le> a \<or> a + n < k \<Longrightarrow> us1 ! k = us ! k"
    using mulsub_ok [OF m q(4) _ len] unfolding V_def by auto
  have W: "W = uint (us1 ! a) * 65536 ^ n + num us (a + 1) n" using num_first [of us a n] M(4) [of a] by (simp add: W_def)
  have key: "W - uint q * V = (uint (us1 ! a) - uint t) * 65536 ^ n + num us1 (a + 1) n" unfolding W M(1) by (simp add: algebra_simps)
  have len1: "a + n < length us1" "a < length us1" using len M(3) by simp_all
  define us2 where "us2 = us1[a := digit_of (LHALF (widen (us1 ! a) - t))]"
  have run: "div_step vs vo n us a =
      (if HHALF (widen (us1 ! a) - t) \<noteq> 0 then
         let (us3, t) = addback n us2 vs a vo 0 in Some (us3[a := digit_of (LHALF (widen (us3 ! a) + t))], digit_of (q - 1))
       else Some (us2, digit_of q))"
    using q(1) m by (simp add: div_step_def Let_def us2_def)
  show ?thesis
  proof (cases "uint (us1 ! a) < uint t")
    case False
    note S = step_fits [OF key q(2) V(1) len1(2) M(2) False q(3)]
    show ?thesis using run borrow_test(1) [OF M(2)] False S q(4) M(3,4) uint_range_32(1) [of q]
      by (auto simp: sets_window_def us2_def uint_digit_of nth_list_update)
  next
    case True
    obtain us3 t3 where ab: "addback n us2 vs a vo 0 = (us3, t3)" by fastforce
    note S = step_borrow [OF key q(2,3) V V_def [THEN meta_eq_to_obj_eq] len1(1) M(2) True ab [unfolded us2_def]]
    have "0 \<le> W div V" using V(1) num_bounds(1) [of us a "n + 1"] by (simp add: W_def pos_imp_zdiv_nonneg_iff)
    then have "uint (digit_of (q - 1)) = W div V" using S(1) uint_pred [of q] q(4) by (simp add: uint_digit_of)
    then show ?thesis using run borrow_test(1) [OF M(2)] True ab S(2-4) M(3,4)
      by (auto simp: sets_window_def nth_list_update)
  qed
qed

section \<open>All quotient digits\<close>

text \<open>The state of the loop before digit \<open>j\<close>.\<close>

definition div_pre :: "nat \<Rightarrow> nat \<Rightarrow> nat \<Rightarrow> nat \<Rightarrow> int \<Rightarrow> digit list \<Rightarrow> bool" where
  "div_pre uo m n j V us \<longleftrightarrow> j \<le> m \<and> uo + m + n < length us \<and> num us uo j = 0 \<and> num us (uo + j) n < V"

lemma window_small:
  assumes "num us a n < V"
  shows "num us a (n + 1) < V * 65536"
proof -
  have "num us a n + 1 \<le> V" using assms by linarith
  then have "(num us a n + 1) * 65536 \<le> V * 65536" by simp
  then show ?thesis using uint_digit(2) [of "us ! (a + n)"] by simp
qed

lemma total_window:
  assumes "num us uo j = 0" and "j + k = m"
  shows "num us uo (m + n + 1) = num us (uo + j) (n + 1) * 65536 ^ k + num us (uo + j + n + 1) k"
proof -
  have m: "m + n + 1 = j + ((n + 1) + k)" using assms(2) by simp
  show ?thesis unfolding m num_add [of us uo j] num_add [of us "uo + j" "n + 1" k] using assms(1) by (simp add: add.assoc)
qed

lemma divmod_digit:
  fixes W V X M r :: int
  assumes "0 < V" and T: "T = W * M + r" and "T' = (W mod V) * M + r"
  shows "T mod V = T' mod V" and "T div V = (W div V) * M + T' div V"
proof -
  have e: "T = T' + ((W div V) * M) * V"
  proof -
    have "(W div V * V + W mod V) * M = W mod V * M + W div V * M * V" by (simp only: distrib_left distrib_right mult_ac add_ac)
    then show ?thesis unfolding T assms(3) div_mult_mod_eq by linarith
  qed
  show "T mod V = T' mod V" unfolding e by simp
  show "T div V = (W div V) * M + T' div V" unfolding e using assms(1) by simp
qed

lemma div_step_pre:
  assumes n: "2 \<le> n" and norm: "32768 \<le> uint (vs ! (vo + 1))" and pre: "div_pre uo m n j V us" and V: "V = num vs (vo + 1) n"
    and jk: "j + k = m"
  shows "\<exists>us' qd. div_step vs vo n us (uo + j) = Some (us', qd) \<and> length us' = length us \<and> (\<forall>i < uo. us' ! i = us ! i) \<and>
    num us' uo (j + 1) = 0 \<and> num us' (uo + (j + 1)) n < V \<and>
    num us uo (m + n + 1) mod V = num us' uo (m + n + 1) mod V \<and>
    num us uo (m + n + 1) div V = uint qd * 65536 ^ k + num us' uo (m + n + 1) div V"
proof -
  let ?a = "uo + j"
  have len: "?a + n < length us" and z: "num us uo j = 0" and lt: "num us ?a n < V" using pre by (auto simp: div_pre_def)
  have V0: "0 < V" "V < 65536 ^ n" using lt num_bounds(1) [of us ?a n] num_bounds(2) [of vs "vo + 1" n] V by linarith+
  have sm: "num us ?a (n + 1) < num vs (vo + 1) n * 65536" using window_small [OF lt] V by simp
  obtain us' qd where s: "div_step vs vo n us ?a = Some (us', qd)" "uint qd = num us ?a (n + 1) div V"
      "num us' ?a (n + 1) = num us ?a (n + 1) mod V" "length us' = length us" "\<And>i. i < ?a \<or> ?a + n < i \<Longrightarrow> us' ! i = us ! i"
    using div_step_ok [OF n norm len sm] unfolding V sets_window_def by auto
  have pr: "num us' uo j = 0" using z num_cong [of uo j us' us] s(5) by simp
  have r: "num us' ?a (n + 1) = uint (us' ! ?a) * 65536 ^ n + num us' (?a + 1) n" using num_first [of us' ?a n] by simp
  have "0 \<le> num us' ?a (n + 1)" "num us' ?a (n + 1) < V" using s(3) V0(1) by simp_all
  then have d0: "uint (us' ! ?a) = 0"
    using top_digit_zero [OF r] num_bounds [of us' "?a + 1" n] V0(2) by linarith
  have rest: "num us' (uo + j + n + 1) k = num us (uo + j + n + 1) k" by (rule num_cong) (rule s(5), simp)
  have "num us' uo (j + 1) = 0" using pr d0 by simp
  moreover have "num us' (uo + (j + 1)) n < V" using r d0 s(3) V0(1) by (simp add: add.assoc)
  moreover note divmod_digit [OF V0(1) total_window [OF z jk, of n] total_window [OF pr jk, of n, unfolded rest s(3)]]
  ultimately show ?thesis using s(1,2,4,5) by (auto intro!: exI [of _ us'] exI [of _ qd])
qed

lemma div_loop_ok:
  assumes n: "2 \<le> n" and norm: "32768 \<le> uint (vs ! (vo + 1))" and V: "V = num vs (vo + 1) n"
  shows "div_pre uo m n j V us \<Longrightarrow> j + k = m \<Longrightarrow> qo + m < length qs \<Longrightarrow>
    \<exists>us' qs'. div_loop vs vo n uo qo m j us qs = Some (us', qs') \<and> length us' = length us \<and> length qs' = length qs \<and>
      (\<forall>i < uo. us' ! i = us ! i) \<and> (\<forall>i < qo + j. qs' ! i = qs ! i) \<and>
      num us' uo (m + n + 1) = num us uo (m + n + 1) mod V \<and> num qs' (qo + j) (k + 1) = num us uo (m + n + 1) div V"
proof (induction k arbitrary: j us qs)
  case 0
  obtain us' qd where s: "div_step vs vo n us (uo + j) = Some (us', qd)" "length us' = length us" "\<forall>i < uo. us' ! i = us ! i"
      "num us' uo (j + 1) = 0" "num us' (uo + (j + 1)) n < V" "num us uo (m + n + 1) mod V = num us' uo (m + n + 1) mod V"
      "num us uo (m + n + 1) div V = uint qd * 65536 ^ 0 + num us' uo (m + n + 1) div V"
    using div_step_pre [OF n norm 0(1) V 0(2)] by blast
  have "num us' uo (m + n + 1) = num us' (uo + (j + 1)) n" using num_add [of us' uo "j + 1" n] s(4) 0(2) by (simp add: add.commute)
  moreover have "0 \<le> num us' (uo + (j + 1)) n" by (rule num_bounds)
  ultimately show ?case using s 0 by (subst div_loop.simps) auto
next
  case (Suc k)
  obtain us1 qd where s: "div_step vs vo n us (uo + j) = Some (us1, qd)" "length us1 = length us" "\<forall>i < uo. us1 ! i = us ! i"
      "num us1 uo (j + 1) = 0" "num us1 (uo + (j + 1)) n < V" "num us uo (m + n + 1) mod V = num us1 uo (m + n + 1) mod V"
      "num us uo (m + n + 1) div V = uint qd * 65536 ^ Suc k + num us1 uo (m + n + 1) div V"
    using div_step_pre [OF n norm Suc.prems(1) V Suc.prems(2)] by blast
  let ?qs = "qs[qo + j := qd]"
  have pre: "div_pre uo m n (j + 1) V us1" using s Suc.prems by (simp add: div_pre_def)
  obtain us' qs' where I: "div_loop vs vo n uo qo m (j + 1) us1 ?qs = Some (us', qs')" "length us' = length us1" "length qs' = length ?qs"
      "\<forall>i < uo. us' ! i = us1 ! i" "\<forall>i < qo + (j + 1). qs' ! i = ?qs ! i"
      "num us' uo (m + n + 1) = num us1 uo (m + n + 1) mod V" "num qs' (qo + (j + 1)) (k + 1) = num us1 uo (m + n + 1) div V"
    using Suc.IH [OF pre, of ?qs] Suc.prems(2,3) by auto
  have "qs' ! (qo + j) = qd" using I(5) Suc.prems(2,3) by simp
  then have "num qs' (qo + j) (Suc k + 1) = num us uo (m + n + 1) div V"
    using num_first [of qs' "qo + j" "k + 1"] I(7) s(7) by (simp add: add.assoc)
  moreover have "div_loop vs vo n uo qo m j us qs = Some (us', qs')"
    using s(1) I(1) Suc.prems(2) by (subst div_loop.simps) simp
  ultimately show ?case using I s by auto
qed

end
