(* ===== verification/Qdivrem_Correct.thy ===== *)
theory Qdivrem_Correct
  imports Qdivrem
begin

text \<open>
  Correctness of the 64-bit division: shifting the operands into and out of normal form, the division
  by a single digit, and the theorem about \<open>qdivrem\<close> and its callers.
\<close>

section \<open>Shifting numbers\<close>

lemma pow2_16: "k \<le> 16 \<Longrightarrow> (2::int) ^ k * 2 ^ (16 - k) = 65536"
  by (simp flip: power_add)

text \<open>A digit shifted left, with the bits that come in from the next digit.\<close>

lemma shl_digit:
  fixes x y :: digit
  assumes "sh \<le> 16"
  shows "uint (digit_of (LHALF (push_bit sh (widen x)) OR drop_bit (16 - sh) (widen y))) =
    (uint x * 2 ^ sh + uint y div 2 ^ (16 - sh)) mod 65536"
proof -
  let ?p = "LHALF (push_bit sh (widen x))" and ?q = "drop_bit (16 - sh) (widen y)"
  have "?p AND ?q = 0"
    by (rule bit_word_eqI) (use assms in \<open>auto simp: LHALF_mask widen_def bit_simps dest: bit_imp_le_length\<close>)
  then have s: "?p OR ?q = ?p + ?q" by (simp add: disjunctive_add_eq_or)
  have "uint x * 2 ^ sh < 4294967296"
  proof -
    have "(2::int) ^ sh \<le> 2 ^ 16" using assms by (rule power_increasing) simp
    then have "uint x * 2 ^ sh \<le> 65535 * 2 ^ 16"
      using uint_digit [of x] by (intro mult_mono) auto
    then show ?thesis by simp
  qed
  then have "uint (push_bit sh (widen x)) = uint x * 2 ^ sh"
    unfolding unsigned_push_bit_eq uint_widen using uint_digit(1) [of x] by (simp add: push_bit_eq_mult take_bit_int_eq_self)
  then have p: "uint ?p = (uint x * 2 ^ sh) mod 65536" by (simp add: uint_LHALF)
  have q: "uint ?q = uint y div 2 ^ (16 - sh)" unfolding unsigned_drop_bit_eq uint_widen
    using uint_digit [of y] by (simp add: drop_bit_eq_div take_bit_int_eq_self)
  show ?thesis unfolding uint_digit_of s uint_plus_32 p q by (simp add: mod_simps mod_mod_cancel)
qed

lemma shl_last:
  fixes x :: digit
  assumes "sh \<le> 16"
  shows "uint (digit_of (LHALF (push_bit sh (widen x)))) = (uint x * 2 ^ sh) mod 65536"
proof -
  have "widen (0 :: digit) = 0" by (simp add: widen_def)
  then show ?thesis using shl_digit [OF assms, of x 0] by simp
qed

text \<open>What a number shifted left pushes out on the left is the top bits of its first digit.\<close>

lemma shifted_out:
  assumes "sh \<le> 16"
  shows "(num ds a (Suc k) * 2 ^ sh) div 65536 ^ Suc k = uint (ds ! a) div 2 ^ (16 - sh)"
proof -
  let ?c = "2 ^ (16 - sh) :: int" and ?r = "num ds (Suc a) k"
  have M: "(65536 :: int) ^ Suc k = 2 ^ sh * (65536 ^ k * ?c)" using pow2_16 [OF assms] by simp
  have "(num ds a (Suc k) * 2 ^ sh) div 65536 ^ Suc k = num ds a (Suc k) div (65536 ^ k * ?c)"
    unfolding M mult.commute [of _ "2 ^ sh"] by (rule div_mult_mult1) simp
  also have "\<dots> = (num ds a (Suc k) div 65536 ^ k) div ?c" by (rule zdiv_zmult2_eq) simp
  also have "num ds a (Suc k) div 65536 ^ k = uint (ds ! a)"
    unfolding num_first using num_bounds [of ds "Suc a" k] by simp
  finally show ?thesis .
qed

lemma shl_combine:
  fixes x c N M s :: int
  assumes "0 < M" and "c = (N * s) div M"
  shows "((x * M + N) * s) mod (M * 65536) = ((x * s + c) mod 65536) * M + (N * s) mod M"
proof -
  have "(x * M + N) * s = (x * s + c) * M + (N * s) mod M"
    unfolding assms(2) distrib_right using div_mult_mod_eq [of "N * s" M] by (simp only: mult_ac add_ac)
  then have "((x * M + N) * s) mod (M * 65536) = M * (((x * M + N) * s) div M mod 65536) + ((x * M + N) * s) mod M"
    using assms(1) by (simp only: zmod_zmult2_eq)
  moreover have "((x * M + N) * s) div M = x * s + c" "((x * M + N) * s) mod M = (N * s) mod M"
    using \<open>(x * M + N) * s = (x * s + c) * M + (N * s) mod M\<close> assms(1) by simp_all
  ultimately show ?thesis by (simp add: mult.commute)
qed

lemma shl_from_ok:
  assumes "sh \<le> 16"
  shows "i + k = len \<Longrightarrow> off + len < length ds \<Longrightarrow>
    num (shl_from i ds off len sh) (off + i) (k + 1) = (num ds (off + i) (k + 1) * 2 ^ sh) mod 65536 ^ (k + 1) \<and>
    length (shl_from i ds off len sh) = length ds \<and> (\<forall>j. j < off + i \<or> off + len < j \<longrightarrow> shl_from i ds off len sh ! j = ds ! j)"
proof (induction k arbitrary: i ds)
  case 0
  then show ?case by (subst (1 2 3) shl_from.simps) (simp add: shl_last [OF assms])
next
  case (Suc k)
  let ?x = "ds ! (off + i)" and ?y = "ds ! (off + i + 1)"
  let ?d = "digit_of (LHALF (push_bit sh (widen ?x)) OR drop_bit (16 - sh) (widen ?y))"
  let ?ds = "ds[off + i := ?d]"
  have run: "shl_from i ds off len sh = shl_from (i + 1) ?ds off len sh"
    using Suc.prems(1) by (subst shl_from.simps) simp
  let ?r = "shl_from (i + 1) ?ds off len sh"
  have I: "num ?r (off + (i + 1)) (k + 1) = (num ?ds (off + (i + 1)) (k + 1) * 2 ^ sh) mod 65536 ^ (k + 1)"
      "length ?r = length ?ds" "\<And>j. j < off + (i + 1) \<or> off + len < j \<Longrightarrow> ?r ! j = ?ds ! j"
    using Suc.IH [of "i + 1" ?ds] Suc.prems by auto
  let ?N = "num ds (off + i + 1) (k + 1)"
  have nf: "num ds (off + i) (Suc (k + 1)) = uint ?x * 65536 ^ (k + 1) + ?N" using num_first [of ds "off + i" "k + 1"] by simp
  have N: "num ?ds (off + (i + 1)) (k + 1) = ?N" unfolding add.assoc by (rule num_cong) simp
  have out: "uint ?y div 2 ^ (16 - sh) = (?N * 2 ^ sh) div 65536 ^ (k + 1)" using shifted_out [OF assms, of ds "off + i + 1" k] by simp
  have "uint (?r ! (off + i)) = (uint ?x * 2 ^ sh + uint ?y div 2 ^ (16 - sh)) mod 65536"
    using I(3) [of "off + i"] Suc.prems shl_digit [OF assms] by simp
  then have "num ?r (off + i) (Suc k + 1) =
      ((uint ?x * 2 ^ sh + uint ?y div 2 ^ (16 - sh)) mod 65536) * 65536 ^ (k + 1) + (?N * 2 ^ sh) mod 65536 ^ (k + 1)"
    using num_first [of ?r "off + i" "k + 1"] I(1) N by (simp add: add.assoc)
  also have "\<dots> = (num ds (off + i) (Suc k + 1) * 2 ^ sh) mod 65536 ^ (Suc k + 1)"
    unfolding add_Suc nf power_Suc2 by (rule shl_combine [OF _ out, symmetric]) simp
  finally show ?case unfolding run using I(2,3) Suc.prems by auto
qed

lemma shl_exact:
  assumes "sh \<le> 16" and "off + len < length ds" and "num ds off (len + 1) * 2 ^ sh < 65536 ^ (len + 1)"
  shows "num (shl ds off len sh) off (len + 1) = num ds off (len + 1) * 2 ^ sh" and "length (shl ds off len sh) = length ds"
    and "j < off \<or> off + len < j \<Longrightarrow> shl ds off len sh ! j = ds ! j"
  using shl_from_ok [OF assms(1), of 0 len len off ds] assms(2,3) num_bounds(1) [of ds off "len + 1"]
  by (auto simp: shl_def simp del: num.simps power_Suc)

text \<open>Shifting right, from the last digit to the first.\<close>

lemma shr_digit:
  fixes x y :: digit
  assumes "d \<le> 16"
  shows "uint (digit_of (drop_bit d (widen y) OR LHALF (push_bit (16 - d) (widen x)))) =
    (uint x * 2 ^ (16 - d) + uint y div 2 ^ d) mod 65536"
  using shl_digit [of "16 - d" x y] assms by (simp add: or.commute)

lemma shr_combine:
  fixes N y x c s P :: int
  assumes "0 < s" and "0 < c" and B: "s * c = 65536" and "0 \<le> y" and "y < 65536" and "x = N mod 65536" and "0 < P"
  shows "((N * 65536 + y) div s) mod (P * 65536) = (N div s mod P) * 65536 + (x * c + y div s) mod 65536"
proof -
  let ?A = "N div s" and ?r = "N mod s * c + y div s"
  have N: "N * 65536 + y = y + (N * c) * s" unfolding B [symmetric] by (simp only: mult_ac add_ac)
  have 1: "(N * 65536 + y) div s = N * c + y div s" unfolding N using assms(1) by (intro div_mult_self1) simp
  have "N * c = ?A * (s * c) + N mod s * c" using div_mult_mod_eq [of N s] by (metis distrib_right mult.assoc)
  then have 2: "N * c + y div s = ?A * 65536 + ?r" unfolding B by linarith
  have r: "0 \<le> ?r" "?r < 65536"
  proof -
    have "y div s < c" using assms(1,5) B by (intro div_bounds_int(1)) (simp_all add: mult.commute)
    moreover have "(N mod s + 1) * c \<le> s * c" using assms(1,2) by (intro mult_right_mono) (simp_all add: zless_imp_add1_zle)
    ultimately show "?r < 65536" unfolding distrib_right B by linarith
    show "0 \<le> ?r" using assms(1,2,4) by (simp add: pos_imp_zdiv_nonneg_iff)
  qed
  have "(x * c + y div s) mod 65536 = (N * c + y div s) mod 65536" unfolding assms(6) by (intro mod_add_cong mod_mult_cong) simp_all
  then have 3: "(x * c + y div s) mod 65536 = ?r" unfolding 2 using r by simp
  have "(?A * 65536 + ?r) mod (65536 * P) = 65536 * ((?A * 65536 + ?r) div 65536 mod P) + (?A * 65536 + ?r) mod 65536"
    using assms(7) by (intro zmod_zmult2_eq) simp
  also have "\<dots> = (?A mod P) * 65536 + ?r" using r by simp
  finally show ?thesis unfolding 1 2 3 by (simp only: mult.commute)
qed

lemma shift_back_ok:
  assumes d: "d \<le> 16"
  shows "a + k < length us \<Longrightarrow>
    num (shift_back d k us a) (a + 1) k = (num us a (k + 1) div 2 ^ d) mod 65536 ^ k \<and>
    length (shift_back d k us a) = length us \<and> shift_back d k us a ! a = 0 \<and>
    (\<forall>j. j < a \<or> a + k < j \<longrightarrow> shift_back d k us a ! j = us ! j)"
proof (induction k arbitrary: us)
  case 0
  then show ?case by simp
next
  case (Suc k)
  let ?x = "us ! (a + k)" and ?y = "us ! (a + Suc k)"
  let ?e = "digit_of (drop_bit d (widen ?y) OR LHALF (push_bit (16 - d) (widen ?x)))"
  let ?us = "us[a + Suc k := ?e]"
  let ?r = "shift_back d k ?us a"
  have I: "num ?r (a + 1) k = (num ?us a (k + 1) div 2 ^ d) mod 65536 ^ k" "length ?r = length ?us" "?r ! a = 0"
      "\<And>j. j < a \<or> a + k < j \<Longrightarrow> ?r ! j = ?us ! j"
    using Suc.IH [of ?us] Suc.prems by auto
  have n: "num ?us a (k + 1) = num us a (k + 1)" by (rule num_cong) simp
  have e: "uint (?r ! (a + 1 + k)) = (uint ?x * 2 ^ (16 - d) + uint ?y div 2 ^ d) mod 65536"
    using I(4) [of "a + 1 + k"] Suc.prems shr_digit [OF d] by simp
  have x: "uint ?x = num us a (k + 1) mod 65536" using uint_digit [of ?x] by simp
  have "num ?r (a + 1) (Suc k) = (num us a (k + 1) div 2 ^ d mod 65536 ^ k) * 65536 + (uint ?x * 2 ^ (16 - d) + uint ?y div 2 ^ d) mod 65536"
    using I(1) n e by simp
  also have "\<dots> = ((num us a (k + 1) * 65536 + uint ?y) div 2 ^ d) mod (65536 ^ k * 65536)"
    using pow2_16 [OF d] uint_digit [of ?y] x by (intro shr_combine [symmetric]) simp_all
  also have "\<dots> = (num us a (Suc k + 1) div 2 ^ d) mod 65536 ^ Suc k" by (simp add: mult.commute)
  finally show ?case using I(2-4) Suc.prems by auto
qed

lemma norm_shift_ok:
  "0 < uint t \<Longrightarrow> uint t < 65536 \<Longrightarrow>
    \<exists>k. norm_shift t d = Some (d + k) \<and> 32768 \<le> uint t * 2 ^ k \<and> uint t * 2 ^ k < 65536"
proof (induction "nat (65536 - uint t)" arbitrary: t d rule: less_induct)
  case less
  have half: "t < dB div 2 \<longleftrightarrow> uint t < 32768" by (simp add: word_less_def uint_div_distrib)
  show ?case
  proof (cases "uint t < 32768")
    case True
    have p: "uint (push_bit 1 t) = uint t * 2"
      unfolding unsigned_push_bit_eq using True less.prems(1) by (simp add: push_bit_eq_mult take_bit_int_eq_self)
    obtain k where "norm_shift (push_bit 1 t) (d + 1) = Some (d + 1 + k)" "32768 \<le> uint t * 2 * 2 ^ k" "uint t * 2 * 2 ^ k < 65536"
      using less.hyps [of "push_bit 1 t" "d + 1"] p less.prems True by auto
    then show ?thesis using True half by (intro exI [of _ "Suc k"]) (subst norm_shift.simps, simp)
  next
    case False
    then show ?thesis using half less.prems by (intro exI [of _ 0]) (subst norm_shift.simps, simp)
  qed
qed

lemma skip_u_ok:
  "(\<And>k. k < i \<Longrightarrow> us ! (uo + 1 + k) = 0) \<Longrightarrow> us ! (uo + 1 + i) \<noteq> 0 \<Longrightarrow> uo + 1 + i < length us \<Longrightarrow>
    skip_u us uo m = Some (uo + i, m - i)"
proof (induction i arbitrary: uo m)
  case 0
  then show ?case by (subst skip_u.simps) simp
next
  case (Suc i)
  have "us ! (uo + 1 + 1 + k) = 0" if "k < i" for k using Suc.prems(1) [of "Suc k"] that by simp
  then have "skip_u us (uo + 1) (m - 1) = Some (uo + 1 + i, m - 1 - i)" using Suc by simp
  moreover have "us ! (uo + 1) = 0" using Suc.prems(1) [of 0] by simp
  ultimately show ?case using Suc.prems(3) by (subst skip_u.simps) simp
qed

section \<open>Words and their digits\<close>

lemma num_4: "num ds 1 4 = ((uint (ds ! 1) * 65536 + uint (ds ! 2)) * 65536 + uint (ds ! 3)) * 65536 + uint (ds ! 4)"
  by (simp add: numeral_eq_Suc)

lemma uint_digit_HHALF: "uint (digit_of (HHALF x)) = uint x div 65536"
  using half_word_HHALF [of x] uint_range_32(1) [of "HHALF x"] by (simp add: uint_digit_of half_word_def uint_HHALF)

lemma num_digits_of: "num (z # digits_of x) 1 4 = uint x"
proof -
  have "uint x = uint (uu_H x) * 4294967296 + uint (uu_L x)" using uint_uu_ll [of "uu_H x" "uu_L x"] by simp
  moreover have "uint y div 65536 * 65536 + uint y mod 65536 = uint y" for y :: u32 by simp
  ultimately show ?thesis
    unfolding num_4 using minus_div_mult_eq_mod [of "uint (uu_H x)" 65536] minus_div_mult_eq_mod [of "uint (uu_L x)" 65536]
    by (simp add: digits_of_def uint_digit_HHALF uint_digit_LHALF)
qed

lemma uint_from_digits: "uint (from_digits ds) = num ds 1 4"
  unfolding from_digits_def uint_uu_ll num_4 by (simp add: uint_COMBINE uint_digit)

section \<open>Division by one digit\<close>

lemma short_step:
  assumes t: "0 < uint t" "uint t < 65536" and r: "uint r = N mod uint t" and q: "Q = N div uint t"
  shows "uint (COMBINE r (widen a) mod t) = (N * 65536 + uint a) mod uint t"
    and "Q * 65536 + uint (digit_of (COMBINE r (widen a) div t)) = (N * 65536 + uint a) div uint t"
proof -
  have rt: "uint r < uint t" using r t(1) by simp
  have c: "uint (COMBINE r (widen a)) = uint r * 65536 + uint a"
    using rt t(2) uint_digit(2) [of a] by (subst uint_COMBINE) auto
  note D = divmod_digit [OF t(1) refl [of "N * 65536 + uint a"] refl, folded r q]
  show "uint (COMBINE r (widen a) mod t) = (N * 65536 + uint a) mod uint t" unfolding uint_mod_distrib c D(1) ..
  have "(uint r + 1) * 65536 \<le> uint t * 65536" using rt by simp
  then have "uint r * 65536 + uint a < 65536 * uint t" using uint_digit(2) [of a] by simp
  then have "(uint r * 65536 + uint a) div uint t < 65536" by (rule div_bounds_int(1) [OF t(1)])
  moreover have "0 \<le> (uint r * 65536 + uint a) div uint t" using t(1) uint_digit(1) [of a] uint_range_32(1) [of r]
    by (simp add: pos_imp_zdiv_nonneg_iff)
  ultimately show "Q * 65536 + uint (digit_of (COMBINE r (widen a) div t)) = (N * 65536 + uint a) div uint t"
    unfolding D(2) uint_digit_of uint_div_distrib c by simp
qed

lemma uint_ucast_64: "uint (ucast (y :: u32) :: u64) = uint y"
  using uint_lt2p [of y] by (simp add: unsigned_ucast_eq take_bit_int_eq_self_iff)

lemma short_div_ok:
  assumes t: "0 < uint t" "uint t < 65536"
  shows "short_div (0 # digits_of x) t = (qr, rr) \<Longrightarrow> uint qr = uint x div uint t \<and> uint rr = uint x mod uint t"
proof -
  assume s: "short_div (0 # digits_of x) t = (qr, rr)"
  define us where "us = 0 # digits_of x"
  define a1 a2 a3 a4 where a: "a1 = us ! 1" "a2 = us ! 2" "a3 = us ! 3" "a4 = us ! 4"
  define r1 where "r1 = widen a1 mod t"
  define r2 where "r2 = COMBINE r1 (widen a2) mod t"
  define r3 where "r3 = COMBINE r2 (widen a3) mod t"
  have x: "uint x = ((uint a1 * 65536 + uint a2) * 65536 + uint a3) * 65536 + uint a4"
    using num_digits_of [of 0 x] unfolding num_4 a us_def by simp
  have r1: "uint r1 = uint a1 mod uint t" by (simp add: r1_def uint_mod_distrib)
  have "uint a1 < 65536 * uint t" using t(1) uint_digit(2) [of a1] by linarith
  then have "uint a1 div uint t < 65536" by (rule div_bounds_int(1) [OF t(1)])
  moreover have "0 \<le> uint a1 div uint t" using t(1) uint_digit(1) [of a1] by (simp add: pos_imp_zdiv_nonneg_iff)
  ultimately have q1: "uint (digit_of (widen a1 div t)) = uint a1 div uint t" by (simp add: uint_digit_of uint_div_distrib)
  note s2 = short_step [OF t r1 q1, of a2, folded r2_def]
  note s3 = short_step [OF t s2, of a3, folded r3_def]
  note s4 = short_step [OF t s3, of a4]
  have "qr = uu_ll (COMBINE (widen (digit_of (widen a1 div t))) (widen (digit_of (COMBINE r1 (widen a2) div t))))
      (COMBINE (widen (digit_of (COMBINE r2 (widen a3) div t))) (widen (digit_of (COMBINE r3 (widen a4) div t))))"
    and rr: "rr = ucast (COMBINE r3 (widen a4) mod t)"
    using s by (simp_all add: short_div_def Let_def a r1_def r2_def r3_def us_def)
  then have "uint qr = uint x div uint t"
    using s4(2) unfolding x by (simp add: uint_uu_ll uint_COMBINE uint_digit)
  moreover have "uint rr = uint x mod uint t" unfolding rr x uint_ucast_64 by (rule s4(1))
  ultimately show ?thesis by simp
qed

section \<open>The whole division\<close>

lemma skip_v_cases:
  "skip_v 4 vs 0 = (if vs ! 1 \<noteq> 0 then Long 0 4 else if vs ! 2 \<noteq> 0 then Long 1 3 else if vs ! 3 \<noteq> 0 then Long 2 2 else Short 2)"
  by (simp add: numeral_eq_Suc)

lemma skip_v_Long:
  assumes "skip_v 4 vs 0 = Long vo n"
  shows "vo + n = 4" and "2 \<le> n" and "vs ! (vo + 1) \<noteq> 0" and "num vs 1 4 = num vs (vo + 1) n"
proof -
  show "vo + n = 4" "2 \<le> n" "vs ! (vo + 1) \<noteq> 0" using assms skip_v_cases [of vs] numeral_2_eq_2 by (auto simp: eval_nat_numeral split: if_splits)
  have "num vs 1 vo = 0" using assms skip_v_cases [of vs] by (auto simp: eval_nat_numeral split: if_splits)
  then show "num vs 1 4 = num vs (vo + 1) n" using num_add [of vs 1 vo n] \<open>vo + n = 4\<close> by (simp add: add.commute)
qed

lemma skip_u_found:
  assumes "n \<le> 4" "1 \<le> n" and big: "65536 ^ (n - 1) \<le> num us 1 4" and len: "length us = 5"
  shows "\<exists>i \<le> 4 - n. skip_u us 0 (4 - n) = Some (i, 4 - n - i) \<and> (\<forall>k < i. us ! (1 + k) = 0)"
proof -
  let ?P = "\<lambda>i. i \<le> 4 - n \<and> us ! (1 + i) \<noteq> 0"
  have ex: "\<exists>i. ?P i"
  proof (rule ccontr)
    assume none: "\<nexists>i. ?P i"
    have "us ! i = 0" if "1 \<le> i" "i < 1 + (5 - n)" for i
    proof -
      have "i - 1 \<le> 4 - n" "1 + (i - 1) = i" using that assms(1) by auto
      then show ?thesis using none by metis
    qed
    then have "num us 1 (5 - n) = 0" by (rule num_zeros)
    moreover have "(5 - n) + (n - 1) = 4" using assms(1,2) by simp
    ultimately have "num us 1 4 = num us (1 + (5 - n)) (n - 1)" using num_add [of us 1 "5 - n" "n - 1"] by simp
    then show False using big num_bounds(2) [of us "1 + (5 - n)" "n - 1"] by linarith
  qed
  then obtain i where i: "i \<le> 4 - n" "us ! (1 + i) \<noteq> 0" and least: "\<And>k. k < i \<Longrightarrow> \<not> ?P k"
    using exists_least_iff [of ?P] by blast
  have z: "us ! (1 + k) = 0" if "k < i" for k using least [OF that] i(1) that by simp
  have "skip_u us 0 (4 - n) = Some (0 + i, 4 - n - i)"
  proof (rule skip_u_ok)
    show "us ! (0 + 1 + k) = 0" if "k < i" for k using z [OF that] by simp
    show "us ! (0 + 1 + i) \<noteq> 0" "0 + 1 + i < length us" using i len assms(2) by simp_all
  qed
  then show ?thesis using i(1) z by auto
qed

text \<open>Normalising the divisor.\<close>

lemma norm_divisor:
  assumes n: "1 \<le> n" and len: "b + n \<le> length vs" and d: "32768 \<le> uint (vs ! b) * 2 ^ d" "uint (vs ! b) * 2 ^ d < 65536"
    and d16: "d \<le> 16"
  defines "vs' \<equiv> (if d > 0 then shl vs b (n - 1) d else vs)"
  shows "num vs' b n = num vs b n * 2 ^ d" and "32768 \<le> uint (vs' ! b)"
proof -
  let ?M = "65536 ^ (n - 1) :: int"
  have n1: "num ds b n = uint (ds ! b) * ?M + num ds (Suc b) (n - 1)" for ds using num_first [of ds b "n - 1"] n by simp
  have c: "(0::int) < 2 ^ d" by simp
  have e: "(2::int) ^ (16 - d) * 2 ^ d = 65536" using pow2_16 [OF d16] by (simp only: mult.commute)
  have "uint (vs ! b) * 2 ^ d < 2 ^ (16 - d) * 2 ^ d" unfolding e by (rule d(2))
  then have "uint (vs ! b) + 1 \<le> 2 ^ (16 - d)" unfolding mult_less_cancel_right_pos [OF c] by linarith
  then have "(uint (vs ! b) + 1) * ?M \<le> 2 ^ (16 - d) * ?M" by (intro mult_right_mono) auto
  moreover have "num vs b n < (uint (vs ! b) + 1) * ?M"
    unfolding n1 [of vs] distrib_right mult_1 using num_bounds(2) [of vs "Suc b" "n - 1"] by linarith
  ultimately have "num vs b n * 2 ^ d < 2 ^ (16 - d) * ?M * 2 ^ d" unfolding mult_less_cancel_right_pos [OF c] by linarith
  also have "\<dots> = (2 ^ (16 - d) * 2 ^ d) * ?M" by (simp only: mult_ac)
  also have "\<dots> = 65536 ^ n" unfolding e using n by (simp flip: power_Suc)
  finally have lt: "num vs b n * 2 ^ d < 65536 ^ n" .
  show v: "num vs' b n = num vs b n * 2 ^ d"
    using shl_exact(1) [OF d16, of b "n - 1" vs] n len lt by (cases "d > 0") (simp_all add: vs'_def)
  have "32768 * ?M \<le> uint (vs ! b) * 2 ^ d * ?M" using d(1) by (intro mult_right_mono) auto
  also have "\<dots> \<le> num vs' b n" unfolding v n1 [of vs] distrib_right using num_bounds(1) [of vs "Suc b" "n - 1"] by simp
  finally have "32768 * ?M \<le> uint (vs' ! b) * ?M + num vs' (Suc b) (n - 1)" unfolding n1 [of vs'] .
  then have "32768 * ?M < (uint (vs' ! b) + 1) * ?M" unfolding distrib_right mult_1 using num_bounds(2) [of vs' "Suc b" "n - 1"] by linarith
  then have "32768 < uint (vs' ! b) + 1" by (simp add: mult_less_cancel_right_pos)
  then show "32768 \<le> uint (vs' ! b)" by linarith
qed

text \<open>Normalising the dividend, whose first digit is zero.\<close>

lemma norm_dividend:
  assumes len: "a + k < length us" and z: "us ! a = 0" and d: "d \<le> 16"
  defines "us' \<equiv> (if d > 0 then shl us a k d else us)"
  shows "num us' a (k + 1) = num us a (k + 1) * 2 ^ d" and "length us' = length us" and "i < a \<Longrightarrow> us' ! i = us ! i"
proof -
  have "num us a (k + 1) < 65536 ^ k" using num_first [of us a k] z num_bounds(2) [of us "Suc a" k] by simp
  moreover have "(2::int) ^ d \<le> 65536" using power_increasing [OF d, of "2::int"] by simp
  ultimately have "num us a (k + 1) * 2 ^ d < 65536 ^ k * 65536"
    using num_bounds(1) [of us a "k + 1"] by (intro mult_less_le_imp_less) auto
  then have lt: "num us a (k + 1) * 2 ^ d < 65536 ^ (k + 1)" by (simp only: power_add power_one_right)
  note S = shl_exact [OF d len lt]
  show "num us' a (k + 1) = num us a (k + 1) * 2 ^ d" "length us' = length us" "i < a \<Longrightarrow> us' ! i = us ! i"
    using S(1,2) S(3) [of i] by (cases "d > 0"; simp add: us'_def del: num.simps)+
qed

text \<open>The dividend is small enough for the first quotient digit.\<close>

lemma first_digit_fits:
  assumes u: "num us a (m + n + 1) = u * c" and small: "u < 65536 ^ (m + n)" and n: "1 \<le> n"
    and v: "65536 ^ (n - 1) \<le> v" and c: "0 < c"
  shows "num us a n < v * c"
proof -
  have e: "num us a (m + n + 1) = num us a n * 65536 ^ (m + 1) + num us (a + n) (m + 1)"
    using num_add [of us a n "m + 1"] by (simp add: add.commute add.left_commute)
  have "num us a n * 65536 ^ (m + 1) \<le> u * c" using e u num_bounds(1) [of us "a + n" "m + 1"] by linarith
  also have "\<dots> < 65536 ^ (m + n) * c" using small c by simp
  also have "\<dots> = 65536 ^ (m + 1) * (65536 ^ (n - 1) * c)"
  proof -
    have "m + n = (m + 1) + (n - 1)" using n by simp
    then have "(65536 :: int) ^ (m + n) = 65536 ^ (m + 1) * 65536 ^ (n - 1)" by (metis power_add)
    then show ?thesis by (simp only: mult.assoc)
  qed
  also have "\<dots> \<le> 65536 ^ (m + 1) * (v * c)" using v c by (intro mult_left_mono mult_right_mono) auto
  finally have "num us a n * 65536 ^ (m + 1) < (v * c) * 65536 ^ (m + 1)" by (simp only: mult.commute)
  then show ?thesis by (simp add: mult_less_cancel_right_pos del: power_Suc)
qed

text \<open>The remainder, shifted back, is what the array holds.\<close>

lemma remainder_back:
  assumes len: "length us = 5" and i: "uo + m + n = 4" and pre: "\<And>j. j < uo \<Longrightarrow> us ! j = 0"
    and R: "num us uo (m + n + 1) = r * 2 ^ d" and r: "0 \<le> r" "r * 2 ^ d < 65536 ^ n" and d: "d \<le> 16"
  shows "num (if d > 0 then shift_back d n us (uo + m) else us) 1 4 = r"
proof -
  have e: "num us uo (m + n + 1) = num us uo (m + 1) * 65536 ^ n + num us (uo + m + 1) n"
    using num_add [of us uo "m + 1" n] by (simp add: add.commute add.left_commute add.assoc)
  have top: "num us uo (m + 1) = 0"
    by (rule top_digit_zero [OF e]) (use R r num_bounds [of us "uo + m + 1" n] in simp_all)
  have z: "us ! j = 0" if "j \<le> uo + m" for j
  proof (cases "j < uo")
    case False
    then show ?thesis using num_zero_digits [OF top, of j] that by simp
  qed (rule pre)
  have low: "num us (uo + m + 1) n = r * 2 ^ d" using e top R by simp
  have split: "num ds 1 4 = num ds 1 (uo + m) * 65536 ^ n + num ds (uo + m + 1) n" for ds
    using num_add [of ds 1 "uo + m" n] i by (simp add: add.commute)
  show ?thesis
  proof (cases "d > 0")
    case False
    then show ?thesis using split [of us] low num_zeros [of 1 "uo + m" us] z by simp
  next
    case True
    let ?s = "shift_back d n us (uo + m)"
    have S: "num ?s (uo + m + 1) n = (num us (uo + m) (n + 1) div 2 ^ d) mod 65536 ^ n" "?s ! (uo + m) = 0"
        "\<And>j. j < uo + m \<or> uo + m + n < j \<Longrightarrow> ?s ! j = us ! j"
      using shift_back_ok [OF d, of "uo + m" n us] len i by auto
    have "num us (uo + m) (n + 1) = r * 2 ^ d" using num_first [of us "uo + m" n] z [of "uo + m"] low by simp
    moreover have "r < 65536 ^ n"
    proof -
      have "r * 1 \<le> r * 2 ^ d" using r(1) by (intro mult_left_mono) auto
      then show ?thesis using r(2) by linarith
    qed
    ultimately have "num ?s (uo + m + 1) n = r" using S(1) r(1) by simp
    moreover have "?s ! j = 0" if "j < 1 + (uo + m)" for j using S(2) S(3) [of j] z [of j] that by (cases "j = uo + m") auto
    ultimately show ?thesis using True split [of ?s] num_zeros [of 1 "uo + m" ?s] by simp
  qed
qed

lemma num_ge_power: "ds ! a \<noteq> 0 \<Longrightarrow> 1 \<le> n \<Longrightarrow> 65536 ^ (n - 1) \<le> num ds a n"
proof -
  assume d: "ds ! a \<noteq> 0" and n: "1 \<le> n"
  have "uint (ds ! a) \<noteq> 0" using d by (simp add: uint_0_iff)
  then have "1 \<le> uint (ds ! a)" using uint_digit(1) [of "ds ! a"] by linarith
  then have "1 * 65536 ^ (n - 1) \<le> uint (ds ! a) * 65536 ^ (n - 1)" by (intro mult_right_mono) auto
  moreover have "num ds a n = uint (ds ! a) * 65536 ^ (n - 1) + num ds (Suc a) (n - 1)" using num_first [of ds a "n - 1"] n by simp
  ultimately show ?thesis using num_bounds(1) [of ds "Suc a" "n - 1"] by linarith
qed

lemma norm_shift_digit:
  assumes "x \<noteq> (0 :: digit)"
  shows "\<exists>d. norm_shift (widen x) 0 = Some d \<and> 32768 \<le> uint x * 2 ^ d \<and> uint x * 2 ^ d < 65536 \<and> d \<le> 16"
proof -
  have "uint x \<noteq> 0" using assms by (simp add: uint_0_iff)
  then have x: "1 \<le> uint x" using uint_digit(1) [of x] by linarith
  then obtain d where d: "norm_shift (widen x) 0 = Some (0 + d)" "32768 \<le> uint x * 2 ^ d" "uint x * 2 ^ d < 65536"
    using norm_shift_ok [of "widen x" 0] uint_digit(2) [of x] by auto
  have "1 * 2 ^ d \<le> uint x * 2 ^ d" using x by (intro mult_right_mono) auto
  then have "(2::int) ^ d < 65536" using d(3) by linarith
  then have "(2::int) ^ d < 2 ^ 16" by simp
  then have "d < 16" using power_less_imp_less_exp [of "2::int" d 16] by simp
  then show ?thesis using d by auto
qed

lemma long_div_ok:
  assumes sk: "skip_v 4 (v0 # digits_of vll) 0 = Long vo n" and le: "vll \<le> ull" and q: "length qspace = 5"
  shows "\<exists>qr rr. qdivrem v0 qspace ull vll = Some (qr, rr) \<and> uint qr = uint ull div uint vll \<and> uint rr = uint ull mod uint vll"
proof -
  define us where "us = 0 # digits_of ull"
  define vs where "vs = v0 # digits_of vll"
  note K = skip_v_Long [OF sk, folded vs_def]
  have len: "length us = 5" "length vs = 5" by (simp_all add: us_def vs_def digits_of_def)
  have u: "num us 1 4 = uint ull" and v: "num vs (vo + 1) n = uint vll"
    using num_digits_of [of 0 ull] num_digits_of [of v0 vll] K(4) by (simp_all add: us_def vs_def)
  have vge: "65536 ^ (n - 1) \<le> uint vll" using num_ge_power [OF K(3), of n] K(2) v by simp
  obtain i where i: "i \<le> 4 - n" "skip_u us 0 (4 - n) = Some (i, 4 - n - i)" "\<And>k. k < i \<Longrightarrow> us ! (1 + k) = 0"
    using skip_u_found [of n us] K(1,2) vge u le len by (auto simp: word_le_def)
  define m where "m = 4 - n - i"
  have imn: "i + m + n = 4" using i(1) K(1,2) by (simp add: m_def)
  have z: "us ! j = 0" if "j \<le> i" for j using i(3) [of "j - 1"] that by (cases j) (auto simp: us_def)
  have "num us 0 i = 0" using z by (intro num_zeros) simp
  then have u': "num us i (m + n + 1) = uint ull"
    using num_add [of us 0 i "m + n + 1"] num_first [of us 0 4] z [of 0] u imn by (simp add: add.assoc del: num.simps)
  obtain d where d: "norm_shift (widen (vs ! (vo + 1))) 0 = Some d"
      "32768 \<le> uint (vs ! (vo + 1)) * 2 ^ d" "uint (vs ! (vo + 1)) * 2 ^ d < 65536" "d \<le> 16"
    using norm_shift_digit [OF K(3)] by blast
  define us' where "us' = (if d > 0 then shl us i (m + n) d else us)"
  define vs' where "vs' = (if d > 0 then shl vs (vo + 1) (n - 1) d else vs)"
  have V: "num vs' (vo + 1) n = uint vll * 2 ^ d" "32768 \<le> uint (vs' ! (vo + 1))"
    using norm_divisor [of n "vo + 1" vs d] K(1,2) d(2-4) len v by (simp_all add: vs'_def)
  have U: "num us' i (m + n + 1) = uint ull * 2 ^ d" "length us' = 5" "\<And>j. j < i \<Longrightarrow> us' ! j = 0"
    using norm_dividend [of i "m + n" us d] imn d(4) len z u' by (simp_all add: us'_def del: num.simps)
  have usm: "uint ull < 65536 ^ (m + n)"
    using num_first [of us i "m + n"] z [of i] u' num_bounds(2) [of us "Suc i" "m + n"] by simp
  have pre: "div_pre i m n 0 (uint vll * 2 ^ d) us'"
    using first_digit_fits [OF U(1) usm _ vge] K(2) imn U(2) by (simp add: div_pre_def)
  let ?qs = "replicate (4 - m) 0 @ drop (4 - m) qspace"
  have m: "m \<le> 2" using imn K(2) by linarith
  then have ql: "4 - m + m < length ?qs" using q by simp
  obtain us2 qs2 where L: "div_loop vs' vo n i (4 - m) m 0 us' ?qs = Some (us2, qs2)" "length us2 = 5"
      "\<And>j. j < i \<Longrightarrow> us2 ! j = 0" "\<And>j. j < 4 - m \<Longrightarrow> qs2 ! j = ?qs ! j"
      "num us2 i (m + n + 1) = (uint ull * 2 ^ d) mod (uint vll * 2 ^ d)"
      "num qs2 (4 - m) (m + 1) = (uint ull * 2 ^ d) div (uint vll * 2 ^ d)"
    using div_loop_ok [OF K(2) V(2) V(1) [symmetric] pre _ ql] U by (auto simp del: num.simps)
  have R: "num us2 i (m + n + 1) = (uint ull mod uint vll) * 2 ^ d" using L(5) by (simp add: mod_mult_mult2)
  have Q: "num qs2 (4 - m) (m + 1) = uint ull div uint vll" using L(6) by simp
  have "num qs2 1 (3 - m) = 0" using L(4) m by (intro num_zeros) (simp add: nth_append)
  then have q4: "num qs2 1 4 = uint ull div uint vll" 
  proof -
    have "3 - m + (m + 1) = 4" "1 + (3 - m) = 4 - m" using m by simp_all
    then show ?thesis using num_add [of qs2 1 "3 - m" "m + 1"] Q \<open>num qs2 1 (3 - m) = 0\<close> by (simp only: mult_zero_left add_0)
  qed
  have v0: "0 < uint vll" using vge by (smt (verit) zero_less_power)
  have "(uint ull mod uint vll) * 2 ^ d < uint vll * 2 ^ d" using v0 by simp
  also have "\<dots> < 65536 ^ n" using num_bounds(2) [of vs' "vo + 1" n] V(1) by simp
  finally have r4: "num (if d > 0 then shift_back d n us2 (i + m) else us2) 1 4 = uint ull mod uint vll"
    using remainder_back [OF L(2) imn L(3) R _ _ d(4)] v0 by simp
  have nz: "vll \<noteq> 0" "\<not> ull < vll" using v0 le by auto
  have "qdivrem v0 qspace ull vll = Some (from_digits qs2, from_digits (if d > 0 then shift_back d n us2 (i + m) else us2))"
    unfolding qdivrem_def Let_def vs_def [symmetric] us_def [symmetric] sk [folded vs_def] vscan.case i(2) [folded m_def]
      Option.bind.simps prod.case d(1) us'_def [symmetric] vs'_def [symmetric] L(1)
    using nz by simp
  then show ?thesis using q4 r4 by (simp add: uint_from_digits)
qed

text \<open>For every dividend and every nonzero divisor, whatever the uninitialised cells hold.\<close>

lemma qdivrem_ok:
  assumes "vll \<noteq> 0" and q: "length qspace = 5"
  shows "qdivrem v0 qspace ull vll = Some (ull div vll, ull mod vll)"
proof -
  have main: "\<exists>qr rr. qdivrem v0 qspace ull vll = Some (qr, rr) \<and> uint qr = uint ull div uint vll \<and> uint rr = uint ull mod uint vll"
  proof (cases "ull < vll")
    case True
    then show ?thesis using assms(1) by (simp add: qdivrem_def word_less_def)
  next
    case False
    then have le: "vll \<le> ull" by simp
    show ?thesis
    proof (cases "skip_v 4 (v0 # digits_of vll) 0")
      case (Long vo n)
      then show ?thesis by (rule long_div_ok [OF _ le q])
    next
      case (Short vo)
      let ?vs = "v0 # digits_of vll"
      have z: "vo = 2" "?vs ! 1 = 0" "?vs ! 2 = 0" "?vs ! 3 = 0" using Short skip_v_cases [of ?vs] by (auto split: if_splits)
      have v: "uint vll = uint (?vs ! 4)" using num_digits_of [of v0 vll] z unfolding num_4 by simp
      have "uint vll \<noteq> 0" using assms(1) by (simp add: uint_0_iff)
      then have "0 < uint (widen (?vs ! 4))" "uint (widen (?vs ! 4)) < 65536"
        using v uint_digit [of "?vs ! 4"] unfolding uint_widen by linarith+
      note S = short_div_ok [OF this, of ull]
      have "qdivrem v0 qspace ull vll = Some (short_div (0 # digits_of ull) (widen (?vs ! 4)))"
        using Short z(1) False assms(1) by (simp add: qdivrem_def Let_def)
      then show ?thesis using S v by (cases "short_div (0 # digits_of ull) (widen (?vs ! 4))") auto
    qed
  qed
  then obtain qr rr where r: "qdivrem v0 qspace ull vll = Some (qr, rr)" "uint qr = uint (ull div vll)" "uint rr = uint (ull mod vll)"
    by (auto simp: uint_div_distrib uint_mod_distrib)
  have "qr = ull div vll" "rr = ull mod vll" using r(2,3) unsigned_word_eqI by metis+
  then show ?thesis using r(1) by simp
qed

section \<open>Signed division\<close>

text \<open>C's division truncates towards zero; the remainder has the sign of the dividend.\<close>

definition c_div :: "int \<Rightarrow> int \<Rightarrow> int" where "c_div a b = sgn a * sgn b * (\<bar>a\<bar> div \<bar>b\<bar>)"
definition c_mod :: "int \<Rightarrow> int \<Rightarrow> int" where "c_mod a b = sgn a * (\<bar>a\<bar> mod \<bar>b\<bar>)"

lemma c_div_mod: "c_div a b * b + c_mod a b = a"
proof -
  have "\<bar>a\<bar> div \<bar>b\<bar> * \<bar>b\<bar> + \<bar>a\<bar> mod \<bar>b\<bar> = \<bar>a\<bar>" by simp
  then have "sgn a * (\<bar>a\<bar> div \<bar>b\<bar> * \<bar>b\<bar> + \<bar>a\<bar> mod \<bar>b\<bar>) = a" by (simp add: sgn_mult_abs)
  moreover have "sgn b * b = \<bar>b\<bar>" by (simp add: abs_sgn mult.commute)
  ultimately show ?thesis unfolding c_div_def c_mod_def distrib_left by (metis mult.assoc mult.commute)
qed

lemma uint_magnitude: "uint (if a <s 0 then - a else a :: u64) = \<bar>sint a\<bar>"
proof (cases "a <s 0")
  case True
  then have s: "sint a < 0" by (simp add: word_sless_alt)
  then have b: "bit a 63" using uint_ge_0 [of a] unfolding sint_bit_64 by (cases "bit a 63") auto
  have "uint a \<noteq> 0" using b by (auto simp: uint_0_iff)
  then have "uint (- a) = 18446744073709551616 - uint a" 
    using uint_lt2p [of a] by (simp add: uint_word_ariths zmod_zminus1_eq_if)
  then show ?thesis using True s b unfolding sint_bit_64 by simp
next
  case False
  then have s: "0 \<le> sint a" by (simp add: word_sless_alt)
  then have "\<not> bit a 63" using uint_lt2p [of a] unfolding sint_bit_64 by (cases "bit a 63") auto
  then show ?thesis using False s unfolding sint_bit_64 by simp
qed

lemma of_int_signed: "of_int (sgn x * sgn y * k) = (if (x < 0) \<noteq> (y < 0) then - of_int k else of_int k :: u64)" if "x \<noteq> 0" "y \<noteq> 0" for x y k :: int
  using that by (auto simp: sgn_if)

lemma magnitude_of_int: "(if a <s 0 then - a else a :: u64) = of_int \<bar>sint a\<bar>"
  unfolding uint_magnitude [symmetric] by simp

lemma sless0: "a <s 0 \<longleftrightarrow> sint a < 0" by (simp add: word_sless_alt)

lemma sint0: "sint a = 0 \<longleftrightarrow> a = (0 :: u64)" using signed_word_eqI [of a 0] by auto

lemma divdi3_ok:
  assumes "b \<noteq> 0" and "length qspace = 5"
  shows "divdi3 v0 qspace a b = Some (of_int (c_div (sint a) (sint b)))"
proof -
  let ?ua = "if a <s 0 then - a else a" and ?ub = "if b <s 0 then - b else b"
  have ub: "?ub \<noteq> 0" using assms(1) by auto
  have q: "?ua div ?ub = of_int (\<bar>sint a\<bar> div \<bar>sint b\<bar>)" unfolding uint_magnitude [symmetric] uint_div_distrib [symmetric] by simp
  have e: "(if a <s 0 then (- a, True) else (a, False)) = (?ua, a <s 0)"
      "(if b <s 0 then (- b, \<not> neg) else (b, neg)) = (?ub, neg \<noteq> (b <s 0))" for neg by simp_all
  have "divdi3 v0 qspace a b = Some (if (a <s 0) \<noteq> (b <s 0) then - (?ua div ?ub) else ?ua div ?ub)"
    unfolding divdi3_def e Let_def prod.case e qdivrem_ok [OF ub assms(2)] option.map ..
  also have "\<dots> = Some (of_int (c_div (sint a) (sint b)))"
  proof (cases "a = 0")
    case True
    then show ?thesis by (simp add: c_div_def)
  next
    case False
    then show ?thesis unfolding q unfolding sless0 c_div_def using of_int_signed [of "sint a" "sint b"] assms(1) by (simp only: sint0 simp_thms)
  qed
  finally show ?thesis .
qed

lemma moddi3_ok:
  assumes "b \<noteq> 0" and "length qspace = 5"
  shows "moddi3 v0 qspace a b = Some (of_int (c_mod (sint a) (sint b)))"
proof -
  let ?ua = "if a <s 0 then - a else a" and ?ub = "if b <s 0 then - b else b"
  have ub: "?ub \<noteq> 0" using assms(1) by auto
  have r: "?ua mod ?ub = of_int (\<bar>sint a\<bar> mod \<bar>sint b\<bar>)" unfolding uint_magnitude [symmetric] uint_mod_distrib [symmetric] by simp
  have e: "(if a <s 0 then (- a, True) else (a, False)) = (?ua, a <s 0)" by simp
  have "moddi3 v0 qspace a b = Some (if a <s 0 then - (?ua mod ?ub) else ?ua mod ?ub)"
    unfolding moddi3_def e Let_def prod.case qdivrem_ok [OF ub assms(2)] option.map ..
  also have "\<dots> = Some (of_int (c_mod (sint a) (sint b)))"
  proof (cases "a = 0")
    case True
    then show ?thesis by (simp add: c_mod_def)
  next
    case False
    then have "sint a \<noteq> 0" by (simp add: sint0)
    then show ?thesis unfolding r unfolding sless0 c_mod_def by (simp add: sgn_if)
  qed
  finally show ?thesis .
qed

text \<open>
  C7. 64-bit division is correct: for every nonzero divisor \<open>__qdivrem\<close> returns, whatever its
  uninitialised stack cells hold, the quotient and the remainder; the unsigned callers return them,
  and the signed callers return C's quotient and remainder, which truncate towards zero.
\<close>

theorem division_correct:
  assumes "b \<noteq> 0" and "length qspace = 5"
  shows "qdivrem v0 qspace a b = Some (a div b, a mod b) \<and>
    udivdi3 v0 qspace a b = Some (a div b) \<and> umoddi3 v0 qspace a b = Some (a mod b) \<and>
    divdi3 v0 qspace a b = Some (of_int (c_div (sint a) (sint b))) \<and>
    moddi3 v0 qspace a b = Some (of_int (c_mod (sint a) (sint b)))"
  using qdivrem_ok [OF assms] divdi3_ok [OF assms] moddi3_ok [OF assms] by (simp add: udivdi3_def umoddi3_def)

theorem division_correct_witness:
  "qdivrem 1 [1, 2, 3, 4, 5] 0xfffffffffffffff 0x123456789ab = Some (0xfffffffffffffff div 0x123456789ab, 0xfffffffffffffff mod 0x123456789ab)"
  by (rule division_correct [THEN conjunct1]) simp_all

end
