(* ===== verification/Libc_Mem.thy ===== *)
theory Libc_Mem
  imports Prelude
begin

text \<open>
  The memory and string functions of \<open>common/libc/string\<close>, which the kernel and the user programs
  share, on a byte-addressed memory. A scan that would run off a string without terminator does not
  end; such functions return \<open>None\<close> then.
\<close>

section \<open>Model\<close>

type_synonym mem = "nat \<Rightarrow> u8"

definition sizeof_long :: nat where "sizeof_long = 4"

text \<open>\<open>for (i=0; i<n; i++)\<close> and \<open>for (i=n; i>0; i--)\<close> with a body that uses \<open>i\<close> and \<open>i-1\<close> respectively.\<close>

primrec for_up :: "nat \<Rightarrow> (nat \<Rightarrow> mem \<Rightarrow> mem) \<Rightarrow> mem \<Rightarrow> mem" where
  "for_up 0 f m = m"
| "for_up (Suc n) f m = f n (for_up n f m)"

primrec for_down :: "nat \<Rightarrow> (nat \<Rightarrow> mem \<Rightarrow> mem) \<Rightarrow> mem \<Rightarrow> mem" where
  "for_down 0 f m = m"
| "for_down (Suc n) f m = for_down n f (f n m)"

text \<open>Copying one \<open>long\<close>: it is read before it is written.\<close>

definition copy_long :: "nat \<Rightarrow> nat \<Rightarrow> mem \<Rightarrow> mem" where
  "copy_long d s m = m(d := m s, d + 1 := m (s + 1), d + 2 := m (s + 2), d + 3 := m (s + 3))"

definition copy_char :: "nat \<Rightarrow> nat \<Rightarrow> mem \<Rightarrow> mem" where
  "copy_char d s m = m(d := m s)"

definition zero_long :: "nat \<Rightarrow> mem \<Rightarrow> mem" where
  "zero_long d m = m(d := 0, d + 1 := 0, d + 2 := 0, d + 3 := 0)"

definition bzero :: "nat \<Rightarrow> nat \<Rightarrow> mem \<Rightarrow> mem" where
  "bzero block len m =
     (if block mod sizeof_long = 0 \<and> len mod sizeof_long = 0 then
        for_up (len div sizeof_long) (\<lambda>i. zero_long (block + sizeof_long * i)) m
      else for_up len (\<lambda>i m. m(block + i := 0)) m)"

definition memset :: "nat \<Rightarrow> u8 \<Rightarrow> nat \<Rightarrow> mem \<Rightarrow> mem" where
  "memset p ch len m = for_up len (\<lambda>i m. m(p + i := ch)) m"

definition memcpy :: "nat \<Rightarrow> nat \<Rightarrow> nat \<Rightarrow> mem \<Rightarrow> mem" where
  "memcpy dst src len m =
     (if dst mod sizeof_long = 0 \<and> src mod sizeof_long = 0 \<and> len mod sizeof_long = 0 then
        for_up (len div sizeof_long) (\<lambda>i. copy_long (dst + sizeof_long * i) (src + sizeof_long * i)) m
      else for_up len (\<lambda>i. copy_char (dst + i) (src + i)) m)"

definition memmove :: "nat \<Rightarrow> nat \<Rightarrow> nat \<Rightarrow> mem \<Rightarrow> mem" where
  "memmove dst src len m =
     (if dst < src then memcpy dst src len m
      else if dst mod sizeof_long = 0 \<and> src mod sizeof_long = 0 \<and> len mod sizeof_long = 0 then
        for_down (len div sizeof_long) (\<lambda>i. copy_long (dst + sizeof_long * i) (src + sizeof_long * i)) m
      else for_down len (\<lambda>i. copy_char (dst + i) (src + i)) m)"

partial_function (option) strlen_from :: "mem \<Rightarrow> nat \<Rightarrow> nat \<Rightarrow> nat option" where
  "strlen_from m str ret = (if m (str + ret) \<noteq> 0 then strlen_from m str (ret + 1) else Some ret)"

definition strlen :: "mem \<Rightarrow> nat \<Rightarrow> nat option" where
  "strlen m str = strlen_from m str 0"

partial_function (option) strcpy_from :: "nat \<Rightarrow> nat \<Rightarrow> nat \<Rightarrow> mem \<Rightarrow> mem option" where
  "strcpy_from dest src i m =
     (if m (src + i) \<noteq> 0 then strcpy_from dest src (i + 1) (m(dest + i := m (src + i))) else Some (m(dest + i := 0)))"

definition strcpy :: "nat \<Rightarrow> nat \<Rightarrow> mem \<Rightarrow> mem option" where
  "strcpy dest src m = strcpy_from dest src 0 m"

definition strcat :: "nat \<Rightarrow> nat \<Rightarrow> mem \<Rightarrow> mem option" where
  "strcat dest src m = Option.bind (strlen m dest) (\<lambda>offset. strcpy (dest + offset) src m)"

text \<open>The result is \<open>Some None\<close> for the null pointer.\<close>

partial_function (option) strchr :: "mem \<Rightarrow> nat \<Rightarrow> u8 \<Rightarrow> nat option option" where
  "strchr m s ch =
     (if m s \<noteq> 0 then if m s = ch then Some (Some s) else strchr m (s + 1) ch
      else if m s = ch then Some (Some s) else Some None)"

primrec strrchr_down :: "mem \<Rightarrow> nat \<Rightarrow> u8 \<Rightarrow> nat \<Rightarrow> nat option" where
  "strrchr_down m s ch 0 = None"
| "strrchr_down m s ch (Suc i) = (if m (s + i) = ch then Some (s + i) else strrchr_down m s ch i)"

definition strrchr :: "mem \<Rightarrow> nat \<Rightarrow> u8 \<Rightarrow> nat option option" where
  "strrchr m s ch = map_option (\<lambda>n. strrchr_down m s ch (n + 1)) (strlen m s)"

partial_function (option) strcmp_from :: "mem \<Rightarrow> nat \<Rightarrow> nat \<Rightarrow> nat \<Rightarrow> int option" where
  "strcmp_from m a b i =
     (if m (a + i) \<noteq> 0 \<and> m (a + i) = m (b + i) then strcmp_from m a b (i + 1)
      else Some (if m (a + i) > m (b + i) then 1 else if m (a + i) = m (b + i) then 0 else - 1))"

definition strcmp :: "mem \<Rightarrow> nat \<Rightarrow> nat \<Rightarrow> int option" where
  "strcmp m a b = strcmp_from m a b 0"

declare strlen_from.simps [code] strcpy_from.simps [code] strchr.simps [code] strcmp_from.simps [code]

text \<open>The two scans of \<open>strtok_r\<close>: \<open>skip_while m seps b p\<close> advances while membership in \<open>seps\<close> is \<open>b\<close>.\<close>

partial_function (option) skip_while :: "mem \<Rightarrow> nat \<Rightarrow> bool \<Rightarrow> nat \<Rightarrow> nat option" where
  "skip_while m seps b p =
     (if m p = 0 then Some p
      else Option.bind (strchr m seps (m p))
        (\<lambda>r. if (r \<noteq> None) = b then skip_while m seps b (p + 1) else Some p))"

declare skip_while.simps [code]

text \<open>\<open>strtok_r\<close>: the token, the memory, and the new context.\<close>

definition strtok_r :: "nat option \<Rightarrow> nat \<Rightarrow> nat option \<Rightarrow> mem \<Rightarrow> (nat option \<times> mem \<times> nat option) option" where
  "strtok_r str seps context m =
     (let context = (if str \<noteq> None then str else context)
      in case context of
           None \<Rightarrow> Some (None, m, None)
         | Some p \<Rightarrow>
             Option.bind (skip_while m seps True p)
               (\<lambda>head. if m head = 0 then Some (None, m, None)
                  else Option.bind (skip_while m seps False head)
                    (\<lambda>tail. if m tail = 0 then Some (Some head, m, None)
                       else Some (Some head, m(tail := 0), Some (tail + 1)))))"

section \<open>Blocks\<close>

definition copied :: "nat \<Rightarrow> nat \<Rightarrow> nat \<Rightarrow> mem \<Rightarrow> mem" where
  "copied d s k m = (\<lambda>x. if d \<le> x \<and> x < d + k then m (s + (x - d)) else m x)"

definition filled :: "nat \<Rightarrow> u8 \<Rightarrow> nat \<Rightarrow> mem \<Rightarrow> mem" where
  "filled p ch k m = (\<lambda>x. if p \<le> x \<and> x < p + k then ch else m x)"

lemma memset_filled: "memset p ch len m = filled p ch len m"
  unfolding memset_def by (induction len) (auto simp: filled_def fun_eq_iff)

lemma whole_longs: "len mod sizeof_long = 0 \<Longrightarrow> 4 * (len div 4) = (len::nat)"
  by (simp add: sizeof_long_def dvd_eq_mod_eq_0 [symmetric])

lemma for_up_chars:
  assumes "d \<le> s \<or> s + n \<le> d"
  shows "k \<le> n \<Longrightarrow> for_up k (\<lambda>i. copy_char (d + i) (s + i)) m = copied d s k m"
proof (induction k)
  case (Suc k)
  have "copied d s k m (s + k) = m (s + k)" using assms Suc.prems by (auto simp: copied_def)
  then show ?case using Suc by (auto simp: copied_def copy_char_def fun_eq_iff not_less less_Suc_eq)
qed (auto simp: copied_def fun_eq_iff)

lemma copied_Suc4:
  assumes "\<And>j. j < 4 \<Longrightarrow> copied d s (4 * k) m (s + 4 * k + j) = m (s + 4 * k + j)"
  shows "copy_long (d + 4 * k) (s + 4 * k) (copied d s (4 * k) m) = copied d s (4 * Suc k) m"
proof
  fix x
  have a: "copied d s (4 * k) m (s + 4 * k) = m (s + 4 * k)" "copied d s (4 * k) m (s + 4 * k + 1) = m (s + 4 * k + 1)"
      "copied d s (4 * k) m (s + 4 * k + 2) = m (s + 4 * k + 2)" "copied d s (4 * k) m (s + 4 * k + 3) = m (s + 4 * k + 3)"
    using assms [of 0] assms [of 1] assms [of 2] assms [of 3] by simp_all
  consider "x < d + 4 * k" | "x = d + 4 * k" | "x = d + 4 * k + 1" | "x = d + 4 * k + 2" | "x = d + 4 * k + 3" | "d + 4 * k + 3 < x"
    by linarith
  then show "copy_long (d + 4 * k) (s + 4 * k) (copied d s (4 * k) m) x = copied d s (4 * Suc k) m x"
    unfolding copy_long_def a by cases (auto simp: copied_def add.assoc)
qed

lemma for_up_longs:
  assumes "d \<le> s \<or> s + 4 * n \<le> d"
  shows "k \<le> n \<Longrightarrow> for_up k (\<lambda>i. copy_long (d + 4 * i) (s + 4 * i)) m = copied d s (4 * k) m"
proof (induction k)
  case (Suc k)
  have "copied d s (4 * k) m (s + 4 * k + j) = m (s + 4 * k + j)" if "j < 4" for j
    using assms Suc.prems that by (auto simp: copied_def)
  then show ?case using Suc copied_Suc4 by simp
qed (auto simp: copied_def fun_eq_iff)

lemma memcpy_copied: "dst \<le> src \<or> src + len \<le> dst \<Longrightarrow> memcpy dst src len m = copied dst src len m"
  using for_up_chars [of dst src len len m] for_up_longs [of dst src "len div 4" "len div 4" m] whole_longs [of len]
  by (auto simp: memcpy_def sizeof_long_def)

lemma copied_char_down:
  assumes "s \<le> d" "k < n"
  shows "copy_char (d + k) (s + k) (copied (d + Suc k) (s + Suc k) (n - Suc k) m) = copied (d + k) (s + k) (n - k) m"
proof
  fix x
  have "copied (d + Suc k) (s + Suc k) (n - Suc k) m (s + k) = m (s + k)" using assms by (simp add: copied_def)
  moreover have "s + Suc k + (x - (d + Suc k)) = s + k + (x - (d + k))" if "d + k < x" using that by simp
  ultimately show "copy_char (d + k) (s + k) (copied (d + Suc k) (s + Suc k) (n - Suc k) m) x = copied (d + k) (s + k) (n - k) m x"
    using assms by (cases "x = d + k") (auto simp: copy_char_def copied_def)
qed

lemma for_down_chars:
  "s \<le> d \<Longrightarrow> k \<le> n \<Longrightarrow>
   for_down k (\<lambda>i. copy_char (d + i) (s + i)) (copied (d + k) (s + k) (n - k) m) = copied d s n m"
proof (induction k)
  case (Suc k)
  then show ?case using copied_char_down [of s d k n m] by simp
qed simp

lemma copied_long_down:
  assumes "s \<le> d" "k < n"
  shows "copy_long (d + 4 * k) (s + 4 * k) (copied (d + 4 * Suc k) (s + 4 * Suc k) (4 * (n - Suc k)) m)
       = copied (d + 4 * k) (s + 4 * k) (4 * (n - k)) m"
proof
  fix x
  let ?c = "copied (d + 4 * Suc k) (s + 4 * Suc k) (4 * (n - Suc k)) m"
  have "?c (s + 4 * k + j) = m (s + 4 * k + j)" if "j < 4" for j using assms that by (simp add: copied_def)
  from this [of 0] this [of 1] this [of 2] this [of 3]
  have a: "?c (s + 4 * k) = m (s + 4 * k)" "?c (s + 4 * k + 1) = m (s + 4 * k + 1)"
      "?c (s + 4 * k + 2) = m (s + 4 * k + 2)" "?c (s + 4 * k + 3) = m (s + 4 * k + 3)" by simp_all
  have b: "s + 4 * Suc k + (x - (d + 4 * Suc k)) = s + 4 * k + (x - (d + 4 * k))" if "d + 4 * k + 3 < x" using that by simp
  have c: "4 * (n - k) = 4 * (n - Suc k) + 4" using assms by simp
  consider "x < d + 4 * k" | "x = d + 4 * k" | "x = d + 4 * k + 1" | "x = d + 4 * k + 2" | "x = d + 4 * k + 3" | "d + 4 * k + 3 < x"
    by linarith
  then show "copy_long (d + 4 * k) (s + 4 * k) ?c x = copied (d + 4 * k) (s + 4 * k) (4 * (n - k)) m x"
    unfolding copy_long_def a
  proof cases
    case 6
    then show "(?c(d + 4 * k := m (s + 4 * k), d + 4 * k + 1 := m (s + 4 * k + 1), d + 4 * k + 2 := m (s + 4 * k + 2),
       d + 4 * k + 3 := m (s + 4 * k + 3))) x = copied (d + 4 * k) (s + 4 * k) (4 * (n - k)) m x"
      using b c by (simp add: copied_def)
  qed (use c in \<open>simp_all add: copied_def\<close>)
qed

lemma for_down_longs:
  "s \<le> d \<Longrightarrow> k \<le> n \<Longrightarrow>
   for_down k (\<lambda>i. copy_long (d + 4 * i) (s + 4 * i)) (copied (d + 4 * k) (s + 4 * k) (4 * (n - k)) m) = copied d s (4 * n) m"
proof (induction k)
  case (Suc k)
  then show ?case using copied_long_down [of s d k n m] by simp
qed simp

lemma copied_none [simp]: "copied d s 0 m = m"
  by (auto simp: copied_def fun_eq_iff)

lemma memmove_copied: "memmove dst src len m = copied dst src len m"
  using for_down_chars [of src dst len len m] for_down_longs [of src dst "len div 4" "len div 4" m] whole_longs [of len]
  by (auto simp: memmove_def memcpy_copied sizeof_long_def)

lemma filled_Suc4: "zero_long (b + 4 * k) (filled b 0 (4 * k) m) = filled b 0 (4 * Suc k) m"
proof
  fix x
  consider "x < b + 4 * k" | "x = b + 4 * k" | "x = b + 4 * k + 1" | "x = b + 4 * k + 2" | "x = b + 4 * k + 3" | "b + 4 * k + 3 < x"
    by linarith
  then show "zero_long (b + 4 * k) (filled b 0 (4 * k) m) x = filled b 0 (4 * Suc k) m x"
    by cases (auto simp: zero_long_def filled_def)
qed

lemma bzero_longs: "for_up k (\<lambda>i. zero_long (b + 4 * i)) m = filled b 0 (4 * k) m"
  by (induction k) (auto simp: filled_Suc4 simp del: mult_Suc_right, auto simp: filled_def fun_eq_iff)

lemma bzero_filled: "bzero b len m = filled b 0 len m"
  using bzero_longs [of "len div 4" b m] whole_longs [of len] memset_filled [of b 0 len m]
  by (auto simp: bzero_def sizeof_long_def memset_def)

section \<open>Strings\<close>

text \<open>\<open>cstr m p s\<close>: the bytes \<open>s\<close> and a terminator stand at \<open>p\<close>.\<close>

fun cstr :: "mem \<Rightarrow> nat \<Rightarrow> u8 list \<Rightarrow> bool" where
  "cstr m p [] \<longleftrightarrow> m p = 0"
| "cstr m p (c # s) \<longleftrightarrow> c \<noteq> 0 \<and> m p = c \<and> cstr m (p + 1) s"

fun find_byte :: "u8 \<Rightarrow> u8 list \<Rightarrow> nat option" where
  "find_byte ch [] = (if ch = 0 then Some 0 else None)"
| "find_byte ch (c # s) = (if c = ch then Some 0 else map_option Suc (find_byte ch s))"

fun compare_bytes :: "u8 list \<Rightarrow> u8 list \<Rightarrow> int" where
  "compare_bytes [] [] = 0"
| "compare_bytes [] (c # s) = - 1"
| "compare_bytes (c # s) [] = 1"
| "compare_bytes (c # s) (d # t) = (if c = d then compare_bytes s t else if c > d then 1 else - 1)"

lemma cstr_cong: "(\<And>x. p \<le> x \<Longrightarrow> x \<le> p + length s \<Longrightarrow> m' x = m x) \<Longrightarrow> cstr m' p s = cstr m p s"
  by (induction m p s rule: cstr.induct) auto

lemma cstr_append: "cstr m p (s @ t) \<longleftrightarrow> 0 \<notin> set s \<and> (\<forall>i<length s. m (p + i) = s ! i) \<and> cstr m (p + length s) t"
proof (induction s arbitrary: p)
  case (Cons c s)
  have "(\<forall>i<Suc (length s). m (p + i) = (c # s) ! i) \<longleftrightarrow> m p = c \<and> (\<forall>i<length s. m (p + 1 + i) = s ! i)"
    by (auto simp: less_Suc_eq_0_disj)
  then show ?case using Cons [of "p + 1"] by (auto simp: add.commute add.left_commute)
qed simp

lemma cstr_nonzero: "cstr m p s \<Longrightarrow> 0 \<notin> set s"
  by (induction m p s rule: cstr.induct) auto

lemma cstr_nth: "cstr m p s \<Longrightarrow> i < length s \<Longrightarrow> m (p + i) = s ! i"
  using cstr_append [of m p s "[]"] by simp

lemma cstr_end: "cstr m p s \<Longrightarrow> m (p + length s) = 0"
  using cstr_append [of m p s "[]"] by simp

lemma strlen_from_ok: "cstr m (p + i) s \<Longrightarrow> strlen_from m p i = Some (i + length s)"
proof (induction s arbitrary: i)
  case Nil
  then show ?case by (subst strlen_from.simps) simp
next
  case (Cons c s)
  then show ?case by (subst strlen_from.simps) simp
qed

lemma strlen_ok [simp]: "cstr m p s \<Longrightarrow> strlen m p = Some (length s)"
  using strlen_from_ok [of m p 0 s] by (simp add: strlen_def)

lemma strchr_ok: "cstr m p s \<Longrightarrow> strchr m p ch = Some (map_option ((+) p) (find_byte ch s))"
proof (induction s arbitrary: p)
  case Nil
  then show ?case by (subst strchr.simps) auto
next
  case (Cons c s)
  then show ?case by (subst strchr.simps) (auto simp: option.map_comp comp_def)
qed

lemma strcmp_from_ok: "cstr m (a + i) s \<Longrightarrow> cstr m (b + i) t \<Longrightarrow> strcmp_from m a b i = Some (compare_bytes s t)"
proof (induction s t arbitrary: i rule: compare_bytes.induct)
  case (4 c s d t)
  then show ?case by (subst strcmp_from.simps) auto
next
  case (2 c s)
  then show ?case by (subst strcmp_from.simps) (auto simp: word_gt_0)
next
  case (3 c s)
  then show ?case by (subst strcmp_from.simps) (auto simp: word_gt_0)
qed (subst strcmp_from.simps, simp)

lemma strcmp_ok: "cstr m a s \<Longrightarrow> cstr m b t \<Longrightarrow> strcmp m a b = Some (compare_bytes s t)"
  using strcmp_from_ok [of m a 0 s b t] by (simp add: strcmp_def)

lemma compare_bytes_eq: "compare_bytes s t = 0 \<longleftrightarrow> s = t"
  by (induction s t rule: compare_bytes.induct) auto

lemma compare_bytes_swap: "compare_bytes t s = - compare_bytes s t"
  by (induction s t rule: compare_bytes.induct) auto

lemma strcpy_from_ok:
  assumes "cstr m src s" "src + length s < dest \<or> dest + length s < src"
  shows "i \<le> length s \<Longrightarrow> strcpy_from dest src i (copied dest src i m) = Some (copied dest src (length s + 1) m)"
proof (induction "length s - i" arbitrary: i)
  case 0
  then have "copied dest src i m (src + i) = 0" "m (src + i) = 0"
    using assms cstr_end [OF assms(1)] by (auto simp: copied_def)
  then have "strcpy_from dest src i (copied dest src i m) = Some ((copied dest src i m)(dest + i := 0))"
    by (subst strcpy_from.simps) simp
  then show ?case using 0 cstr_end [OF assms(1)] by (auto simp: copied_def fun_eq_iff less_Suc_eq)
next
  case (Suc k)
  then have i: "i < length s" by simp
  then have a: "copied dest src i m (src + i) = m (src + i)" using assms(2) by (auto simp: copied_def)
  have nz: "m (src + i) \<noteq> 0" using cstr_nth [OF assms(1) i] cstr_nonzero [OF assms(1)] i by (metis nth_mem)
  have "(copied dest src i m)(dest + i := m (src + i)) = copied dest src (i + 1) m"
    by (auto simp: copied_def fun_eq_iff less_Suc_eq)
  then have "strcpy_from dest src i (copied dest src i m) = strcpy_from dest src (i + 1) (copied dest src (i + 1) m)"
    using a nz by (subst strcpy_from.simps) simp
  then show ?case using Suc i by simp
qed

lemma strcpy_ok:
  "cstr m src s \<Longrightarrow> src + length s < dest \<or> dest + length s < src \<Longrightarrow>
   strcpy dest src m = Some (copied dest src (length s + 1) m)"
  using strcpy_from_ok [of m src s dest 0] by (simp add: strcpy_def)

lemma cstr_copied: "cstr m src s \<Longrightarrow> cstr (copied dest src (length s + 1) m) dest s"
proof -
  assume a: "cstr m src s"
  then show ?thesis
    using cstr_append [of "copied dest src (length s + 1) m" dest s "[]"] cstr_nonzero [OF a] cstr_nth [OF a] cstr_end [OF a]
    by (simp add: copied_def)
qed

lemma strcat_ok:
  assumes "cstr m dest t" "cstr m src s" "src + length s < dest \<or> dest + length t + length s < src"
  shows "strcat dest src m = Some (copied (dest + length t) src (length s + 1) m)"
    and "cstr (copied (dest + length t) src (length s + 1) m) dest (t @ s)"
proof -
  show "strcat dest src m = Some (copied (dest + length t) src (length s + 1) m)"
    using assms strcpy_ok [of m src s "dest + length t"] by (auto simp: strcat_def)
  have "cstr (copied (dest + length t) src (length s + 1) m) (dest + length t) s"
    using cstr_copied assms(2) by blast
  moreover have "copied (dest + length t) src (length s + 1) m (dest + i) = t ! i" if "i < length t" for i
    using that cstr_nth [OF assms(1) that] by (simp add: copied_def)
  ultimately show "cstr (copied (dest + length t) src (length s + 1) m) dest (t @ s)"
    unfolding cstr_append using cstr_nonzero [OF assms(1)] by simp
qed

fun rfind_byte :: "u8 \<Rightarrow> u8 list \<Rightarrow> nat option" where
  "rfind_byte ch [] = (if ch = 0 then Some 0 else None)"
| "rfind_byte ch (c # s) = (case rfind_byte ch s of Some i \<Rightarrow> Some (Suc i) | None \<Rightarrow> if c = ch then Some 0 else None)"

lemma strrchr_down_shift:
  "strrchr_down m p ch (Suc n) =
     (case strrchr_down m (p + 1) ch n of Some q \<Rightarrow> Some q | None \<Rightarrow> if m p = ch then Some p else None)"
  by (induction n) auto

lemma strrchr_ok: "cstr m p s \<Longrightarrow> strrchr m p ch = Some (map_option ((+) p) (rfind_byte ch s))"
proof -
  have "cstr m p s \<Longrightarrow> strrchr_down m p ch (Suc (length s)) = map_option ((+) p) (rfind_byte ch s)" for p
  proof (induction s arbitrary: p)
    case (Cons c s)
    then have "cstr m (p + 1) s" by simp
    note Cons.IH [OF this]
    then show ?case unfolding length_Cons strrchr_down_shift [of m p ch "Suc (length s)"]
      using Cons.prems by (auto split: option.splits simp del: strrchr_down.simps)
  qed auto
  then show "cstr m p s \<Longrightarrow> ?thesis" by (simp add: strrchr_def)
qed

section \<open>Tokens\<close>

lemma find_byte_iff: "ch \<noteq> 0 \<Longrightarrow> find_byte ch s = None \<longleftrightarrow> ch \<notin> set s"
  by (induction s) auto

lemma skip_while_ok:
  assumes "cstr m seps t"
  shows "cstr m p s \<Longrightarrow> skip_while m seps b p = Some (p + length (takeWhile (\<lambda>c. (c \<in> set t) = b) s))"
proof (induction s arbitrary: p)
  case Nil
  then show ?case by (subst skip_while.simps) simp
next
  case (Cons c s)
  then have "strchr m seps c = Some (map_option ((+) seps) (find_byte c t))" "c \<noteq> 0" "m p = c"
    using strchr_ok [OF assms] by auto
  then show ?case using Cons find_byte_iff [of c t] by (subst skip_while.simps) auto
qed

lemma cstr_drop: "cstr m p s \<Longrightarrow> n \<le> length s \<Longrightarrow> cstr m (p + n) (drop n s)"
  using cstr_append [of m p "take n s" "drop n s"] by simp

lemma cstr_head: "cstr m p s \<Longrightarrow> m p = 0 \<longleftrightarrow> s = []"
  by (cases s) auto

lemma cstr_cut:
  assumes "cstr m p (s @ c # u)"
  shows "cstr (m(p + length s := 0)) p s" "cstr (m(p + length s := 0)) (p + length s + 1) u"
proof -
  show "cstr (m(p + length s := 0)) p s"
    using assms cstr_append [of m p s "c # u"] cstr_append [of "m(p + length s := 0)" p s "[]"] by simp
  show "cstr (m(p + length s := 0)) (p + length s + 1) u"
    using assms cstr_append [of m p s "c # u"] cstr_cong [of "p + length s + 1" u "m(p + length s := 0)" m] by simp
qed

definition word_of :: "u8 list \<Rightarrow> u8 list \<Rightarrow> u8 list" where
  "word_of t s = takeWhile (\<lambda>c. c \<notin> set t) (dropWhile (\<lambda>c. c \<in> set t) s)"

definition after_word :: "u8 list \<Rightarrow> u8 list \<Rightarrow> u8 list" where
  "after_word t s = dropWhile (\<lambda>c. c \<notin> set t) (dropWhile (\<lambda>c. c \<in> set t) s)"

lemma after_word_append: "dropWhile (\<lambda>c. c \<in> set t) s = word_of t s @ after_word t s"
  by (simp add: word_of_def after_word_def)

lemma length_after_word: "length (word_of t s) + length (after_word t s) \<le> length s"
  using length_dropWhile_le [of "\<lambda>c. c \<in> set t" s] unfolding after_word_append by simp

text \<open>The words of a string: the maximal runs of bytes that are not separators.\<close>

function words_of :: "u8 list \<Rightarrow> u8 list \<Rightarrow> u8 list list" where
  "words_of t s = (if word_of t s = [] then [] else word_of t s # words_of t (tl (after_word t s)))"
  by auto
termination
proof (relation "measure (\<lambda>(t, s). length s)")
  fix t s :: "u8 list"
  assume "word_of t s \<noteq> []"
  then have "0 < length (word_of t s)" by simp
  then show "((t, tl (after_word t s)), t, s) \<in> measure (\<lambda>(t, s). length s)"
    using length_after_word [of t s] unfolding in_measure prod.case length_tl by linarith
qed simp
declare words_of.simps [simp del]

lemma word_of_Nil: "word_of t s = [] \<Longrightarrow> dropWhile (\<lambda>c. c \<in> set t) s = []"
  unfolding word_of_def using hd_dropWhile [of "\<lambda>c. c \<in> set t" s]
  by (cases "dropWhile (\<lambda>c. c \<in> set t) s") auto

lemma length_skipped: "length (takeWhile P s) = length s - length (dropWhile P s)"
  by (metis add_diff_cancel_right' length_append takeWhile_dropWhile_id)

lemma cstr_skipped: "cstr m p s \<Longrightarrow> cstr m (p + length (takeWhile P s)) (dropWhile P s)"
  using cstr_drop [of m p s "length (takeWhile P s)"] by (simp add: dropWhile_eq_drop length_takeWhile_le)

text \<open>One call: the next word, with its terminator in place, and the context after it.\<close>

lemma strtok_r_ok:
  assumes t: "cstr m seps t" and s: "cstr m p s"
  defines "h \<equiv> p + (length s - length (dropWhile (\<lambda>c. c \<in> set t) s))"
  shows "word_of t s = [] \<Longrightarrow> strtok_r (Some p) seps ctx m = Some (None, m, None)"
    and "word_of t s \<noteq> [] \<Longrightarrow> after_word t s = [] \<Longrightarrow> strtok_r (Some p) seps ctx m = Some (Some h, m, None)"
    and "word_of t s \<noteq> [] \<Longrightarrow> after_word t s \<noteq> [] \<Longrightarrow> strtok_r (Some p) seps ctx m =
           Some (Some h, m(h + length (word_of t s) := 0), Some (h + length (word_of t s) + 1))"
proof -
  have h: "cstr m h (word_of t s @ after_word t s)"
    using cstr_skipped [OF s, of "\<lambda>c. c \<in> set t"] unfolding h_def length_skipped after_word_append .
  have sk: "skip_while m seps True p = Some h"
    using skip_while_ok [OF t s, of True] by (simp add: h_def length_skipped)
  have "takeWhile (\<lambda>c. c \<notin> set t) (word_of t s @ after_word t s) = word_of t s"
    unfolding after_word_append [symmetric] by (simp add: word_of_def)
  then have sk2: "skip_while m seps False h = Some (h + length (word_of t s))"
    using skip_while_ok [OF t h, of False] by simp
  have e: "m (h + length (word_of t s)) = 0 \<longleftrightarrow> after_word t s = []"
    using cstr_head [of m "h + length (word_of t s)" "after_word t s"] h by (simp add: cstr_append)
  have z: "m h = 0 \<longleftrightarrow> word_of t s = []"
    using cstr_head [OF h] word_of_Nil [of t s] by (auto simp: after_word_append)
  show "word_of t s = [] \<Longrightarrow> strtok_r (Some p) seps ctx m = Some (None, m, None)"
    using z by (simp add: strtok_r_def sk)
  show "word_of t s \<noteq> [] \<Longrightarrow> after_word t s = [] \<Longrightarrow> strtok_r (Some p) seps ctx m = Some (Some h, m, None)"
    using z e by (simp add: strtok_r_def sk sk2)
  show "word_of t s \<noteq> [] \<Longrightarrow> after_word t s \<noteq> [] \<Longrightarrow> strtok_r (Some p) seps ctx m =
           Some (Some h, m(h + length (word_of t s) := 0), Some (h + length (word_of t s) + 1))"
    using z e by (simp add: strtok_r_def sk sk2)
qed

text \<open>A caller that takes up to \<open>n\<close> tokens, stopping at the null pointer.\<close>

fun strtok_calls :: "nat \<Rightarrow> nat option \<Rightarrow> nat \<Rightarrow> nat option \<Rightarrow> mem \<Rightarrow> (nat list \<times> mem) option" where
  "strtok_calls 0 str seps ctx m = Some ([], m)"
| "strtok_calls (Suc n) str seps ctx m =
     (case strtok_r str seps ctx m of
        None \<Rightarrow> None
      | Some (None, m', ctx') \<Rightarrow> Some ([], m')
      | Some (Some h, m', ctx') \<Rightarrow> map_option (\<lambda>(hs, m''). (h # hs, m'')) (strtok_calls n None seps ctx' m'))"

lemma strtok_r_resume: "strtok_r None seps (Some p) m = strtok_r (Some p) seps None m"
  by (simp add: strtok_r_def)

lemma strtok_r_ctx: "strtok_r (Some p) seps ctx m = strtok_r (Some p) seps None m"
  by (simp add: strtok_r_def)

lemma strtok_calls_resume: "strtok_calls n None seps (Some p) m = strtok_calls n (Some p) seps None m"
  by (cases n) (simp_all add: strtok_r_resume)

lemma strtok_calls_ctx: "strtok_calls n (Some p) seps ctx m = strtok_calls n (Some p) seps None m"
  by (cases n) (simp_all add: strtok_r_ctx [of p seps ctx])

lemma strtok_calls_done: "strtok_calls n None seps None m = Some ([], m)"
  by (cases n) (simp_all add: strtok_r_def)

lemma word_start: "length s - length (dropWhile P s) + length (dropWhile P s) = length s"
  by (simp add: length_dropWhile_le)

lemma strtok_calls_ok:
  assumes "cstr m seps t" "cstr m p s" "seps + length t < p \<or> p + length s < seps" "length s < n"
  shows "\<exists>hs m'. strtok_calls n (Some p) seps ctx m = Some (hs, m') \<and> list_all2 (cstr m') hs (words_of t s) \<and>
           (\<forall>x. x < p \<or> p + length s \<le> x \<longrightarrow> m' x = m x)"
  using assms
proof (induction t s arbitrary: m p n ctx rule: words_of.induct)
  case (1 t s)
  define h where "h = p + (length s - length (dropWhile (\<lambda>c. c \<in> set t) s))"
  obtain k where n: "n = Suc k" using "1.prems"(4) by (cases n) auto
  have h: "cstr m h (word_of t s @ after_word t s)"
    using cstr_skipped [OF "1.prems"(2), of "\<lambda>c. c \<in> set t"] unfolding h_def length_skipped after_word_append .
  have len: "h + (length (word_of t s) + length (after_word t s)) = p + length s" "p \<le> h"
    using word_start [of s "\<lambda>c. c \<in> set t"] unfolding h_def after_word_append by simp_all
  note call = strtok_r_ok [OF "1.prems"(1,2), of ctx, folded h_def]
  consider "word_of t s = []" | "word_of t s \<noteq> []" "after_word t s = []" | c u where "word_of t s \<noteq> []" "after_word t s = c # u"
    by (metis list.exhaust)
  then show ?case
  proof cases
    case 1
    then show ?thesis by (simp add: n call(1) words_of.simps [of t s])
  next
    case 2
    then show ?thesis using h by (simp add: n call(2) words_of.simps [of t s] words_of.simps [of t "[]"] word_of_def [of t "[]"] strtok_calls_done)
  next
    case 3
    let ?w = "word_of t s"
    let ?m = "m(h + length ?w := 0)" and ?q = "h + length ?w + 1"
    have u: "?q + length u = p + length s" and u': "tl (after_word t s) = u" using len 3 by simp_all
    have cut: "cstr ?m h ?w" "cstr ?m ?q u" using cstr_cut [of m h ?w c u] h unfolding 3(2) by blast+
    have sep: "cstr ?m seps t" using "1.prems"(1,3) cstr_cong [of seps t ?m m] len u by (auto simp: 3)
    have "0 < length ?w" using 3 by simp
    then have "length u < k" using u len "1.prems"(4) n by linarith
    moreover have "seps + length t < ?q \<or> ?q + length u < seps" using "1.prems"(3) len u by linarith
    ultimately obtain hs m' where r: "strtok_calls k (Some ?q) seps None ?m = Some (hs, m')"
        "list_all2 (cstr m') hs (words_of t u)" "\<And>x. x < ?q \<or> ?q + length u \<le> x \<Longrightarrow> m' x = ?m x"
      using "1.IH" [OF 3(1), unfolded u', OF sep cut(2)] by blast
    have "cstr m' h ?w = cstr ?m h ?w" by (rule cstr_cong) (simp add: r(3))
    then have "cstr m' h ?w" using cut(1) by simp
    moreover have "m' x = m x" if "x < p \<or> p + length s \<le> x" for x using r(3) [of x] that len u 3 by auto
    ultimately show ?thesis using r(1,2) 3
      by (simp add: n call(3) words_of.simps [of t s] strtok_calls_resume)
  qed
qed

lemma words_of_clean: "w \<in> set (words_of t s) \<Longrightarrow> w \<noteq> [] \<and> set w \<inter> set t = {}"
proof (induction t s rule: words_of.induct)
  case (1 t s)
  have "set (word_of t s) \<inter> set t = {}" by (auto simp: word_of_def dest: set_takeWhileD)
  moreover have ne: "word_of t s \<noteq> []" using "1.prems" words_of.simps [of t s] by (metis empty_iff empty_set)
  moreover have "w = word_of t s \<or> w \<in> set (words_of t (tl (after_word t s)))"
    using "1.prems" words_of.simps [of t s] ne by (metis set_ConsD)
  ultimately show ?case using "1.IH" [OF ne] by metis
qed

lemma filter_skip: "filter (\<lambda>c. \<not> P c) (dropWhile P s) = filter (\<lambda>c. \<not> P c) s"
  by (induction s) auto

lemma filter_tl: "xs = [] \<or> \<not> P (hd xs) \<Longrightarrow> filter P (tl xs) = filter P xs"
  by (cases xs) auto

lemma words_of_complete: "concat (words_of t s) = filter (\<lambda>c. c \<notin> set t) s"
proof (induction t s rule: words_of.induct)
  case (1 t s)
  have w: "filter (\<lambda>c. c \<notin> set t) (word_of t s) = word_of t s"
    unfolding word_of_def filter_id_conv by (auto dest: set_takeWhileD)
  have "after_word t s = [] \<or> \<not> hd (after_word t s) \<notin> set t"
    unfolding after_word_def using hd_dropWhile [of "\<lambda>c. c \<notin> set t"] by blast
  note a = filter_tl [where P = "\<lambda>c. c \<notin> set t", OF this]
  have s: "filter (\<lambda>c. c \<notin> set t) s = word_of t s @ filter (\<lambda>c. c \<notin> set t) (tl (after_word t s))"
    using filter_skip [of "\<lambda>c. c \<in> set t" s] unfolding after_word_append filter_append w a by (rule sym)
  show ?case
  proof (cases "word_of t s = []")
    case True
    then have "filter (\<lambda>c. c \<notin> set t) s = []" using filter_skip [of "\<lambda>c. c \<in> set t" s] word_of_Nil [OF True] by simp
    then show ?thesis unfolding words_of.simps [of t s] True by simp
  next
    case False
    then show ?thesis unfolding words_of.simps [of t s] s using "1.IH" [OF False] by simp
  qed
qed

section \<open>Properties\<close>

text \<open>
  C26. \<open>memmove\<close> copies the source block as it was before the call, whatever the overlap and the
  alignment, and nothing else changes; \<open>memcpy\<close> does the same when the blocks do not overlap or the
  destination is not above the source; \<open>bzero\<close> and \<open>memset\<close> set exactly their block. The word-at-a-time
  paths are unobservable.
\<close>

theorem block_functions:
  "(\<forall>i < len. memmove dst src len m (dst + i) = m (src + i)) \<and>
   (\<forall>x. x < dst \<or> dst + len \<le> x \<longrightarrow> memmove dst src len m x = m x) \<and>
   (dst \<le> src \<or> src + len \<le> dst \<longrightarrow> memcpy dst src len m = memmove dst src len m) \<and>
   bzero dst len m = memset dst 0 len m \<and>
   memset dst ch len m = (\<lambda>x. if dst \<le> x \<and> x < dst + len then ch else m x)"
  by (auto simp: memmove_copied memcpy_copied bzero_filled memset_filled copied_def filled_def)

theorem block_functions_witness:
  "memmove 8 4 8 of_nat 12 = (8 :: u8) \<and> memmove 8 4 8 of_nat 16 = (16 :: u8) \<and>
   memcpy 4 8 8 of_nat = memmove 4 8 8 of_nat"
proof -
  have "memmove 8 4 8 of_nat (8 + 4) = (of_nat (4 + 4) :: u8)"
    using block_functions [where dst = 8 and src = 4 and len = 8 and m = of_nat and ch = 0] by (elim conjE allE [where x = 4]) simp
  moreover have "memmove 8 4 8 of_nat 16 = (of_nat 16 :: u8)"
    using block_functions [where dst = 8 and src = 4 and len = 8 and m = of_nat and ch = 0] by (elim conjE allE [where x = 16]) simp
  moreover have "memcpy 4 8 8 of_nat = memmove 4 8 8 of_nat"
    using block_functions [where dst = 4 and src = 8 and len = 8 and m = of_nat and ch = 0] by (elim conjE) simp
  ultimately show ?thesis by simp
qed

text \<open>
  C27. On terminated strings the string functions end and compute the list functions: length, copy,
  concatenation, first and last occurrence (of the terminator too), and the sign of the unsigned
  lexicographic comparison.
\<close>

theorem string_functions:
  assumes "cstr m a s" "cstr m b t" "b + length t < a \<or> a + length s + length t < b"
  shows "strlen m a = Some (length s) \<and>
    (\<exists>m'. strcpy a b m = Some m' \<and> cstr m' a t \<and> (\<forall>x. x < a \<or> a + length t < x \<longrightarrow> m' x = m x)) \<and>
    (\<exists>m'. strcat a b m = Some m' \<and> cstr m' a (s @ t) \<and> (\<forall>x. x < a + length s \<or> a + length s + length t < x \<longrightarrow> m' x = m x)) \<and>
    strchr m a ch = Some (map_option ((+) a) (find_byte ch s)) \<and>
    strrchr m a ch = Some (map_option ((+) a) (rfind_byte ch s)) \<and>
    strcmp m a b = Some (compare_bytes s t) \<and> (strcmp m a b = Some 0 \<longleftrightarrow> s = t) \<and>
    strcmp m b a = map_option uminus (strcmp m a b)"
proof -
  have "b + length t < a \<or> a + length t < b" using assms(3) by linarith
  from strcpy_ok [OF assms(2) this] cstr_copied [OF assms(2)]
  have "\<exists>m'. strcpy a b m = Some m' \<and> cstr m' a t \<and> (\<forall>x. x < a \<or> a + length t < x \<longrightarrow> m' x = m x)"
    by (simp add: copied_def)
  moreover have "\<exists>m'. strcat a b m = Some m' \<and> cstr m' a (s @ t) \<and>
      (\<forall>x. x < a + length s \<or> a + length s + length t < x \<longrightarrow> m' x = m x)"
    using strcat_ok [OF assms] by (simp add: copied_def)
  ultimately show ?thesis
    using assms(1,2) by (simp add: strchr_ok strrchr_ok strcmp_ok compare_bytes_eq compare_bytes_swap [of t s])
qed

definition greet :: mem where
  "greet = (\<lambda>_. 0)(10 := 104, 11 := 105, 20 := 104, 21 := 111)"

theorem string_functions_witness:
  "strlen greet 10 = Some 2 \<and> strcmp greet 10 20 = Some (- 1) \<and> strcmp greet 20 10 = Some 1 \<and>
   strrchr greet 10 105 = Some (Some 11) \<and> (\<exists>m. strcat 10 20 greet = Some m \<and> cstr m 10 [104, 105, 104, 111])"
  using string_functions [of greet 10 "[104, 105]" 20 "[104, 111]" 105] by (auto simp: greet_def)

text \<open>
  C28. Calling \<open>strtok_r\<close> until it returns the null pointer yields, in order, the maximal runs of
  non-separator bytes, each terminated in place; no separator is in a token, no token is empty,
  nothing but separators is lost, and memory outside the string is untouched.
\<close>

theorem strtok_words:
  assumes "cstr m seps t" "cstr m p s" "seps + length t < p \<or> p + length s < seps" "length s < n"
  shows "\<exists>hs m'. strtok_calls n (Some p) seps ctx m = Some (hs, m') \<and> list_all2 (cstr m') hs (words_of t s) \<and>
           (\<forall>x. x < p \<or> p + length s \<le> x \<longrightarrow> m' x = m x) \<and>
           (\<forall>w \<in> set (words_of t s). w \<noteq> [] \<and> set w \<inter> set t = {}) \<and>
           concat (words_of t s) = filter (\<lambda>c. c \<notin> set t) s"
  using strtok_calls_ok [OF assms, of ctx] words_of_clean [of _ t s] words_of_complete [of t s] by blast

text \<open>The path \<open>/a//bc\<close> split at slashes.\<close>

definition a_path :: mem where
  "a_path = (\<lambda>_. 0)(4 := 47, 8 := 47, 9 := 97, 10 := 47, 11 := 47, 12 := 98, 13 := 99)"

lemma a_path_words: "words_of [47] [47, 97, 47, 47, 98, 99] = [[97], [98, 99]]"
  by (simp add: words_of.simps word_of_def after_word_def)

theorem strtok_words_witness:
  "\<exists>hs m'. strtok_calls 7 (Some 8) 4 None a_path = Some (hs, m') \<and> list_all2 (cstr m') hs [[97], [98, 99]] \<and> m' 4 = 47"
  using strtok_words [of a_path 4 "[47]" 8 "[47, 97, 47, 47, 98, 99]" 7 None]
  by (auto simp: a_path_words) (auto simp: a_path_def)

end
