(* ===== verification/Printf.thy ===== *)
theory Printf
  imports Prelude
begin

text \<open>
  The formatted-output engine \<open>common/libc/printf/__printf.c\<close> that every printing function of the
  kernel and of the user library is built on, its client \<open>snprintf.c\<close>, and \<open>stdlib/atoi.c\<close>.
  The client of the engine (a send function and its data) is a parameter of the definitions.
\<close>

section \<open>The engine\<close>

text \<open>
  The variable arguments. \<open>int\<close>, \<open>long\<close>, \<open>size_t\<close> and pointers take one 32-bit slot on this machine; a
  string argument is a null pointer or the bytes up to its terminator. Fetching an argument of
  another kind, or past the last one, is undefined and gives \<open>Fault\<close>.
\<close>

datatype va_arg = Word32 u32 | Word64 u64 | Str "string option"

datatype pf_size = INTSZ | LONGSZ | LLONGSZ | SIZETSZ

record PF =
  pf_ap :: "va_arg list"
  pf_charcount :: u32
  pf_in_pct :: bool
  pf_sz :: pf_size
  pf_num :: u64
  pf_sign :: bool
  pf_spacing :: nat
  pf_rightspc :: bool
  pf_fillchar :: char
  pf_base :: nat
  pf_baseprefix :: bool
  pf_altformat :: bool

definition NUL :: char where "NUL = CHR 0x00"

definition NUMBER_BUF_SIZE :: nat where "NUMBER_BUF_SIZE = (8 * 8) div 3 + 2"

definition INT_MAX :: nat where "INT_MAX = 2147483647"

text \<open>The state of a call: the client's data and the \<open>PF\<close> structure.\<close>

type_synonym 'c pf_state = "'c \<times> PF"

definition pf_print :: "('c \<Rightarrow> string \<Rightarrow> 'c) \<Rightarrow> string \<Rightarrow> 'c pf_state \<Rightarrow> 'c pf_state" where
  "pf_print send txt = (\<lambda>(c, pf). (send c txt, pf\<lparr>pf_charcount := pf_charcount pf + of_nat (length txt)\<rparr>))"

definition pf_endfield :: "PF \<Rightarrow> PF" where
  "pf_endfield pf = pf\<lparr>pf_in_pct := False, pf_sz := INTSZ, pf_num := 0, pf_sign := False, pf_spacing := 0,
     pf_rightspc := False, pf_fillchar := CHR '' '', pf_base := 0, pf_baseprefix := False, pf_altformat := False\<rparr>"

definition digit_value :: "char \<Rightarrow> nat" where
  "digit_value ch = of_char ch - 48"

text \<open>The field width is an \<open>int\<close>; a width above \<open>INT_MAX\<close> overflows, which is undefined.\<close>

definition set_spacing :: "PF \<Rightarrow> nat \<Rightarrow> (PF, unit) outcome" where
  "set_spacing pf n = (if n \<le> INT_MAX then Ok (pf\<lparr>pf_spacing := n\<rparr>) () else Fault)"

definition pf_modifier :: "PF \<Rightarrow> char \<Rightarrow> (PF, unit) outcome" where
  "pf_modifier pf ch =
     (if ch = CHR ''#'' then Ok (pf\<lparr>pf_altformat := True\<rparr>) ()
      else if ch = CHR ''-'' then Ok (pf\<lparr>pf_rightspc := True\<rparr>) ()
      else if ch = CHR ''l'' then
        Ok (if pf_sz pf = LONGSZ then pf\<lparr>pf_sz := LLONGSZ\<rparr> else pf\<lparr>pf_sz := LONGSZ\<rparr>) ()
      else if ch = CHR ''z'' then Ok (pf\<lparr>pf_sz := SIZETSZ\<rparr>) ()
      else if ch = CHR ''0'' then
        (if 0 < pf_spacing pf then set_spacing pf (pf_spacing pf * 10) else Ok (pf\<lparr>pf_fillchar := CHR ''0''\<rparr>) ())
      else if (48::nat) < of_char ch \<and> of_char ch \<le> (57::nat) then
        set_spacing pf (pf_spacing pf * 10 + digit_value ch)
      else Panic)"

fun va_word :: "PF \<Rightarrow> (PF, u32) outcome" where
  "va_word pf = (case pf_ap pf of Word32 w # rest \<Rightarrow> Ok (pf\<lparr>pf_ap := rest\<rparr>) w | _ \<Rightarrow> Fault)"

fun va_long :: "PF \<Rightarrow> (PF, u64) outcome" where
  "va_long pf = (case pf_ap pf of Word64 w # rest \<Rightarrow> Ok (pf\<lparr>pf_ap := rest\<rparr>) w | _ \<Rightarrow> Fault)"

fun va_str :: "PF \<Rightarrow> (PF, string option) outcome" where
  "va_str pf = (case pf_ap pf of Str s # rest \<Rightarrow> Ok (pf\<lparr>pf_ap := rest\<rparr>) s | _ \<Rightarrow> Fault)"

definition pf_setsigned :: "PF \<Rightarrow> u64 \<Rightarrow> (PF, unit) outcome" where
  "pf_setsigned pf n =
     (if sint n < 0 then Ok (pf\<lparr>pf_sign := True, pf_num := - n\<rparr>) () else Ok (pf\<lparr>pf_num := n\<rparr>) ())"

definition pf_getnum :: "PF \<Rightarrow> char \<Rightarrow> (PF, unit) outcome" where
  "pf_getnum pf ch =
     (if ch = CHR ''p'' then and_then (va_word pf) (\<lambda>pf n. Ok (pf\<lparr>pf_num := ucast n\<rparr>) ())
      else if ch = CHR ''d'' then
        (if pf_sz pf = LLONGSZ then and_then (va_long pf) pf_setsigned
         else and_then (va_word pf) (\<lambda>pf n. pf_setsigned pf (scast n)))
      else
        (if pf_sz pf = LLONGSZ then and_then (va_long pf) (\<lambda>pf n. Ok (pf\<lparr>pf_num := n\<rparr>) ())
         else and_then (va_word pf) (\<lambda>pf n. Ok (pf\<lparr>pf_num := ucast n\<rparr>) ())))"

definition pf_setbase :: "PF \<Rightarrow> char \<Rightarrow> PF" where
  "pf_setbase pf ch =
     (let pf = (if ch \<in> set ''du'' then pf\<lparr>pf_base := 10\<rparr>
                else if ch \<in> set ''xp'' then pf\<lparr>pf_base := 16\<rparr>
                else if ch = CHR ''o'' then pf\<lparr>pf_base := 8\<rparr> else pf)
      in if pf_altformat pf \<or> ch = CHR ''p'' then pf\<lparr>pf_baseprefix := True\<rparr> else pf)"

primrec pf_fill :: "('c \<Rightarrow> string \<Rightarrow> 'c) \<Rightarrow> nat \<Rightarrow> 'c pf_state \<Rightarrow> 'c pf_state" where
  "pf_fill send 0 s = s"
| "pf_fill send (Suc n) s = pf_fill send n (pf_print send [pf_fillchar (snd s)] s)"

definition pf_printstuff :: "('c \<Rightarrow> string \<Rightarrow> 'c) \<Rightarrow> string \<Rightarrow> string \<Rightarrow> string \<Rightarrow> 'c pf_state \<Rightarrow> 'c pf_state" where
  "pf_printstuff send prefix prefix2 stuff s =
     (let pf = snd s;
          len = length prefix + length prefix2 + length stuff;
          spc = (if pf_spacing pf > len then pf_spacing pf - len else 0);
          s = (if 0 < spc \<and> \<not> pf_rightspc pf \<and> pf_fillchar pf \<noteq> CHR ''0'' then pf_fill send spc s else s);
          s = pf_print send prefix2 (pf_print send prefix s);
          s = (if 0 < spc \<and> \<not> pf_rightspc pf \<and> pf_fillchar pf = CHR ''0'' then pf_fill send spc s else s);
          s = pf_print send stuff s
      in if 0 < spc \<and> pf_rightspc pf then pf_fill send spc s else s)"

text \<open>
  The digits are written from the end of \<open>buf\<close>; \<open>x\<close> is the index the pointer holds. A store outside
  the array and a division by zero give \<open>None\<close>.
\<close>

definition digits :: string where "digits = ''0123456789abcdef''"

function number_loop :: "nat \<Rightarrow> string \<Rightarrow> int \<Rightarrow> nat \<Rightarrow> (string \<times> int) option" where
  "number_loop b buf x xnum =
     (if x < 0 \<or> int (length buf) \<le> x \<or> b = 0 then None
      else let buf = buf[nat x := digits ! (xnum mod b)]; xnum = xnum div b
           in if 0 < xnum then number_loop b buf (x - 1) xnum else Some (buf, x - 1))"
  by auto
termination by (relation "measure (\<lambda>(b, buf, x, xnum). nat (x + 1))") auto
declare number_loop.simps [simp del]

text \<open>The array is not initialised; the filler below is never read.\<close>

definition number_text :: "nat \<Rightarrow> nat \<Rightarrow> string option" where
  "number_text b num =
     map_option (\<lambda>(buf, x). takeWhile (\<lambda>c. c \<noteq> NUL) (drop (nat (x + 1)) buf))
       (number_loop b ((replicate NUMBER_BUF_SIZE (CHR ''?''))[NUMBER_BUF_SIZE - 1 := NUL]) (int NUMBER_BUF_SIZE - 2) num)"

definition num_prefix :: "PF \<Rightarrow> string" where
  "num_prefix pf = (if pf_baseprefix pf \<and> pf_base pf = 16 then ''0x''
     else if pf_baseprefix pf \<and> pf_base pf = 8 then ''0'' else [])"

definition pf_printnum :: "('c \<Rightarrow> string \<Rightarrow> 'c) \<Rightarrow> 'c pf_state \<Rightarrow> ('c pf_state, unit) outcome" where
  "pf_printnum send s =
     (case number_text (pf_base (snd s)) (unat (pf_num (snd s))) of
        None \<Rightarrow> Fault
      | Some x \<Rightarrow> Ok (pf_printstuff send (if pf_sign (snd s) then ''-'' else []) (num_prefix (snd s)) x s) ())"

text \<open>Run a step that does not print on the second component.\<close>

fun on_pf :: "'c \<Rightarrow> (PF, 'a) outcome \<Rightarrow> ('c pf_state, 'a) outcome" where
  "on_pf c (Ok pf x) = Ok (c, pf) x"
| "on_pf c (Err pf e) = Err (c, pf) e"
| "on_pf c Panic = Panic"
| "on_pf c Fault = Fault"
| "on_pf c Blocked = Blocked"

definition pf_send :: "('c \<Rightarrow> string \<Rightarrow> 'c) \<Rightarrow> char \<Rightarrow> 'c pf_state \<Rightarrow> ('c pf_state, unit) outcome" where
  "pf_send send ch = (\<lambda>(c, pf).
     if ch = NUL then Panic
     else if \<not> pf_in_pct pf \<and> ch \<noteq> CHR ''%'' then Ok (pf_print send [ch] (c, pf)) ()
     else if \<not> pf_in_pct pf then Ok (c, pf\<lparr>pf_in_pct := True\<rparr>) ()
     else if ch \<in> set ''#-lz0123456789'' then on_pf c (pf_modifier pf ch)
     else if ch \<in> set ''doupx'' then
       and_then (on_pf c (pf_getnum pf ch))
         (\<lambda>(c, pf) _. and_then (pf_printnum send (c, pf_setbase pf ch)) (\<lambda>(c, pf) _. Ok (c, pf_endfield pf) ()))
     else if ch = CHR ''s'' then
       and_then (on_pf c (va_str pf))
         (\<lambda>s str. let (c, pf) = pf_printstuff send [] [] (case str of None \<Rightarrow> ''(null)'' | Some t \<Rightarrow> t) s
                  in Ok (c, pf_endfield pf) ())
     else
       and_then (if ch = CHR ''c'' then on_pf c (and_then (va_word pf) (\<lambda>pf w. Ok pf (char_of (unat (ucast w :: u8))))) else Ok (c, pf) ch)
         (\<lambda>s x0. let (c, pf) = pf_printstuff send [] [] (takeWhile (\<lambda>c. c \<noteq> NUL) [x0, NUL]) s
                 in Ok (c, pf_endfield pf) ()))"

primrec pf_sends :: "('c \<Rightarrow> string \<Rightarrow> 'c) \<Rightarrow> string \<Rightarrow> 'c pf_state \<Rightarrow> ('c pf_state, unit) outcome" where
  "pf_sends send [] s = Ok s ()"
| "pf_sends send (ch # format) s = (if ch = NUL then Ok s () else and_then (pf_send send ch s) (\<lambda>s _. pf_sends send format s))"

definition pf_start :: "va_arg list \<Rightarrow> PF" where
  "pf_start ap = pf_endfield \<lparr>pf_ap = ap, pf_charcount = 0, pf_in_pct = False, pf_sz = INTSZ, pf_num = 0,
     pf_sign = False, pf_spacing = 0, pf_rightspc = False, pf_fillchar = CHR '' '', pf_base = 0,
     pf_baseprefix = False, pf_altformat = False\<rparr>"

text \<open>\<open>__vprintf\<close>: the client's data afterwards and the character count.\<close>

definition vprintf :: "('c \<Rightarrow> string \<Rightarrow> 'c) \<Rightarrow> 'c \<Rightarrow> string \<Rightarrow> va_arg list \<Rightarrow> ('c, u32) outcome" where
  "vprintf send clientdata format ap =
     (case pf_sends send format (clientdata, pf_start ap) of
        Ok (c, pf) _ \<Rightarrow> Ok c (pf_charcount pf)
      | Err (c, pf) e \<Rightarrow> Err c e | Panic \<Rightarrow> Panic | Fault \<Rightarrow> Fault | Blocked \<Rightarrow> Blocked)"

section \<open>snprintf\<close>

record SNP =
  snp_buf :: "nat \<Rightarrow> char"
  snp_buflen :: nat
  snp_bufpos :: nat

primrec snprintf_send :: "SNP \<Rightarrow> string \<Rightarrow> SNP" where
  "snprintf_send snp [] = snp"
| "snprintf_send snp (ch # data) =
     snprintf_send
       (if snp_bufpos snp < snp_buflen snp then
          snp\<lparr>snp_buf := (snp_buf snp)(snp_bufpos snp := ch), snp_bufpos := snp_bufpos snp + 1\<rparr>
        else snp) data"

definition vsnprintf :: "(nat \<Rightarrow> char) \<Rightarrow> nat \<Rightarrow> string \<Rightarrow> va_arg list \<Rightarrow> (nat \<Rightarrow> char, u32) outcome" where
  "vsnprintf buf len fmt ap =
     (let snp = \<lparr>snp_buf = buf, snp_buflen = (if len = 0 then 0 else len - 1), snp_bufpos = 0\<rparr>
      in case vprintf snprintf_send snp fmt ap of
           Ok snp chars \<Rightarrow> Ok (if 0 < len then (snp_buf snp)(snp_bufpos snp := NUL) else snp_buf snp) chars
         | Err snp e \<Rightarrow> Err (snp_buf snp) e | Panic \<Rightarrow> Panic | Fault \<Rightarrow> Fault | Blocked \<Rightarrow> Blocked)"

section \<open>atoi\<close>

definition skip_blanks :: "string \<Rightarrow> string" where
  "skip_blanks s = dropWhile (\<lambda>c. c = CHR '' '' \<or> c = CHR 0x09) s"

fun atoi_digits :: "u32 \<Rightarrow> string \<Rightarrow> u32" where
  "atoi_digits val [] = val"
| "atoi_digits val (c # s) =
     (case List.find (\<lambda>i. ''0123456789'' ! i = c) [0..<10] of
        None \<Rightarrow> val
      | Some digit \<Rightarrow> atoi_digits (val * 10 + of_nat digit) s)"

definition atoi :: "string \<Rightarrow> u32" where
  "atoi s =
     (let s = skip_blanks s;
          neg = (s \<noteq> [] \<and> hd s = CHR ''-'');
          s = (if s \<noteq> [] \<and> (hd s = CHR ''-'' \<or> hd s = CHR ''+'') then tl s else s);
          val = atoi_digits 0 s
      in if neg then - val else val)"

section \<open>Digits\<close>

function num_string :: "nat \<Rightarrow> nat \<Rightarrow> string" where
  "num_string b n = (if n < b \<or> b < 2 then [digits ! n] else num_string b (n div b) @ [digits ! (n mod b)])"
  by auto
termination by (relation "measure snd") auto
declare num_string.simps [simp del]

lemma num_string_length: "2 \<le> b \<Longrightarrow> n < b ^ j \<Longrightarrow> 0 < j \<Longrightarrow> length (num_string b n) \<le> j"
proof (induction j arbitrary: n)
  case (Suc j)
  show ?case
  proof (cases "n < b")
    case False
    then have "0 < j" using Suc.prems by (cases j) auto
    moreover have "n div b < b ^ j" using Suc.prems by (simp add: less_mult_imp_div_less mult.commute)
    ultimately show ?thesis using Suc False by (simp add: num_string.simps [of b n])
  qed (simp add: num_string.simps [of b n])
qed simp

lemma num_string_pos: "0 < length (num_string b n)"
  by (subst num_string.simps) simp

lemma num_string_digits: "2 \<le> b \<Longrightarrow> b \<le> 16 \<Longrightarrow> set (num_string b n) \<subseteq> set digits"
proof (induction b n rule: num_string.induct)
  case (1 b n)
  have "n mod b < 16" using "1.prems" mod_less_divisor [of b n] by linarith
  then have "digits ! (n mod b) \<in> set digits" by (simp add: digits_def nth_mem del: set_simps)
  then show ?case using 1 by (auto simp: num_string.simps [of b n])
qed

lemma NUL_not_digit: "NUL \<notin> set digits"
  by (simp add: NUL_def digits_def)

text \<open>The loop leaves the digits right-aligned before position \<open>k\<close>, if they fit.\<close>

lemma number_loop_ok:
  "2 \<le> b \<Longrightarrow> length (num_string b n) \<le> k \<Longrightarrow> k \<le> length buf \<Longrightarrow>
   number_loop b buf (int k - 1) n =
     Some (take (k - length (num_string b n)) buf @ num_string b n @ drop k buf, int (k - length (num_string b n)) - 1)"
proof (induction b n arbitrary: buf k rule: num_string.induct)
  case (1 b n)
  obtain j where k: "k = Suc j" using "1.prems"(2) num_string_pos [of b n] by (cases k) auto
  let ?d = "digits ! (n mod b)"
  have upd: "take i (buf[j := ?d]) = take i buf" if "i \<le> j" for i using that by simp
  have dr: "drop j (buf[j := ?d]) = ?d # drop k buf"
    using "1.prems"(3) k by (simp add: Cons_nth_drop_Suc [symmetric])
  have step: "number_loop b buf (int k - 1) n =
      (if 0 < n div b then number_loop b (buf[j := ?d]) (int j - 1) (n div b) else Some (buf[j := ?d], int j - 1))"
    using "1.prems" k by (subst number_loop.simps) (simp add: Let_def)
  show ?case
  proof (cases "n < b")
    case True
    have "buf[j := ?d] = take j buf @ ?d # drop k buf" using "1.prems"(3) k by (simp add: upd_conv_take_nth_drop)
    then show ?thesis using True "1.prems"(1) k step by (simp add: num_string.simps [of b n])
  next
    case False
    then have ns: "num_string b n = num_string b (n div b) @ [?d]" using "1.prems"(1) by (simp add: num_string.simps [of b n])
    then have "number_loop b (buf[j := ?d]) (int j - 1) (n div b) =
        Some (take (j - length (num_string b (n div b))) (buf[j := ?d]) @ num_string b (n div b) @ drop j (buf[j := ?d]),
              int (j - length (num_string b (n div b))) - 1)"
      using "1.IH" [of j "buf[j := ?d]"] "1.prems" False k by simp
    moreover have "0 < n div b" using False "1.prems"(1) by (simp add: div_greater_zero_iff)
    ultimately show ?thesis using step k unfolding ns dr upd [OF diff_le_self] by simp
  qed
qed

definition pf_base_ok :: "PF \<Rightarrow> bool" where
  "pf_base_ok pf \<longleftrightarrow> pf_base pf \<in> {8, 10, 16}"

text \<open>In the three bases the number of digits never exceeds the array.\<close>

lemma number_fits: "b \<in> {8, 10, 16} \<Longrightarrow> length (num_string b (unat (n :: u64))) \<le> NUMBER_BUF_SIZE - 1"
proof -
  assume b: "b \<in> {8, 10, 16}"
  have "unat n < 2 ^ 64" using unsigned_less [of n] by simp
  also have "(2::nat) ^ 64 \<le> 8 ^ 22" by simp
  also have "(8::nat) ^ 22 \<le> b ^ 22" using b by (intro power_mono) auto
  finally show ?thesis using b num_string_length [of b "unat n" 22] by (auto simp: NUMBER_BUF_SIZE_def)
qed

lemma number_text_ok: "b \<in> {8, 10, 16} \<Longrightarrow> number_text b (unat (n :: u64)) = Some (num_string b (unat n))"
proof -
  assume b: "b \<in> {8, 10, 16}"
  let ?buf = "(replicate NUMBER_BUF_SIZE (CHR ''?''))[NUMBER_BUF_SIZE - 1 := NUL]" and ?ns = "num_string b (unat n)"
  have k: "int NUMBER_BUF_SIZE - 2 = int (NUMBER_BUF_SIZE - 1) - 1" by (simp add: NUMBER_BUF_SIZE_def)
  have fit: "length ?ns \<le> NUMBER_BUF_SIZE - 1" by (rule number_fits [OF b])
  have d: "drop (NUMBER_BUF_SIZE - 1) ?buf = [NUL]" by (simp add: NUMBER_BUF_SIZE_def drop_update_swap)
  have l: "number_loop b ?buf (int NUMBER_BUF_SIZE - 2) (unat n) =
      Some (take (NUMBER_BUF_SIZE - 1 - length ?ns) ?buf @ ?ns @ [NUL], int (NUMBER_BUF_SIZE - 1 - length ?ns) - 1)"
    using number_loop_ok [of b "unat n" "NUMBER_BUF_SIZE - 1" ?buf] b fit unfolding k d by auto
  have "set ?ns \<subseteq> set digits" using b by (intro num_string_digits) auto
  then have "takeWhile (\<lambda>c. c \<noteq> NUL) (?ns @ [NUL]) = ?ns" using NUL_not_digit by (subst takeWhile_append2) auto
  moreover have "length (take (NUMBER_BUF_SIZE - 1 - length ?ns) ?buf) = NUMBER_BUF_SIZE - 1 - length ?ns" by simp
  ultimately show ?thesis unfolding number_text_def l by simp
qed

lemma pf_printnum_ok:
  "pf_base_ok (snd s) \<Longrightarrow> pf_printnum send s =
    Ok (pf_printstuff send (if pf_sign (snd s) then ''-'' else []) (num_prefix (snd s)) (num_string (pf_base (snd s)) (unat (pf_num (snd s)))) s) ()"
  using number_text_ok [of "pf_base (snd s)" "pf_num (snd s)"] by (simp add: pf_printnum_def pf_base_ok_def)

section \<open>Clients\<close>

text \<open>The client that collects the text.\<close>

definition collect :: "string \<Rightarrow> string \<Rightarrow> string" where "collect t s = t @ s"

text \<open>Two runs proceed alike, their clients related by \<open>R\<close>.\<close>

fun alike :: "('c \<Rightarrow> 'd \<Rightarrow> bool) \<Rightarrow> ('c pf_state, 'a) outcome \<Rightarrow> ('d pf_state, 'a) outcome \<Rightarrow> bool" where
  "alike R (Ok (c, pf) x) (Ok (d, pf') y) \<longleftrightarrow> R c d \<and> pf = pf' \<and> x = y"
| "alike R (Err (c, pf) e) (Err (d, pf') e') \<longleftrightarrow> R c d \<and> pf = pf' \<and> e = e'"
| "alike R Panic Panic \<longleftrightarrow> True"
| "alike R Fault Fault \<longleftrightarrow> True"
| "alike R Blocked Blocked \<longleftrightarrow> True"
| "alike R _ _ \<longleftrightarrow> False"

lemma alike_and_then:
  "alike R m m' \<Longrightarrow> (\<And>c d pf x. R c d \<Longrightarrow> alike R (f (c, pf) x) (g (d, pf) x)) \<Longrightarrow> alike R (and_then m f) (and_then m' g)"
  by (cases "(R, m, m')" rule: alike.cases) auto

lemma alike_on_pf: "R c d \<Longrightarrow> alike R (on_pf c m) (on_pf d m)"
  by (cases m) auto

definition linked :: "('c \<Rightarrow> 'd \<Rightarrow> bool) \<Rightarrow> 'c pf_state \<Rightarrow> 'd pf_state \<Rightarrow> bool" where
  "linked R s s' \<longleftrightarrow> R (fst s) (fst s') \<and> snd s = snd s'"

lemma linked_pair [simp]: "linked R (c, pf) (d, pf') \<longleftrightarrow> R c d \<and> pf = pf'"
  by (simp add: linked_def)

lemma linked_snd: "linked R s s' \<Longrightarrow> snd s = snd s'"
  by (simp add: linked_def)

lemma alike_Ok: "linked R s s' \<Longrightarrow> alike R (Ok s x) (Ok s' x)"
  by (cases s; cases s') simp

lemma alike_Ok_right: "alike R m (Ok (d, pf) x) \<Longrightarrow> \<exists>c. m = Ok (c, pf) x \<and> R c d"
  by (cases m) auto

lemma vprintf_Ok_iff:
  "vprintf send c fmt ap = Ok c' n \<longleftrightarrow> (\<exists>pf. pf_sends send fmt (c, pf_start ap) = Ok (c', pf) () \<and> n = pf_charcount pf)"
  unfolding vprintf_def by (cases "pf_sends send fmt (c, pf_start ap)") auto

lemma alike_if: "(P \<Longrightarrow> alike R a b) \<Longrightarrow> (\<not> P \<Longrightarrow> alike R c d) \<Longrightarrow> alike R (if P then a else c) (if P then b else d)"
  by simp

locale printf_client =
  fixes send :: "'c \<Rightarrow> string \<Rightarrow> 'c" and got :: "'c \<Rightarrow> string \<Rightarrow> bool"
  assumes got_send: "got c t \<Longrightarrow> got (send c s) (t @ s)"
begin

lemma linked_print: "linked got s s' \<Longrightarrow> linked got (pf_print send txt s) (pf_print collect txt s')"
  by (simp add: linked_def pf_print_def got_send collect_def split_beta)

lemma linked_fill: "linked got s s' \<Longrightarrow> linked got (pf_fill send n s) (pf_fill collect n s')"
proof (induction n arbitrary: s s')
  case (Suc n)
  from Suc.IH [OF linked_print [OF Suc.prems]] show ?case using linked_snd [OF Suc.prems] by simp
qed simp

lemma linked_printstuff:
  assumes "linked got s s'"
  shows "linked got (pf_printstuff send p q t s) (pf_printstuff collect p q t s')"
  unfolding pf_printstuff_def Let_def linked_snd [OF assms]
  using assms by (simp add: linked_print linked_fill)

lemma alike_printnum: "got c t \<Longrightarrow> alike got (pf_printnum send (c, pf)) (pf_printnum collect (t, pf))"
  by (cases "number_text (pf_base pf) (unat (pf_num pf))") (auto simp: pf_printnum_def intro!: alike_Ok linked_printstuff)

lemma alike_endfield:
  "linked got s s' \<Longrightarrow> alike got (let (c, pf) = s in Ok (c, pf_endfield pf) ()) (let (c, pf) = s' in Ok (c, pf_endfield pf) ())"
  by (cases s; cases s') simp

lemma alike_send:
  assumes "got c t"
  shows "alike got (pf_send send ch (c, pf)) (pf_send collect ch (t, pf))"
proof -
  have num: "alike got (and_then (pf_printnum send (c, pf)) (\<lambda>(c, pf) _. Ok (c, pf_endfield pf) ()))
      (and_then (pf_printnum collect (t, pf)) (\<lambda>(c, pf) _. Ok (c, pf_endfield pf) ()))" if "got c t" for c t pf
    using that by (intro alike_and_then alike_printnum) simp_all
  have str: "alike got (let (c, pf) = pf_printstuff send [] [] u s in Ok (c, pf_endfield pf) ())
      (let (c, pf) = pf_printstuff collect [] [] u s' in Ok (c, pf_endfield pf) ())" if "linked got s s'" for s s' u
    using that by (intro alike_endfield linked_printstuff)
  have pr: "alike got (Ok (pf_print send [ch] (c, pf)) ()) (Ok (pf_print collect [ch] (t, pf)) ())"
    using assms by (intro alike_Ok linked_print) simp
  have ok: "alike got (Ok (c, pf') x) (Ok (t, pf') x)" for pf' and x :: 'z using assms by simp
  note on_pf = alike_on_pf [where R = got, OF assms]
  have "linked got (c, pf) (t, pf)" if "got c t" for c t pf using that by simp
  note str = str [OF this]
  show ?thesis unfolding pf_send_def prod.case
    apply (intro alike_if)
    subgoal by simp
    subgoal by (rule pr)
    subgoal by (rule ok)
    subgoal by (rule on_pf)
    subgoal by (rule alike_and_then, rule on_pf) (simp only: prod.case, rule num)
    subgoal by (rule alike_and_then, rule on_pf) (rule str)
    subgoal by (rule alike_and_then, intro alike_if, rule on_pf, rule ok) (rule str)
    done
qed

lemma alike_sends: "linked got s s' \<Longrightarrow> alike got (pf_sends send fmt s) (pf_sends collect fmt s')"
proof (induction fmt arbitrary: s s')
  case (Cons ch fmt)
  have "alike got (pf_send send ch s) (pf_send collect ch s')"
    using Cons.prems by (cases s; cases s') (simp add: alike_send)
  then have "alike got (and_then (pf_send send ch s) (\<lambda>s _. pf_sends send fmt s)) (and_then (pf_send collect ch s') (\<lambda>s _. pf_sends collect fmt s))"
    by (rule alike_and_then) (simp add: Cons.IH)
  then show ?case using Cons.prems by (simp add: alike_Ok)
qed (simp add: alike_Ok)

text \<open>Every client receives the text that the collecting client receives, and sees the same result.\<close>

lemma vprintf_alike: "got c [] \<Longrightarrow> vprintf collect [] fmt ap = Ok t n \<Longrightarrow> \<exists>c'. vprintf send c fmt ap = Ok c' n \<and> got c' t"
proof -
  assume c: "got c []" and "vprintf collect [] fmt ap = Ok t n"
  then obtain pf where pf: "pf_sends collect fmt ([], pf_start ap) = Ok (t, pf) ()" "n = pf_charcount pf"
    unfolding vprintf_Ok_iff by iprover
  have "linked got (c, pf_start ap) ([], pf_start ap)" using c by simp
  from alike_Ok_right [OF alike_sends [OF this, of fmt, unfolded pf(1)]]
  obtain c' where "pf_sends send fmt (c, pf_start ap) = Ok (c', pf) ()" "got c' t" by iprover
  then show ?thesis using pf(2) unfolding vprintf_Ok_iff by iprover
qed

end

section \<open>What is printed\<close>

text \<open>The padding and alignment rules.\<close>

definition padded :: "PF \<Rightarrow> string \<Rightarrow> string \<Rightarrow> string" where
  "padded pf pre body =
     (let pad = replicate (pf_spacing pf - (length pre + length body)) (pf_fillchar pf)
      in if pf_rightspc pf then pre @ body @ pad
         else if pf_fillchar pf = CHR ''0'' then pre @ pad @ body
         else pad @ pre @ body)"

definition counting :: "string pf_state \<Rightarrow> bool" where
  "counting s \<longleftrightarrow> pf_charcount (snd s) = of_nat (length (fst s))"

definition sent :: "string pf_state \<Rightarrow> string \<Rightarrow> string pf_state" where
  "sent s t = (fst s @ t, (snd s)\<lparr>pf_charcount := pf_charcount (snd s) + of_nat (length t)\<rparr>)"

lemma sent_sent [simp]: "sent (sent s t) u = sent s (t @ u)"
  by (simp add: sent_def)

lemma sent_Nil [simp]: "sent s [] = s"
  by (cases s) (simp add: sent_def)

lemma counting_sent: "counting s \<Longrightarrow> counting (sent s t)"
  by (simp add: counting_def sent_def)

lemma pf_print_collect: "pf_print collect txt s = sent s txt"
  by (simp add: pf_print_def collect_def sent_def split_beta)

lemma pf_fill_collect: "pf_fill collect n s = sent s (replicate n (pf_fillchar (snd s)))"
proof (induction n arbitrary: s)
  case (Suc n)
  have "pf_fillchar (snd (sent s t)) = pf_fillchar (snd s)" for t by (simp add: sent_def)
  then show ?case by (simp add: Suc pf_print_collect)
qed simp

lemma pf_fillchar_sent [simp]: "pf_fillchar (snd (sent s t)) = pf_fillchar (snd s)"
  by (simp add: sent_def)

lemma pf_printstuff_collect: "pf_printstuff collect p q t s = sent s (padded (snd s) (p @ q) t)"
  by (auto simp: pf_printstuff_def Let_def pf_print_collect pf_fill_collect padded_def add.assoc)

text \<open>
  Well-formed calls: the arguments have the kinds the directives of the format ask for, and no width
  overflows an \<open>int\<close>. \<open>p\<close>, \<open>z\<close> and \<open>sp\<close> are the state of the current directive.
\<close>

definition mod_size :: "pf_size \<Rightarrow> char \<Rightarrow> pf_size" where
  "mod_size z ch = (if ch = CHR ''l'' then if z = LONGSZ then LLONGSZ else LONGSZ else if ch = CHR ''z'' then SIZETSZ else z)"

definition mod_spacing :: "nat \<Rightarrow> char \<Rightarrow> nat" where
  "mod_spacing sp ch = (if ch \<in> set ''0123456789'' then sp * 10 + digit_value ch else sp)"

fun args_ok :: "bool \<Rightarrow> pf_size \<Rightarrow> nat \<Rightarrow> string \<Rightarrow> va_arg list \<Rightarrow> bool" where
  "args_ok p z sp [] ap = True"
| "args_ok p z sp (ch # f) ap =
     (if ch = NUL then True
      else if \<not> p then args_ok (ch = CHR ''%'') INTSZ 0 f ap
      else if ch \<in> set ''#-lz0123456789'' then mod_spacing sp ch \<le> INT_MAX \<and> args_ok True (mod_size z ch) (mod_spacing sp ch) f ap
      else if ch \<in> set ''doupx'' then
        (case ap of
           Word32 w # rest \<Rightarrow> (z \<noteq> LLONGSZ \<or> ch = CHR ''p'') \<and> args_ok False INTSZ 0 f rest
         | Word64 w # rest \<Rightarrow> z = LLONGSZ \<and> ch \<noteq> CHR ''p'' \<and> args_ok False INTSZ 0 f rest
         | _ \<Rightarrow> False)
      else if ch = CHR ''s'' then (case ap of Str s # rest \<Rightarrow> args_ok False INTSZ 0 f rest | _ \<Rightarrow> False)
      else if ch = CHR ''c'' then (case ap of Word32 w # rest \<Rightarrow> args_ok False INTSZ 0 f rest | _ \<Rightarrow> False)
      else args_ok False INTSZ 0 f ap)"

definition format_ok :: "string \<Rightarrow> va_arg list \<Rightarrow> bool" where
  "format_ok fmt ap \<longleftrightarrow> args_ok False INTSZ 0 fmt ap"

lemma digit_range: "ch \<in> set ''123456789'' \<Longrightarrow> (48::nat) < of_char ch \<and> of_char ch \<le> (57::nat) \<and> ch \<notin> set ''#-lz0''"
  by (simp, elim disjE; simp)

lemma modifier_digit:
  assumes "ch \<in> set ''123456789''" "mod_spacing (pf_spacing pf) ch \<le> INT_MAX"
  shows "pf_modifier pf ch = Ok (pf\<lparr>pf_spacing := mod_spacing (pf_spacing pf) ch\<rparr>) () \<and> mod_size z ch = z"
proof -
  have n: "ch \<noteq> CHR ''#''" "ch \<noteq> CHR ''-''" "ch \<noteq> CHR ''l''" "ch \<noteq> CHR ''z''" "ch \<noteq> CHR ''0''"
    "(48::nat) < of_char ch \<and> of_char ch \<le> (57::nat)" using digit_range [OF assms(1)] by auto
  have "ch \<in> set ''0123456789''" using assms(1) by simp
  then have "mod_spacing (pf_spacing pf) ch = pf_spacing pf * 10 + digit_value ch" unfolding mod_spacing_def by (simp only: if_True)
  then show ?thesis using n assms(2) unfolding pf_modifier_def set_spacing_def mod_size_def by (simp only: if_True if_False simp_thms)
qed

lemma modifier_ok:
  assumes "ch \<in> set ''#-lz0123456789''" "mod_spacing (pf_spacing pf) ch \<le> INT_MAX"
  shows "\<exists>pf'. pf_modifier pf ch = Ok pf' () \<and> pf_sz pf' = mod_size (pf_sz pf) ch \<and>
    pf_spacing pf' = mod_spacing (pf_spacing pf) ch \<and> pf_ap pf' = pf_ap pf \<and> pf_in_pct pf' = pf_in_pct pf \<and>
    pf_charcount pf' = pf_charcount pf"
proof -
  have "ch = CHR ''#'' \<or> ch = CHR ''-'' \<or> ch = CHR ''l'' \<or> ch = CHR ''z'' \<or> ch = CHR ''0'' \<or> ch \<in> set ''123456789''"
    using assms(1) by simp
  then consider "ch = CHR ''#''" | "ch = CHR ''-''" | "ch = CHR ''l''" | "ch = CHR ''z''" | "ch = CHR ''0''" | "ch \<in> set ''123456789''"
    by iprover
  then show ?thesis
  proof cases
    case 5
    then show ?thesis using assms(2)
      by (simp add: pf_modifier_def mod_size_def mod_spacing_def digit_value_def set_spacing_def)
  next
    case 6
    then show ?thesis using modifier_digit [OF _ assms(2)] by simp
  qed (simp_all add: pf_modifier_def mod_size_def mod_spacing_def)
qed

text \<open>Between directives the size and the width have their initial values.\<close>

definition pf_inv :: "string pf_state \<Rightarrow> bool" where
  "pf_inv s \<longleftrightarrow> counting s \<and> (\<not> pf_in_pct (snd s) \<longrightarrow> pf_sz (snd s) = INTSZ \<and> pf_spacing (snd s) = 0)"

definition pf_args_ok :: "PF \<Rightarrow> string \<Rightarrow> bool" where
  "pf_args_ok pf f \<longleftrightarrow> args_ok (pf_in_pct pf) (pf_sz pf) (pf_spacing pf) f (pf_ap pf)"

lemma pf_setbase_ok: "ch \<in> set ''doupx'' \<Longrightarrow> pf_base_ok (pf_setbase pf ch)"
  by (auto simp: pf_setbase_def pf_base_ok_def Let_def)

lemma pf_setbase_same [simp]:
  "pf_charcount (pf_setbase pf ch) = pf_charcount pf" "pf_ap (pf_setbase pf ch) = pf_ap pf"
  "pf_num (pf_setbase pf ch) = pf_num pf" "pf_sign (pf_setbase pf ch) = pf_sign pf"
  "pf_spacing (pf_setbase pf ch) = pf_spacing pf" "pf_rightspc (pf_setbase pf ch) = pf_rightspc pf"
  "pf_fillchar (pf_setbase pf ch) = pf_fillchar pf"
  by (simp_all add: pf_setbase_def Let_def)

lemma pf_endfield_simps [simp]:
  "pf_in_pct (pf_endfield pf) = False" "pf_sz (pf_endfield pf) = INTSZ" "pf_spacing (pf_endfield pf) = 0"
  "pf_ap (pf_endfield pf) = pf_ap pf" "pf_charcount (pf_endfield pf) = pf_charcount pf"
  by (simp_all add: pf_endfield_def)

lemma pf_ap_sent [simp]: "pf_ap (snd (sent s t)) = pf_ap (snd s)"
  by (simp add: sent_def)

text \<open>Finishing a directive after printing \<open>txt\<close>.\<close>

definition field_done :: "string \<Rightarrow> PF \<Rightarrow> string \<Rightarrow> string pf_state" where
  "field_done t pf txt = (t @ txt, pf_endfield (pf\<lparr>pf_charcount := pf_charcount pf + of_nat (length txt)\<rparr>))"

lemma field_done_ok:
  "counting (t, pf) \<Longrightarrow> args_ok False INTSZ 0 f (pf_ap pf) \<Longrightarrow> pf_inv (field_done t pf txt) \<and> pf_args_ok (snd (field_done t pf txt)) f"
  by (simp add: field_done_def pf_inv_def pf_args_ok_def counting_def)

lemma pf_send_num:
  assumes "ch \<in> set ''doupx''" "pf_in_pct pf" "pf_getnum pf ch = Ok pf1 ()"
  shows "pf_send collect ch (t, pf) = Ok (field_done t (pf_setbase pf1 ch)
      (padded (pf_setbase pf1 ch) ((if pf_sign pf1 then ''-'' else []) @ num_prefix (pf_setbase pf1 ch))
        (num_string (pf_base (pf_setbase pf1 ch)) (unat (pf_num pf1))))) ()"
proof -
  have c: "ch \<noteq> NUL" "ch \<notin> set ''#-lz0123456789''" using assms(1) by (auto simp: NUL_def)
  have "pf_send collect ch (t, pf) =
      and_then (pf_printnum collect (t, pf_setbase pf1 ch)) (\<lambda>(c, pf) _. Ok (c, pf_endfield pf) ())"
    unfolding pf_send_def prod.case using assms c by (simp only: if_True if_False simp_thms on_pf.simps and_then.simps prod.case)
  then show ?thesis using pf_setbase_ok [OF assms(1), of pf1]
    by (simp add: pf_printnum_ok pf_printstuff_collect sent_def field_done_def)
qed

lemma pf_send_str:
  "pf_in_pct pf \<Longrightarrow> pf_ap pf = Str s # rest \<Longrightarrow>
   pf_send collect (CHR ''s'') (t, pf) =
     Ok (field_done t (pf\<lparr>pf_ap := rest\<rparr>) (padded pf [] (case s of None \<Rightarrow> ''(null)'' | Some u \<Rightarrow> u))) ()"
  by (simp add: pf_send_def NUL_def pf_printstuff_collect sent_def field_done_def Let_def split_beta padded_def)

lemma pf_send_char:
  "pf_in_pct pf \<Longrightarrow> pf_ap pf = Word32 w # rest \<Longrightarrow>
   \<exists>txt. pf_send collect (CHR ''c'') (t, pf) = Ok (field_done t (pf\<lparr>pf_ap := rest\<rparr>) txt) ()"
  by (simp add: pf_send_def NUL_def pf_printstuff_collect sent_def field_done_def Let_def split_beta)

lemma pf_send_other:
  "pf_in_pct pf \<Longrightarrow> ch \<noteq> NUL \<Longrightarrow> ch \<notin> set ''#-lz0123456789'' \<Longrightarrow> ch \<notin> set ''doupx'' \<Longrightarrow> ch \<noteq> CHR ''s'' \<Longrightarrow> ch \<noteq> CHR ''c'' \<Longrightarrow>
   pf_send collect ch (t, pf) = Ok (field_done t pf (padded pf [] [ch])) ()"
  unfolding pf_send_def prod.case
  by (simp only: if_True if_False simp_thms and_then.simps) (simp add: pf_printstuff_collect sent_def field_done_def Let_def split_beta)

lemma pf_send_plain:
  "\<not> pf_in_pct pf \<Longrightarrow> ch \<noteq> NUL \<Longrightarrow>
   pf_send collect ch (t, pf) = Ok (if ch = CHR ''%'' then (t, pf\<lparr>pf_in_pct := True\<rparr>) else sent (t, pf) [ch]) ()"
  by (simp add: pf_send_def pf_print_collect)

lemma pf_getnum_ok:
  assumes "ch \<in> set ''doupx''"
  shows "pf_ap pf = Word32 w # rest \<Longrightarrow> pf_sz pf \<noteq> LLONGSZ \<or> ch = CHR ''p'' \<Longrightarrow>
      \<exists>pf1. pf_getnum pf ch = Ok pf1 () \<and> pf_ap pf1 = rest \<and> pf_charcount pf1 = pf_charcount pf"
    and "pf_ap pf = Word64 v # rest \<Longrightarrow> pf_sz pf = LLONGSZ \<Longrightarrow> ch \<noteq> CHR ''p'' \<Longrightarrow>
      \<exists>pf1. pf_getnum pf ch = Ok pf1 () \<and> pf_ap pf1 = rest \<and> pf_charcount pf1 = pf_charcount pf"
  by (auto simp: pf_getnum_def pf_setsigned_def)

lemma args_ok_cases:
  assumes "ch \<noteq> NUL" "args_ok True z sp (ch # f) ap"
  obtains
    (modi) "ch \<in> set ''#-lz0123456789''" "mod_spacing sp ch \<le> INT_MAX" "args_ok True (mod_size z ch) (mod_spacing sp ch) f ap"
  | (num32) w rest where "ch \<in> set ''doupx''" "ap = Word32 w # rest" "z \<noteq> LLONGSZ \<or> ch = CHR ''p''" "args_ok False INTSZ 0 f rest"
  | (num64) v rest where "ch \<in> set ''doupx''" "ap = Word64 v # rest" "z = LLONGSZ" "ch \<noteq> CHR ''p''" "args_ok False INTSZ 0 f rest"
  | (str) s rest where "ch = CHR ''s''" "ap = Str s # rest" "args_ok False INTSZ 0 f rest"
  | (chr) w rest where "ch = CHR ''c''" "ap = Word32 w # rest" "args_ok False INTSZ 0 f rest"
  | (other) "ch \<notin> set ''#-lz0123456789''" "ch \<notin> set ''doupx''" "ch \<noteq> CHR ''s''" "ch \<noteq> CHR ''c''" "args_ok False INTSZ 0 f ap"
proof -
  show thesis
    using assms that unfolding args_ok.simps
    by (auto simp del: list.set split: if_split_asm list.split_asm va_arg.split_asm)
qed

lemma pf_send_ok:
  assumes inv: "pf_inv (t, pf)" and args: "pf_args_ok pf (ch # f)" and ch: "ch \<noteq> NUL"
  shows "\<exists>s'. pf_send collect ch (t, pf) = Ok s' () \<and> pf_inv s' \<and> pf_args_ok (snd s') f"
proof (cases "pf_in_pct pf")
  case False
  then show ?thesis using inv args ch
    by (auto simp: pf_send_plain pf_inv_def pf_args_ok_def sent_def counting_def)
next
  case True
  have cnt: "counting (t, pf')" if "pf_charcount pf' = pf_charcount pf" for pf'
    using inv that by (simp add: pf_inv_def counting_def)
  have num: ?thesis if "ch \<in> set ''doupx''" "pf_getnum pf ch = Ok pf1 ()" "pf_ap pf1 = rest" "pf_charcount pf1 = pf_charcount pf"
    "args_ok False INTSZ 0 f rest" for pf1 rest
    using pf_send_num [OF that(1) True that(2), of t] field_done_ok [of t "pf_setbase pf1 ch" f] cnt that(3-5) by auto
  have "args_ok True (pf_sz pf) (pf_spacing pf) (ch # f) (pf_ap pf)"
    using args True by (simp add: pf_args_ok_def del: args_ok.simps)
  with ch show ?thesis
  proof (cases rule: args_ok_cases)
    case modi
    from modifier_ok [OF modi(1,2)] obtain pf' where m: "pf_modifier pf ch = Ok pf' ()" "pf_sz pf' = mod_size (pf_sz pf) ch"
      "pf_spacing pf' = mod_spacing (pf_spacing pf) ch" "pf_ap pf' = pf_ap pf" "pf_in_pct pf'" "pf_charcount pf' = pf_charcount pf"
      using True by blast
    then have "pf_send collect ch (t, pf) = Ok (t, pf') ()"
      unfolding pf_send_def prod.case using True ch modi(1) by (simp only: if_True if_False simp_thms on_pf.simps)
    then show ?thesis using m modi(3) cnt [of pf'] by (simp add: pf_inv_def pf_args_ok_def)
  next
    case (num32 w rest)
    then show ?thesis using num pf_getnum_ok(1) [OF num32(1,2,3)] by blast
  next
    case (num64 v rest)
    then show ?thesis using num pf_getnum_ok(2) [OF num64(1-4)] by blast
  next
    case (str s rest)
    then show ?thesis using pf_send_str [OF True str(2)] field_done_ok [of t "pf\<lparr>pf_ap := rest\<rparr>" f] cnt by auto
  next
    case (chr w rest)
    then obtain u where "pf_send collect ch (t, pf) = Ok (field_done t (pf\<lparr>pf_ap := rest\<rparr>) u) ()"
      using pf_send_char [OF True chr(2), of t] by blast
    then show ?thesis using field_done_ok [of t "pf\<lparr>pf_ap := rest\<rparr>" f u] cnt chr(3) by auto
  next
    case other
    then show ?thesis using pf_send_other [OF True ch other(1-4)] field_done_ok [of t pf f] cnt by auto
  qed
qed

lemma pf_sends_ok: "pf_inv s \<Longrightarrow> pf_args_ok (snd s) fmt \<Longrightarrow> \<exists>s'. pf_sends collect fmt s = Ok s' () \<and> counting s'"
proof (induction fmt arbitrary: s)
  case (Cons ch fmt)
  show ?case
  proof (cases "ch = NUL")
    case False
    obtain s' where "pf_send collect ch s = Ok s' ()" "pf_inv s'" "pf_args_ok (snd s') fmt"
      using pf_send_ok [of "fst s" "snd s" ch fmt] Cons.prems False by auto
    then show ?thesis using Cons.IH [of s'] False by simp
  qed (use Cons.prems in \<open>simp add: pf_inv_def\<close>)
qed (simp add: pf_inv_def)

lemma vprintf_collect_ok:
  assumes "format_ok fmt ap"
  shows "\<exists>t. vprintf collect [] fmt ap = Ok t (of_nat (length t))"
proof -
  have "pf_inv ([], pf_start ap)" "pf_args_ok (pf_start ap) fmt"
    using assms by (simp_all add: pf_inv_def counting_def pf_args_ok_def pf_start_def format_ok_def pf_endfield_def)
  with pf_sends_ok [of "([], pf_start ap)" fmt]
  obtain s' where "pf_sends collect fmt ([], pf_start ap) = Ok s' ()" "counting s'" by auto
  then show ?thesis by (cases s') (auto simp: vprintf_Ok_iff counting_def)
qed

text \<open>The text of a call.\<close>

definition text_of :: "string \<Rightarrow> va_arg list \<Rightarrow> string" where
  "text_of fmt ap = (case vprintf collect [] fmt ap of Ok t n \<Rightarrow> t | _ \<Rightarrow> [])"

lemma text_of_ok: "format_ok fmt ap \<Longrightarrow> vprintf collect [] fmt ap = Ok (text_of fmt ap) (of_nat (length (text_of fmt ap)))"
  using vprintf_collect_ok [of fmt ap] by (auto simp: text_of_def)

section \<open>snprintf as a client\<close>

text \<open>After receiving \<open>t\<close> the buffer holds the prefix of \<open>t\<close> that fits, over the initial contents \<open>b\<close>.\<close>

definition snp_got :: "(nat \<Rightarrow> char) \<Rightarrow> nat \<Rightarrow> SNP \<Rightarrow> string \<Rightarrow> bool" where
  "snp_got b n snp t \<longleftrightarrow> snp_buflen snp = n \<and> snp_bufpos snp = min n (length t) \<and>
     snp_buf snp = (\<lambda>i. if i < min n (length t) then t ! i else b i)"

lemma snp_got_send: "snp_got b n snp t \<Longrightarrow> snp_got b n (snprintf_send snp s) (t @ s)"
proof (induction s arbitrary: snp t)
  case (Cons ch s)
  have "snp_got b n (if snp_bufpos snp < snp_buflen snp then
      snp\<lparr>snp_buf := (snp_buf snp)(snp_bufpos snp := ch), snp_bufpos := snp_bufpos snp + 1\<rparr> else snp) (t @ [ch])"
    using Cons.prems by (auto simp: snp_got_def nth_append fun_eq_iff)
  from Cons.IH [OF this] show ?case by simp
qed simp

interpretation snp: printf_client snprintf_send "snp_got b n" for b n
  by unfold_locales (rule snp_got_send)

text \<open>The value of a decimal string, and that \<open>atoi\<close> reads it back.\<close>

lemma digit_find: "d < 10 \<Longrightarrow> List.find (\<lambda>i. ''0123456789'' ! i = digits ! d) [0..<10] = Some d"
proof -
  assume "d < 10"
  then have "d = 0 \<or> d = 1 \<or> d = 2 \<or> d = 3 \<or> d = 4 \<or> d = 5 \<or> d = 6 \<or> d = 7 \<or> d = 8 \<or> d = 9" by presburger
  then show ?thesis by (elim disjE) (simp_all add: digits_def upt_rec [of _ 10])
qed

lemma atoi_digits_append:
  "set s \<subseteq> set ''0123456789'' \<Longrightarrow> atoi_digits v (s @ u) = atoi_digits (atoi_digits v s) u"
proof (induction s arbitrary: v)
  case (Cons c s)
  have "\<exists>d < 10. c = digits ! d"
    using Cons.prems by (auto simp: digits_def intro: exI [of _ 0] exI [of _ 1] exI [of _ 2] exI [of _ 3] exI [of _ 4]
        exI [of _ 5] exI [of _ 6] exI [of _ 7] exI [of _ 8] exI [of _ 9])
  then obtain d where "d < 10" "c = digits ! d" by blast
  then show ?case using Cons digit_find [of d] by simp
qed simp

lemma decimal_digit: "d < 10 \<Longrightarrow> digits ! d \<in> set ''0123456789''"
  using nth_mem [of d "''0123456789''"] nth_append [of "''0123456789''" "''abcdef''" d] by (simp add: digits_def)

lemma num_string_decimal: "set (num_string 10 n) \<subseteq> set ''0123456789''"
proof (induction n rule: less_induct)
  case (less n)
  then show ?case using decimal_digit [of n] decimal_digit [of "n mod 10"] less.IH [of "n div 10"]
    by (cases "n < 10") (simp_all add: num_string.simps [of 10 n])
qed

lemma atoi_digits_num_string: "atoi_digits 0 (num_string 10 n) = of_nat n"
proof (induction n rule: less_induct)
  case (less n)
  show ?case
  proof (cases "n < 10")
    case False
    have "atoi_digits 0 (num_string 10 n) = atoi_digits (of_nat (n div 10)) [digits ! (n mod 10)]"
      using False less.IH [of "n div 10"] atoi_digits_append [OF num_string_decimal] by (simp add: num_string.simps [of 10 n])
    also have "\<dots> = of_nat (n div 10) * 10 + of_nat (n mod 10)" by (simp add: digit_find)
    also have "\<dots> = (of_nat (n div 10 * 10 + n mod 10) :: u32)" by (simp only: of_nat_add of_nat_mult of_nat_numeral)
    finally show ?thesis by simp
  qed (simp add: num_string.simps [of 10 n] digit_find)
qed

lemma num_string_plain: "skip_blanks (num_string 10 n @ u) = num_string 10 n @ u"
    "hd (num_string 10 n @ u) \<noteq> CHR ''-''" "hd (num_string 10 n @ u) \<noteq> CHR ''+''"
proof -
  obtain c cs where c: "num_string 10 n = c # cs" using num_string_pos [of 10 n] by (cases "num_string 10 n") auto
  then have "c \<in> set ''0123456789''" using num_string_decimal [of n] by auto
  then have "c \<noteq> CHR '' ''" "c \<noteq> CHR 0x09" "c \<noteq> CHR ''-''" "c \<noteq> CHR ''+''" by auto
  then show "skip_blanks (num_string 10 n @ u) = num_string 10 n @ u"
    "hd (num_string 10 n @ u) \<noteq> CHR ''-''" "hd (num_string 10 n @ u) \<noteq> CHR ''+''"
    by (simp_all add: c skip_blanks_def)
qed

lemma atoi_num_string: "atoi (num_string 10 n) = of_nat n" "atoi (CHR ''-'' # num_string 10 n) = - of_nat n"
proof -
  show "atoi (num_string 10 n) = of_nat n"
    using num_string_plain [of n "[]"] by (simp add: atoi_def atoi_digits_num_string Let_def)
  show "atoi (CHR ''-'' # num_string 10 n) = - of_nat n"
    by (simp add: atoi_def skip_blanks_def atoi_digits_num_string)
qed

text \<open>The text of \<open>%d\<close>.\<close>

definition int_string :: "int \<Rightarrow> string" where
  "int_string x = (if x < 0 then CHR ''-'' # num_string 10 (nat (- x)) else num_string 10 (nat x))"

lemma sint_bounds: "- 2147483648 \<le> sint (x :: u32)" "sint (x :: u32) < 2147483648"
  using sint_ge [of x] sint_lt [of x] by simp_all

lemma sint_scast: "sint (scast (x :: u32) :: u64) = sint x"
proof -
  have "sint (scast x :: u64) = signed_take_bit 63 (sint x)" by (simp add: signed_scast_eq)
  also have "\<dots> = sint x" using sint_bounds [of x] by (intro signed_take_bit_int_eq_self) simp_all
  finally show ?thesis .
qed

lemma scast_parts:
  fixes x :: u32
  shows "sint x < 0 \<Longrightarrow> unat (- (scast x :: u64)) = nat (- sint x)"
    and "0 \<le> sint x \<Longrightarrow> unat (scast x :: u64) = nat (sint x)"
proof -
  have x: "scast x = (of_int (sint x) :: u64)" using sint_scast [of x] of_int_sint [of "scast x :: u64"] by simp
  have un: "unat (of_int k :: u64) = nat k" if "0 \<le> k" "k < 4294967296" for k
  proof -
    have "(of_int k :: u64) = of_nat (nat k)" using that(1) by (rule of_nat_nat [symmetric])
    moreover have "nat k < 2 ^ 64" using that by simp
    ultimately show ?thesis by (simp add: unsigned_of_nat take_bit_nat_eq_self)
  qed
  show "sint x < 0 \<Longrightarrow> unat (- (scast x :: u64)) = nat (- sint x)"
    unfolding x of_int_minus [symmetric] using sint_bounds [of x] by (intro un) linarith+
  show "0 \<le> sint x \<Longrightarrow> unat (scast x :: u64) = nat (sint x)"
    unfolding x using sint_bounds [of x] by (intro un) linarith+
qed

lemma text_of_d: "vprintf collect [] ''%d'' [Word32 x] = Ok (int_string (sint x)) (of_nat (length (int_string (sint x))))"
proof -
  let ?pf = "(pf_start [Word32 x])\<lparr>pf_in_pct := True\<rparr>"
  let ?p0 = "?pf\<lparr>pf_ap := []\<rparr>"
  let ?p1 = "if sint x < 0 then ?p0\<lparr>pf_sign := True, pf_num := - scast x\<rparr> else ?p0\<lparr>pf_num := scast x\<rparr>"
  have g: "pf_getnum ?pf (CHR ''d'') = Ok ?p1 ()"
    by (simp add: pf_getnum_def pf_start_def pf_endfield_def pf_setsigned_def sint_scast)
  have t: "padded (pf_setbase ?p1 (CHR ''d'')) ((if pf_sign ?p1 then ''-'' else []) @ num_prefix (pf_setbase ?p1 (CHR ''d'')))
      (num_string (pf_base (pf_setbase ?p1 (CHR ''d''))) (unat (pf_num ?p1))) = int_string (sint x)"
    using scast_parts [of x]
    by (auto simp: padded_def num_prefix_def pf_setbase_def Let_def pf_start_def pf_endfield_def int_string_def)
  have "pf_send collect (CHR ''%'') ([], pf_start [Word32 x]) = Ok ([], ?pf) ()"
    by (simp add: pf_send_def pf_start_def pf_endfield_def NUL_def)
  moreover have "pf_send collect (CHR ''d'') ([], ?pf) = Ok (field_done [] (pf_setbase ?p1 (CHR ''d'')) (int_string (sint x))) ()"
    using pf_send_num [of "CHR ''d''" ?pf ?p1 "[]", OF _ _ g] unfolding t by simp
  moreover have "pf_charcount ?p1 = 0" by (simp add: pf_start_def pf_endfield_def)
  ultimately show ?thesis by (simp add: vprintf_def NUL_def field_done_def)
qed

lemma word_of_sint: "sint (x :: u32) < 0 \<Longrightarrow> - of_nat (nat (- sint x)) = x" "0 \<le> sint x \<Longrightarrow> of_nat (nat (sint x)) = x"
  using of_int_sint [of x] by (simp_all add: of_nat_nat)

section \<open>Properties\<close>

text \<open>
  C29. \<open>snprintf\<close> on any format whose directives match the arguments: it returns normally (no assertion
  of the engine fires and the 23-byte number buffer suffices for every 64-bit value in every base),
  stores the longest prefix of the full text that leaves room for the terminator, terminates it,
  writes no byte at or beyond \<open>len\<close> (none at all when \<open>len\<close> is 0), and returns the length of the full text.
\<close>

theorem vsnprintf_bounded:
  assumes "format_ok fmt ap"
  shows "\<exists>buf'. vsnprintf buf len fmt ap = Ok buf' (of_nat (length (text_of fmt ap))) \<and>
    (\<forall>i. buf' i = (if i < min (len - 1) (length (text_of fmt ap)) then text_of fmt ap ! i
                  else if i = min (len - 1) (length (text_of fmt ap)) \<and> 0 < len then NUL
                  else buf i))"
proof -
  let ?snp = "\<lparr>snp_buf = buf, snp_buflen = (if len = 0 then 0 else len - 1), snp_bufpos = 0\<rparr>"
  have "snp_got buf (len - 1) ?snp []" by (simp add: snp_got_def)
  from snp.vprintf_alike [OF this text_of_ok [OF assms]]
  obtain c where "vprintf snprintf_send ?snp fmt ap = Ok c (of_nat (length (text_of fmt ap)))" "snp_got buf (len - 1) c (text_of fmt ap)"
    by iprover
  then show ?thesis by (auto simp: vsnprintf_def Let_def snp_got_def)
qed

theorem vsnprintf_bounded_witness:
  "\<exists>buf'. vsnprintf (\<lambda>_. CHR ''#'') 4 ''n=%d'' [Word32 (- 17)] = Ok buf' 5 \<and>
     map buf' [0..<6] = [CHR ''n'', CHR ''='', CHR ''-'', NUL, CHR ''#'', CHR ''#'']"
proof -
  have t: "text_of ''n=%d'' [Word32 (- 17)] = ''n=-17''" by code_simp
  have f: "format_ok ''n=%d'' [Word32 (- 17)]" by code_simp
  show ?thesis using vsnprintf_bounded [OF f, of "\<lambda>_. CHR ''#''" 4] unfolding t
    by (auto simp: upt_rec [of _ 6])
qed

text \<open>
  C30. Printing a 32-bit integer with \<open>%d\<close> succeeds, the count it returns is the length of the text, the
  text is the sign and the decimal digits of the value, and \<open>atoi\<close> reads the same integer back, for all
  values including the most negative one.
\<close>

theorem atoi_printf_d:
  "\<exists>t. vprintf collect [] ''%d'' [Word32 x] = Ok t (of_nat (length t)) \<and> t = int_string (sint x) \<and> atoi t = x"
  unfolding text_of_d using word_of_sint [of x] by (auto simp: int_string_def atoi_num_string)

end
