(* ===== verification/Synch.thy ===== *)
theory Synch
  imports Kernel_Runs
begin

text \<open>
  The sleeping synchronisation primitives of \<open>kern/thread/synch.c\<close>: semaphores, locks, condition
  variables and reader-writer locks, over the wait channels and spinlocks of the scheduler model.
  A call that has to wait puts the current thread to sleep and the processor runs something else; the
  part of the function after the wait is its \<open>_resume\<close> definition, which the thread executes when a
  processor runs it again.
\<close>

section \<open>Objects\<close>

text \<open>The spinlock embedded in an object is named by its number in \<open>Lk\<close>.\<close>

record semaphore =
  sem_name :: string
  sem_wchan :: wid
  sem_lock :: nat
  sem_count :: u32

record klock =
  lk_name :: string
  lock_wchan :: wid
  lock_lock :: nat
  lock_count :: u32
  lock_holder :: "cpuid option"

record cv =
  cv_name :: string
  cv_wchan :: wid
  cv_lock :: nat
  cv_count :: u32

record rwlock =
  rwlk_name :: string
  rwlock_wchan :: wid
  rwlock_lock :: nat
  reader_count :: u32
  reader_holders :: "cpuid option list"
  writer_holder :: "cpuid option"
  writer_in :: bool
  writer_waiting :: u32

record ksync =
  ks_k :: kstate
  ks_sem :: "nat \<Rightarrow> semaphore"
  ks_lk :: "nat \<Rightarrow> klock"
  ks_cv :: "nat \<Rightarrow> cv"
  ks_rw :: "nat \<Rightarrow> rwlock"

definition upd_sem :: "nat \<Rightarrow> (semaphore \<Rightarrow> semaphore) \<Rightarrow> ksync \<Rightarrow> ksync" where
  "upd_sem i f y = y\<lparr>ks_sem := (ks_sem y)(i := f (ks_sem y i))\<rparr>"

definition upd_lk :: "nat \<Rightarrow> (klock \<Rightarrow> klock) \<Rightarrow> ksync \<Rightarrow> ksync" where
  "upd_lk i f y = y\<lparr>ks_lk := (ks_lk y)(i := f (ks_lk y i))\<rparr>"

definition upd_cv :: "nat \<Rightarrow> (cv \<Rightarrow> cv) \<Rightarrow> ksync \<Rightarrow> ksync" where
  "upd_cv i f y = y\<lparr>ks_cv := (ks_cv y)(i := f (ks_cv y i))\<rparr>"

definition upd_rw :: "nat \<Rightarrow> (rwlock \<Rightarrow> rwlock) \<Rightarrow> ksync \<Rightarrow> ksync" where
  "upd_rw i f y = y\<lparr>ks_rw := (ks_rw y)(i := f (ks_rw y i))\<rparr>"

text \<open>A call of the thread system.\<close>

definition krun :: "(kstate \<Rightarrow> (kstate, 'a) outcome) \<Rightarrow> ksync \<Rightarrow> (ksync, 'a) outcome" where
  "krun f y =
     (case f (ks_k y) of
        Ok k x \<Rightarrow> Ok (y\<lparr>ks_k := k\<rparr>) x | Err k e \<Rightarrow> Err (y\<lparr>ks_k := k\<rparr>) e
      | Panic \<Rightarrow> Panic | Fault \<Rightarrow> Fault | Blocked \<Rightarrow> Blocked)"

text \<open>
  How a call that may wait leaves the caller: finished, or asleep. \<open>Slept Sw_return\<close>, a switch that
  came straight back, leaves it at the head of its loop with the spinlock taken again.
\<close>

datatype progress = Done | Slept switched

section \<open>Semaphores\<close>

text \<open>
  The success of each allocation and the fresh names of the object, its wait channel and its spinlock
  are arguments.
\<close>

definition sem_create :: "bool \<Rightarrow> bool \<Rightarrow> bool \<Rightarrow> nat \<Rightarrow> wid \<Rightarrow> nat \<Rightarrow> string \<Rightarrow> u32 \<Rightarrow> ksync \<Rightarrow> ksync \<times> nat option" where
  "sem_create kmalloc_ok kstrdup_ok wchan_ok i wc n name initial_count y =
     (if \<not> kmalloc_ok then (y, None)
      else if \<not> kstrdup_ok then (y, None)
      else case wchan_create wchan_ok wc name (ks_k y) of
             (k, None) \<Rightarrow> (y, None)
           | (k, Some w) \<Rightarrow>
               (y\<lparr>ks_k := upd_lock (Lk n) spinlock_init k,
                  ks_sem := (ks_sem y)(i := \<lparr>sem_name = name, sem_wchan = w, sem_lock = n, sem_count = initial_count\<rparr>)\<rparr>,
                Some i))"

definition sem_destroy :: "nat \<Rightarrow> ksync \<Rightarrow> (ksync, unit) outcome" where
  "sem_destroy i y =
     and_then (krun (spinlock_cleanup (Lk (sem_lock (ks_sem y i)))) y)
       (\<lambda>y _. krun (wchan_destroy (sem_wchan (ks_sem y i))) y)"

definition P_loop :: "cpuid \<Rightarrow> nat \<Rightarrow> ksync \<Rightarrow> (ksync, progress) outcome" where
  "P_loop c i y =
     (let sem = ks_sem y i
      in if sem_count sem = 0 then
           and_then (krun (wchan_sleep c (sem_wchan sem) (Lk (sem_lock sem))) y) (\<lambda>y r. Ok y (Slept r))
         else kassert (0 < sem_count sem)
           (and_then (krun (spinlock_release c (Lk (sem_lock sem))) (upd_sem i (\<lambda>m. m\<lparr>sem_count := sem_count m - 1\<rparr>) y))
             (\<lambda>y _. Ok y Done)))"

definition P :: "cpuid \<Rightarrow> nat \<Rightarrow> ksync \<Rightarrow> (ksync, progress) outcome" where
  "P c i y =
     kassert (\<not> t_in_interrupt (k_thread (ks_k y) (curthread (ks_k y) c)))
       (and_then (krun (spinlock_acquire c (Lk (sem_lock (ks_sem y i)))) y) (\<lambda>y _. P_loop c i y))"

definition P_resume :: "cpuid \<Rightarrow> nat \<Rightarrow> ksync \<Rightarrow> (ksync, progress) outcome" where
  "P_resume c i y = and_then (krun (wchan_sleep_resume c (Lk (sem_lock (ks_sem y i)))) y) (\<lambda>y _. P_loop c i y)"

definition V :: "cpuid \<Rightarrow> nat \<Rightarrow> ksync \<Rightarrow> (ksync, unit) outcome" where
  "V c i y =
     (let l = Lk (sem_lock (ks_sem y i))
      in and_then (krun (spinlock_acquire c l) y)
           (\<lambda>y _. let y = upd_sem i (\<lambda>m. m\<lparr>sem_count := sem_count m + 1\<rparr>) y
                  in kassert (0 < sem_count (ks_sem y i))
                       (and_then (krun (wchan_wakeone c (sem_wchan (ks_sem y i)) l) y)
                         (\<lambda>y _. krun (spinlock_release c l) y))))"

section \<open>Locks\<close>

definition lock_create :: "bool \<Rightarrow> bool \<Rightarrow> bool \<Rightarrow> nat \<Rightarrow> wid \<Rightarrow> nat \<Rightarrow> string \<Rightarrow> ksync \<Rightarrow> ksync \<times> nat option" where
  "lock_create kmalloc_ok kstrdup_ok wchan_ok i wc n name y =
     (if \<not> kmalloc_ok then (y, None)
      else if \<not> kstrdup_ok then (y, None)
      else case wchan_create wchan_ok wc name (ks_k y) of
             (k, None) \<Rightarrow> (y, None)
           | (k, Some w) \<Rightarrow>
               (y\<lparr>ks_k := upd_lock (Lk n) spinlock_init k,
                  ks_lk := (ks_lk y)(i := \<lparr>lk_name = name, lock_wchan = w, lock_lock = n, lock_count = 1, lock_holder = None\<rparr>)\<rparr>,
                Some i))"

definition lock_destroy :: "nat \<Rightarrow> ksync \<Rightarrow> (ksync, unit) outcome" where
  "lock_destroy i y =
     and_then (krun (spinlock_cleanup (Lk (lock_lock (ks_lk y i)))) y)
       (\<lambda>y _. krun (wchan_destroy (lock_wchan (ks_lk y i))) y)"

definition lock_loop :: "cpuid \<Rightarrow> nat \<Rightarrow> ksync \<Rightarrow> (ksync, progress) outcome" where
  "lock_loop c i y =
     (let lock = ks_lk y i
      in if lock_count lock = 0 then
           and_then (krun (wchan_sleep c (lock_wchan lock) (Lk (lock_lock lock))) y) (\<lambda>y r. Ok y (Slept r))
         else kassert (0 < lock_count lock)
           (and_then (krun (spinlock_release c (Lk (lock_lock lock)))
               (upd_lk i (\<lambda>m. m\<lparr>lock_count := lock_count m - 1, lock_holder := Some c\<rparr>) y))
             (\<lambda>y _. Ok y Done)))"

definition lock_acquire :: "cpuid \<Rightarrow> nat \<Rightarrow> ksync \<Rightarrow> (ksync, progress) outcome" where
  "lock_acquire c i y =
     kassert (\<not> t_in_interrupt (k_thread (ks_k y) (curthread (ks_k y) c)))
       (and_then (krun (spinlock_acquire c (Lk (lock_lock (ks_lk y i)))) y) (\<lambda>y _. lock_loop c i y))"

definition lock_resume :: "cpuid \<Rightarrow> nat \<Rightarrow> ksync \<Rightarrow> (ksync, progress) outcome" where
  "lock_resume c i y = and_then (krun (wchan_sleep_resume c (Lk (lock_lock (ks_lk y i)))) y) (\<lambda>y _. lock_loop c i y)"

text \<open>\<open>CURCPU_EXISTS()\<close> is false only before the first processor structure is made.\<close>

definition lock_do_i_hold :: "cpuid \<Rightarrow> nat \<Rightarrow> ksync \<Rightarrow> bool" where
  "lock_do_i_hold c i y \<longleftrightarrow> (if k_ncpus (ks_k y) = 0 then True else lock_holder (ks_lk y i) = Some c)"

definition lock_release :: "cpuid \<Rightarrow> nat \<Rightarrow> ksync \<Rightarrow> (ksync, unit) outcome" where
  "lock_release c i y =
     (let l = Lk (lock_lock (ks_lk y i))
      in kassert (lock_do_i_hold c i y)
           (and_then (krun (spinlock_acquire c l) y)
             (\<lambda>y _. let y = upd_lk i (\<lambda>m. m\<lparr>lock_count := lock_count m + 1\<rparr>) y
                    in kassert (0 < lock_count (ks_lk y i))
                         (let y = upd_lk i (\<lambda>m. m\<lparr>lock_holder := None\<rparr>) y
                          in and_then (krun (wchan_wakeone c (lock_wchan (ks_lk y i)) l) y)
                               (\<lambda>y _. krun (spinlock_release c l) y)))))"

section \<open>Condition variables\<close>

datatype cv_progress = Cv_done | Cv_asleep switched | Cv_wants_lock switched

definition cv_create :: "bool \<Rightarrow> bool \<Rightarrow> bool \<Rightarrow> nat \<Rightarrow> wid \<Rightarrow> nat \<Rightarrow> string \<Rightarrow> ksync \<Rightarrow> ksync \<times> nat option" where
  "cv_create kmalloc_ok kstrdup_ok wchan_ok i wc n name y =
     (if \<not> kmalloc_ok then (y, None)
      else if \<not> kstrdup_ok then (y, None)
      else case wchan_create wchan_ok wc name (ks_k y) of
             (k, None) \<Rightarrow> (y, None)
           | (k, Some w) \<Rightarrow>
               (y\<lparr>ks_k := upd_lock (Lk n) spinlock_init k,
                  ks_cv := (ks_cv y)(i := \<lparr>cv_name = name, cv_wchan = w, cv_lock = n, cv_count = 0\<rparr>)\<rparr>,
                Some i))"

definition cv_destroy :: "nat \<Rightarrow> ksync \<Rightarrow> (ksync, unit) outcome" where
  "cv_destroy i y =
     and_then (krun (spinlock_cleanup (Lk (cv_lock (ks_cv y i)))) y)
       (\<lambda>y _. krun (wchan_destroy (cv_wchan (ks_cv y i))) y)"

fun cv_of_lock :: "progress \<Rightarrow> cv_progress" where
  "cv_of_lock Done = Cv_done"
| "cv_of_lock (Slept r) = Cv_wants_lock r"

text \<open>After \<open>wchan_sleep\<close> has returned.\<close>

definition cv_wait_finish :: "cpuid \<Rightarrow> nat \<Rightarrow> nat \<Rightarrow> ksync \<Rightarrow> (ksync, cv_progress) outcome" where
  "cv_wait_finish c i j y =
     and_then (krun (spinlock_release c (Lk (cv_lock (ks_cv y i)))) (upd_cv i (\<lambda>m. m\<lparr>cv_count := cv_count m - 1\<rparr>) y))
       (\<lambda>y _. and_then (lock_acquire c j y) (\<lambda>y p. Ok y (cv_of_lock p)))"


definition cv_wait_resume :: "cpuid \<Rightarrow> nat \<Rightarrow> nat \<Rightarrow> ksync \<Rightarrow> (ksync, cv_progress) outcome" where
  "cv_wait_resume c i j y =
     and_then (krun (wchan_sleep_resume c (Lk (cv_lock (ks_cv y i)))) y) (\<lambda>y _. cv_wait_finish c i j y)"

definition cv_signal :: "cpuid \<Rightarrow> nat \<Rightarrow> nat \<Rightarrow> ksync \<Rightarrow> (ksync, progress) outcome" where
  "cv_signal c i j y =
     kassert (lock_do_i_hold c j y)
       (and_then (lock_release c j y)
         (\<lambda>y _. let l = Lk (cv_lock (ks_cv y i))
                in and_then (krun (spinlock_acquire c l) y)
                     (\<lambda>y _. and_then (krun (wchan_wakeone c (cv_wchan (ks_cv y i)) l) y)
                       (\<lambda>y _. and_then (krun (spinlock_release c l) y)
                         (\<lambda>y _. lock_acquire c j y)))))"

definition cv_broadcast :: "cpuid \<Rightarrow> nat \<Rightarrow> nat \<Rightarrow> ksync \<Rightarrow> (ksync, progress) outcome" where
  "cv_broadcast c i j y =
     kassert (lock_do_i_hold c j y)
       (and_then (lock_release c j y)
         (\<lambda>y _. let l = Lk (cv_lock (ks_cv y i))
                in and_then (krun (spinlock_acquire c l) y)
                     (\<lambda>y _. and_then (krun (wchan_wakeall c (cv_wchan (ks_cv y i)) l) y)
                       (\<lambda>y _. and_then (krun (spinlock_release c l) y)
                         (\<lambda>y _. lock_acquire c j y)))))"

section \<open>Reader-writer locks\<close>


text \<open>
  Sizes on this machine: \<open>struct cpu\<close> has four words, two thread lists of seven words, two counters, a
  flag padded to a word, two spinlocks of two words, the pending word, sixteen shootdown words and their
  counter. From \<open>reader_holders\<close> to the end of a \<open>struct rwlock\<close> there are a thousand pointers, the
  writer's, its flag padded to a word and the waiting count.
\<close>

definition sizeof_cpu :: nat where "sizeof_cpu = 4 * (4 + 7 + 2 + 1 + 7 + 2 + 1 + 16 + 1 + 2)"
definition rwlock_tail :: nat where "rwlock_tail = 4 * (1000 + 1 + 1 + 1)"

definition rwlock_create :: "bool \<Rightarrow> bool \<Rightarrow> bool \<Rightarrow> nat \<Rightarrow> wid \<Rightarrow> nat \<Rightarrow> string \<Rightarrow> ksync \<Rightarrow> (ksync, nat option) outcome" where
  "rwlock_create kmalloc_ok kstrdup_ok wchan_ok i wc n name y =
     (if \<not> kmalloc_ok then Ok y None
      else if \<not> kstrdup_ok then Ok y None
      else case wchan_create wchan_ok wc name (ks_k y) of
             (k, None) \<Rightarrow> Ok y None
           | (k, Some w) \<Rightarrow>
               if sizeof_cpu * 1000 > rwlock_tail then Fault
               else Ok (y\<lparr>ks_k := upd_lock (Lk n) spinlock_init k,
                  ks_rw := (ks_rw y)(i := \<lparr>rwlk_name = name, rwlock_wchan = w, rwlock_lock = n, reader_count = 0,
                    reader_holders = replicate 1000 None, writer_holder = None, writer_in = False, writer_waiting = 0\<rparr>)\<rparr>)
                (Some i))"

definition rwlock_destroy :: "nat \<Rightarrow> ksync \<Rightarrow> (ksync, unit) outcome" where
  "rwlock_destroy i y =
     and_then (krun (spinlock_cleanup (Lk (rwlock_lock (ks_rw y i)))) y)
       (\<lambda>y _. krun (wchan_destroy (rwlock_wchan (ks_rw y i))) y)"








section \<open>Effects of the calls\<close>

lemma krun_Ok [simp]: "f (ks_k y) = Ok k x \<Longrightarrow> krun f y = Ok (y\<lparr>ks_k := k\<rparr>) x"
  by (simp add: krun_def)

lemma krun_Ok_iff: "krun f y = Ok y' x \<longleftrightarrow> (\<exists>k. f (ks_k y) = Ok k x \<and> y' = y\<lparr>ks_k := k\<rparr>)"
  by (cases "f (ks_k y)") (auto simp: krun_def)

lemma upd_k [simp]:
  "ks_k (upd_sem i f y) = ks_k y" "ks_k (upd_lk i g y) = ks_k y" "ks_k (upd_cv i h y) = ks_k y" "ks_k (upd_rw i u y) = ks_k y"
  by (simp_all add: upd_sem_def upd_lk_def upd_cv_def upd_rw_def)

text \<open>The composites of the scheduler model, taken apart.\<close>

lemma wakeone_onD:
  "wakeone_on c w n k = Ok k' () \<Longrightarrow> \<exists>k1 k2. spinlock_acquire c (Lk n) k = Ok k1 () \<and>
     wchan_wakeone c w (Lk n) k1 = Ok k2 () \<and> spinlock_release c (Lk n) k2 = Ok k' ()"
  by (auto simp: wakeone_on_def and_then_Ok_iff)

lemma wakeall_onD:
  "wakeall_on c w n k = Ok k' () \<Longrightarrow> \<exists>k1 k2. spinlock_acquire c (Lk n) k = Ok k1 () \<and>
     wchan_wakeall c w (Lk n) k1 = Ok k2 () \<and> spinlock_release c (Lk n) k2 = Ok k' ()"
  by (auto simp: wakeall_on_def and_then_Ok_iff)

lemma sleep_onD:
  "sleep_on c w n k = Ok k' r \<Longrightarrow> \<exists>k1. spinlock_acquire c (Lk n) k = Ok k1 () \<and> wchan_sleep c w (Lk n) k1 = Ok k' r"
  by (auto simp: sleep_on_def and_then_Ok_iff)

text \<open>Taking and giving back the spinlock around a change of the object.\<close>

lemma lock_unlock:
  assumes "sched_inv k" "c < k_ncpus k"
  obtains k1 k2 where "spinlock_acquire c (Lk n) k = Ok k1 ()" "spinlock_release c (Lk n) k1 = Ok k2 ()"
    "sched_inv k2" "sched_eq k k2"
proof -
  note B = begin_section [OF assms, of "Lk n"]
  have "c < k_ncpus (acq c (Lk n) k)" using assms(2) by simp
  note E = end_section [OF B(2) this B(3,4)]
  have "sched_eq k (rel c (Lk n) (acq c (Lk n) k))" by (rule sched_eq_trans [OF acq_sched rel_sched])
  then show thesis using that B(1) E by blast
qed

definition running :: "kstate \<Rightarrow> cpuid \<Rightarrow> bool" where
  "running k c \<longleftrightarrow> c < k_ncpus k \<and> \<not> c_isidle (k_cpu k c) \<and> \<not> t_in_interrupt (k_thread k (curthread k c))"

lemma P_takes:
  assumes "sched_inv (ks_k y)" "running (ks_k y) c" "sem_count (ks_sem y i) \<noteq> 0"
  shows "\<exists>k'. P c i y = Ok (upd_sem i (\<lambda>m. m\<lparr>sem_count := sem_count m - 1\<rparr>) (y\<lparr>ks_k := k'\<rparr>)) Done \<and>
    P_resume c i y = Ok (upd_sem i (\<lambda>m. m\<lparr>sem_count := sem_count m - 1\<rparr>) (y\<lparr>ks_k := k'\<rparr>)) Done \<and>
    sched_inv k' \<and> sched_eq (ks_k y) k'"
proof -
  have "c < k_ncpus (ks_k y)" using assms(2) by (simp add: running_def)
  from lock_unlock [OF assms(1) this, of "sem_lock (ks_sem y i)"]
  obtain k1 k2 where "spinlock_acquire c (Lk (sem_lock (ks_sem y i))) (ks_k y) = Ok k1 ()"
    "spinlock_release c (Lk (sem_lock (ks_sem y i))) k1 = Ok k2 ()" "sched_inv k2" "sched_eq (ks_k y) k2" by blast
  then show ?thesis using assms(2,3)
    by (intro exI [of _ k2]) (simp add: P_def P_resume_def wchan_sleep_resume_def P_loop_def Let_def running_def word_gt_0 upd_sem_def)
qed

lemma P_sleeps:
  assumes "sched_inv (ks_k y)" "running (ks_k y) c" "sem_count (ks_sem y i) = 0"
  defines "w \<equiv> sem_wchan (ks_sem y i)"
  shows "\<exists>k' r. P c i y = Ok (y\<lparr>ks_k := k'\<rparr>) (Slept r) \<and> P_resume c i y = Ok (y\<lparr>ks_k := k'\<rparr>) (Slept r) \<and> r \<noteq> Sw_return \<and>
    after_switch c ((k_list (ks_k y))(Wchan w := k_list (ks_k y) (Wchan w) @ [curthread (ks_k y) c])) (ks_k y) k' r"
proof -
  obtain k' r where s: "sleep_on c w (sem_lock (ks_sem y i)) (ks_k y) = Ok k' r"
    "after_switch c ((k_list (ks_k y))(Wchan w := k_list (ks_k y) (Wchan w) @ [curthread (ks_k y) c])) (ks_k y) k' r"
    using sleep_on_ok [OF assms(1), of c w] assms(2) unfolding running_def by blast
  moreover have "r \<noteq> Sw_return" using s(2) by (auto simp: after_switch_def split: list.splits)
  ultimately show ?thesis using sleep_onD [OF s(1)] assms(2,3)
    by (intro exI [of _ k'] exI [of _ r])
      (auto simp: P_def P_resume_def wchan_sleep_resume_def P_loop_def Let_def running_def w_def)
qed

lemma V_ok:
  assumes "sched_inv (ks_k y)" "c < k_ncpus (ks_k y)" "sem_count (ks_sem y i) + 1 \<noteq> 0"
  shows "\<exists>k'. V c i y = Ok (upd_sem i (\<lambda>m. m\<lparr>sem_count := sem_count m + 1\<rparr>) (y\<lparr>ks_k := k'\<rparr>)) () \<and>
    sched_inv k' \<and> k_list k' = woken_lists (sem_wchan (ks_sem y i)) (ks_k y) \<and> k_ncpus k' = k_ncpus (ks_k y)"
proof -
  obtain k' where w: "wakeone_on c (sem_wchan (ks_sem y i)) (sem_lock (ks_sem y i)) (ks_k y) = Ok k' ()" "sched_inv k'"
    "k_list k' = woken_lists (sem_wchan (ks_sem y i)) (ks_k y)" "k_ncpus k' = k_ncpus (ks_k y)"
    using wakeone_on_ok [OF assms(1,2)] by blast
  then show ?thesis using wakeone_onD [OF w(1)] assms(3)
    by (intro exI [of _ k']) (auto simp: V_def Let_def word_gt_0 upd_sem_def)
qed

lemma V_overflow:
  "sched_inv (ks_k y) \<Longrightarrow> c < k_ncpus (ks_k y) \<Longrightarrow> sem_count (ks_sem y i) + 1 = 0 \<Longrightarrow> V c i y = Panic"
  using begin_section(1) [of "ks_k y" c "Lk (sem_lock (ks_sem y i))"] by (simp add: V_def Let_def upd_sem_def)

section \<open>Semaphores under concurrency\<close>

text \<open>
  A run of the system in which threads use semaphore \<open>i\<close>: besides the state, the set of threads that
  are inside \<open>P\<close> and the numbers of completed calls.
\<close>

record sem_run =
  r_y :: ksync
  r_in :: "tid set"
  r_p :: nat
  r_v :: nat

abbreviation r_cur :: "sem_run \<Rightarrow> cpuid \<Rightarrow> tid" where
  "r_cur r c \<equiv> curthread (ks_k (r_y r)) c"

definition p_done :: "sem_run \<Rightarrow> tid \<Rightarrow> progress \<Rightarrow> ksync \<Rightarrow> sem_run" where
  "p_done r t p y =
     (if p = Done then r\<lparr>r_y := y, r_in := r_in r - {t}, r_p := r_p r + 1\<rparr> else r\<lparr>r_y := y, r_in := insert t (r_in r)\<rparr>)"

inductive sem_step :: "nat \<Rightarrow> sem_run \<Rightarrow> sem_run \<Rightarrow> bool" for i where
  p_call: "running (ks_k (r_y r)) c \<Longrightarrow> r_cur r c \<notin> r_in r \<Longrightarrow> P c i (r_y r) = Ok y p \<Longrightarrow>
    sem_step i r (p_done r (r_cur r c) p y)"
| p_wakes: "running (ks_k (r_y r)) c \<Longrightarrow> r_cur r c \<in> r_in r \<Longrightarrow> P_resume c i (r_y r) = Ok y p \<Longrightarrow>
    sem_step i r (p_done r (r_cur r c) p y)"
| v_call: "c < k_ncpus (ks_k (r_y r)) \<Longrightarrow> V c i (r_y r) = Ok y u \<Longrightarrow> sem_step i r (r\<lparr>r_y := y, r_v := r_v r + 1\<rparr>)"
| elsewhere: "kstep (ks_k (r_y r)) k \<Longrightarrow>
    k_list k (Wchan (sem_wchan (ks_sem (r_y r) i))) = k_list (ks_k (r_y r)) (Wchan (sem_wchan (ks_sem (r_y r) i))) \<Longrightarrow>
    sem_step i r (r\<lparr>r_y := (r_y r)\<lparr>ks_k := k\<rparr>\<rparr>)"

definition sleepers :: "nat \<Rightarrow> sem_run \<Rightarrow> tid list" where
  "sleepers i r = k_list (ks_k (r_y r)) (Wchan (sem_wchan (ks_sem (r_y r) i)))"

definition sem_inv :: "nat \<Rightarrow> nat \<Rightarrow> sem_run \<Rightarrow> bool" where
  "sem_inv i n r \<longleftrightarrow>
     sched_inv (ks_k (r_y r)) \<and> finite (r_in r) \<and> set (sleepers i r) \<subseteq> r_in r \<and>
     unat (sem_count (ks_sem (r_y r) i)) + r_p r = n + r_v r \<and>
     (sleepers i r \<noteq> [] \<longrightarrow> unat (sem_count (ks_sem (r_y r) i)) \<le> card (r_in r - set (sleepers i r)))"

text \<open>Nobody uses the semaphore yet and its count is \<open>n\<close>.\<close>

definition sem_fresh :: "nat \<Rightarrow> nat \<Rightarrow> sem_run \<Rightarrow> bool" where
  "sem_fresh i n r \<longleftrightarrow> sched_inv (ks_k (r_y r)) \<and> sleepers i r = [] \<and> r_in r = {} \<and> r_p r = 0 \<and> r_v r = 0 \<and>
     unat (sem_count (ks_sem (r_y r) i)) = n"

inductive sem_reach :: "nat \<Rightarrow> nat \<Rightarrow> sem_run \<Rightarrow> bool" for i n where
  start: "sem_fresh i n r \<Longrightarrow> sem_reach i n r"
| step: "sem_reach i n r \<Longrightarrow> sem_step i r r' \<Longrightarrow> sem_reach i n r'"

lemma after_switch_wchan:
  "after_switch c (L(Wchan w := ts)) k k' r \<Longrightarrow> sched_inv k' \<and> k_list k' (Wchan w) = ts"
  by (auto simp: after_switch_def split: list.splits)

lemma running_awake: "sched_inv k \<Longrightarrow> running k c \<Longrightarrow> curthread k c \<notin> set (k_list k (Wchan w))"
  using loc_invD(11) [of k c] by (auto simp: sched_inv_def running_def on_lists_def)

lemma woken_wchan:
  assumes "sched_inv k" "k_list k (Wchan w) = t # ts"
  shows "woken_lists w k (Wchan w) = ts"
proof -
  have "list_ok k (Wchan w) (k_thread k t)" using loc_invD(6) [of k t "Wchan w"] assms by (simp add: sched_inv_def)
  then show ?thesis using assms(2) by (auto simp: woken_lists_def)
qed

lemma unat_dec: "x \<noteq> 0 \<Longrightarrow> Suc (unat (x - 1)) = unat (x :: u32)"
  by (simp add: unat_minus_one unat_gt_0)

lemma unat_inc: "x + 1 \<noteq> 0 \<Longrightarrow> unat (x + 1 :: u32) = Suc (unat x)"
  using unat_dec [of "x + 1"] by simp

lemma sem_P_inv:
  assumes inv: "sem_inv i n r" and run: "running (ks_k (r_y r)) c"
    and P: "P c i (r_y r) = Ok y p \<or> P_resume c i (r_y r) = Ok y p"
  shows "sem_inv i n (p_done r (r_cur r c) p y)"
proof -
  let ?y = "r_y r" and ?t = "r_cur r c"
  let ?n = "sem_count (ks_sem ?y i)"
  have I: "sched_inv (ks_k ?y)" "finite (r_in r)" "set (sleepers i r) \<subseteq> r_in r" "unat ?n + r_p r = n + r_v r"
    "sleepers i r \<noteq> [] \<Longrightarrow> unat ?n \<le> card (r_in r - set (sleepers i r))" using inv by (auto simp: sem_inv_def)
  have t: "?t \<notin> set (sleepers i r)" using running_awake [OF I(1) run] by (simp add: sleepers_def)
  show ?thesis
  proof (cases "?n = 0")
    case False
    obtain k' where y: "y = upd_sem i (\<lambda>m. m\<lparr>sem_count := sem_count m - 1\<rparr>) (?y\<lparr>ks_k := k'\<rparr>)" "p = Done"
      "sched_inv k'" "sched_eq (ks_k ?y) k'" using P_takes [OF I(1) run False] P by auto
    have s: "sleepers i (p_done r ?t p y) = sleepers i r"
      using y sched_eqD(2) [OF y(4)] by (simp add: sleepers_def p_done_def upd_sem_def)
    have "r_in r - {?t} - set (sleepers i r) = r_in r - set (sleepers i r) - {?t}" by blast
    then have "card (r_in r - set (sleepers i r)) - 1 \<le> card (r_in r - {?t} - set (sleepers i r))"
      using diff_card_le_card_Diff [of "{?t}" "r_in r - set (sleepers i r)"] by simp
    then show ?thesis unfolding sem_inv_def s using I t y unat_dec [OF False]
      by (auto simp: p_done_def upd_sem_def)
  next
    case True
    obtain k' q where y: "y = ?y\<lparr>ks_k := k'\<rparr>" "p = Slept q"
      "after_switch c ((k_list (ks_k ?y))(Wchan (sem_wchan (ks_sem ?y i)) := sleepers i r @ [?t])) (ks_k ?y) k' q"
      using P_sleeps [OF I(1) run True] P by (auto simp: sleepers_def)
    have "sleepers i (p_done r ?t p y) = sleepers i r @ [?t]" "sched_inv k'"
      using after_switch_wchan [OF y(3)] y(1,2) by (simp_all add: sleepers_def p_done_def)
    then show ?thesis unfolding sem_inv_def using I True y by (auto simp: p_done_def)
  qed
qed

lemma sem_V_inv:
  assumes inv: "sem_inv i n r" and c: "c < k_ncpus (ks_k (r_y r))" and V: "V c i (r_y r) = Ok y u"
  shows "sem_inv i n (r\<lparr>r_y := y, r_v := r_v r + 1\<rparr>)" (is "sem_inv i n ?r")
proof -
  let ?y = "r_y r"
  let ?n = "sem_count (ks_sem ?y i)"
  have I: "sched_inv (ks_k ?y)" "finite (r_in r)" "set (sleepers i r) \<subseteq> r_in r" "unat ?n + r_p r = n + r_v r"
    "sleepers i r \<noteq> [] \<Longrightarrow> unat ?n \<le> card (r_in r - set (sleepers i r))" using inv by (auto simp: sem_inv_def)
  have n: "?n + 1 \<noteq> 0" using V_overflow [OF I(1) c, of i] V by auto
  obtain k' where y: "y = upd_sem i (\<lambda>m. m\<lparr>sem_count := sem_count m + 1\<rparr>) (?y\<lparr>ks_k := k'\<rparr>)" "sched_inv k'"
      "k_list k' = woken_lists (sem_wchan (ks_sem ?y i)) (ks_k ?y)" using V_ok [OF I(1) c n] V by auto
  have s: "sleepers i ?r = woken_lists (sem_wchan (ks_sem ?y i)) (ks_k ?y) (Wchan (sem_wchan (ks_sem ?y i)))"
    using y by (simp add: sleepers_def upd_sem_def)
  show ?thesis
  proof (cases "sleepers i r")
    case Nil
    then have "sleepers i ?r = []" unfolding s by (simp add: woken_lists_def sleepers_def)
    then show ?thesis unfolding sem_inv_def using I y unat_inc [OF n] by (simp add: upd_sem_def)
  next
    case (Cons t ts)
    then have ts: "sleepers i ?r = ts" unfolding s using woken_wchan [OF I(1)] by (simp add: sleepers_def)
    have "distinct (t # ts)" using loc_invD(1) [of "ks_k ?y"] I(1) Cons by (metis sched_inv_def sleepers_def)
    then have a: "r_in r - set ts = insert t (r_in r - set (t # ts))" and b: "t \<notin> r_in r - set (t # ts)"
      using I(3) Cons by auto
    have "card (r_in r - set ts) = Suc (card (r_in r - set (sleepers i r)))"
      unfolding Cons by (subst a) (rule card_insert_disjoint [OF finite_Diff [OF I(2)] b])
    then show ?thesis unfolding sem_inv_def ts using I(2-5) Cons y unat_inc [OF n] by (simp add: upd_sem_def)
  qed
qed

lemma sem_step_inv: "sem_step i r r' \<Longrightarrow> sem_inv i n r \<Longrightarrow> sem_inv i n r'"
proof (induction rule: sem_step.induct)
  case (p_call r c y p)
  then show ?case by (intro sem_P_inv) auto
next
  case (p_wakes r c y p)
  then show ?case by (intro sem_P_inv) auto
next
  case (v_call c r y u)
  then show ?case by (intro sem_V_inv)
next
  case (elsewhere r k)
  then show ?case using kstep_inv [of "ks_k (r_y r)" k] by (auto simp: sem_inv_def sleepers_def)
qed

lemma sem_reach_inv: "sem_reach i n r \<Longrightarrow> sem_inv i n r"
proof (induction rule: sem_reach.induct)
  case (start r)
  then show ?case by (simp add: sem_fresh_def sem_inv_def)
qed (rule sem_step_inv)

section \<open>Locks and condition variables\<close>

lemma lock_release_ok:
  assumes "sched_inv (ks_k y)" "c < k_ncpus (ks_k y)" "lock_holder (ks_lk y j) = Some c" "lock_count (ks_lk y j) + 1 \<noteq> 0"
  shows "\<exists>k'. lock_release c j y =
      Ok (upd_lk j (\<lambda>m. m\<lparr>lock_count := lock_count m + 1, lock_holder := None\<rparr>) (y\<lparr>ks_k := k'\<rparr>)) () \<and>
    sched_inv k' \<and> k_list k' = woken_lists (lock_wchan (ks_lk y j)) (ks_k y) \<and> k_ncpus k' = k_ncpus (ks_k y)"
proof -
  obtain k' where w: "wakeone_on c (lock_wchan (ks_lk y j)) (lock_lock (ks_lk y j)) (ks_k y) = Ok k' ()" "sched_inv k'"
    "k_list k' = woken_lists (lock_wchan (ks_lk y j)) (ks_k y)" "k_ncpus k' = k_ncpus (ks_k y)"
    using wakeone_on_ok [OF assms(1,2)] by blast
  then show ?thesis using wakeone_onD [OF w(1)] assms(2-4)
    by (intro exI [of _ k']) (auto simp: lock_release_def lock_do_i_hold_def Let_def word_gt_0 upd_lk_def)
qed

lemma lock_acquire_Done:
  assumes "lock_acquire c j y = Ok y' Done"
  shows "lock_holder (ks_lk y' j) = Some c" "lock_count (ks_lk y' j) = lock_count (ks_lk y j) - 1" "lock_count (ks_lk y j) \<noteq> 0"
  using assms by (auto simp: lock_acquire_def lock_loop_def Let_def upd_lk_def krun_Ok_iff outcome_iffs split: if_splits)





section \<open>Reader-writer locks\<close>

















section \<open>Properties\<close>

text \<open>
  C5. Semaphores. However processors and threads interleave: the count plus the completed \<open>P\<close> calls is the
  initial count plus the completed \<open>V\<close> calls; only threads inside \<open>P\<close> sleep on the channel; no wakeup is
  lost (with a positive count and sleepers, some thread inside \<open>P\<close> is already awake); \<open>P\<close> by a running
  thread never crashes and completes exactly when the count is positive; \<open>V\<close> never crashes
  unless the count would overflow.
\<close>

theorem semaphore_counts:
  assumes "sem_reach i n r"
  defines "y \<equiv> r_y r"
  shows "unat (sem_count (ks_sem y i)) + r_p r = n + r_v r \<and> set (sleepers i r) \<subseteq> r_in r \<and>
    (sleepers i r \<noteq> [] \<and> sem_count (ks_sem y i) \<noteq> 0 \<longrightarrow> (\<exists>t \<in> r_in r. t \<notin> set (sleepers i r))) \<and>
    (\<forall>c. running (ks_k y) c \<longrightarrow> (\<exists>y' p. P c i y = Ok y' p \<and> (p = Done \<longleftrightarrow> sem_count (ks_sem y i) \<noteq> 0))) \<and>
    (\<forall>c < k_ncpus (ks_k y). if sem_count (ks_sem y i) = - 1 then V c i y = Panic else \<exists>y'. V c i y = Ok y' ())"
proof -
  have I: "sched_inv (ks_k y)" "set (sleepers i r) \<subseteq> r_in r" "unat (sem_count (ks_sem y i)) + r_p r = n + r_v r"
    "sleepers i r \<noteq> [] \<Longrightarrow> unat (sem_count (ks_sem y i)) \<le> card (r_in r - set (sleepers i r))"
    using sem_reach_inv [OF assms(1)] by (auto simp: sem_inv_def y_def)
  have "\<exists>t \<in> r_in r. t \<notin> set (sleepers i r)" if "sleepers i r \<noteq> []" "sem_count (ks_sem y i) \<noteq> 0"
  proof -
    have "0 < unat (sem_count (ks_sem y i))" using that(2) by (simp add: unat_gt_0)
    then have "card (r_in r - set (sleepers i r)) \<noteq> 0" using I(4) [OF that(1)] by linarith
    then have "r_in r - set (sleepers i r) \<noteq> {}" by (metis card.empty)
    then show ?thesis by blast
  qed
  moreover have "\<exists>y' p. P c i y = Ok y' p \<and> (p = Done \<longleftrightarrow> sem_count (ks_sem y i) \<noteq> 0)" if "running (ks_k y) c" for c
    using P_takes [OF I(1) that, of i] P_sleeps [OF I(1) that, of i] by (cases "sem_count (ks_sem y i) = 0") auto
  moreover have "if sem_count (ks_sem y i) = - 1 then V c i y = Panic else \<exists>y'. V c i y = Ok y' ()" if "c < k_ncpus (ks_k y)" for c
    using V_ok [OF I(1) that, of i] V_overflow [OF I(1) that, of i] by (auto simp: eq_neg_iff_add_eq_0)
  ultimately show ?thesis using I(2,3) by blast
qed

text \<open>One processor, one of each object: the semaphore at 0, the lock held by processor 0.\<close>

definition demo_sync :: ksync where
  "demo_sync = \<lparr>ks_k = boot_state 1,
     ks_sem = (\<lambda>_. \<lparr>sem_name = ''s'', sem_wchan = 0, sem_lock = 0, sem_count = 0\<rparr>),
     ks_lk = (\<lambda>_. \<lparr>lk_name = ''l'', lock_wchan = 1, lock_lock = 1, lock_count = 0, lock_holder = Some 0\<rparr>),
     ks_cv = (\<lambda>_. \<lparr>cv_name = ''c'', cv_wchan = 2, cv_lock = 2, cv_count = 0\<rparr>),
     ks_rw = (\<lambda>_. \<lparr>rwlk_name = ''r'', rwlock_wchan = 3, rwlock_lock = 3, reader_count = 0,
       reader_holders = replicate 1000 None, writer_holder = None, writer_in = False, writer_waiting = 0\<rparr>)\<rparr>"

lemma demo_sync_ok: "sched_inv (ks_k demo_sync)" "running (ks_k demo_sync) 0" "k_ncpus (ks_k demo_sync) = 1"
  using boot_inv [of 1] by (simp_all add: demo_sync_def running_def boot_state_def boot_thread_def new_thread_def)

theorem semaphore_counts_witness:
  "\<exists>y. V 0 0 demo_sync = Ok y () \<and> unat (sem_count (ks_sem y 0)) = 1 \<and> (\<exists>y' p. P 0 0 demo_sync = Ok y' p \<and> p \<noteq> Done)"
proof -
  let ?r = "\<lparr>r_y = demo_sync, r_in = {}, r_p = 0, r_v = 0\<rparr>"
  have c0: "sem_count (ks_sem demo_sync 0) = 0" by (simp add: demo_sync_def)
  have f: "sem_reach 0 0 ?r"
    using demo_sync_ok by (intro sem_reach.start) (simp add: sem_fresh_def sleepers_def demo_sync_def boot_state_def)
  obtain y where y: "V 0 0 demo_sync = Ok y ()"
    using semaphore_counts [OF f] demo_sync_ok(3) c0 by auto
  have "sem_step 0 ?r \<lparr>r_y = y, r_in = {}, r_p = 0, r_v = 1\<rparr>"
    using sem_step.v_call [of 0 ?r 0 y] y demo_sync_ok(3) by simp
  from semaphore_counts [OF sem_reach.step [OF f this]] have "unat (sem_count (ks_sem y 0)) = 1" by simp
  moreover have "\<exists>y' p. P 0 0 demo_sync = Ok y' p \<and> p \<noteq> Done"
    using semaphore_counts [OF f] demo_sync_ok(2) c0 by auto
  ultimately show ?thesis using y by blast
qed

text \<open>
  C31. Locks record the processor, not the thread. After \<open>lock_acquire\<close> succeeds on processor \<open>c\<close>, in
  any later state with that lock unchanged: whatever thread is current on \<open>c\<close> passes the ownership
  check of \<open>lock_release\<close> and frees the lock, while on every other processor \<open>lock_release\<close> panics, even if
  the acquiring thread is now running there.
\<close>

theorem lock_owner_is_processor:
  assumes "lock_acquire c j y = Ok y1 Done" "c < k_ncpus (ks_k y2)"
    "ks_lk y2 j = ks_lk y1 j" "sched_inv (ks_k y2)" "d < k_ncpus (ks_k y2)"
  shows "(\<exists>y3. lock_release c j y2 = Ok y3 () \<and> lock_holder (ks_lk y3 j) = None \<and>
            lock_count (ks_lk y3 j) = lock_count (ks_lk y j) \<and> sched_inv (ks_k y3)) \<and>
         (d \<noteq> c \<longrightarrow> lock_release d j y2 = Panic)"
proof -
  note D = lock_acquire_Done [OF assms(1)]
  have "lock_holder (ks_lk y2 j) = Some c" "lock_count (ks_lk y2 j) + 1 = lock_count (ks_lk y j)" using D assms(3) by simp_all
  with lock_release_ok [OF assms(4,2), of j] D(3)
  have "\<exists>y3. lock_release c j y2 = Ok y3 () \<and> lock_holder (ks_lk y3 j) = None \<and>
      lock_count (ks_lk y3 j) = lock_count (ks_lk y j) \<and> sched_inv (ks_k y3)" by (auto simp: upd_lk_def)
  moreover have "lock_release d j y2 = Panic" if "d \<noteq> c"
    using that D(1) assms(3,5) by (simp add: lock_release_def lock_do_i_hold_def Let_def)
  ultimately show ?thesis by blast
qed

definition two_cpus :: ksync where
  "two_cpus = demo_sync\<lparr>ks_k := boot_state 2, ks_lk := (\<lambda>_. (ks_lk demo_sync 0)\<lparr>lock_count := 1, lock_holder := None\<rparr>)\<rparr>"

theorem lock_owner_is_processor_witness:
  "\<exists>y1. lock_acquire 0 0 two_cpus = Ok y1 Done \<and> lock_release 1 0 y1 = Panic \<and> (\<exists>y3. lock_release 0 0 y1 = Ok y3 ())"
proof -
  have i: "sched_inv (ks_k two_cpus)" "0 < k_ncpus (ks_k two_cpus)" using boot_inv [of 2] by (simp_all add: two_cpus_def boot_state_def)
  obtain k1 k2 where k: "spinlock_acquire 0 (Lk 1) (ks_k two_cpus) = Ok k1 ()" "spinlock_release 0 (Lk 1) k1 = Ok k2 ()"
    "sched_inv k2" "sched_eq (ks_k two_cpus) k2" by (rule lock_unlock [OF i])
  let ?y = "upd_lk 0 (\<lambda>m. m\<lparr>lock_count := lock_count m - 1, lock_holder := Some 0\<rparr>) (two_cpus\<lparr>ks_k := k2\<rparr>)"
  have a: "lock_acquire 0 0 two_cpus = Ok ?y Done"
    using k(1,2) by (simp add: lock_acquire_def lock_loop_def Let_def two_cpus_def demo_sync_def upd_lk_def
        boot_state_def boot_thread_def new_thread_def curthread_def)
  have "k_ncpus k2 = 2" using sched_eqD(3) [OF k(4)] by (simp add: two_cpus_def boot_state_def)
  then show ?thesis using lock_owner_is_processor [OF a, of ?y 1] a k(3) by auto
qed





end
