(* ===== verification/Uio.thy ===== *)
theory Uio
  imports Prelude
begin

text \<open>
  Scatter-gather transfers, \<open>kern/lib/uio.c\<close>. The memory an I/O vector describes is held in the vector:
  what has been transferred (\<open>iov_done\<close>) and what lies ahead of \<open>iov_kbase\<close> or \<open>iov_ubase\<close> (\<open>iov_rest\<close>, of
  length \<open>iov_len\<close>). Vectors and the kernel buffer of a transfer are distinct objects. For user vectors the
  results of \<open>copyin\<close> and \<open>copyout\<close> are part of the vector.
\<close>

section \<open>Model\<close>

datatype uio_rw = UIO_READ | UIO_WRITE

datatype uio_seg = UIO_USERISPACE | UIO_USERSPACE | UIO_SYSSPACE

record iovec =
  iov_done :: "u8 list"
  iov_rest :: "u8 list"
  iov_copy :: "errno option"

record uio =
  uio_past :: "iovec list"
  uio_iov :: "iovec list"
  uio_offset :: int
  uio_resid :: nat
  uio_segflg :: uio_seg
  uio_rw :: uio_rw
  uio_space :: "nat option"

definition sub_size :: "nat \<Rightarrow> nat \<Rightarrow> nat" where
  "sub_size a b = (if b \<le> a then a - b else a + 2 ^ 32 - b)"

text \<open>
  Moving \<open>size\<close> bytes between the head vector and the buffer: the buffer's new bytes and the vector.
\<close>

definition iov_move :: "uio_rw \<Rightarrow> nat \<Rightarrow> u8 list \<Rightarrow> iovec \<Rightarrow> u8 list \<times> iovec" where
  "iov_move rw sz buf iov =
     (let bytes = (if rw = UIO_READ then take sz buf else take sz (iov_rest iov))
      in (bytes, iov\<lparr>iov_done := iov_done iov @ bytes, iov_rest := drop sz (iov_rest iov)\<rparr>))"

text \<open>
  \<open>uiomove(ptr, n, uio)\<close> with the \<open>n\<close> bytes at \<open>ptr\<close> as \<open>buf\<close>; \<open>front\<close> are the bytes already passed. The result
  is the contents of the buffer; \<open>as\<close> is \<open>proc_getas()\<close>.
\<close>

function uiomove_loop :: "u8 list \<Rightarrow> u8 list \<Rightarrow> uio \<Rightarrow> (uio, u8 list) outcome" where
  "uiomove_loop front buf uio =
     (if buf \<noteq> [] \<and> 0 < uio_resid uio then
        case uio_iov uio of
          [] \<Rightarrow> Fault
        | iov # iovs \<Rightarrow>
            let sz = min (length (iov_rest iov)) (length buf)
            in if sz = 0 then
                 if iovs = [] then Panic
                 else uiomove_loop front buf (uio\<lparr>uio_past := uio_past uio @ [iov], uio_iov := iovs\<rparr>)
               else if uio_segflg uio \<noteq> UIO_SYSSPACE \<and> iov_copy iov \<noteq> None then Err uio (the (iov_copy iov))
               else let (bytes, iov') = iov_move (uio_rw uio) sz buf iov
                    in uiomove_loop (front @ bytes) (drop sz buf)
                         (uio\<lparr>uio_iov := iov' # iovs, uio_resid := sub_size (uio_resid uio) sz,
                              uio_offset := uio_offset uio + int sz\<rparr>)
      else Ok uio (front @ buf))"
  by pat_completeness auto
termination
  by (relation "measures [\<lambda>(front, buf, uio). length buf, \<lambda>(front, buf, uio). length (uio_iov uio)]")
    (auto simp: min_def iov_move_def Let_def split: if_splits)
declare uiomove_loop.simps [simp del]

definition uiomove :: "nat option \<Rightarrow> u8 list \<Rightarrow> uio \<Rightarrow> (uio, u8 list) outcome" where
  "uiomove as buf uio =
     kassert (if uio_segflg uio = UIO_SYSSPACE then uio_space uio = None else uio_space uio = as)
       (uiomove_loop [] buf uio)"

function uiomovezeros :: "nat option \<Rightarrow> nat \<Rightarrow> uio \<Rightarrow> (uio, unit) outcome" where
  "uiomovezeros as n uio =
     kassert (uio_rw uio = UIO_READ)
       (if 0 < n then
          let amt = min 16 n
          in and_then (uiomove as (replicate amt 0) uio) (\<lambda>uio _. uiomovezeros as (n - amt) uio)
        else Ok uio ())"
  by pat_completeness auto
termination by (relation "measure (\<lambda>(as, n, uio). n)") (auto simp: min_def)
declare uiomovezeros.simps [simp del]

definition uio_kinit :: "u8 list \<Rightarrow> int \<Rightarrow> uio_rw \<Rightarrow> uio" where
  "uio_kinit kbuf pos rw =
     \<lparr>uio_past = [], uio_iov = [\<lparr>iov_done = [], iov_rest = kbuf, iov_copy = None\<rparr>], uio_offset = pos,
      uio_resid = length kbuf, uio_segflg = UIO_SYSSPACE, uio_rw = rw,
      uio_space = None\<rparr>"

section \<open>Transfers as streams\<close>

text \<open>The bytes ahead, and the bytes transferred so far.\<close>

definition uio_ahead :: "uio \<Rightarrow> u8 list" where
  "uio_ahead u = concat (map iov_rest (uio_iov u))"

definition uio_got :: "uio \<Rightarrow> u8 list" where
  "uio_got u = concat (map iov_done (uio_past u @ uio_iov u))"

text \<open>
  Well-formed descriptions: only the current vector is partly used, the vectors hold what is left to
  transfer, and user memory is accessible.
\<close>

definition uio_ok :: "uio \<Rightarrow> bool" where
  "uio_ok u \<longleftrightarrow> uio_iov u \<noteq> [] \<and> (\<forall>iov \<in> set (tl (uio_iov u)). iov_done iov = []) \<and>
     uio_resid u \<le> length (uio_ahead u) \<and>
     (uio_segflg u = UIO_SYSSPACE \<or> (\<forall>iov \<in> set (uio_iov u). iov_copy iov = None))"

definition uio_space_ok :: "nat option \<Rightarrow> uio \<Rightarrow> bool" where
  "uio_space_ok as u \<longleftrightarrow> (if uio_segflg u = UIO_SYSSPACE then uio_space u = None else uio_space u = as)"

text \<open>\<open>uio_after n bytes u u'\<close>: \<open>u'\<close> is \<open>u\<close> after \<open>n\<close> bytes went through it, which were \<open>bytes\<close>.\<close>

definition uio_after :: "nat \<Rightarrow> u8 list \<Rightarrow> uio \<Rightarrow> uio \<Rightarrow> bool" where
  "uio_after n bytes u u' \<longleftrightarrow>
     uio_ok u' \<and> uio_ahead u' = drop n (uio_ahead u) \<and> uio_got u' = uio_got u @ bytes \<and>
     uio_resid u' = uio_resid u - n \<and> uio_offset u' = uio_offset u + int n \<and>
     uio_segflg u' = uio_segflg u \<and> uio_rw u' = uio_rw u \<and> uio_space u' = uio_space u"

lemma uio_afterD:
  assumes "uio_after n bytes u u'"
  shows "uio_ok u'" "uio_ahead u' = drop n (uio_ahead u)" "uio_got u' = uio_got u @ bytes"
    "uio_resid u' = uio_resid u - n" "uio_offset u' = uio_offset u + int n"
    "uio_segflg u' = uio_segflg u" "uio_rw u' = uio_rw u" "uio_space u' = uio_space u"
  using assms by (simp_all add: uio_after_def)

lemma uio_after_trans:
  "uio_after n a u u1 \<Longrightarrow> uio_after m b u1 u2 \<Longrightarrow> uio_after (n + m) (a @ b) u u2"
  by (simp add: uio_after_def add.commute)

lemma uio_after_refl: "uio_ok u \<Longrightarrow> uio_after 0 [] u u"
  by (simp add: uio_after_def)

lemma uio_skip_ok:
  assumes "uio_ok u" "uio_iov u = iov # iovs" "iov_rest iov = []" "iovs \<noteq> []"
  shows "uio_after 0 [] u (u\<lparr>uio_past := uio_past u @ [iov], uio_iov := iovs\<rparr>)"
  using assms by (cases iovs) (auto simp: uio_after_def uio_ok_def uio_ahead_def uio_got_def)

lemma done_tail: "\<forall>iov \<in> set iovs. iov_done iov = [] \<Longrightarrow> concat (map iov_done iovs) = []"
  by simp

lemma uio_step_ok:
  assumes u: "uio_ok u" "uio_iov u = iov # iovs" and n: "n \<le> length (iov_rest iov)" "n \<le> length buf" "n \<le> uio_resid u"
  defines "r \<equiv> iov_move (uio_rw u) n buf iov"
  shows "uio_after n (fst r) u
    (u\<lparr>uio_iov := snd r # iovs, uio_resid := sub_size (uio_resid u) n, uio_offset := uio_offset u + int n\<rparr>)"
proof -
  have "\<forall>iov \<in> set iovs. iov_done iov = []" using u by (simp add: uio_ok_def)
  then show ?thesis using u n
    by (auto simp: uio_after_def uio_ok_def uio_ahead_def uio_got_def r_def iov_move_def Let_def sub_size_def done_tail)
qed

lemma uiomove_loop_ok:
  "uio_ok u \<Longrightarrow> length buf \<le> uio_resid u \<Longrightarrow>
   \<exists>u' bytes. uiomove_loop front buf u = Ok u' (front @ bytes) \<and> length bytes = length buf \<and>
     bytes = (if uio_rw u = UIO_READ then buf else take (length buf) (uio_ahead u)) \<and> uio_after (length buf) bytes u u'"
proof (induction front buf u rule: uiomove_loop.induct)
  case (1 front buf u)
  show ?case
  proof (cases "buf = []")
    case True
    then show ?thesis using "1.prems" by (subst uiomove_loop.simps) (simp add: uio_after_refl)
  next
    case False
    then have go: "buf \<noteq> [] \<and> 0 < uio_resid u" using "1.prems"(2) by (cases buf) auto
    obtain iov iovs where iov: "uio_iov u = iov # iovs" using "1.prems"(1) by (auto simp: uio_ok_def neq_Nil_conv)
    let ?n = "min (length (iov_rest iov)) (length buf)"
    show ?thesis
    proof (cases "?n = 0")
      case True
      then have e: "iov_rest iov = []" using False by (auto simp: min_def split: if_splits)
      have ne: "iovs \<noteq> []" using "1.prems" False iov e go by (auto simp: uio_ok_def uio_ahead_def)
      let ?u = "u\<lparr>uio_past := uio_past u @ [iov], uio_iov := iovs\<rparr>"
      have s: "uio_after 0 [] u ?u" by (rule uio_skip_ok [OF "1.prems"(1) iov e ne])
      have l: "uiomove_loop front buf u = uiomove_loop front buf ?u"
        using go iov True ne by (subst uiomove_loop.simps) (simp add: Let_def)
      show ?thesis unfolding l using "1.IH"(1) [OF go iov refl True ne] s "1.prems"(2) uio_after_trans [OF s]
        by (force simp: uio_after_def)
    next
      case pos: False
      let ?r = "iov_move (uio_rw u) ?n buf iov"
      let ?u = "u\<lparr>uio_iov := snd ?r # iovs, uio_resid := sub_size (uio_resid u) ?n, uio_offset := uio_offset u + int ?n\<rparr>"
      have s: "uio_after ?n (fst ?r) u ?u"
        using "1.prems" by (intro uio_step_ok [OF "1.prems"(1) iov]) auto
      have acc: "\<not> (uio_segflg u \<noteq> UIO_SYSSPACE \<and> iov_copy iov \<noteq> None)" using "1.prems"(1) iov by (auto simp: uio_ok_def)
      have l: "uiomove_loop front buf u = uiomove_loop (front @ fst ?r) (drop ?n buf) ?u"
        by (subst uiomove_loop.simps) (simp only: go iov pos acc if_True if_False list.case Let_def split_beta simp_thms)
      have pre: "uio_ok ?u" "uio_ahead ?u = drop ?n (uio_ahead u)" "uio_rw ?u = uio_rw u"
        using uio_afterD(1,2,7) [OF s] by blast+
      have pre2: "length (drop ?n buf) \<le> uio_resid ?u" unfolding uio_afterD(4) [OF s] using "1.prems"(2) by simp
      from "1.IH"(2) [OF go iov refl pos acc refl surjective_pairing [symmetric] pre(1) pre2]
      obtain u' bytes where IH: "uiomove_loop (front @ fst ?r) (drop ?n buf) ?u = Ok u' ((front @ fst ?r) @ bytes)"
          "length bytes = length (drop ?n buf)"
          "bytes = (if uio_rw ?u = UIO_READ then drop ?n buf else take (length (drop ?n buf)) (uio_ahead ?u))"
          "uio_after (length (drop ?n buf)) bytes ?u u'" by blast
      have fst: "fst ?r = (if uio_rw u = UIO_READ then take ?n buf else take ?n (uio_ahead u))" "length (fst ?r) = ?n"
        using iov by (auto simp: iov_move_def Let_def uio_ahead_def)
      have "fst ?r @ bytes = (if uio_rw u = UIO_READ then buf else take (length buf) (uio_ahead u))"
        unfolding IH(3) fst(1) pre(2,3) by (simp add: take_add [symmetric])
      moreover have "length (fst ?r @ bytes) = length buf" using IH(2) fst(2) by simp
      moreover have "uio_after (length buf) (fst ?r @ bytes) u u'" using uio_after_trans [OF s IH(4)] by simp
      ultimately show ?thesis unfolding l using IH(1) by auto
    qed
  qed
qed

text \<open>What \<open>n\<close> bytes of a transfer are: the buffer's when it is read into memory, the memory's otherwise.\<close>

definition uio_bytes :: "u8 list \<Rightarrow> uio \<Rightarrow> u8 list" where
  "uio_bytes buf u = (if uio_rw u = UIO_READ then buf else take (length buf) (uio_ahead u))"

lemma uiomove_ok:
  assumes "uio_ok u" "uio_space_ok as u" "length buf \<le> uio_resid u"
  shows "\<exists>u'. uiomove as buf u = Ok u' (uio_bytes buf u) \<and> uio_after (length buf) (uio_bytes buf u) u u'"
  using uiomove_loop_ok [of u buf "[]"] assms by (auto simp: uiomove_def uio_bytes_def uio_space_ok_def)

lemma uio_space_ok_after: "uio_after n b u u' \<Longrightarrow> uio_space_ok as u' = uio_space_ok as u"
  by (simp add: uio_space_ok_def uio_after_def)

lemma uiomovezeros_ok:
  "uio_ok u \<Longrightarrow> uio_space_ok as u \<Longrightarrow> n \<le> uio_resid u \<Longrightarrow> uio_rw u = UIO_READ \<Longrightarrow>
   \<exists>u'. uiomovezeros as n u = Ok u' () \<and> uio_after n (replicate n 0) u u'"
proof (induction as n u rule: uiomovezeros.induct)
  case (1 as n u)
  show ?case
  proof (cases "n = 0")
    case True
    then show ?thesis using "1.prems" by (subst uiomovezeros.simps) (simp add: uio_after_refl)
  next
    case False
    let ?a = "min 16 n"
    have l: "length (replicate ?a (0 :: u8)) \<le> uio_resid u" using "1.prems"(3) by simp
    have z: "uio_bytes (replicate ?a 0) u = replicate ?a 0" using "1.prems"(4) by (simp add: uio_bytes_def)
    obtain u1 where u1: "uiomove as (replicate ?a 0) u = Ok u1 (replicate ?a 0)" "uio_after ?a (replicate ?a 0) u u1"
      using uiomove_ok [OF "1.prems"(1,2) l] unfolding z by (auto simp del: min.bounded_iff)
    note d = uio_afterD [OF u1(2)]
    have r: "n - ?a \<le> uio_resid u1" "uio_rw u1 = UIO_READ" unfolding d(4,7) using "1.prems"(3,4) by auto
    have "0 < n" using False by simp
    then obtain u2 where u2: "uiomovezeros as (n - ?a) u1 = Ok u2 ()" "uio_after (n - ?a) (replicate (n - ?a) 0) u1 u2"
      using "1.IH" [OF "1.prems"(4) _ refl u1(1) d(1) _ r] "1.prems"(2) uio_space_ok_after [OF u1(2)] by blast
    have "replicate ?a 0 @ replicate (n - ?a) 0 = replicate n (0 :: u8)" by (simp add: replicate_add [symmetric])
    then have "uio_after n (replicate n 0) u u2" using uio_after_trans [OF u1(2) u2(2)] by simp
    then show ?thesis using u1(1) u2(1) "1.prems"(4) False by (subst uiomovezeros.simps) (simp add: Let_def)
  qed
qed

lemma uio_kinit_ok [simp]:
  "uio_ok (uio_kinit buf pos rw)" "uio_space_ok as (uio_kinit buf pos rw)"
  "uio_ahead (uio_kinit buf pos rw) = buf" "uio_got (uio_kinit buf pos rw) = []"
  "uio_resid (uio_kinit buf pos rw) = length buf" "uio_offset (uio_kinit buf pos rw) = pos"
  "uio_rw (uio_kinit buf pos rw) = rw" "uio_segflg (uio_kinit buf pos rw) = UIO_SYSSPACE"
  by (simp_all add: uio_kinit_def uio_ok_def uio_space_ok_def uio_ahead_def uio_got_def)

lemma uiomove_overrun:
  "uio_iov u \<noteq> [] \<Longrightarrow> (uio_segflg u = UIO_SYSSPACE \<or> (\<forall>iov \<in> set (uio_iov u). iov_copy iov = None)) \<Longrightarrow>
   length (uio_ahead u) < uio_resid u \<Longrightarrow> length (uio_ahead u) < length buf \<Longrightarrow> uiomove_loop front buf u = Panic"
proof (induction front buf u rule: uiomove_loop.induct)
  case (1 front buf u)
  obtain iov iovs where iov: "uio_iov u = iov # iovs" using "1.prems"(1) by (auto simp: neq_Nil_conv)
  let ?n = "min (length (iov_rest iov)) (length buf)"
  have go: "buf \<noteq> [] \<and> 0 < uio_resid u" using "1.prems"(3,4) by auto
  have ahead: "length (uio_ahead u) = length (iov_rest iov) + length (concat (map iov_rest iovs))"
    using iov by (simp add: uio_ahead_def)
  show ?case
  proof (cases "?n = 0")
    case True
    then have e: "iov_rest iov = []" using go by (auto simp: min_def split: if_splits)
    let ?u = "u\<lparr>uio_past := uio_past u @ [iov], uio_iov := iovs\<rparr>"
    have "iovs \<noteq> [] \<Longrightarrow> uiomove_loop front buf ?u = Panic"
      using "1.prems" iov e by (intro "1.IH"(1) [OF go iov refl True]) (auto simp: uio_ahead_def)
    then show ?thesis using go iov True by (subst uiomove_loop.simps) (simp add: Let_def)
  next
    case False
    let ?r = "iov_move (uio_rw u) ?n buf iov"
    let ?u = "u\<lparr>uio_iov := snd ?r # iovs, uio_resid := sub_size (uio_resid u) ?n, uio_offset := uio_offset u + int ?n\<rparr>"
    have acc: "\<not> (uio_segflg u \<noteq> UIO_SYSSPACE \<and> iov_copy iov \<noteq> None)" using "1.prems"(2) iov by auto
    have n: "?n = length (iov_rest iov)" using "1.prems"(4) ahead by simp
    have l: "uiomove_loop front buf u = uiomove_loop (front @ fst ?r) (drop ?n buf) ?u"
      by (subst uiomove_loop.simps) (simp only: go iov False acc if_True if_False list.case Let_def split_beta simp_thms)
    have a: "length (uio_ahead ?u) = length (uio_ahead u) - ?n" unfolding ahead n
      by (simp add: uio_ahead_def iov_move_def Let_def)
    have r: "uio_resid ?u = uio_resid u - ?n" using "1.prems"(3) ahead by (simp add: sub_size_def)
    have c: "uio_segflg ?u = UIO_SYSSPACE \<or> (\<forall>iov \<in> set (uio_iov ?u). iov_copy iov = None)"
      using "1.prems"(2) iov by (auto simp: iov_move_def Let_def)
    have ne: "uio_iov ?u \<noteq> []" by simp
    have lt: "length (uio_ahead ?u) < uio_resid ?u" "length (uio_ahead ?u) < length (drop ?n buf)"
      unfolding a r length_drop using n ahead "1.prems"(3,4) by linarith+
    show ?thesis unfolding l
      by (rule "1.IH"(2) [OF go iov refl False acc refl surjective_pairing [symmetric] ne c lt])
  qed
qed

lemma uiomove_twice:
  assumes u: "uio_ok u" "uio_space_ok as u" "length a + length b \<le> uio_resid u"
  shows "\<exists>u1 x u2 y u3. uiomove as a u = Ok u1 x \<and> uiomove as b u1 = Ok u2 y \<and> uiomove as (a @ b) u = Ok u3 (x @ y) \<and>
     uio_got u2 = uio_got u3 \<and> uio_ahead u2 = uio_ahead u3 \<and> uio_resid u2 = uio_resid u3 \<and> uio_offset u2 = uio_offset u3"
proof -
  obtain u1 where u1: "uiomove as a u = Ok u1 (uio_bytes a u)" "uio_after (length a) (uio_bytes a u) u u1"
    using uiomove_ok [OF u(1,2), of a] u(3) by auto
  note d1 = uio_afterD [OF u1(2)]
  have pre: "uio_space_ok as u1" "length b \<le> uio_resid u1" using u uio_space_ok_after [OF u1(2)] d1(4) by auto
  obtain u2 where u2: "uiomove as b u1 = Ok u2 (uio_bytes b u1)" "uio_after (length b) (uio_bytes b u1) u1 u2"
    using uiomove_ok [OF d1(1) pre] by auto
  obtain u3 where u3: "uiomove as (a @ b) u = Ok u3 (uio_bytes (a @ b) u)" "uio_after (length (a @ b)) (uio_bytes (a @ b) u) u u3"
    using uiomove_ok [OF u(1,2), of "a @ b"] u(3) by auto
  have e: "uio_bytes (a @ b) u = uio_bytes a u @ uio_bytes b u1" using d1 by (simp add: uio_bytes_def take_add)
  show ?thesis using u1 u2 u3 uio_after_trans [OF u1(2) u2(2)] unfolding e by (auto simp: uio_after_def)
qed

section \<open>Property\<close>

text \<open>
  C33. \<open>uiomove\<close> is a stream operation, however the memory is cut into vectors. For a well-formed description with
  at least \<open>length buf\<close> bytes left it returns 0 and moves exactly that many: into memory when reading, the next
  bytes of memory into the buffer when writing. The residue falls and the offset grows by the amount, and what
  lies ahead is the rest. Two moves in a row are one move of both buffers, and \<open>uiomovezeros\<close> is a move of zeros.
  A description whose residue exceeds its vectors panics instead of running off the array.
\<close>

theorem uiomove_streams:
  assumes "uio_ok u" "uio_space_ok as u"
  shows "(length buf \<le> uio_resid u \<longrightarrow>
      (\<exists>u'. uiomove as buf u = Ok u' (uio_bytes buf u) \<and> uio_after (length buf) (uio_bytes buf u) u u')) \<and>
    (length a + length b \<le> uio_resid u \<longrightarrow>
      (\<exists>u1 x u2 y u3. uiomove as a u = Ok u1 x \<and> uiomove as b u1 = Ok u2 y \<and> uiomove as (a @ b) u = Ok u3 (x @ y) \<and>
        uio_got u2 = uio_got u3 \<and> uio_ahead u2 = uio_ahead u3 \<and> uio_resid u2 = uio_resid u3 \<and> uio_offset u2 = uio_offset u3)) \<and>
    (n \<le> uio_resid u \<and> uio_rw u = UIO_READ \<longrightarrow>
      (\<exists>u'. uiomovezeros as n u = Ok u' () \<and> uio_after n (replicate n 0) u u')) \<and>
    (length (uio_ahead u) < r \<and> length (uio_ahead u) < length buf \<longrightarrow> uiomove as buf (u\<lparr>uio_resid := r\<rparr>) = Panic)"
proof -
  have "length (uio_ahead u) < r \<Longrightarrow> length (uio_ahead u) < length buf \<Longrightarrow> uiomove_loop [] buf (u\<lparr>uio_resid := r\<rparr>) = Panic"
    using assms(1) by (intro uiomove_overrun) (auto simp: uio_ok_def uio_ahead_def)
  then show ?thesis
    using assms uiomove_ok [of u as buf] uiomove_twice [of u as a b] uiomovezeros_ok [of u as n]
    by (auto simp: uiomove_def kassert_def)
qed

text \<open>A read of six bytes into two user vectors of two and five bytes.\<close>

definition split_read :: uio where
  "split_read = \<lparr>uio_past = [], uio_iov = [\<lparr>iov_done = [], iov_rest = [9, 9], iov_copy = None\<rparr>,
     \<lparr>iov_done = [], iov_rest = [9, 9, 9, 9, 9], iov_copy = None\<rparr>], uio_offset = 100, uio_resid = 7,
     uio_segflg = UIO_USERSPACE, uio_rw = UIO_READ, uio_space = Some 1\<rparr>"

lemma uiomove_streams_witness:
  "\<exists>u'. uiomove (Some 1) [1, 2, 3, 4, 5, 6] split_read = Ok u' [1, 2, 3, 4, 5, 6] \<and> uio_got u' = [1, 2, 3, 4, 5, 6] \<and>
     uio_ahead u' = [9] \<and> uio_resid u' = 1 \<and> uio_offset u' = 106"
proof -
  have "uio_ok split_read" "uio_space_ok (Some 1) split_read" "length [1, 2, 3, 4, 5, 6 :: u8] \<le> uio_resid split_read"
    by (simp_all add: split_read_def uio_ok_def uio_space_ok_def uio_ahead_def)
  with uiomove_streams [of split_read "Some 1" "[1, 2, 3, 4, 5, 6]" "[]" "[]" 0 0] show ?thesis
    by (auto simp: uio_after_def uio_bytes_def uio_ahead_def uio_got_def split_read_def)
qed

end
