(* ===== verification/Lhd.thy ===== *)
theory Lhd
  imports Uio "HOL-Library.Signed_Division"
begin

text \<open>
  Block devices (\<open>kern/include/device.h\<close>) and the disk driver \<open>kern/dev/lamebus/lhd.c\<close>. The disk itself is not part
  of the sources: it is the function \<open>hw\<close>, which takes the sector register, the status value that starts an
  operation and the transfer buffer, and yields the buffer and the status register at the completion interrupt.
  What the driver relies on is the locale \<open>disk_hw\<close>. The wait for the completion interrupt is the call of
  the interrupt handler in between.

  The contract of a block device as its clients see it is the locale \<open>block_device\<close>.
\<close>

section \<open>Model\<close>

text \<open>\<open>devop_io\<close> gets \<open>proc_getas()\<close>, the device and the transfer.\<close>

type_synonym 'd devop_io = "nat option \<Rightarrow> 'd \<Rightarrow> uio \<Rightarrow> ('d \<times> uio, unit) outcome"

record 'd device =
  d_io :: "'d devop_io"
  d_blocks :: u32
  d_blocksize :: u32
  d_data :: 'd

definition LHD_SECTSIZE :: nat where "LHD_SECTSIZE = 512"

definition LHD_IDLE :: u32 where "LHD_IDLE = 0"
definition LHD_WORKING :: u32 where "LHD_WORKING = 1"
definition LHD_OK :: u32 where "LHD_OK = 4"
definition LHD_INVSECT :: u32 where "LHD_INVSECT = 12"
definition LHD_MEDIA :: u32 where "LHD_MEDIA = 20"
definition LHD_ISWRITE :: u32 where "LHD_ISWRITE = 2"
definition LHD_STATEMASK :: u32 where "LHD_STATEMASK = 29"

type_synonym 'c lhd_hw = "'c \<Rightarrow> u32 \<Rightarrow> u32 \<Rightarrow> u8 list \<Rightarrow> 'c \<times> u8 list \<times> u32"

record 'c lhd_softc =
  lh_card :: 'c
  lh_sect :: u32
  lh_stat :: u32
  lh_buf :: "u8 list"
  lh_result :: "errno option"
  lh_clear :: nat
  lh_done :: nat
  lh_blocks :: u32

definition lhd_code_to_errno :: "u32 \<Rightarrow> errno option" where
  "lhd_code_to_errno code =
     (let state = code AND LHD_STATEMASK
      in if state = LHD_OK then None
         else if state = LHD_INVSECT then Some EINVAL
         else if state = LHD_MEDIA then Some EIO
         else Some EAGAIN)"

definition lhd_iodone :: "errno option \<Rightarrow> 'c lhd_softc \<Rightarrow> 'c lhd_softc" where
  "lhd_iodone err lh = lh\<lparr>lh_result := err, lh_done := lh_done lh + 1\<rparr>"

definition lhd_irq :: "'c lhd_softc \<Rightarrow> 'c lhd_softc" where
  "lhd_irq lh =
     (let val = lh_stat lh; state = val AND LHD_STATEMASK
      in if state = LHD_IDLE \<or> state = LHD_WORKING then lh
         else if state = LHD_OK \<or> state = LHD_INVSECT \<or> state = LHD_MEDIA
         then lhd_iodone (lhd_code_to_errno val) (lh\<lparr>lh_stat := 0\<rparr>)
         else lh)"

text \<open>The card runs the operation the two registers ask for and raises its interrupt.\<close>

definition lhd_start :: "'c lhd_hw \<Rightarrow> u32 \<Rightarrow> u32 \<Rightarrow> 'c lhd_softc \<Rightarrow> 'c lhd_softc" where
  "lhd_start hw sect statval lh =
     (let (c, buf, st) = hw (lh_card lh) sect statval (lh_buf lh)
      in lhd_irq (lh\<lparr>lh_card := c, lh_sect := sect, lh_buf := buf, lh_stat := st\<rparr>))"

text \<open>A result of \<open>uiomove\<close> on the card's buffer; on failure the device is handed on.\<close>

definition lhd_move ::
    "('c lhd_softc \<Rightarrow> 'c lhd_softc) \<Rightarrow> 'c lhd_softc \<Rightarrow> (uio, u8 list) outcome \<Rightarrow> ('c lhd_softc \<times> uio, unit) outcome" where
  "lhd_move undo lh r =
     (case r of
        Ok uio buf \<Rightarrow> Ok (lh\<lparr>lh_buf := buf\<rparr>, uio) ()
      | Err uio e \<Rightarrow> Err (undo lh, uio) e
      | Panic \<Rightarrow> Panic | Fault \<Rightarrow> Fault | Blocked \<Rightarrow> Blocked)"

definition lh_clear_V :: "'c lhd_softc \<Rightarrow> 'c lhd_softc" where
  "lh_clear_V lh = lh\<lparr>lh_clear := lh_clear lh + 1\<rparr>"

text \<open>One round of the loop over the sectors, for sector \<open>sect\<close>.\<close>

definition lhd_sector :: "'c lhd_hw \<Rightarrow> nat option \<Rightarrow> u32 \<Rightarrow> u32 \<Rightarrow> 'c lhd_softc \<times> uio \<Rightarrow>
    ('c lhd_softc \<times> uio, unit) outcome" where
  "lhd_sector hw as sect statval = (\<lambda>(lh, uio).
     if lh_clear lh = 0 then Blocked
     else
       let lh = lh\<lparr>lh_clear := lh_clear lh - 1\<rparr>
       in and_then
            (if uio_rw uio = UIO_WRITE then lhd_move lh_clear_V lh (uiomove as (lh_buf lh) uio) else Ok (lh, uio) ())
            (\<lambda>(lh, uio) _.
              let lh = lhd_start hw sect statval lh
              in if lh_done lh = 0 then Blocked
                 else
                   let lh = lh\<lparr>lh_done := lh_done lh - 1\<rparr>
                   in case lh_result lh of
                        Some e \<Rightarrow> Err (lh_clear_V lh, uio) e
                      | None \<Rightarrow>
                          and_then
                            (if uio_rw uio = UIO_READ then lhd_move lh_clear_V lh (uiomove as (lh_buf lh) uio)
                             else Ok (lh, uio) ())
                            (\<lambda>(lh, uio) _. Ok (lh_clear_V lh, uio) ())))"

fun lhd_sectors :: "'c lhd_hw \<Rightarrow> nat option \<Rightarrow> u32 \<Rightarrow> u32 \<Rightarrow> nat \<Rightarrow> 'c lhd_softc \<times> uio \<Rightarrow>
    ('c lhd_softc \<times> uio, unit) outcome" where
  "lhd_sectors hw as sect statval 0 st = Ok st ()"
| "lhd_sectors hw as sect statval (Suc n) st =
     and_then (lhd_sector hw as sect statval st) (\<lambda>st _. lhd_sectors hw as (sect + 1) statval n st)"

definition lhd_io :: "'c lhd_hw \<Rightarrow> 'c lhd_softc devop_io" where
  "lhd_io hw as lh uio =
     (let sector = word_of_int (uio_offset uio sdiv int LHD_SECTSIZE);
          sectoff = (word_of_int (uio_offset uio smod int LHD_SECTSIZE) :: u32);
          len = (of_nat (uio_resid uio div LHD_SECTSIZE) :: u32);
          lenoff = uio_resid uio mod LHD_SECTSIZE
      in if sectoff \<noteq> 0 \<or> lenoff \<noteq> 0 then Err (lh, uio) EINVAL
         else if sector + len > lh_blocks lh then Err (lh, uio) EINVAL
         else
           let statval = (if uio_rw uio = UIO_WRITE then LHD_WORKING OR LHD_ISWRITE else LHD_WORKING)
           in lhd_sectors hw as sector statval (unat len) (lh, uio))"

definition lhd_eachopen :: "'d \<Rightarrow> u32 \<Rightarrow> ('d, unit) outcome" where
  "lhd_eachopen d openflags = Ok d ()"

definition lhd_ioctl :: "'d \<Rightarrow> u32 \<Rightarrow> ('d, unit) outcome" where
  "lhd_ioctl d op = Err d EIOCTL"

lemmas lhd_codes = LHD_IDLE_def LHD_WORKING_def LHD_OK_def LHD_INVSECT_def LHD_MEDIA_def LHD_ISWRITE_def
  LHD_STATEMASK_def

section \<open>The disk\<close>

text \<open>
  What the driver relies on: an operation on a valid sector completes with success or with a media error. A
  successful read delivers the sector, a successful write stores the buffer there, and no operation changes
  another sector.
\<close>

locale disk_hw =
  fixes hw :: "'c lhd_hw" and sect :: "'c \<Rightarrow> nat \<Rightarrow> u8 list" and nsect :: nat
  assumes sect_length: "length (sect c i) = LHD_SECTSIZE"
    and hw_read: "unat s < nsect \<Longrightarrow> length buf = LHD_SECTSIZE \<Longrightarrow> hw c s LHD_WORKING buf = (c', buf', st) \<Longrightarrow>
      sect c' = sect c \<and> length buf' = LHD_SECTSIZE \<and>
      (st AND LHD_STATEMASK = LHD_OK \<and> buf' = sect c (unat s) \<or> st AND LHD_STATEMASK = LHD_MEDIA)"
    and hw_write: "unat s < nsect \<Longrightarrow> length buf = LHD_SECTSIZE \<Longrightarrow>
      hw c s (LHD_WORKING OR LHD_ISWRITE) buf = (c', buf', st) \<Longrightarrow>
      length buf' = LHD_SECTSIZE \<and> (\<forall>i. i \<noteq> unat s \<longrightarrow> sect c' i = sect c i) \<and>
      (st AND LHD_STATEMASK = LHD_OK \<and> sect c' (unat s) = buf \<or> st AND LHD_STATEMASK = LHD_MEDIA)"

text \<open>The driver between requests.\<close>

definition lhd_ready :: "nat \<Rightarrow> 'c lhd_softc \<Rightarrow> bool" where
  "lhd_ready n lh \<longleftrightarrow> lh_clear lh = 1 \<and> lh_done lh = 0 \<and> length (lh_buf lh) = LHD_SECTSIZE \<and> unat (lh_blocks lh) = n"

lemma lhd_irq_done:
  "st AND LHD_STATEMASK = LHD_OK \<or> st AND LHD_STATEMASK = LHD_MEDIA \<Longrightarrow> lh_stat lh = st \<Longrightarrow>
   lhd_irq lh = lh\<lparr>lh_stat := 0, lh_done := lh_done lh + 1,
     lh_result := (if st AND LHD_STATEMASK = LHD_OK then None else Some EIO)\<rparr>"
  by (auto simp: lhd_irq_def lhd_iodone_def lhd_code_to_errno_def Let_def lhd_codes)

context disk_hw
begin

text \<open>Reading one sector: the transfer gets it, or nothing happened and the error is \<open>EIO\<close>.\<close>

lemma lhd_sector_read:
  assumes "lhd_ready nsect lh" "unat s < nsect" "uio_ok u" "uio_space_ok as u" "LHD_SECTSIZE \<le> uio_resid u"
    "uio_rw u = UIO_READ"
  shows "\<exists>lh'. lhd_ready nsect lh' \<and> sect (lh_card lh') = sect (lh_card lh) \<and> lh_blocks lh' = lh_blocks lh \<and>
    ((\<exists>u'. lhd_sector hw as s LHD_WORKING (lh, u) = Ok (lh', u') () \<and>
        uio_after LHD_SECTSIZE (sect (lh_card lh) (unat s)) u u') \<or>
     lhd_sector hw as s LHD_WORKING (lh, u) = Err (lh', u) EIO)"
proof -
  obtain c' buf' st where h: "hw (lh_card lh) s LHD_WORKING (lh_buf lh) = (c', buf', st)"
    by (cases "hw (lh_card lh) s LHD_WORKING (lh_buf lh)") auto
  have rd: "lh_clear lh = 1" "lh_done lh = 0" "length (lh_buf lh) = LHD_SECTSIZE" "unat (lh_blocks lh) = nsect"
    using assms(1) by (auto simp: lhd_ready_def)
  note r = hw_read [OF assms(2) rd(3) h]
  have nw: "uio_rw u \<noteq> UIO_WRITE" using assms(6) by simp
  show ?thesis
  proof (cases "st AND LHD_STATEMASK = LHD_OK")
    case True
    then have b: "buf' = sect (lh_card lh) (unat s)" using r by (auto simp: lhd_codes)
    have ub: "uio_bytes buf' u = buf'" using assms(6) by (simp add: uio_bytes_def)
    obtain u' where u': "uiomove as buf' u = Ok u' buf'" "uio_after LHD_SECTSIZE buf' u u'"
      using uiomove_ok [OF assms(3,4), of buf'] assms(5) r ub by auto
    show ?thesis using rd r nw assms(6) True u' b
      by (auto simp: lhd_sector_def lhd_start_def h lhd_irq_done [OF disjI1, OF True] lhd_move_def lh_clear_V_def lhd_ready_def)
  next
    case False
    then have m: "st AND LHD_STATEMASK = LHD_MEDIA" using r by auto
    show ?thesis using rd r nw False
      by (auto simp: lhd_sector_def lhd_start_def h lhd_irq_done [OF disjI2, OF m] lh_clear_V_def lhd_ready_def)
  qed
qed

text \<open>
  Writing one sector: the transfer is consumed in either case; after an error only the sector asked for is in doubt.
\<close>

lemma lhd_sector_write:
  assumes "lhd_ready nsect lh" "unat s < nsect" "uio_ok u" "uio_space_ok as u" "LHD_SECTSIZE \<le> uio_resid u"
    "uio_rw u = UIO_WRITE"
  defines "b \<equiv> take LHD_SECTSIZE (uio_ahead u)"
  shows "\<exists>lh' u'. lhd_ready nsect lh' \<and> lh_blocks lh' = lh_blocks lh \<and> uio_after LHD_SECTSIZE b u u' \<and>
    (\<forall>i. i \<noteq> unat s \<longrightarrow> sect (lh_card lh') i = sect (lh_card lh) i) \<and>
    lh_card lh' = fst (hw (lh_card lh) s (LHD_WORKING OR LHD_ISWRITE) b) \<and>
    (if snd (snd (hw (lh_card lh) s (LHD_WORKING OR LHD_ISWRITE) b)) AND LHD_STATEMASK = LHD_OK
     then lhd_sector hw as s (LHD_WORKING OR LHD_ISWRITE) (lh, u) = Ok (lh', u') () \<and> sect (lh_card lh') (unat s) = b
     else lhd_sector hw as s (LHD_WORKING OR LHD_ISWRITE) (lh, u) = Err (lh', u') EIO)"
proof -
  have rd: "lh_clear lh = 1" "lh_done lh = 0" "length (lh_buf lh) = LHD_SECTSIZE" "unat (lh_blocks lh) = nsect"
    using assms(1) by (auto simp: lhd_ready_def)
  have b: "length b = LHD_SECTSIZE" using assms(3,5) by (simp add: b_def uio_ok_def)
  obtain c' buf' st where h: "hw (lh_card lh) s (LHD_WORKING OR LHD_ISWRITE) b = (c', buf', st)"
    by (cases "hw (lh_card lh) s (LHD_WORKING OR LHD_ISWRITE) b") auto
  note r = hw_write [OF assms(2) b h]
  have ub: "uio_bytes (lh_buf lh) u = b" using assms(6) rd(3) by (simp add: uio_bytes_def b_def)
  obtain u' where u': "uiomove as (lh_buf lh) u = Ok u' b" "uio_after LHD_SECTSIZE b u u'"
    using uiomove_ok [OF assms(3,4), of "lh_buf lh"] assms(5) rd(3) ub by auto
  have w: "uio_rw u' = UIO_WRITE" using uio_afterD(7) [OF u'(2)] assms(6) by simp
  show ?thesis
  proof (cases "st AND LHD_STATEMASK = LHD_OK")
    case True
    show ?thesis using rd r assms(6) True u' h w
      by (auto simp: lhd_sector_def lhd_start_def lhd_irq_done [OF disjI1, OF True] lhd_move_def lh_clear_V_def lhd_ready_def lhd_codes)
  next
    case False
    then have m: "st AND LHD_STATEMASK = LHD_MEDIA" using r by auto
    show ?thesis using rd r assms(6) False u' h w
      by (auto simp: lhd_sector_def lhd_start_def lhd_irq_done [OF disjI2, OF m] lhd_move_def lh_clear_V_def lhd_ready_def)
  qed
qed

end

section \<open>Block devices\<close>

text \<open>
  The contract of \<open>DEVOP_IO\<close> for transfers of one block: a read delivers the block or fails with \<open>EIO\<close> and leaves
  the transfer untouched; a write stores the block or fails with \<open>EIO\<close> with the transfer used up; a transfer of
  nothing succeeds.
\<close>

locale block_device =
  fixes io :: "'d devop_io" and sect :: "'d \<Rightarrow> nat \<Rightarrow> u8 list" and nsect :: nat and ready :: "'d \<Rightarrow> bool"
  assumes block_length: "length (sect d b) = LHD_SECTSIZE"
    and io_read: "ready d \<Longrightarrow> b < nsect \<Longrightarrow> uio_ok u \<Longrightarrow> uio_space_ok as u \<Longrightarrow> uio_resid u = LHD_SECTSIZE \<Longrightarrow>
      uio_offset u = int (b * LHD_SECTSIZE) \<Longrightarrow> uio_rw u = UIO_READ \<Longrightarrow>
      \<exists>d'. ready d' \<and> sect d' = sect d \<and>
        ((\<exists>u'. io as d u = Ok (d', u') () \<and> uio_after LHD_SECTSIZE (sect d b) u u') \<or> io as d u = Err (d', u) EIO)"
    and io_write: "ready d \<Longrightarrow> b < nsect \<Longrightarrow> uio_ok u \<Longrightarrow> uio_space_ok as u \<Longrightarrow> uio_resid u = LHD_SECTSIZE \<Longrightarrow>
      uio_offset u = int (b * LHD_SECTSIZE) \<Longrightarrow> uio_rw u = UIO_WRITE \<Longrightarrow>
      \<exists>d' u'. ready d' \<and> (\<forall>i. i \<noteq> b \<longrightarrow> sect d' i = sect d i) \<and> uio_after LHD_SECTSIZE (take LHD_SECTSIZE (uio_ahead u)) u u' \<and>
        (io as d u = Ok (d', u') () \<and> sect d' b = take LHD_SECTSIZE (uio_ahead u) \<or> io as d u = Err (d', u') EIO)"
    and io_nothing: "ready d \<Longrightarrow> b \<le> nsect \<Longrightarrow> uio_resid u = 0 \<Longrightarrow> uio_offset u = int (b * LHD_SECTSIZE) \<Longrightarrow>
      io as d u = Ok (d, u) ()"

locale reliable_device = block_device +
  assumes write_ok: "ready d \<Longrightarrow> b < nsect \<Longrightarrow> uio_ok u \<Longrightarrow> uio_space_ok as u \<Longrightarrow> uio_resid u = LHD_SECTSIZE \<Longrightarrow>
      uio_offset u = int (b * LHD_SECTSIZE) \<Longrightarrow> uio_rw u = UIO_WRITE \<Longrightarrow> io as d u \<noteq> Err st e"

lemma lhd_offset:
  "int (b * LHD_SECTSIZE) sdiv int LHD_SECTSIZE = int b" "int (b * LHD_SECTSIZE) smod int LHD_SECTSIZE = 0"
  by (simp_all add: LHD_SECTSIZE_def signed_divide_int_def signed_modulo_int_def sgn_if)

lemma lhd_io_one:
  assumes "lhd_ready n lh" "b < n" "uio_resid u = LHD_SECTSIZE" "uio_offset u = int (b * LHD_SECTSIZE)"
  shows "lhd_io hw as lh u =
    lhd_sector hw as (of_nat b) (if uio_rw u = UIO_WRITE then LHD_WORKING OR LHD_ISWRITE else LHD_WORKING) (lh, u)"
proof -
  have n: "n < 4294967296" using assms(1) unat_less_32 [of "lh_blocks lh"] by (simp add: lhd_ready_def)
  have "unat (of_nat b + 1 :: u32) = Suc b"
    using assms(2) n unat_of_nat_32 [of "Suc b"] by (simp add: add.commute)
  then have lt: "\<not> (of_nat b + 1 > lh_blocks lh)" using assms(1,2) by (simp add: word_less_nat_alt lhd_ready_def)
  have o: "word_of_int (uio_offset u sdiv int LHD_SECTSIZE) = (of_nat b :: u32)"
    "word_of_int (uio_offset u smod int LHD_SECTSIZE) = (0 :: u32)" by (simp_all only: assms(4) lhd_offset) simp_all
  have l: "of_nat (uio_resid u div LHD_SECTSIZE) = (1 :: u32)" "uio_resid u mod LHD_SECTSIZE = 0"
    using assms(3) by (simp_all add: LHD_SECTSIZE_def)
  have e: "and_then m Ok = m" for m :: "('x, unit) outcome" by (cases m) auto
  show ?thesis unfolding lhd_io_def Let_def o l using lt by (simp add: e)
qed

lemma lhd_io_none:
  assumes "lhd_ready n lh" "b \<le> n" "uio_resid u = 0" "uio_offset u = int (b * LHD_SECTSIZE)"
  shows "lhd_io hw as lh u = Ok (lh, u) ()"
proof -
  have n: "n < 4294967296" using assms(1) unat_less_32 [of "lh_blocks lh"] by (simp add: lhd_ready_def)
  then have lt: "\<not> (of_nat b > lh_blocks lh)"
    using assms(1,2) by (simp add: word_less_nat_alt lhd_ready_def unat_of_nat_32)
  have o: "word_of_int (uio_offset u sdiv int LHD_SECTSIZE) = (of_nat b :: u32)"
    "word_of_int (uio_offset u smod int LHD_SECTSIZE) = (0 :: u32)" by (simp_all only: assms(4) lhd_offset) simp_all
  show ?thesis unfolding lhd_io_def Let_def o using lt assms(3) by simp
qed

lemma unat_sector: "lhd_ready n lh \<Longrightarrow> b < n \<Longrightarrow> unat (of_nat b :: u32) = b"
  using unat_less_32 [of "lh_blocks lh"] by (simp add: lhd_ready_def unat_of_nat_32)

sublocale disk_hw \<subseteq> disk: block_device "lhd_io hw" "\<lambda>lh. sect (lh_card lh)" nsect "lhd_ready nsect"
proof unfold_locales
  show "length (sect (lh_card d) b) = LHD_SECTSIZE" for d :: "'c lhd_softc" and b by (rule sect_length)
  fix d :: "'c lhd_softc" and b as and u :: uio
  assume h: "lhd_ready nsect d"
  show "b \<le> nsect \<Longrightarrow> uio_resid u = 0 \<Longrightarrow> uio_offset u = int (b * LHD_SECTSIZE) \<Longrightarrow> lhd_io hw as d u = Ok (d, u) ()"
    using lhd_io_none [OF h] by blast
  assume b: "b < nsect" and u: "uio_ok u" "uio_space_ok as u" and r: "uio_resid u = LHD_SECTSIZE"
    and o: "uio_offset u = int (b * LHD_SECTSIZE)"
  have s: "unat (of_nat b :: u32) = b" by (rule unat_sector [OF h b])
  then have s': "unat (of_nat b :: u32) < nsect" using b by simp
  note one = lhd_io_one [OF h b r o, of hw as]
  show "\<exists>d'. lhd_ready nsect d' \<and> sect (lh_card d') = sect (lh_card d) \<and>
      ((\<exists>u'. lhd_io hw as d u = Ok (d', u') () \<and> uio_after LHD_SECTSIZE (sect (lh_card d) b) u u') \<or>
       lhd_io hw as d u = Err (d', u) EIO)" if rw: "uio_rw u = UIO_READ"
    using lhd_sector_read [OF h s' u _ rw] r unfolding one rw s by auto
  show "\<exists>d' u'. lhd_ready nsect d' \<and> (\<forall>i. i \<noteq> b \<longrightarrow> sect (lh_card d') i = sect (lh_card d) i) \<and>
      uio_after LHD_SECTSIZE (take LHD_SECTSIZE (uio_ahead u)) u u' \<and>
      (lhd_io hw as d u = Ok (d', u') () \<and> sect (lh_card d') b = take LHD_SECTSIZE (uio_ahead u) \<or>
       lhd_io hw as d u = Err (d', u') EIO)" if rw: "uio_rw u = UIO_WRITE"
    using lhd_sector_write [OF h s' u _ rw] r unfolding one rw s by (auto split: if_splits)
qed

context disk_hw
begin

lemma lhd_block_device: "block_device (lhd_io hw) (\<lambda>lh. sect (lh_card lh)) nsect (lhd_ready nsect)"
  by unfold_locales

end

text \<open>A disk whose writes succeed.\<close>

locale sound_disk_hw = disk_hw +
  assumes hw_write_ok: "unat s < nsect \<Longrightarrow> length buf = LHD_SECTSIZE \<Longrightarrow>
    snd (snd (hw c s (LHD_WORKING OR LHD_ISWRITE) buf)) AND LHD_STATEMASK = LHD_OK"

sublocale sound_disk_hw \<subseteq> sound_disk: reliable_device "lhd_io hw" "\<lambda>lh. sect (lh_card lh)" nsect "lhd_ready nsect"
proof unfold_locales
  fix d :: "'a lhd_softc" and b as u st e
  assume h: "lhd_ready nsect d" "b < nsect" and u: "uio_ok u" "uio_space_ok as u" "uio_resid u = LHD_SECTSIZE"
    "uio_offset u = int (b * LHD_SECTSIZE)" "uio_rw u = UIO_WRITE"
  have s: "unat (of_nat b :: u32) < nsect" using unat_sector [OF h] h(2) by simp
  have l: "length (take LHD_SECTSIZE (uio_ahead u)) = LHD_SECTSIZE" using u by (simp add: uio_ok_def)
  show "lhd_io hw as d u \<noteq> Err st e"
    using lhd_sector_write [OF h(1) s u(1,2) _ u(5)] hw_write_ok [OF s l] u(3) unfolding lhd_io_one [OF h u(3,4)] u(5) by auto
qed

context sound_disk_hw
begin

lemma lhd_reliable_device: "reliable_device (lhd_io hw) (\<lambda>lh. sect (lh_card lh)) nsect (lhd_ready nsect)"
  by unfold_locales

end

text \<open>
  A disk that answers every operation on a valid sector with success, and one that reports a media error for the
  operations its list of answers marks.
\<close>

definition disk_sect :: "(nat \<Rightarrow> u8 list) \<Rightarrow> nat \<Rightarrow> u8 list" where
  "disk_sect c i = take LHD_SECTSIZE (c i @ replicate LHD_SECTSIZE 0)"

definition plain_disk :: "(nat \<Rightarrow> u8 list) lhd_hw" where
  "plain_disk c s statval buf =
     (if statval AND LHD_ISWRITE \<noteq> 0 then (c(unat s := buf), buf, LHD_OK OR LHD_ISWRITE)
      else (c, disk_sect c (unat s), LHD_OK))"

definition worn_disk :: "((nat \<Rightarrow> u8 list) \<times> bool list) lhd_hw" where
  "worn_disk st s statval buf =
     (case st of
        (c, True # bad) \<Rightarrow> ((c, bad), buf, LHD_MEDIA)
      | (c, bad) \<Rightarrow> (case plain_disk c s statval buf of (c', buf', code) \<Rightarrow> ((c', drop 1 bad), buf', code)))"

lemma disk_sect_length [simp]: "length (disk_sect c i) = LHD_SECTSIZE"
  by (simp add: disk_sect_def)

lemma disk_sect_upd: "length buf = LHD_SECTSIZE \<Longrightarrow> disk_sect (c(j := buf)) i = (if i = j then buf else disk_sect c i)"
  by (simp add: disk_sect_def)

interpretation plain: sound_disk_hw plain_disk disk_sect n for n
  by unfold_locales (auto simp: plain_disk_def lhd_codes disk_sect_upd)

interpretation worn: disk_hw worn_disk "\<lambda>st. disk_sect (fst st)" n for n
  by unfold_locales (auto simp: worn_disk_def plain_disk_def lhd_codes disk_sect_upd split: list.splits bool.splits prod.splits)

end
