(* ===== verification/Sfs_Disk.thy ===== *)
theory Sfs_Disk
  imports Bitmap Lhd
begin

text \<open>
  The bottom of the simple file system \<open>kern/fs/sfs\<close>: the on-disk structures of \<open>kern/include/kern/sfs.h\<close> and their
  big-endian layout, the in-memory state of a volume, block transfers with retries (\<open>sfs_io.c\<close>) and the
  allocation of blocks (\<open>sfs_balloc.c\<close>). The device is the one of the volume, called through its
  \<open>devop_io\<close>; the lemmas are proved for every device with the contract \<open>block_device\<close> or \<open>reliable_device\<close>.
\<close>

section \<open>On-disk structures\<close>

definition SFS_MAGIC :: u32 where "SFS_MAGIC = 0xabadf001"
definition SFS_BLOCKSIZE :: nat where "SFS_BLOCKSIZE = 512"
definition SFS_VOLNAME_SIZE :: nat where "SFS_VOLNAME_SIZE = 32"
definition SFS_NDIRECT :: nat where "SFS_NDIRECT = 15"
definition SFS_NINDIRECT :: nat where "SFS_NINDIRECT = 1"
definition SFS_DBPERIDB :: nat where "SFS_DBPERIDB = 128"
definition SFS_NAMELEN :: nat where "SFS_NAMELEN = 60"
definition SFS_SUPER_BLOCK :: u32 where "SFS_SUPER_BLOCK = 0"
definition SFS_FREEMAP_START :: u32 where "SFS_FREEMAP_START = 2"
definition SFS_NOINO :: u32 where "SFS_NOINO = 0"
definition SFS_ROOTDIR_INO :: u32 where "SFS_ROOTDIR_INO = 1"
definition SFS_TYPE_INVAL :: u16 where "SFS_TYPE_INVAL = 0"
definition SFS_TYPE_FILE :: u16 where "SFS_TYPE_FILE = 1"
definition SFS_TYPE_DIR :: u16 where "SFS_TYPE_DIR = 2"

lemmas sfs_sizes = SFS_BLOCKSIZE_def SFS_NDIRECT_def SFS_NINDIRECT_def SFS_DBPERIDB_def SFS_NAMELEN_def
  SFS_VOLNAME_SIZE_def LHD_SECTSIZE_def

record sfs_superblock =
  sb_magic :: u32
  sb_nblocks :: u32
  sb_volname :: "u8 list"
  sb_reserved :: "u32 list"

record sfs_dinode =
  sfi_size :: u32
  sfi_type :: u16
  sfi_linkcount :: u16
  sfi_direct :: "u32 list"
  sfi_indirect :: u32
  sfi_waste :: "u32 list"

record sfs_direntry =
  sfd_ino :: u32
  sfd_name :: "u8 list"

text \<open>Big-endian integers in memory.\<close>

definition be16 :: "u16 \<Rightarrow> u8 list" where
  "be16 w = [ucast (drop_bit 8 w), ucast w]"

definition be32 :: "u32 \<Rightarrow> u8 list" where
  "be32 w = [ucast (drop_bit 24 w), ucast (drop_bit 16 w), ucast (drop_bit 8 w), ucast w]"

fun load16 :: "u8 list \<Rightarrow> u16" where
  "load16 (a # b # _) = push_bit 8 (ucast a) OR ucast b"
| "load16 _ = 0"

fun load32 :: "u8 list \<Rightarrow> u32" where
  "load32 (a # b # c # d # _) = push_bit 24 (ucast a) OR push_bit 16 (ucast b) OR push_bit 8 (ucast c) OR ucast d"
| "load32 _ = 0"

fun load_words :: "u8 list \<Rightarrow> u32 list" where
  "load_words (a # b # c # d # bytes) = load32 [a, b, c, d] # load_words bytes"
| "load_words _ = []"

definition store_words :: "u32 list \<Rightarrow> u8 list" where
  "store_words ws = concat (map be32 ws)"

definition store_superblock :: "sfs_superblock \<Rightarrow> u8 list" where
  "store_superblock sb = be32 (sb_magic sb) @ be32 (sb_nblocks sb) @ sb_volname sb @ store_words (sb_reserved sb)"

definition load_superblock :: "u8 list \<Rightarrow> sfs_superblock" where
  "load_superblock bs =
     \<lparr>sb_magic = load32 bs, sb_nblocks = load32 (drop 4 bs), sb_volname = take SFS_VOLNAME_SIZE (drop 8 bs),
      sb_reserved = load_words (drop (8 + SFS_VOLNAME_SIZE) bs)\<rparr>"

definition store_dinode :: "sfs_dinode \<Rightarrow> u8 list" where
  "store_dinode di = be32 (sfi_size di) @ be16 (sfi_type di) @ be16 (sfi_linkcount di) @ store_words (sfi_direct di) @
     be32 (sfi_indirect di) @ store_words (sfi_waste di)"

definition load_dinode :: "u8 list \<Rightarrow> sfs_dinode" where
  "load_dinode bs =
     \<lparr>sfi_size = load32 bs, sfi_type = load16 (drop 4 bs), sfi_linkcount = load16 (drop 6 bs),
      sfi_direct = load_words (take (4 * SFS_NDIRECT) (drop 8 bs)), sfi_indirect = load32 (drop (8 + 4 * SFS_NDIRECT) bs),
      sfi_waste = load_words (drop (12 + 4 * SFS_NDIRECT) bs)\<rparr>"

definition store_direntry :: "sfs_direntry \<Rightarrow> u8 list" where
  "store_direntry sd = be32 (sfd_ino sd) @ sfd_name sd"

definition load_direntry :: "u8 list \<Rightarrow> sfs_direntry" where
  "load_direntry bs = \<lparr>sfd_ino = load32 bs, sfd_name = drop 4 bs\<rparr>"

section \<open>The in-memory state\<close>

datatype sfs_ops = sfs_fileops | sfs_dirops

record sfs_vnode =
  vn_refcount :: int
  vn_ops :: sfs_ops
  sv_i :: sfs_dinode
  sv_ino :: u32
  sv_dirty :: bool

text \<open>
  A mounted volume, with two globals the code consults: the depth to which the caller holds the big lock of the
  file systems, and \<open>proc_getas()\<close>. Vnodes in the table are named by their addresses.
\<close>

record 'd sfs_fs =
  sfs_sb :: sfs_superblock
  sfs_superdirty :: bool
  sfs_device :: "'d device"
  sfs_vnodes :: "nat list"
  sfs_freemap :: bitmap
  sfs_freemapdirty :: bool
  vfs_biglock_depth :: nat
  proc_as :: "nat option"

definition vfs_biglock_do_i_hold :: "'d sfs_fs \<Rightarrow> bool" where
  "vfs_biglock_do_i_hold sfs \<longleftrightarrow> 0 < vfs_biglock_depth sfs"

section \<open>Block transfers\<close>

definition set_disk :: "'d sfs_fs \<Rightarrow> 'd \<Rightarrow> 'd sfs_fs" where
  "set_disk sfs d = sfs\<lparr>sfs_device := (sfs_device sfs)\<lparr>d_data := d\<rparr>\<rparr>"

definition DEVOP_IO :: "'d sfs_fs \<times> uio \<Rightarrow> ('d sfs_fs \<times> uio, unit) outcome" where
  "DEVOP_IO = (\<lambda>(sfs, uio).
     map_outcome (\<lambda>(d, uio). (set_disk sfs d, uio)) id
       (d_io (sfs_device sfs) (proc_as sfs) (d_data (sfs_device sfs)) uio))"

function sfs_rwblock_try :: "nat \<Rightarrow> 'd sfs_fs \<times> uio \<Rightarrow> ('d sfs_fs \<times> uio, unit) outcome" where
  "sfs_rwblock_try tries st =
     (case DEVOP_IO st of
        Err st e \<Rightarrow>
          if e = EINVAL then Panic
          else if e = EIO \<and> tries < 10 then sfs_rwblock_try (tries + 1) st
          else Err st e
      | r \<Rightarrow> r)"
  by pat_completeness auto
termination by (relation "measure (\<lambda>(tries, st). 10 - tries)") auto
declare sfs_rwblock_try.simps [simp del]

definition sfs_rwblock :: "'d sfs_fs \<times> uio \<Rightarrow> ('d sfs_fs \<times> uio, unit) outcome" where
  "sfs_rwblock = (\<lambda>(sfs, uio). kassert (vfs_biglock_do_i_hold sfs) (sfs_rwblock_try 0 (sfs, uio)))"

definition sfsuio :: "u8 list \<Rightarrow> u32 \<Rightarrow> uio_rw \<Rightarrow> uio" where
  "sfsuio ptr block rw = uio_kinit ptr (int (unat block) * int SFS_BLOCKSIZE) rw"

text \<open>The result of a read is the buffer, which holds \<open>data\<close> before.\<close>

definition sfs_readblock :: "u32 \<Rightarrow> u8 list \<Rightarrow> 'd sfs_fs \<Rightarrow> ('d sfs_fs, u8 list) outcome" where
  "sfs_readblock block data sfs =
     kassert (length data = SFS_BLOCKSIZE)
       (case sfs_rwblock (sfs, sfsuio data block UIO_READ) of
          Ok (sfs, uio) _ \<Rightarrow> Ok sfs (uio_got uio @ uio_ahead uio)
        | Err (sfs, uio) e \<Rightarrow> Err sfs e
        | Panic \<Rightarrow> Panic | Fault \<Rightarrow> Fault | Blocked \<Rightarrow> Blocked)"

definition sfs_writeblock :: "u32 \<Rightarrow> u8 list \<Rightarrow> 'd sfs_fs \<Rightarrow> ('d sfs_fs, unit) outcome" where
  "sfs_writeblock block data sfs =
     kassert (length data = SFS_BLOCKSIZE) (map_outcome fst id (sfs_rwblock (sfs, sfsuio data block UIO_WRITE)))"

section \<open>Allocation of blocks\<close>

definition set_freemap :: "bitmap \<Rightarrow> 'd sfs_fs \<Rightarrow> 'd sfs_fs" where
  "set_freemap b sfs = sfs\<lparr>sfs_freemap := b\<rparr>"

definition sfs_clearblock :: "u32 \<Rightarrow> 'd sfs_fs \<Rightarrow> ('d sfs_fs, unit) outcome" where
  "sfs_clearblock block sfs = sfs_writeblock block (replicate SFS_BLOCKSIZE 0) sfs"

definition sfs_balloc :: "'d sfs_fs \<Rightarrow> ('d sfs_fs, u32) outcome" where
  "sfs_balloc sfs =
     and_then (map_outcome (\<lambda>b. set_freemap b sfs) id (bitmap_alloc (sfs_freemap sfs)))
       (\<lambda>sfs diskblock.
         let sfs = sfs\<lparr>sfs_freemapdirty := True\<rparr>
         in if diskblock \<ge> sb_nblocks (sfs_sb sfs) then Panic
            else case sfs_clearblock diskblock sfs of
                   Ok sfs _ \<Rightarrow> Ok sfs diskblock
                 | Err sfs e \<Rightarrow>
                     and_then (map_outcome (\<lambda>b. set_freemap b sfs) id (bitmap_unmark (sfs_freemap sfs) diskblock))
                       (\<lambda>sfs _. Err sfs e)
                 | Panic \<Rightarrow> Panic | Fault \<Rightarrow> Fault | Blocked \<Rightarrow> Blocked)"

definition sfs_bfree :: "u32 \<Rightarrow> 'd sfs_fs \<Rightarrow> ('d sfs_fs, unit) outcome" where
  "sfs_bfree diskblock sfs =
     and_then (map_outcome (\<lambda>b. set_freemap b sfs) id (bitmap_unmark (sfs_freemap sfs) diskblock))
       (\<lambda>sfs _. Ok (sfs\<lparr>sfs_freemapdirty := True\<rparr>) ())"

definition sfs_bused :: "u32 \<Rightarrow> 'd sfs_fs \<Rightarrow> ('d sfs_fs, bool) outcome" where
  "sfs_bused diskblock sfs =
     (if diskblock \<ge> sb_nblocks (sfs_sb sfs) then Panic
      else map_outcome (\<lambda>b. set_freemap b sfs) id (bitmap_isset (sfs_freemap sfs) diskblock))"

section \<open>Layout\<close>

lemma load32_be32: "load32 (be32 w @ r) = w"
proof (rule bit_word_eqI)
  fix n assume "n < LENGTH(32)"
  then consider "n < 8" | "8 \<le> n" "n < 16" | "16 \<le> n" "n < 24" | "24 \<le> n" "n < 32" by fastforce
  then show "bit (load32 (be32 w @ r)) n = bit w n"
    by cases (auto simp: be32_def bit_or_iff bit_push_bit_iff bit_unsigned_iff bit_drop_bit_eq)
qed

lemma load16_be16: "load16 (be16 w @ r) = w"
proof (rule bit_word_eqI)
  fix n assume "n < LENGTH(16)"
  then show "bit (load16 (be16 w @ r)) n = bit w n"
    by (auto simp: be16_def bit_or_iff bit_push_bit_iff bit_unsigned_iff bit_drop_bit_eq)
qed

lemma bit_u8_far: "8 \<le> n \<Longrightarrow> \<not> bit (w :: u8) n"
  using bit_imp_le_length [of w n] by auto

lemma be32_load32: "be32 (load32 [a, b, c, d]) = [a, b, c, d]"
  by (auto simp: be32_def bit_or_iff bit_push_bit_iff bit_unsigned_iff bit_drop_bit_eq bit_u8_far intro!: bit_word_eqI)

lemma be16_load16: "be16 (load16 [a, b]) = [a, b]"
  by (auto simp: be16_def bit_or_iff bit_push_bit_iff bit_unsigned_iff bit_drop_bit_eq bit_u8_far intro!: bit_word_eqI)

lemma length_be [simp]: "length (be32 w) = 4" "length (be16 h) = 2"
  by (simp_all add: be32_def be16_def)

lemma length_store_words [simp]: "length (store_words ws) = 4 * length ws"
  by (induction ws) (simp_all add: store_words_def)

lemma load_store_words [simp]: "load_words (store_words ws) = ws"
proof (induction ws)
  case (Cons w ws)
  have "load_words (be32 w @ r) = load32 (be32 w @ []) # load_words r" for r by (simp add: be32_def)
  then show ?case using Cons by (simp only: store_words_def load32_be32) simp
qed (simp add: store_words_def)

lemma store_load_words: "4 dvd length bs \<Longrightarrow> store_words (load_words bs) = bs"
  by (induction bs rule: load_words.induct) (auto simp: store_words_def be32_load32 dvd_eq_mod_eq_0 simp del: load32.simps)

lemma length_load_words: "length (load_words bs) = length bs div 4"
  by (induction bs rule: load_words.induct) auto

text \<open>The shape of the structures: what their C types say.\<close>

definition dinode_wf :: "sfs_dinode \<Rightarrow> bool" where
  "dinode_wf di \<longleftrightarrow> length (sfi_direct di) = SFS_NDIRECT \<and> length (sfi_waste di) = 128 - 3 - SFS_NDIRECT"

definition superblock_wf :: "sfs_superblock \<Rightarrow> bool" where
  "superblock_wf sb \<longleftrightarrow> length (sb_volname sb) = SFS_VOLNAME_SIZE \<and> length (sb_reserved sb) = 118"

definition direntry_wf :: "sfs_direntry \<Rightarrow> bool" where
  "direntry_wf sd \<longleftrightarrow> length (sfd_name sd) = SFS_NAMELEN"

lemma length_store_dinode [simp]: "dinode_wf di \<Longrightarrow> length (store_dinode di) = SFS_BLOCKSIZE"
  by (simp add: dinode_wf_def store_dinode_def sfs_sizes)

lemma length_store_superblock [simp]: "superblock_wf sb \<Longrightarrow> length (store_superblock sb) = SFS_BLOCKSIZE"
  by (simp add: superblock_wf_def store_superblock_def sfs_sizes)

lemma length_store_direntry [simp]: "direntry_wf sd \<Longrightarrow> length (store_direntry sd) = 64"
  by (simp add: direntry_wf_def store_direntry_def sfs_sizes)

lemma drop_be32 [simp]: "drop n (be32 w @ r) = drop (n - 4) r" if "4 \<le> n"
  using that by simp

lemma load_store_dinode: "dinode_wf di \<Longrightarrow> load_dinode (store_dinode di) = di"
  using load16_be16 [of _ "[]"]
  by (simp add: dinode_wf_def store_dinode_def load_dinode_def load32_be32 load16_be16 sfs_sizes)

lemma load_store_superblock: "superblock_wf sb \<Longrightarrow> load_superblock (store_superblock sb) = sb"
  by (simp add: superblock_wf_def store_superblock_def load_superblock_def load32_be32 sfs_sizes)

lemma load_store_direntry: "load_direntry (store_direntry sd) = sd"
  by (simp add: store_direntry_def load_direntry_def load32_be32)

lemma dinode_wf_load: "length bs = SFS_BLOCKSIZE \<Longrightarrow> dinode_wf (load_dinode bs)"
  by (simp add: dinode_wf_def load_dinode_def length_load_words sfs_sizes)

lemma direntry_wf_load: "length bs = 64 \<Longrightarrow> direntry_wf (load_direntry bs)"
  by (simp add: direntry_wf_def load_direntry_def sfs_sizes)

section \<open>Block transfers on a device\<close>

text \<open>The device of a volume: its operations, its size, and that the volume fits on it.\<close>

abbreviation disk_of :: "'d sfs_fs \<Rightarrow> 'd" where
  "disk_of sfs \<equiv> d_data (sfs_device sfs)"

definition on_device :: "'d devop_io \<Rightarrow> nat \<Rightarrow> ('d \<Rightarrow> bool) \<Rightarrow> 'd sfs_fs \<Rightarrow> bool" where
  "on_device io nsect ready sfs \<longleftrightarrow> d_io (sfs_device sfs) = io \<and> ready (disk_of sfs) \<and>
     unat (sb_nblocks (sfs_sb sfs)) \<le> nsect \<and> unat (sb_nblocks (sfs_sb sfs)) \<le> 2 ^ 23 \<and> vfs_biglock_do_i_hold sfs"

lemma set_disk_simps [simp]:
  "sfs_sb (set_disk sfs d) = sfs_sb sfs" "sfs_superdirty (set_disk sfs d) = sfs_superdirty sfs"
  "disk_of (set_disk sfs d) = d" "d_io (sfs_device (set_disk sfs d)) = d_io (sfs_device sfs)"
  "sfs_vnodes (set_disk sfs d) = sfs_vnodes sfs" "sfs_freemap (set_disk sfs d) = sfs_freemap sfs"
  "sfs_freemapdirty (set_disk sfs d) = sfs_freemapdirty sfs" "vfs_biglock_depth (set_disk sfs d) = vfs_biglock_depth sfs"
  "proc_as (set_disk sfs d) = proc_as sfs" "set_disk (set_disk sfs d) d' = set_disk sfs d'"
  "vfs_biglock_do_i_hold (set_disk sfs d) = vfs_biglock_do_i_hold sfs"
  by (simp_all add: set_disk_def vfs_biglock_do_i_hold_def)

lemma on_device_set_disk [simp]: "on_device io nsect ready sfs \<Longrightarrow> ready d \<Longrightarrow> on_device io nsect ready (set_disk sfs d)"
  by (simp add: on_device_def)

lemma DEVOP_IO_on: "on_device io nsect ready sfs \<Longrightarrow>
    DEVOP_IO (sfs, u) = map_outcome (\<lambda>(d, u). (set_disk sfs d, u)) id (io (proc_as sfs) (disk_of sfs) u)"
  by (simp add: DEVOP_IO_def on_device_def)

text \<open>A transfer of one block at the place of block \<open>b\<close>.\<close>

definition block_uio :: "nat option \<Rightarrow> nat \<Rightarrow> uio \<Rightarrow> bool" where
  "block_uio as b u \<longleftrightarrow> uio_ok u \<and> uio_space_ok as u \<and> uio_resid u = LHD_SECTSIZE \<and> uio_offset u = int (b * LHD_SECTSIZE)"

lemma block_uio_sfsuio: "length data = SFS_BLOCKSIZE \<Longrightarrow> block_uio as (unat b) (sfsuio data b rw)"
  by (simp add: block_uio_def sfsuio_def sfs_sizes)

context block_device
begin

lemma rwblock_try_read:
  "on_device io nsect ready sfs \<Longrightarrow> b < nsect \<Longrightarrow> block_uio (proc_as sfs) b u \<Longrightarrow> uio_rw u = UIO_READ \<Longrightarrow>
   \<exists>d'. ready d' \<and> sect d' = sect (disk_of sfs) \<and>
     ((\<exists>u'. sfs_rwblock_try tries (sfs, u) = Ok (set_disk sfs d', u') () \<and> uio_after LHD_SECTSIZE (sect (disk_of sfs) b) u u') \<or>
      sfs_rwblock_try tries (sfs, u) = Err (set_disk sfs d', u) EIO)"
proof (induction "10 - tries" arbitrary: tries sfs)
  case (0 tries sfs)
  obtain d' where d': "ready d'" "sect d' = sect (disk_of sfs)"
      "(\<exists>u'. io (proc_as sfs) (disk_of sfs) u = Ok (d', u') () \<and> uio_after LHD_SECTSIZE (sect (disk_of sfs) b) u u') \<or>
       io (proc_as sfs) (disk_of sfs) u = Err (d', u) EIO"
    using io_read [of "disk_of sfs" b u "proc_as sfs"] "0.prems" by (auto simp: on_device_def block_uio_def)
  then show ?case using "0.hyps" "0.prems"
    by (intro exI [of _ d']) (subst (1 2) sfs_rwblock_try.simps, auto simp: DEVOP_IO_on)
next
  case (Suc n tries sfs)
  obtain d' where d': "ready d'" "sect d' = sect (disk_of sfs)"
      "(\<exists>u'. io (proc_as sfs) (disk_of sfs) u = Ok (d', u') () \<and> uio_after LHD_SECTSIZE (sect (disk_of sfs) b) u u') \<or>
       io (proc_as sfs) (disk_of sfs) u = Err (d', u) EIO"
    using io_read [of "disk_of sfs" b u "proc_as sfs"] Suc.prems by (auto simp: on_device_def block_uio_def)
  show ?case
  proof (cases "io (proc_as sfs) (disk_of sfs) u = Err (d', u) EIO")
    case True
    have "tries < 10" using Suc.hyps(2) by linarith
    with True have "sfs_rwblock_try tries (sfs, u) = sfs_rwblock_try (tries + 1) (set_disk sfs d', u)"
      using Suc.prems(1) by (subst sfs_rwblock_try.simps) (simp add: DEVOP_IO_on)
    with Suc.hyps(1) [of "tries + 1" "set_disk sfs d'"] show ?thesis using Suc.hyps(2) Suc.prems d' by auto
  next
    case False
    then show ?thesis using d' Suc.prems
      by (intro exI [of _ d']) (subst (1 2) sfs_rwblock_try.simps, auto simp: DEVOP_IO_on)
  qed
qed

lemma rwblock_read:
  "on_device io nsect ready sfs \<Longrightarrow> b < nsect \<Longrightarrow> block_uio (proc_as sfs) b u \<Longrightarrow> uio_rw u = UIO_READ \<Longrightarrow>
   \<exists>d'. ready d' \<and> sect d' = sect (disk_of sfs) \<and>
     ((\<exists>u'. sfs_rwblock (sfs, u) = Ok (set_disk sfs d', u') () \<and> uio_after LHD_SECTSIZE (sect (disk_of sfs) b) u u') \<or>
      sfs_rwblock (sfs, u) = Err (set_disk sfs d', u) EIO)"
  using rwblock_try_read [of sfs b u 0] by (simp add: sfs_rwblock_def on_device_def)

lemma readblock:
  assumes "on_device io nsect ready sfs" "unat b < nsect" "length data = SFS_BLOCKSIZE"
  shows "\<exists>d'. ready d' \<and> sect d' = sect (disk_of sfs) \<and>
     (sfs_readblock b data sfs = Ok (set_disk sfs d') (sect (disk_of sfs) (unat b)) \<or>
      sfs_readblock b data sfs = Err (set_disk sfs d') EIO)"
proof -
  let ?u = "sfsuio data b UIO_READ"
  have rw: "uio_rw ?u = UIO_READ" "uio_ahead ?u = data" "uio_got ?u = []" by (simp_all add: sfsuio_def)
  obtain d' where d': "ready d'" "sect d' = sect (disk_of sfs)"
     "(\<exists>u'. sfs_rwblock (sfs, ?u) = Ok (set_disk sfs d', u') () \<and> uio_after LHD_SECTSIZE (sect (disk_of sfs) (unat b)) ?u u') \<or>
      sfs_rwblock (sfs, ?u) = Err (set_disk sfs d', ?u) EIO"
    using rwblock_read [OF assms(1,2) block_uio_sfsuio [OF assms(3)] rw(1)] by blast
  then show ?thesis using assms(3) rw
    by (intro exI [of _ d']) (auto simp: sfs_readblock_def uio_after_def sfs_sizes)
qed

text \<open>
  A write always reports success: the failed attempt used up the transfer, and the repeated one has nothing left
  to do. The device is left as the first attempt left it.
\<close>

lemma rwblock_write:
  assumes "on_device io nsect ready sfs" "b < nsect" "block_uio (proc_as sfs) b u" "uio_rw u = UIO_WRITE"
  shows "\<exists>d' u'. sfs_rwblock (sfs, u) = Ok (set_disk sfs d', u') () \<and> ready d' \<and>
     (\<forall>i. i \<noteq> b \<longrightarrow> sect d' i = sect (disk_of sfs) i) \<and> uio_after LHD_SECTSIZE (take LHD_SECTSIZE (uio_ahead u)) u u' \<and>
     (io (proc_as sfs) (disk_of sfs) u = Ok (d', u') () \<and> sect d' b = take LHD_SECTSIZE (uio_ahead u) \<or>
      io (proc_as sfs) (disk_of sfs) u = Err (d', u') EIO)"
proof -
  obtain d' u' where d: "ready d'" "\<forall>i. i \<noteq> b \<longrightarrow> sect d' i = sect (disk_of sfs) i"
      "uio_after LHD_SECTSIZE (take LHD_SECTSIZE (uio_ahead u)) u u'"
      "io (proc_as sfs) (disk_of sfs) u = Ok (d', u') () \<and> sect d' b = take LHD_SECTSIZE (uio_ahead u) \<or>
       io (proc_as sfs) (disk_of sfs) u = Err (d', u') EIO"
    using io_write [of "disk_of sfs" b u "proc_as sfs"] assms by (auto simp: on_device_def block_uio_def)
  have off: "uio_offset u' = int ((b + 1) * LHD_SECTSIZE)" "uio_resid u' = 0"
    unfolding uio_afterD(4,5) [OF d(3)] using assms(3) by (simp_all add: block_uio_def algebra_simps)
  have b': "b + 1 \<le> nsect" using assms(2) by simp
  have again: "sfs_rwblock_try 1 (set_disk sfs d', u') = Ok (set_disk sfs d', u') ()"
    using io_nothing [OF d(1) b' off(2,1)] assms(1) d(1)
    by (subst sfs_rwblock_try.simps) (simp add: DEVOP_IO_on [of io nsect ready])
  have "sfs_rwblock_try 0 (sfs, u) = Ok (set_disk sfs d', u') ()"
    using d(4) assms(1) again by (subst sfs_rwblock_try.simps) (auto simp: DEVOP_IO_on [of io nsect ready])
  then show ?thesis using d assms(1) by (auto simp: sfs_rwblock_def on_device_def)
qed

end

context reliable_device
begin

lemma rwblock_write_ok:
  assumes "on_device io nsect ready sfs" "b < nsect" "block_uio (proc_as sfs) b u" "uio_rw u = UIO_WRITE"
  shows "\<exists>d' u'. sfs_rwblock (sfs, u) = Ok (set_disk sfs d', u') () \<and> ready d' \<and>
     sect d' = (sect (disk_of sfs))(b := take LHD_SECTSIZE (uio_ahead u)) \<and>
     uio_after LHD_SECTSIZE (take LHD_SECTSIZE (uio_ahead u)) u u'"
proof -
  have "io (proc_as sfs) (disk_of sfs) u \<noteq> Err st e" for st e
    using write_ok [of "disk_of sfs" b u "proc_as sfs"] assms by (simp add: on_device_def block_uio_def)
  then obtain d' u' where "sfs_rwblock (sfs, u) = Ok (set_disk sfs d', u') ()" "ready d'"
      "\<forall>i. i \<noteq> b \<longrightarrow> sect d' i = sect (disk_of sfs) i" "sect d' b = take LHD_SECTSIZE (uio_ahead u)"
      "uio_after LHD_SECTSIZE (take LHD_SECTSIZE (uio_ahead u)) u u'"
    using rwblock_write [OF assms] by blast
  then show ?thesis by (intro exI [of _ d'] exI [of _ u']) (auto simp: fun_eq_iff)
qed

lemma writeblock:
  assumes "on_device io nsect ready sfs" "unat b < nsect" "length data = SFS_BLOCKSIZE"
  shows "\<exists>d'. sfs_writeblock b data sfs = Ok (set_disk sfs d') () \<and> ready d' \<and>
     sect d' = (sect (disk_of sfs))(unat b := data)"
proof -
  let ?u = "sfsuio data b UIO_WRITE"
  have rw: "uio_rw ?u = UIO_WRITE" "take LHD_SECTSIZE (uio_ahead ?u) = data"
    using assms(3) by (simp_all add: sfsuio_def sfs_sizes)
  show ?thesis using rwblock_write_ok [OF assms(1,2) block_uio_sfsuio [OF assms(3)] rw(1)] assms(3) unfolding rw(2)
    by (auto simp: sfs_writeblock_def)
qed

end

section \<open>Allocation\<close>

abbreviation blocks_used :: "'d sfs_fs \<Rightarrow> nat set" where
  "blocks_used sfs \<equiv> bm_used (sfs_freemap sfs)"

abbreviation nblocks :: "'d sfs_fs \<Rightarrow> nat" where
  "nblocks sfs \<equiv> unat (sb_nblocks (sfs_sb sfs))"

text \<open>The free map: it covers the volume, and the superblock and the bits beyond the volume are in use.\<close>

definition freemap_ok :: "'d sfs_fs \<Rightarrow> bool" where
  "freemap_ok sfs \<longleftrightarrow> bm_wf (sfs_freemap sfs) \<and> nblocks sfs \<le> unat (nbits (sfs_freemap sfs)) \<and>
     {nblocks sfs..<unat (nbits (sfs_freemap sfs))} \<subseteq> blocks_used sfs \<and> 0 \<in> blocks_used sfs"

definition vol_ok :: "'d devop_io \<Rightarrow> nat \<Rightarrow> ('d \<Rightarrow> bool) \<Rightarrow> 'd sfs_fs \<Rightarrow> bool" where
  "vol_ok io nsect ready sfs \<longleftrightarrow> on_device io nsect ready sfs \<and> freemap_ok sfs"

text \<open>What file operations leave alone: all of the volume but the disk and the free map.\<close>

definition fs_same :: "'d sfs_fs \<Rightarrow> 'd sfs_fs \<Rightarrow> bool" where
  "fs_same sfs sfs' \<longleftrightarrow> sfs_sb sfs' = sfs_sb sfs \<and> sfs_superdirty sfs' = sfs_superdirty sfs \<and>
     sfs_vnodes sfs' = sfs_vnodes sfs \<and> vfs_biglock_depth sfs' = vfs_biglock_depth sfs \<and> proc_as sfs' = proc_as sfs \<and>
     d_io (sfs_device sfs') = d_io (sfs_device sfs) \<and> nbits (sfs_freemap sfs') = nbits (sfs_freemap sfs)"

lemma fs_same_refl [simp]: "fs_same sfs sfs"
  by (simp add: fs_same_def)

lemma fs_same_trans: "fs_same a b \<Longrightarrow> fs_same b c \<Longrightarrow> fs_same a c"
  by (simp add: fs_same_def)

lemma fs_same_set_disk [simp]: "fs_same sfs (set_disk sfs d)"
  by (simp add: fs_same_def)

lemma vol_ok_set_disk [simp]: "vol_ok io nsect ready sfs \<Longrightarrow> ready d \<Longrightarrow> vol_ok io nsect ready (set_disk sfs d)"
  by (simp add: vol_ok_def freemap_ok_def)

lemma set_freemap_simps [simp]:
  "sfs_sb (set_freemap b sfs) = sfs_sb sfs" "sfs_device (set_freemap b sfs) = sfs_device sfs"
  "sfs_freemap (set_freemap b sfs) = b" "proc_as (set_freemap b sfs) = proc_as sfs"
  "set_freemap (sfs_freemap sfs) sfs = sfs" "vfs_biglock_do_i_hold (set_freemap b sfs) = vfs_biglock_do_i_hold sfs"
  by (simp_all add: set_freemap_def vfs_biglock_do_i_hold_def)

lemma vol_okD:
  assumes "vol_ok io nsect ready sfs"
  shows "on_device io nsect ready sfs" "freemap_ok sfs" "nblocks sfs \<le> nsect" "vfs_biglock_do_i_hold sfs"
    "nblocks sfs \<le> 2 ^ 23" "0 \<in> blocks_used sfs"
  using assms by (auto simp: vol_ok_def on_device_def freemap_ok_def)

lemma blocks_used_below: "freemap_ok sfs \<Longrightarrow> b \<in> blocks_used sfs \<Longrightarrow> b < unat (nbits (sfs_freemap sfs))"
  by (auto simp: freemap_ok_def bm_used_def)

lemma sfs_bused_ok: "vol_ok io nsect ready sfs \<Longrightarrow> unat b < nblocks sfs \<Longrightarrow> sfs_bused b sfs = Ok sfs (unat b \<in> blocks_used sfs)"
  using bitmap_ops.isset_used [of "sfs_freemap sfs" b]
  by (auto simp: sfs_bused_def vol_ok_def freemap_ok_def word_le_nat_alt)

lemma sfs_bfree_ok:
  assumes "vol_ok io nsect ready sfs" "unat b \<in> blocks_used sfs" "unat b \<noteq> 0" "unat b < nblocks sfs"
  shows "\<exists>sfs'. sfs_bfree b sfs = Ok sfs' () \<and> vol_ok io nsect ready sfs' \<and> fs_same sfs sfs' \<and>
    disk_of sfs' = disk_of sfs \<and> blocks_used sfs' = blocks_used sfs - {unat b} \<and> sfs_freemapdirty sfs'"
proof -
  have wf: "bm_wf (sfs_freemap sfs)" using assms(1) by (simp add: vol_ok_def freemap_ok_def)
  obtain b' where "bitmap_unmark (sfs_freemap sfs) b = Ok b' ()" "bm_used b' = blocks_used sfs - {unat b}"
      "nbits b' = nbits (sfs_freemap sfs)" "bm_wf b'"
    using bitmap_unmark_used [OF wf assms(2)] by blast
  then show ?thesis using assms
    by (auto simp: sfs_bfree_def vol_ok_def freemap_ok_def on_device_def fs_same_def set_freemap_def vfs_biglock_do_i_hold_def)
qed

lemma sfs_bfree_twice: "vol_ok io nsect ready sfs \<Longrightarrow> unat b < nblocks sfs \<Longrightarrow> unat b \<notin> blocks_used sfs \<Longrightarrow> sfs_bfree b sfs = Panic"
  using bitmap_isset_used [of "sfs_freemap sfs" b]
  by (auto simp: sfs_bfree_def bitmap_unmark_def bitmap_isset_def vol_ok_def freemap_ok_def word_less_nat_alt Let_def
      kassert_def split: prod.splits if_splits)

context reliable_device
begin

text \<open>
  Allocation hands out a free block inside the volume, cleared on the disk, and marks it; it fails only when
  every block is in use, and then changes nothing.
\<close>

lemma balloc:
  assumes v: "vol_ok io nsect ready sfs"
  shows "(\<exists>sfs' b. sfs_balloc sfs = Ok sfs' b \<and> vol_ok io nsect ready sfs' \<and> fs_same sfs sfs' \<and> unat b < nblocks sfs \<and>
      unat b \<notin> blocks_used sfs \<and> blocks_used sfs' = insert (unat b) (blocks_used sfs) \<and>
      sect (disk_of sfs') = (sect (disk_of sfs))(unat b := replicate SFS_BLOCKSIZE 0) \<and> sfs_freemapdirty sfs') \<or>
    sfs_balloc sfs = Err sfs ENOSPC \<and> {..<nblocks sfs} \<subseteq> blocks_used sfs"
proof (cases "bitmap_alloc (sfs_freemap sfs)")
  have wf: "bm_wf (sfs_freemap sfs)" "nblocks sfs \<le> unat (nbits (sfs_freemap sfs))" using v by (auto simp: vol_ok_def freemap_ok_def)
  { case (Err fm e)
    then show ?thesis using bitmap_ops.alloc_Err [OF wf(1) Err] wf(2) by (auto simp: sfs_balloc_def) }
  { case Panic then show ?thesis using bitmap_ops.alloc_no_crash [OF wf(1)] by simp }
  { case Fault then show ?thesis using bitmap_ops.alloc_no_crash [OF wf(1)] by simp }
  { case Blocked then show ?thesis using bitmap_alloc_cases [OF wf(1)] by auto }
  case (Ok fm b)
  then have al: "unat b < unat (nbits (sfs_freemap sfs))" "unat b \<notin> blocks_used sfs" "bm_used fm = insert (unat b) (blocks_used sfs)"
      "nbits fm = nbits (sfs_freemap sfs)" "bm_wf fm"
    using bitmap_alloc_cases [OF wf(1)] by auto
  then have nb: "unat b < nblocks sfs" using v unfolding vol_ok_def freemap_ok_def by (meson atLeastLessThan_iff not_less subsetD)
  let ?s = "(set_freemap fm sfs)\<lparr>sfs_freemapdirty := True\<rparr>"
  have v1: "vol_ok io nsect ready ?s"
    using v al by (auto simp: vol_ok_def on_device_def freemap_ok_def vfs_biglock_do_i_hold_def set_freemap_def)
  obtain d' where d': "sfs_writeblock b (replicate SFS_BLOCKSIZE 0) ?s = Ok (set_disk ?s d') ()" "ready d'"
      "sect d' = (sect (disk_of sfs))(unat b := replicate SFS_BLOCKSIZE 0)"
    using writeblock [OF vol_okD(1) [OF v1], of b "replicate SFS_BLOCKSIZE 0"] nb vol_okD(3) [OF v] by auto
  have "sfs_balloc sfs = Ok (set_disk ?s d') b"
    using Ok d'(1) nb by (simp add: sfs_balloc_def sfs_clearblock_def word_le_nat_alt)
  moreover have "fs_same sfs (set_disk ?s d')" using al(4) by (simp add: fs_same_def set_freemap_def)
  moreover have "vol_ok io nsect ready (set_disk ?s d')" by (rule vol_ok_set_disk [OF v1 d'(2)])
  ultimately show ?thesis using nb al(2,3) d'(3) by auto
qed

end

section \<open>Property\<close>

text \<open>
  C34. Block transfers of the file system on the disk driver, for every disk. A read returns the sector, or \<open>EIO\<close> with
  no data; it never returns anything else and changes nothing. A write reports success after exactly one disk
  operation, whatever status that operation ended with: the driver takes the data out of the transfer before
  it starts the disk, so the retry after a media error finds an empty transfer and returns 0. A failed write is
  lost without a report.
\<close>

theorem sfs_transfer_errors:
  assumes "disk_hw hw sect nsect" "on_device (lhd_io hw) nsect (lhd_ready nsect) sfs"
    "unat b < nsect" "length data = SFS_BLOCKSIZE"
  shows "(\<exists>lh'. sect (lh_card lh') = sect (lh_card (disk_of sfs)) \<and>
       (sfs_readblock b data sfs = Ok (set_disk sfs lh') (sect (lh_card (disk_of sfs)) (unat b)) \<or>
        sfs_readblock b data sfs = Err (set_disk sfs lh') EIO)) \<and>
    (\<exists>lh'. sfs_writeblock b data sfs = Ok (set_disk sfs lh') () \<and>
       lh_card lh' = fst (hw (lh_card (disk_of sfs)) b (LHD_WORKING OR LHD_ISWRITE) data) \<and>
       lhd_ready nsect lh')"
proof -
  note bd = disk_hw.lhd_block_device [OF assms(1)]
  let ?u = "sfsuio data b UIO_WRITE" and ?lh = "disk_of sfs"
  have rw: "uio_rw ?u = UIO_WRITE" "take LHD_SECTSIZE (uio_ahead ?u) = data"
    using assms(4) by (simp_all add: sfsuio_def sfs_sizes)
  have bu: "block_uio (proc_as sfs) (unat b) ?u" by (rule block_uio_sfsuio [OF assms(4)])
  then have u: "uio_ok ?u" "uio_space_ok (proc_as sfs) ?u" "LHD_SECTSIZE \<le> uio_resid ?u" "uio_resid ?u = LHD_SECTSIZE"
      "uio_offset ?u = int (unat b * LHD_SECTSIZE)" by (simp_all add: block_uio_def)
  have rdy: "lhd_ready nsect ?lh" using assms(2) by (simp add: on_device_def)
  have one: "lhd_io hw (proc_as sfs) ?lh ?u = lhd_sector hw (proc_as sfs) b (LHD_WORKING OR LHD_ISWRITE) (?lh, ?u)"
    using lhd_io_one [OF rdy assms(3) u(4,5), of hw "proc_as sfs"] rw(1) by simp
  obtain d' u' where w: "sfs_rwblock (sfs, ?u) = Ok (set_disk sfs d', u') ()" "lhd_ready nsect d'"
      "lhd_io hw (proc_as sfs) ?lh ?u = Ok (d', u') () \<or> lhd_io hw (proc_as sfs) ?lh ?u = Err (d', u') EIO"
    using block_device.rwblock_write [OF bd(1) assms(2,3) bu rw(1)] by blast
  have "lh_card d' = fst (hw (lh_card ?lh) b (LHD_WORKING OR LHD_ISWRITE) data)"
    using disk_hw.lhd_sector_write [OF assms(1) rdy assms(3) u(1-3) rw(1)] w(3) unfolding one rw(2) by (auto split: if_splits)
  moreover have "sfs_writeblock b data sfs = Ok (set_disk sfs d') ()" using w(1) assms(4) by (simp add: sfs_writeblock_def)
  ultimately show ?thesis using block_device.readblock [OF bd(1) assms(2-4)] w(2) by blast
qed

text \<open>A volume of eight blocks on a worn disk; the next disk operation fails.\<close>

definition worn_volume :: "bool list \<Rightarrow> ((nat \<Rightarrow> u8 list) \<times> bool list) lhd_softc sfs_fs" where
  "worn_volume bad =
     \<lparr>sfs_sb = \<lparr>sb_magic = SFS_MAGIC, sb_nblocks = 8, sb_volname = replicate 32 0, sb_reserved = replicate 118 0\<rparr>,
      sfs_superdirty = False,
      sfs_device = \<lparr>d_io = lhd_io worn_disk, d_blocks = 8, d_blocksize = 512,
        d_data = \<lparr>lh_card = (\<lambda>_. replicate 512 0, bad), lh_sect = 0, lh_stat = 0, lh_buf = replicate 512 0,
          lh_result = None, lh_clear = 1, lh_done = 0, lh_blocks = 8\<rparr>\<rparr>,
      sfs_vnodes = [], sfs_freemap = \<lparr>nbits = 8, bm_v = [31]\<rparr>, sfs_freemapdirty = False, vfs_biglock_depth = 1,
      proc_as = None\<rparr>"

lemma sfs_transfer_errors_witness:
  "\<exists>sfs'. sfs_writeblock 5 (replicate 512 7) (worn_volume [True]) = Ok sfs' () \<and>
     disk_sect (fst (lh_card (disk_of sfs'))) 5 = replicate 512 0"
proof -
  have "on_device (lhd_io worn_disk) 8 (lhd_ready 8) (worn_volume [True])"
    by (simp add: on_device_def worn_volume_def lhd_ready_def LHD_SECTSIZE_def vfs_biglock_do_i_hold_def)
  from sfs_transfer_errors [OF worn.disk_hw_axioms this, of 5 "replicate 512 7"]
  obtain lh' where "sfs_writeblock 5 (replicate 512 7) (worn_volume [True]) = Ok (set_disk (worn_volume [True]) lh') ()"
      "lh_card lh' = fst (worn_disk (lh_card (disk_of (worn_volume [True]))) 5 (LHD_WORKING OR LHD_ISWRITE) (replicate 512 7))"
    by (auto simp: SFS_BLOCKSIZE_def)
  then show ?thesis
    by (intro exI [of _ "set_disk (worn_volume [True]) lh'"]) (simp add: worn_disk_def worn_volume_def disk_sect_def LHD_SECTSIZE_def)
qed

end
