(* ===== verification/Sfs_Bmap.thy ===== *)
theory Sfs_Bmap
  imports Sfs_Disk
begin

text \<open>
  The block map of a file, \<open>kern/fs/sfs/sfs_bmap.c\<close>: finding and allocating the disk block of a block of a file,
  and truncation. An operation on a file works on the volume and the in-memory inode. The static buffers are
  filled before each use and appear as local lists.

  The view of a file that the lemmas use is its block map \<open>fmap\<close>, the set \<open>fblocks\<close> of the disk blocks it owns
  and its bytes \<open>fbyte\<close>; \<open>file_step\<close> says that an operation touched no block but the file's own and free ones.
\<close>

section \<open>Model\<close>

type_synonym 'd fstate = "'d sfs_fs \<times> sfs_vnode"

definition with_sv :: "sfs_vnode \<Rightarrow> ('d sfs_fs, 'a) outcome \<Rightarrow> ('d fstate, 'a) outcome" where
  "with_sv sv r = map_outcome (\<lambda>sfs. (sfs, sv)) id r"

definition set_direct :: "nat \<Rightarrow> u32 \<Rightarrow> sfs_vnode \<Rightarrow> sfs_vnode" where
  "set_direct i block sv = sv\<lparr>sv_i := (sv_i sv)\<lparr>sfi_direct := (sfi_direct (sv_i sv))[i := block]\<rparr>, sv_dirty := True\<rparr>"

definition set_indirect :: "u32 \<Rightarrow> sfs_vnode \<Rightarrow> sfs_vnode" where
  "set_indirect block sv = sv\<lparr>sv_i := (sv_i sv)\<lparr>sfi_indirect := block\<rparr>, sv_dirty := True\<rparr>"

definition vfs_biglock_acquire :: "'d sfs_fs \<Rightarrow> 'd sfs_fs" where
  "vfs_biglock_acquire sfs = sfs\<lparr>vfs_biglock_depth := vfs_biglock_depth sfs + 1\<rparr>"

definition vfs_biglock_release :: "'d sfs_fs \<Rightarrow> ('d sfs_fs, unit) outcome" where
  "vfs_biglock_release sfs =
     kassert (0 < vfs_biglock_depth sfs) (Ok (sfs\<lparr>vfs_biglock_depth := vfs_biglock_depth sfs - 1\<rparr>) ())"

text \<open>The body of a routine between acquiring the big lock and releasing it on each path out.\<close>

definition biglocked :: "('d fstate \<Rightarrow> ('d fstate, 'a) outcome) \<Rightarrow> 'd fstate \<Rightarrow> ('d fstate, 'a) outcome" where
  "biglocked f = (\<lambda>(sfs, sv).
     case f (vfs_biglock_acquire sfs, sv) of
       Ok (sfs, sv) x \<Rightarrow> and_then (with_sv sv (vfs_biglock_release sfs)) (\<lambda>st _. Ok st x)
     | Err (sfs, sv) e \<Rightarrow> and_then (with_sv sv (vfs_biglock_release sfs)) (\<lambda>st _. Err st e)
     | Panic \<Rightarrow> Panic | Fault \<Rightarrow> Fault | Blocked \<Rightarrow> Blocked)"

text \<open>The end of both branches of \<open>sfs_bmap\<close>: a block that is handed back must be in use.\<close>

definition bmap_check :: "'d fstate \<Rightarrow> u32 \<Rightarrow> ('d fstate, u32) outcome" where
  "bmap_check = (\<lambda>(sfs, sv) block.
     if block \<noteq> 0 then and_then (with_sv sv (sfs_bused block sfs)) (\<lambda>st used. if used then Ok st block else Panic)
     else Ok (sfs, sv) block)"

definition bmap_direct :: "nat \<Rightarrow> bool \<Rightarrow> 'd fstate \<Rightarrow> ('d fstate, u32) outcome" where
  "bmap_direct i doalloc = (\<lambda>(sfs, sv).
     let block = sfi_direct (sv_i sv) ! i
     in and_then
          (if block = 0 \<and> doalloc
           then and_then (with_sv sv (sfs_balloc sfs)) (\<lambda>(sfs, sv) block. Ok (sfs, set_direct i block sv) block)
           else Ok (sfs, sv) block)
          bmap_check)"

text \<open>The indirect block: its number and its contents, allocating it first if there is none.\<close>

definition bmap_load :: "'d fstate \<Rightarrow> ('d fstate, u32 \<times> u32 list) outcome" where
  "bmap_load = (\<lambda>(sfs, sv).
     let idblock = sfi_indirect (sv_i sv)
     in if idblock = 0
        then and_then (with_sv sv (sfs_balloc sfs))
               (\<lambda>(sfs, sv) idblock. Ok (sfs, set_indirect idblock sv) (idblock, replicate SFS_DBPERIDB 0))
        else and_then (with_sv sv (sfs_readblock idblock (replicate SFS_BLOCKSIZE 0) sfs))
               (\<lambda>st bytes. Ok st (idblock, load_words bytes)))"

definition bmap_indirect :: "nat \<Rightarrow> bool \<Rightarrow> 'd fstate \<Rightarrow> ('d fstate, u32) outcome" where
  "bmap_indirect idoff doalloc = (\<lambda>(sfs, sv).
     if sfi_indirect (sv_i sv) = 0 \<and> \<not> doalloc then Ok (sfs, sv) 0
     else and_then (bmap_load (sfs, sv)) (\<lambda>(sfs, sv) (idblock, idbuf).
       let block = idbuf ! idoff
       in and_then
            (if block = 0 \<and> doalloc
             then and_then (with_sv sv (sfs_balloc sfs)) (\<lambda>(sfs, sv) block.
                    and_then (with_sv sv (sfs_writeblock idblock (store_words (idbuf[idoff := block])) sfs))
                      (\<lambda>st _. Ok st block))
             else Ok (sfs, sv) block)
            bmap_check))"

definition sfs_bmap :: "u32 \<Rightarrow> bool \<Rightarrow> 'd fstate \<Rightarrow> ('d fstate, u32) outcome" where
  "sfs_bmap fileblock doalloc = (\<lambda>(sfs, sv).
     kassert (vfs_biglock_do_i_hold sfs)
       (if unat fileblock < SFS_NDIRECT then bmap_direct (unat fileblock) doalloc (sfs, sv)
        else
          let fileblock = fileblock - of_nat SFS_NDIRECT;
              idnum = fileblock div of_nat SFS_DBPERIDB;
              idoff = fileblock mod of_nat SFS_DBPERIDB
          in if unat idnum \<ge> SFS_NINDIRECT then Err (sfs, sv) EFBIG
             else bmap_indirect (unat idoff) doalloc (sfs, sv)))"

fun trunc_direct :: "nat list \<Rightarrow> u32 \<Rightarrow> 'd fstate \<Rightarrow> ('d fstate, unit) outcome" where
  "trunc_direct [] blocklen st = Ok st ()"
| "trunc_direct (i # is) blocklen (sfs, sv) =
     (let block = sfi_direct (sv_i sv) ! i
      in and_then
           (if i \<ge> unat blocklen \<and> block \<noteq> 0
            then and_then (with_sv sv (sfs_bfree block sfs)) (\<lambda>(sfs, sv) _. Ok (sfs, set_direct i 0 sv) ())
            else Ok (sfs, sv) ())
           (\<lambda>st _. trunc_direct is blocklen st))"

text \<open>The loop over the indirect block: the buffer, whether it has a nonzero entry and whether it changed.\<close>

fun trunc_entries ::
    "nat list \<Rightarrow> u32 \<Rightarrow> 'd sfs_fs \<Rightarrow> u32 list \<Rightarrow> bool \<Rightarrow> bool \<Rightarrow> ('d sfs_fs, u32 list \<times> bool \<times> bool) outcome" where
  "trunc_entries [] blocklen sfs idbuf hasnonzero iddirty = Ok sfs (idbuf, hasnonzero, iddirty)"
| "trunc_entries (j # js) blocklen sfs idbuf hasnonzero iddirty =
     (if unat blocklen < SFS_NDIRECT + j \<and> idbuf ! j \<noteq> 0
      then and_then (sfs_bfree (idbuf ! j) sfs)
             (\<lambda>sfs _. trunc_entries js blocklen sfs (idbuf[j := 0]) hasnonzero True)
      else trunc_entries js blocklen sfs idbuf (hasnonzero \<or> idbuf ! j \<noteq> 0) iddirty)"

definition trunc_rest :: "u32 \<Rightarrow> u32 \<Rightarrow> u32 list \<Rightarrow> 'd fstate \<Rightarrow> ('d fstate, unit) outcome" where
  "trunc_rest blocklen idblock idbuf = (\<lambda>(sfs, sv).
     and_then (with_sv sv (trunc_entries [0..<SFS_DBPERIDB] blocklen sfs idbuf False False))
       (\<lambda>(sfs, sv) (idbuf, hasnonzero, iddirty).
         if \<not> hasnonzero
         then and_then (with_sv sv (sfs_bfree idblock sfs)) (\<lambda>(sfs, sv) _. Ok (sfs, set_indirect 0 sv) ())
         else if iddirty then with_sv sv (sfs_writeblock idblock (store_words idbuf) sfs)
         else Ok (sfs, sv) ()))"

definition trunc_indirect :: "u32 \<Rightarrow> 'd fstate \<Rightarrow> ('d fstate, unit) outcome" where
  "trunc_indirect blocklen = (\<lambda>(sfs, sv).
     let idblock = sfi_indirect (sv_i sv); highblock = SFS_NDIRECT + SFS_DBPERIDB - 1
     in if unat blocklen < highblock \<and> idblock \<noteq> 0
        then and_then (with_sv sv (sfs_readblock idblock (replicate SFS_BLOCKSIZE 0) sfs))
               (\<lambda>st bytes. trunc_rest blocklen idblock (load_words bytes) st)
        else Ok (sfs, sv) ())"

definition sfs_itrunc :: "int \<Rightarrow> 'd fstate \<Rightarrow> ('d fstate, unit) outcome" where
  "sfs_itrunc len = biglocked (\<lambda>st.
     let blocklen = word_of_int ((len + int SFS_BLOCKSIZE - 1) sdiv int SFS_BLOCKSIZE)
     in and_then (trunc_direct [0..<SFS_NDIRECT] blocklen st) (\<lambda>st _.
          and_then (trunc_indirect blocklen st) (\<lambda>(sfs, sv) _.
            Ok (sfs, sv\<lparr>sv_i := (sv_i sv)\<lparr>sfi_size := word_of_int len\<rparr>, sv_dirty := True\<rparr>) ())))"

section \<open>Files as block maps\<close>

definition SFS_MAXBLOCKS :: nat where "SFS_MAXBLOCKS = SFS_NDIRECT + SFS_DBPERIDB"

lemmas sfs_lens = sfs_sizes SFS_MAXBLOCKS_def

text \<open>The disk block of block \<open>i\<close> of a file, 0 if there is none, on a disk with the blocks \<open>blk\<close>.\<close>

definition fmap :: "(nat \<Rightarrow> u8 list) \<Rightarrow> sfs_dinode \<Rightarrow> nat \<Rightarrow> nat" where
  "fmap blk di i =
     (if i < SFS_NDIRECT then unat (sfi_direct di ! i)
      else if i < SFS_MAXBLOCKS \<and> sfi_indirect di \<noteq> 0
      then unat (load_words (blk (unat (sfi_indirect di))) ! (i - SFS_NDIRECT)) else 0)"

definition fblocks :: "(nat \<Rightarrow> u8 list) \<Rightarrow> sfs_dinode \<Rightarrow> nat set" where
  "fblocks blk di = insert (unat (sfi_indirect di)) (fmap blk di ` {..<SFS_MAXBLOCKS}) - {0}"

definition fbyte :: "(nat \<Rightarrow> u8 list) \<Rightarrow> sfs_dinode \<Rightarrow> nat \<Rightarrow> u8" where
  "fbyte blk di i =
     (let b = fmap blk di (i div SFS_BLOCKSIZE) in if b = 0 then 0 else blk b ! (i mod SFS_BLOCKSIZE))"

text \<open>
  A sound file: its blocks are in use and inside the volume, no two blocks of the file share a disk block, and the
  indirect block is not a data block.
\<close>

definition file_ok :: "nat \<Rightarrow> nat set \<Rightarrow> (nat \<Rightarrow> u8 list) \<Rightarrow> sfs_dinode \<Rightarrow> bool" where
  "file_ok nb used blk di \<longleftrightarrow> dinode_wf di \<and> fblocks blk di \<subseteq> used \<inter> {..<nb} \<and>
     (\<forall>i < SFS_MAXBLOCKS. \<forall>j < SFS_MAXBLOCKS. fmap blk di i = fmap blk di j \<longrightarrow> fmap blk di i \<noteq> 0 \<longrightarrow> i = j) \<and>
     (\<forall>i < SFS_MAXBLOCKS. fmap blk di i \<noteq> 0 \<longrightarrow> fmap blk di i \<noteq> unat (sfi_indirect di))"

lemma fmap_beyond: "SFS_MAXBLOCKS \<le> i \<Longrightarrow> fmap blk di i = 0"
  by (simp add: fmap_def sfs_lens)

lemma fmap_in_fblocks: "fmap blk di i \<noteq> 0 \<Longrightarrow> fmap blk di i \<in> fblocks blk di"
  using fmap_beyond [of i blk di] by (cases "i < SFS_MAXBLOCKS") (auto simp: fblocks_def)

lemma indirect_in_fblocks: "sfi_indirect di \<noteq> 0 \<Longrightarrow> unat (sfi_indirect di) \<in> fblocks blk di"
  by (auto simp: fblocks_def unat_eq_zero)

lemma file_okD:
  assumes "file_ok nb used blk di"
  shows "dinode_wf di" "\<And>i. fmap blk di i \<noteq> 0 \<Longrightarrow> fmap blk di i \<in> used \<and> fmap blk di i < nb"
    "sfi_indirect di \<noteq> 0 \<Longrightarrow> unat (sfi_indirect di) \<in> used \<and> unat (sfi_indirect di) < nb"
    "\<And>i j. fmap blk di i = fmap blk di j \<Longrightarrow> fmap blk di i \<noteq> 0 \<Longrightarrow> i = j"
    "\<And>i. fmap blk di i \<noteq> 0 \<Longrightarrow> fmap blk di i \<noteq> unat (sfi_indirect di)"
proof -
  show "dinode_wf di" using assms by (simp add: file_ok_def)
  have sub: "fblocks blk di \<subseteq> used \<inter> {..<nb}" using assms by (simp add: file_ok_def)
  show "fmap blk di i \<in> used \<and> fmap blk di i < nb" if "fmap blk di i \<noteq> 0" for i
    using fmap_in_fblocks [OF that] sub by auto
  show "unat (sfi_indirect di) \<in> used \<and> unat (sfi_indirect di) < nb" if "sfi_indirect di \<noteq> 0"
    using indirect_in_fblocks [OF that] sub by auto
  have lt: "i < SFS_MAXBLOCKS" if "fmap blk di i \<noteq> 0" for i using that fmap_beyond [of i blk di] by (cases "i < SFS_MAXBLOCKS") auto
  show "i = j" if "fmap blk di i = fmap blk di j" "fmap blk di i \<noteq> 0" for i j
    using assms that lt [of i] lt [of j] by (auto simp: file_ok_def)
  show "fmap blk di i \<noteq> unat (sfi_indirect di)" if "fmap blk di i \<noteq> 0" for i
    using assms that lt [of i] by (auto simp: file_ok_def)
qed

lemma file_okI:
  assumes "dinode_wf di" "\<And>i. i < SFS_MAXBLOCKS \<Longrightarrow> fmap blk di i \<noteq> 0 \<Longrightarrow> fmap blk di i \<in> used \<and> fmap blk di i < nb"
    "sfi_indirect di \<noteq> 0 \<Longrightarrow> unat (sfi_indirect di) \<in> used \<and> unat (sfi_indirect di) < nb"
    "\<And>i j. fmap blk di i = fmap blk di j \<Longrightarrow> fmap blk di i \<noteq> 0 \<Longrightarrow> i = j"
    "\<And>i. fmap blk di i \<noteq> 0 \<Longrightarrow> fmap blk di i \<noteq> unat (sfi_indirect di)"
  shows "file_ok nb used blk di"
proof -
  have sub: "fblocks blk di \<subseteq> used \<inter> {..<nb}"
  proof
    fix x assume x: "x \<in> fblocks blk di"
    show "x \<in> used \<inter> {..<nb}"
    proof (cases "x = unat (sfi_indirect di)")
      case True
      then have "sfi_indirect di \<noteq> 0" using x by (auto simp: fblocks_def)
      then show ?thesis using assms(3) True by simp
    next
      case False
      then obtain i where "i < SFS_MAXBLOCKS" "x = fmap blk di i" "x \<noteq> 0" using x by (auto simp: fblocks_def)
      then show ?thesis using assms(2) [of i] by simp
    qed
  qed
  show ?thesis unfolding file_ok_def by (intro conjI allI impI assms(1) sub) (erule (1) assms(4), erule assms(5))
qed

text \<open>The map of a file depends on the disk only through the indirect block.\<close>

lemma fmap_cong: "blk' (unat (sfi_indirect di)) = blk (unat (sfi_indirect di)) \<Longrightarrow> fmap blk' di = fmap blk di"
  by (simp add: fmap_def fun_eq_iff)

lemma fblocks_cong: "blk' (unat (sfi_indirect di)) = blk (unat (sfi_indirect di)) \<Longrightarrow> fblocks blk' di = fblocks blk di"
  unfolding fblocks_def by (subst fmap_cong) simp_all

lemma load_words_zeros: "load_words (replicate SFS_BLOCKSIZE 0) = replicate SFS_DBPERIDB 0"
proof -
  have z: "store_words (replicate n 0) = replicate (4 * n) 0" for n
    by (induction n) (simp_all add: store_words_def be32_def numeral_eq_Suc)
  have "4 * SFS_DBPERIDB = SFS_BLOCKSIZE" by (simp add: sfs_sizes)
  then show ?thesis using load_store_words [of "replicate SFS_DBPERIDB 0"] unfolding z by (simp only:)
qed

section \<open>Adding a block\<close>

text \<open>A disk block that was free and has been cleared, as \<open>sfs_balloc\<close> leaves it.\<close>

definition fresh_block :: "nat \<Rightarrow> nat set \<Rightarrow> (nat \<Rightarrow> u8 list) \<Rightarrow> nat set \<Rightarrow> (nat \<Rightarrow> u8 list) \<Rightarrow> nat \<Rightarrow> bool" where
  "fresh_block nb used blk used' blk' b \<longleftrightarrow> b \<notin> used \<and> b \<noteq> 0 \<and> b < nb \<and> used' = insert b used \<and>
     blk' = blk(b := replicate SFS_BLOCKSIZE 0)"

text \<open>What adding block \<open>b\<close> to a file does; \<open>m\<close> is the new map.\<close>

definition grown ::
    "nat \<Rightarrow> nat set \<Rightarrow> (nat \<Rightarrow> u8 list) \<Rightarrow> sfs_dinode \<Rightarrow> nat set \<Rightarrow> (nat \<Rightarrow> u8 list) \<Rightarrow> sfs_dinode \<Rightarrow> nat \<Rightarrow> (nat \<Rightarrow> nat) \<Rightarrow> bool" where
  "grown nb used blk di used' blk' di' b m \<longleftrightarrow>
     file_ok nb used' blk' di' \<and> fmap blk' di' = m \<and> fblocks blk' di' = insert b (fblocks blk di) \<and>
     fbyte blk' di' = fbyte blk di \<and> used' = insert b used \<and> b \<notin> used \<and> (\<forall>x \<in> used - fblocks blk di. blk' x = blk x)"

lemma fbyte_grown:
  assumes ok: "file_ok nb used blk di" and m: "fmap blk' di' = (fmap blk di)(k := b)" "fmap blk di k = 0"
    and old: "\<And>i. fmap blk di i \<noteq> 0 \<Longrightarrow> blk' (fmap blk di i) = blk (fmap blk di i)"
    and new: "blk' b = replicate SFS_BLOCKSIZE 0"
  shows "fbyte blk' di' = fbyte blk di"
proof
  fix i
  have "i mod SFS_BLOCKSIZE < SFS_BLOCKSIZE" by (simp add: sfs_sizes)
  then show "fbyte blk' di' i = fbyte blk di i"
    using m old [of "i div SFS_BLOCKSIZE"] new by (auto simp: fbyte_def Let_def)
qed

lemma file_ok_grown:
  assumes ok: "file_ok nb used blk di" and b: "b \<notin> used" "b < nb" and k: "k < SFS_MAXBLOCKS" "fmap blk di k = 0"
    and m: "fmap blk' di' = (fmap blk di)(k := b)" and di': "dinode_wf di'" "sfi_indirect di' = sfi_indirect di"
  shows "file_ok nb (insert b used) blk' di'"
proof (rule file_okI)
  note d = file_okD [OF ok]
  show "dinode_wf di'" by fact
  show "fmap blk' di' i \<in> insert b used \<and> fmap blk' di' i < nb" if "fmap blk' di' i \<noteq> 0" for i
    using that d(2) b unfolding m by auto
  show "unat (sfi_indirect di') \<in> insert b used \<and> unat (sfi_indirect di') < nb" if "sfi_indirect di' \<noteq> 0"
    using that d(3) di' by auto
  show "i = j" if "fmap blk' di' i = fmap blk' di' j" "fmap blk' di' i \<noteq> 0" for i j
    using that d(2) [of i] d(2) [of j] d(4) [of i j] b unfolding m by (auto split: if_splits)
  show "fmap blk' di' i \<noteq> unat (sfi_indirect di')" if "fmap blk' di' i \<noteq> 0" for i
    using that d(5) [of i] d(3) b unfolding m di' by (cases "sfi_indirect di = 0") (auto split: if_splits)
qed

lemma fblocks_grown:
  assumes "fmap blk' di' = (fmap blk di)(k := b)" "k < SFS_MAXBLOCKS" "fmap blk di k = 0" "b \<noteq> 0"
    "sfi_indirect di' = sfi_indirect di"
  shows "fblocks blk' di' = insert b (fblocks blk di)"
proof -
  have a: "fmap blk' di' ` {..<SFS_MAXBLOCKS} = insert b (fmap blk di ` ({..<SFS_MAXBLOCKS} - {k}))"
    using assms(1,2) by auto
  have c: "fmap blk di ` {..<SFS_MAXBLOCKS} = insert 0 (fmap blk di ` ({..<SFS_MAXBLOCKS} - {k}))"
    using assms(2,3) by (metis image_insert insert_Diff lessThan_iff)
  show ?thesis unfolding fblocks_def a c assms(5) using assms(4) by blast
qed

lemma grown_direct:
  assumes ok: "file_ok nb used blk di" and b: "fresh_block nb used blk used' blk' (unat b)"
    and i: "i < SFS_NDIRECT" "sfi_direct di ! i = 0"
  shows "grown nb used blk di used' blk' (di\<lparr>sfi_direct := (sfi_direct di)[i := b]\<rparr>) (unat b) ((fmap blk di)(i := unat b))"
proof -
  let ?di = "di\<lparr>sfi_direct := (sfi_direct di)[i := b]\<rparr>"
  note d = file_okD [OF ok]
  have bb: "unat b \<notin> used" "unat b \<noteq> 0" "unat b < nb" "used' = insert (unat b) used" "blk' = blk(unat b := replicate SFS_BLOCKSIZE 0)"
    using b by (auto simp: fresh_block_def)
  have len: "length (sfi_direct di) = SFS_NDIRECT" using d(1) by (simp add: dinode_wf_def)
  have ind: "sfi_indirect di \<noteq> 0 \<Longrightarrow> blk' (unat (sfi_indirect di)) = blk (unat (sfi_indirect di))" using d(3) bb by auto
  have m: "fmap blk' ?di = (fmap blk di)(i := unat b)" using i len ind by (auto simp: fmap_def fun_eq_iff)
  have k: "i < SFS_MAXBLOCKS" "fmap blk di i = 0" using i by (auto simp: fmap_def sfs_lens)
  have w: "dinode_wf ?di" using d(1) by (simp add: dinode_wf_def)
  have fo: "file_ok nb (insert (unat b) used) blk' ?di" by (rule file_ok_grown [OF ok bb(1,3) k m w]) simp
  have fb: "fblocks blk' ?di = insert (unat b) (fblocks blk di)" by (rule fblocks_grown [OF m k bb(2)]) simp
  have ne: "fmap blk di i \<noteq> unat b" for i using d(2) [of i] bb(1,2) by auto
  have "fbyte blk' ?di = fbyte blk di" by (rule fbyte_grown [OF ok m k(2)]) (simp_all add: bb(5) ne)
  then show ?thesis using fo fb m bb by (auto simp: grown_def)
qed

lemma grown_indirect:
  assumes ok: "file_ok nb used blk di" and b: "fresh_block nb used blk used' blk' (unat b)" and i: "sfi_indirect di = 0"
  shows "grown nb used blk di used' blk' (di\<lparr>sfi_indirect := b\<rparr>) (unat b) (fmap blk di)"
proof -
  let ?di = "di\<lparr>sfi_indirect := b\<rparr>"
  note d = file_okD [OF ok]
  have bb: "unat b \<notin> used" "unat b \<noteq> 0" "unat b < nb" "used' = insert (unat b) used" "blk' = blk(unat b := replicate SFS_BLOCKSIZE 0)"
    using b by (auto simp: fresh_block_def)
  have "load_words (blk' (unat b)) ! (j - SFS_NDIRECT) = 0" if "j < SFS_MAXBLOCKS" for j
  proof -
    have "j - SFS_NDIRECT < SFS_DBPERIDB" using that by (simp add: sfs_lens)
    then show ?thesis using bb(5) by (simp add: load_words_zeros)
  qed
  then have m: "fmap blk' ?di = fmap blk di" using i by (auto simp: fmap_def fun_eq_iff)
  have fo: "file_ok nb (insert (unat b) used) blk' ?di"
  proof (rule file_okI)
    show "dinode_wf ?di" using d(1) by (simp add: dinode_wf_def)
    show "fmap blk' ?di i \<noteq> unat (sfi_indirect ?di)" if "fmap blk' ?di i \<noteq> 0" for i
      using that d(2) [of i] bb unfolding m by auto
    show "i = j" if "fmap blk' ?di i = fmap blk' ?di j" "fmap blk' ?di i \<noteq> 0" for i j
      using that unfolding m by (rule d(4))
  qed (use d(2) bb(3) in \<open>auto simp: m\<close>)
  have fb: "fblocks blk' ?di = insert (unat b) (fblocks blk di)" using i bb(2) m by (auto simp: fblocks_def)
  have ne: "fmap blk di i \<noteq> unat b" for i using d(2) [of i] bb(1,2) by auto
  have "fbyte blk' ?di = fbyte blk di" unfolding fbyte_def m by (simp add: bb(5) ne Let_def fun_eq_iff)
  then show ?thesis using fo fb m bb by (auto simp: grown_def)
qed

lemma grown_entry:
  assumes ok: "file_ok nb used blk di" and b: "fresh_block nb used blk used' blk' (unat b)"
    and i: "sfi_indirect di \<noteq> 0" "j < SFS_DBPERIDB" "load_words (blk (unat (sfi_indirect di))) ! j = 0"
    and len: "length (blk (unat (sfi_indirect di))) = SFS_BLOCKSIZE"
  shows "grown nb used blk di used'
    (blk'(unat (sfi_indirect di) := store_words ((load_words (blk (unat (sfi_indirect di))))[j := b]))) di (unat b)
    ((fmap blk di)(SFS_NDIRECT + j := unat b))"
proof -
  let ?ind = "unat (sfi_indirect di)" and ?k = "SFS_NDIRECT + j"
  let ?blk = "blk'(?ind := store_words ((load_words (blk ?ind))[j := b]))"
  note d = file_okD [OF ok]
  have bb: "unat b \<notin> used" "unat b \<noteq> 0" "unat b < nb" "used' = insert (unat b) used" "blk' = blk(unat b := replicate SFS_BLOCKSIZE 0)"
    using b by (auto simp: fresh_block_def)
  have ind: "?ind \<in> used" "unat b \<noteq> ?ind" using d(3) i(1) bb(1) by auto
  have lw: "length (load_words (blk ?ind)) = SFS_DBPERIDB" using len by (simp add: length_load_words sfs_sizes)
  have m: "fmap ?blk di = (fmap blk di)(?k := unat b)"
    using i lw by (auto simp: fmap_def fun_eq_iff SFS_MAXBLOCKS_def)
  have k: "?k < SFS_MAXBLOCKS" "fmap blk di ?k = 0" using i by (auto simp: fmap_def SFS_MAXBLOCKS_def)
  have fo: "file_ok nb (insert (unat b) used) ?blk di" by (rule file_ok_grown [OF ok bb(1,3) k m d(1)]) simp
  have fb: "fblocks ?blk di = insert (unat b) (fblocks blk di)" by (rule fblocks_grown [OF m k bb(2)]) simp
  have ne: "fmap blk di i \<noteq> unat b" for i using d(2) [of i] bb(1,2) by auto
  have "fbyte ?blk di = fbyte blk di"
    by (rule fbyte_grown [OF ok m k(2)]) (use d(5) ind in \<open>simp_all add: bb(5) ne\<close>)
  then show ?thesis using fo fb m bb indirect_in_fblocks [OF i(1), of blk] by (auto simp: grown_def)
qed

section \<open>Operations on a file\<close>

text \<open>The view of a volume with an open file.\<close>

abbreviation st_blk :: "('d \<Rightarrow> nat \<Rightarrow> u8 list) \<Rightarrow> 'd fstate \<Rightarrow> nat \<Rightarrow> u8 list" where
  "st_blk sect st \<equiv> sect (disk_of (fst st))"

abbreviation st_map :: "('d \<Rightarrow> nat \<Rightarrow> u8 list) \<Rightarrow> 'd fstate \<Rightarrow> nat \<Rightarrow> nat" where
  "st_map sect st \<equiv> fmap (st_blk sect st) (sv_i (snd st))"

abbreviation st_owned :: "('d \<Rightarrow> nat \<Rightarrow> u8 list) \<Rightarrow> 'd fstate \<Rightarrow> nat set" where
  "st_owned sect st \<equiv> fblocks (st_blk sect st) (sv_i (snd st))"

abbreviation st_byte :: "('d \<Rightarrow> nat \<Rightarrow> u8 list) \<Rightarrow> 'd fstate \<Rightarrow> nat \<Rightarrow> u8" where
  "st_byte sect st \<equiv> fbyte (st_blk sect st) (sv_i (snd st))"

abbreviation st_used :: "'d fstate \<Rightarrow> nat set" where
  "st_used st \<equiv> blocks_used (fst st)"

definition file_inv :: "'d devop_io \<Rightarrow> ('d \<Rightarrow> nat \<Rightarrow> u8 list) \<Rightarrow> nat \<Rightarrow> ('d \<Rightarrow> bool) \<Rightarrow> 'd fstate \<Rightarrow> bool" where
  "file_inv io sect nsect ready st \<longleftrightarrow> vol_ok io nsect ready (fst st) \<and>
     file_ok (nblocks (fst st)) (st_used st) (st_blk sect st) (sv_i (snd st))"

text \<open>
  One operation on the file: blocks in use that are not the file's keep their contents and stay in use, blocks
  leave and enter use only with the file, the identity of the inode stays, and changes of the inode and the free
  map are marked as such.
\<close>

definition file_step :: "('d \<Rightarrow> nat \<Rightarrow> u8 list) \<Rightarrow> 'd fstate \<Rightarrow> 'd fstate \<Rightarrow> bool" where
  "file_step sect st st' \<longleftrightarrow> fs_same (fst st) (fst st') \<and>
     (\<forall>x \<in> st_used st - st_owned sect st. st_blk sect st' x = st_blk sect st x) \<and>
     st_used st' - st_owned sect st' = st_used st - st_owned sect st \<and>
     (sfs_freemapdirty (fst st) \<or> st_used st' \<noteq> st_used st \<longrightarrow> sfs_freemapdirty (fst st')) \<and>
     vn_refcount (snd st') = vn_refcount (snd st) \<and> vn_ops (snd st') = vn_ops (snd st) \<and> sv_ino (snd st') = sv_ino (snd st) \<and>
     sfi_type (sv_i (snd st')) = sfi_type (sv_i (snd st)) \<and> sfi_linkcount (sv_i (snd st')) = sfi_linkcount (sv_i (snd st)) \<and>
     (sv_dirty (snd st) \<or> sv_i (snd st') \<noteq> sv_i (snd st) \<longrightarrow> sv_dirty (snd st'))"

lemma file_step_refl [simp]: "file_step sect st st"
  by (simp add: file_step_def)

lemma file_step_trans:
  assumes "file_step sect a b" "file_step sect b c"
  shows "file_step sect a c"
proof -
  have same: "fs_same (fst a) (fst c)" using assms by (auto simp: file_step_def intro: fs_same_trans)
  have own: "st_used b - st_owned sect b = st_used a - st_owned sect a" using assms(1) by (simp add: file_step_def)
  have "st_blk sect c x = st_blk sect a x" if x: "x \<in> st_used a - st_owned sect a" for x
  proof -
    have "st_blk sect b x = st_blk sect a x" using assms(1) x by (simp add: file_step_def)
    moreover have "st_blk sect c x = st_blk sect b x" using assms(2) x unfolding own [symmetric] by (simp add: file_step_def)
    ultimately show ?thesis by simp
  qed
  with same show ?thesis using assms unfolding file_step_def by (metis (no_types, lifting))
qed

text \<open>Reading the disk changes nothing the file system sees.\<close>

lemma read_step:
  assumes "sect d' = sect (disk_of sfs)"
  shows "file_step sect (sfs, sv) (set_disk sfs d', sv)"
  using assms by (simp add: file_step_def)

lemma file_inv_read:
  assumes "file_inv io sect nsect ready (sfs, sv)" "sect d' = sect (disk_of sfs)" "ready d'"
  shows "file_inv io sect nsect ready (set_disk sfs d', sv)"
  using assms by (simp add: file_inv_def)

lemma grown_step:
  assumes g: "grown nb (blocks_used sfs) (sect (disk_of sfs)) (sv_i sv) (blocks_used sfs') (sect (disk_of sfs')) di' b m"
    and s: "fs_same sfs sfs'" "vol_ok io nsect ready sfs'" "sfs_freemapdirty sfs'" "nb = nblocks sfs"
    and di: "sfi_type di' = sfi_type (sv_i sv)" "sfi_linkcount di' = sfi_linkcount (sv_i sv)" "di' \<noteq> sv_i sv \<Longrightarrow> dirty" "sv_dirty sv \<Longrightarrow> dirty"
  defines "sv' \<equiv> sv\<lparr>sv_i := di', sv_dirty := dirty\<rparr>"
  shows "file_inv io sect nsect ready (sfs', sv')" "file_step sect (sfs, sv) (sfs', sv')"
    "st_map sect (sfs', sv') = m" "st_byte sect (sfs', sv') = st_byte sect (sfs, sv)"
proof -
  note g' = g [unfolded grown_def]
  have n: "nblocks sfs' = nblocks sfs" using s(1) by (simp add: fs_same_def)
  have fo: "file_ok nb (blocks_used sfs') (sect (disk_of sfs')) di'" using g' by blast
  then show "file_inv io sect nsect ready (sfs', sv')" using s n by (simp add: file_inv_def sv'_def)
  show "st_map sect (sfs', sv') = m" using g' by (simp add: sv'_def)
  show "st_byte sect (sfs', sv') = st_byte sect (sfs, sv)" using g' by (simp add: sv'_def)
  have "blocks_used sfs' - insert b (fblocks (sect (disk_of sfs)) (sv_i sv)) = blocks_used sfs - fblocks (sect (disk_of sfs)) (sv_i sv)"
    using g' by auto
  then show "file_step sect (sfs, sv) (sfs', sv')" using g' s di by (auto simp: file_step_def sv'_def)
qed

lemma with_sv_simps [simp]:
  "with_sv sv (Ok s x) = Ok (s, sv) x" "with_sv sv (Err s e) = Err (s, sv) e"
  "with_sv sv Panic = Panic" "with_sv sv Fault = Fault" "with_sv sv Blocked = Blocked"
  by (simp_all add: with_sv_def)

lemma bmap_check_ok:
  assumes "vol_ok io nsect ready sfs" "b = 0 \<or> unat b < nblocks sfs \<and> unat b \<in> blocks_used sfs"
  shows "bmap_check (sfs, sv) b = Ok (sfs, sv) b"
  using assms sfs_bused_ok [OF assms(1), of b] by (auto simp: bmap_check_def)

context reliable_device
begin

abbreviation finv :: "'a fstate \<Rightarrow> bool" where
  "finv \<equiv> file_inv io sect nsect ready"

text \<open>
  What \<open>sfs_bmap\<close> promises: \<open>keeps st st'\<close> for every way out, and for a returned block that the map of the file now
  has it.
\<close>

definition keeps :: "'a fstate \<Rightarrow> 'a fstate \<Rightarrow> bool" where
  "keeps st st' \<longleftrightarrow> finv st' \<and> file_step sect st st' \<and> st_byte sect st' = st_byte sect st \<and>
     sfi_size (sv_i (snd st')) = sfi_size (sv_i (snd st))"

lemma keeps_refl: "finv st \<Longrightarrow> keeps st st"
  by (simp add: keeps_def)

lemma keeps_trans: "keeps a b \<Longrightarrow> keeps b c \<Longrightarrow> keeps a c"
  by (auto simp: keeps_def intro: file_step_trans)

text \<open>Only reads happened.\<close>

definition looked :: "'a fstate \<Rightarrow> 'a fstate \<Rightarrow> bool" where
  "looked st st' \<longleftrightarrow> (\<exists>d. st' = (set_disk (fst st) d, snd st) \<and> ready d \<and> sect d = st_blk sect st)"

definition bmap_post :: "nat \<Rightarrow> bool \<Rightarrow> 'a fstate \<Rightarrow> ('a fstate, u32) outcome \<Rightarrow> bool" where
  "bmap_post k doalloc st r \<longleftrightarrow>
     (\<exists>st' b. r = Ok st' b \<and> keeps st st' \<and> st_map sect st' = (st_map sect st)(k := unat b) \<and>
        (st_map sect st k \<noteq> 0 \<or> \<not> doalloc \<longrightarrow> unat b = st_map sect st k) \<and> (doalloc \<longrightarrow> b \<noteq> 0) \<and> (\<not> doalloc \<longrightarrow> looked st st')) \<or>
     (\<exists>st' e. r = Err st' e \<and> keeps st st' \<and> st_map sect st' = st_map sect st \<and> (e = EIO \<or> e = ENOSPC \<and> doalloc) \<and>
        (\<not> doalloc \<longrightarrow> looked st st'))"

lemma bmap_postI1:
  "r = Ok st' b \<Longrightarrow> keeps st st' \<Longrightarrow> st_map sect st' = (st_map sect st)(k := unat b) \<Longrightarrow>
   (st_map sect st k \<noteq> 0 \<or> \<not> doalloc \<longrightarrow> unat b = st_map sect st k) \<Longrightarrow> (doalloc \<longrightarrow> b \<noteq> 0) \<Longrightarrow> (\<not> doalloc \<longrightarrow> looked st st') \<Longrightarrow>
   bmap_post k doalloc st r"
  unfolding bmap_post_def by blast

lemma bmap_postI2:
  "r = Err st' e \<Longrightarrow> keeps st st' \<Longrightarrow> st_map sect st' = st_map sect st \<Longrightarrow> e = EIO \<or> e = ENOSPC \<and> doalloc \<Longrightarrow>
   (\<not> doalloc \<longrightarrow> looked st st') \<Longrightarrow> bmap_post k doalloc st r"
  unfolding bmap_post_def by blast

lemma looked_refl: "finv st \<Longrightarrow> looked st st"
  by (cases st) (auto simp: looked_def set_disk_def file_inv_def vol_ok_def on_device_def intro!: exI [of _ "disk_of (fst st)"])

lemma looked_keeps: "finv st \<Longrightarrow> looked st st' \<Longrightarrow> keeps st st' \<and> st_map sect st' = st_map sect st"
  by (cases st) (auto simp: looked_def keeps_def read_step file_inv_read)

lemma balloc_fresh:
  assumes "vol_ok io nsect ready sfs"
  shows "(\<exists>sfs' b. sfs_balloc sfs = Ok sfs' b \<and> vol_ok io nsect ready sfs' \<and> fs_same sfs sfs' \<and> sfs_freemapdirty sfs' \<and>
      fresh_block (nblocks sfs) (blocks_used sfs) (sect (disk_of sfs)) (blocks_used sfs') (sect (disk_of sfs')) (unat b)) \<or>
    sfs_balloc sfs = Err sfs ENOSPC \<and> {..<nblocks sfs} \<subseteq> blocks_used sfs"
proof -
  have "unat b \<noteq> 0" if "unat b \<notin> blocks_used sfs" for b :: u32 using that vol_okD(6) [OF assms] by metis
  then show ?thesis using balloc [OF assms] unfolding fresh_block_def by blast
qed

lemma bmap_direct_ok:
  assumes inv: "finv st" and i: "i < SFS_NDIRECT"
  shows "bmap_post i doalloc st (bmap_direct i doalloc st)"
proof -
  obtain sfs sv where st: "st = (sfs, sv)" by (cases st)
  let ?b = "sfi_direct (sv_i sv) ! i"
  have v: "vol_ok io nsect ready sfs" and fo: "file_ok (nblocks sfs) (blocks_used sfs) (sect (disk_of sfs)) (sv_i sv)"
    using inv by (simp_all add: file_inv_def st)
  have m: "st_map sect st i = unat ?b" using i by (simp add: st fmap_def)
  show ?thesis
  proof (cases "?b = 0 \<and> doalloc")
    case False
    have "?b = 0 \<or> unat ?b < nblocks sfs \<and> unat ?b \<in> blocks_used sfs"
      using file_okD(2) [OF fo, of i] m unat_eq_zero [of ?b] by (auto simp: st)
    then have "bmap_check (sfs, sv) ?b = Ok (sfs, sv) ?b" by (rule bmap_check_ok [OF v])
    then have "bmap_direct i doalloc st = Ok st ?b" using False by (auto simp: bmap_direct_def st Let_def)
    then show ?thesis using m False keeps_refl [OF inv] looked_refl [OF inv]
      by (intro bmap_postI1) (auto simp: fun_upd_idem)
  next
    case True
    show ?thesis using balloc_fresh [OF v]
    proof (elim disjE exE conjE)
      fix sfs' b
      assume a: "sfs_balloc sfs = Ok sfs' b" "vol_ok io nsect ready sfs'" "fs_same sfs sfs'" "sfs_freemapdirty sfs'"
        and f: "fresh_block (nblocks sfs) (blocks_used sfs) (sect (disk_of sfs)) (blocks_used sfs') (sect (disk_of sfs')) (unat b)"
      have z: "?b = 0" using True by simp
      note g = grown_direct [OF fo f i z]
      note gs = grown_step [OF g a(3,2,4) refl, of True, folded set_direct_def]
      have chk: "unat b < nblocks sfs' \<and> unat b \<in> blocks_used sfs'" using f a(3) by (auto simp: fresh_block_def fs_same_def)
      have e: "bmap_direct i doalloc st = Ok (sfs', set_direct i b sv) b"
        using True a(1) bmap_check_ok [OF a(2) disjI2, OF chk] by (simp add: bmap_direct_def st)
      have "keeps st (sfs', set_direct i b sv)" using gs by (simp add: keeps_def st set_direct_def)
      moreover have "b \<noteq> 0" using f by (auto simp: fresh_block_def)
      ultimately show ?thesis using e gs(3) m True by (intro bmap_postI1) (auto simp: st set_direct_def)
    next
      assume "sfs_balloc sfs = Err sfs ENOSPC"
      then show ?thesis using True keeps_refl [OF inv] by (intro bmap_postI2) (auto simp: bmap_direct_def st)
    qed
  qed
qed

lemma finvD:
  assumes "finv (sfs, sv)"
  shows "vol_ok io nsect ready sfs" "on_device io nsect ready sfs"
    "file_ok (nblocks sfs) (blocks_used sfs) (sect (disk_of sfs)) (sv_i sv)" "vfs_biglock_do_i_hold sfs" "nblocks sfs \<le> nsect"
  using assms by (auto simp: file_inv_def vol_ok_def on_device_def)

text \<open>Loading the indirect block, allocated first if there is none.\<close>

lemma bmap_load_ok:
  assumes inv: "finv st"
  shows "(\<exists>st' id. bmap_load st = Ok st' (id, load_words (st_blk sect st' (unat id))) \<and> keeps st st' \<and>
      st_map sect st' = st_map sect st \<and> sfi_indirect (sv_i (snd st')) = id \<and> id \<noteq> 0 \<and>
      (sfi_indirect (sv_i (snd st)) \<noteq> 0 \<longrightarrow> looked st st')) \<or>
    (\<exists>st' e. bmap_load st = Err st' e \<and> keeps st st' \<and> st_map sect st' = st_map sect st \<and>
      (e = EIO \<and> looked st st' \<or> e = ENOSPC \<and> sfi_indirect (sv_i (snd st)) = 0))"
proof -
  obtain sfs sv where st: "st = (sfs, sv)" by (cases st)
  note i = inv [unfolded st] and d = finvD [OF inv [unfolded st]]
  let ?id = "sfi_indirect (sv_i sv)"
  show ?thesis
  proof (cases "?id = 0")
    case True
    show ?thesis using balloc_fresh [OF d(1)]
    proof (elim disjE exE conjE)
      fix sfs' b
      assume a: "sfs_balloc sfs = Ok sfs' b" "vol_ok io nsect ready sfs'" "fs_same sfs sfs'" "sfs_freemapdirty sfs'"
        and f: "fresh_block (nblocks sfs) (blocks_used sfs) (sect (disk_of sfs)) (blocks_used sfs') (sect (disk_of sfs')) (unat b)"
      note gs = grown_step [OF grown_indirect [OF d(3) f True] a(3,2,4) refl, of True, folded set_indirect_def]
      have w: "load_words (sect (disk_of sfs') (unat b)) = replicate SFS_DBPERIDB 0"
        using f by (simp add: fresh_block_def load_words_zeros)
      have e: "bmap_load st = Ok (sfs', set_indirect b sv) (b, load_words (sect (disk_of sfs') (unat b)))"
        using True a(1) by (simp add: bmap_load_def st w)
      have k: "keeps st (sfs', set_indirect b sv)" using gs by (simp add: keeps_def st set_indirect_def)
      have b: "b \<noteq> 0" "sfi_indirect (sv_i (set_indirect b sv)) = b" using f by (auto simp: fresh_block_def set_indirect_def)
      show ?thesis using e k b gs(3) True
        by (intro disjI1 exI [of _ "(sfs', set_indirect b sv)"] exI [of _ b]) (auto simp: st set_indirect_def)
    next
      assume "sfs_balloc sfs = Err sfs ENOSPC"
      then show ?thesis using True keeps_refl [OF inv]
        by (intro disjI2 exI [of _ st] exI [of _ ENOSPC]) (auto simp: bmap_load_def st)
    qed
  next
    case False
    have lt: "unat ?id < nsect" using file_okD(3) [OF d(3) False] d(5) by simp
    obtain d' where r: "ready d'" "sect d' = sect (disk_of sfs)"
        "sfs_readblock ?id (replicate SFS_BLOCKSIZE 0) sfs = Ok (set_disk sfs d') (sect (disk_of sfs) (unat ?id)) \<or>
         sfs_readblock ?id (replicate SFS_BLOCKSIZE 0) sfs = Err (set_disk sfs d') EIO"
      using readblock [OF d(2) lt, of "replicate SFS_BLOCKSIZE 0"] by auto
    let ?st = "(set_disk sfs d', sv)"
    have l: "looked st ?st" using r by (auto simp: looked_def st)
    note k = looked_keeps [OF inv l]
    show ?thesis using r(3)
    proof
      assume "sfs_readblock ?id (replicate SFS_BLOCKSIZE 0) sfs = Ok (set_disk sfs d') (sect (disk_of sfs) (unat ?id))"
      then have "bmap_load st = Ok ?st (?id, load_words (st_blk sect ?st (unat ?id)))" using False r(2) by (simp add: bmap_load_def st Let_def)
      then show ?thesis using k l False by (intro disjI1 exI [of _ ?st] exI [of _ ?id]) auto
    next
      assume "sfs_readblock ?id (replicate SFS_BLOCKSIZE 0) sfs = Err (set_disk sfs d') EIO"
      then have "bmap_load st = Err ?st EIO" using False by (simp add: bmap_load_def st)
      then show ?thesis using k l by (intro disjI2 exI [of _ ?st] exI [of _ EIO]) auto
    qed
  qed
qed

lemma bmap_entry_ok:
  assumes inv: "finv st" and ib: "sfi_indirect (sv_i (snd st)) = ib" "ib \<noteq> 0" and j: "j < SFS_DBPERIDB"
    and w: "w = load_words (st_blk sect st (unat ib))"
  shows "bmap_post (SFS_NDIRECT + j) doalloc st
    (case st of (sfs, sv) \<Rightarrow> and_then
       (if w ! j = 0 \<and> doalloc
        then and_then (with_sv sv (sfs_balloc sfs)) (\<lambda>(sfs, sv) block.
               and_then (with_sv sv (sfs_writeblock ib (store_words (w[j := block])) sfs)) (\<lambda>st _. Ok st block))
        else Ok (sfs, sv) (w ! j)) bmap_check)"
proof -
  obtain sfs sv where st: "st = (sfs, sv)" by (cases st)
  note d = finvD [OF inv [unfolded st]]
  have ib': "sfi_indirect (sv_i sv) = ib" using ib(1) by (simp add: st)
  have m: "st_map sect st (SFS_NDIRECT + j) = unat (w ! j)" using j ib w by (simp add: st fmap_def sfs_lens)
  show ?thesis
  proof (cases "w ! j = 0 \<and> doalloc")
    case False
    have "w ! j = 0 \<or> unat (w ! j) < nblocks sfs \<and> unat (w ! j) \<in> blocks_used sfs"
      using file_okD(2) [OF d(3), of "SFS_NDIRECT + j"] m unat_eq_zero [of "w ! j"] by (auto simp: st)
    then have "bmap_check (sfs, sv) (w ! j) = Ok (sfs, sv) (w ! j)" by (rule bmap_check_ok [OF d(1)])
    then show ?thesis using m False keeps_refl [OF inv] looked_refl [OF inv]
      by (intro bmap_postI1 [of _ st "w ! j"]) (auto simp: st fun_upd_idem)
  next
    case True
    then have z: "w ! j = 0" "doalloc" by auto
    show ?thesis using balloc_fresh [OF d(1)]
    proof (elim disjE exE conjE)
      fix sfs' b
      assume a: "sfs_balloc sfs = Ok sfs' b" "vol_ok io nsect ready sfs'" "fs_same sfs sfs'" "sfs_freemapdirty sfs'"
        and f: "fresh_block (nblocks sfs) (blocks_used sfs) (sect (disk_of sfs)) (blocks_used sfs') (sect (disk_of sfs')) (unat b)"
      have lw: "length w = SFS_DBPERIDB" unfolding w using block_length by (simp add: length_load_words sfs_sizes)
      have lt: "unat ib < nsect" using file_okD(3) [OF d(3)] ib(2) ib' d(5) by simp
      obtain d' where d': "sfs_writeblock ib (store_words (w[j := b])) sfs' = Ok (set_disk sfs' d') ()" "ready d'"
          "sect d' = (sect (disk_of sfs'))(unat ib := store_words (w[j := b]))"
        using writeblock [OF vol_okD(1) [OF a(2)] lt, of "store_words (w[j := b])"] lw by (auto simp: sfs_sizes)
      let ?s = "set_disk sfs' d'"
      have g: "grown (nblocks sfs) (blocks_used sfs) (sect (disk_of sfs)) (sv_i sv) (blocks_used ?s) (sect (disk_of ?s)) (sv_i sv)
          (unat b) ((fmap (sect (disk_of sfs)) (sv_i sv))(SFS_NDIRECT + j := unat b))"
        using grown_entry [OF d(3) f _ j] ib(2) ib' z(1) w block_length d'(3) by (simp add: st sfs_sizes)
      have s: "fs_same sfs ?s" "vol_ok io nsect ready ?s" "sfs_freemapdirty ?s"
        using a d'(2) fs_same_trans [OF a(3) fs_same_set_disk] by auto
      note gs = grown_step [OF g s refl, of "sv_dirty sv", simplified]
      have chk: "unat b < nblocks ?s \<and> unat b \<in> blocks_used ?s" using f a(3) by (auto simp: fresh_block_def fs_same_def)
      have "keeps st (?s, sv)" using gs by (simp add: keeps_def st)
      moreover have "b \<noteq> 0" using f by (auto simp: fresh_block_def)
      ultimately show ?thesis using a(1) d'(1) z gs(3) m bmap_check_ok [OF s(2) disjI2, OF chk]
        by (intro bmap_postI1 [of _ "(?s, sv)" b]) (auto simp: st)
    next
      assume "sfs_balloc sfs = Err sfs ENOSPC"
      then show ?thesis using z keeps_refl [OF inv] by (intro bmap_postI2 [of _ st ENOSPC]) (auto simp: st)
    qed
  qed
qed

lemma looked_trans: "looked a b \<Longrightarrow> looked b c \<Longrightarrow> looked a c"
  by (auto simp: looked_def)

lemma bmap_post_from:
  assumes "keeps st st1" "st_map sect st1 = st_map sect st" "\<not> doalloc \<longrightarrow> looked st st1" "bmap_post k doalloc st1 r"
  shows "bmap_post k doalloc st r"
proof -
  have l: "\<not> doalloc \<longrightarrow> looked st st'" if "\<not> doalloc \<longrightarrow> looked st1 st'" for st'
    using that assms(3) looked_trans by blast
  from assms(4) [unfolded bmap_post_def assms(2)] show ?thesis
  proof (elim disjE exE conjE)
    fix st' b
    assume "r = Ok st' b" "keeps st1 st'" "st_map sect st' = (st_map sect st)(k := unat b)"
      "st_map sect st k \<noteq> 0 \<or> \<not> doalloc \<longrightarrow> unat b = st_map sect st k" "doalloc \<longrightarrow> b \<noteq> 0" "\<not> doalloc \<longrightarrow> looked st1 st'"
    then show ?thesis by (intro bmap_postI1 [of r st' b] keeps_trans [OF assms(1)] l)
  next
    fix st' e
    assume "r = Err st' e" "keeps st1 st'" "st_map sect st' = st_map sect st" "e = EIO" "\<not> doalloc \<longrightarrow> looked st1 st'"
    then show ?thesis by (intro bmap_postI2 [of r st' e] keeps_trans [OF assms(1)] l) simp_all
  next
    fix st' e
    assume "r = Err st' e" "keeps st1 st'" "st_map sect st' = st_map sect st" "e = ENOSPC" doalloc "\<not> doalloc \<longrightarrow> looked st1 st'"
    then show ?thesis by (intro bmap_postI2 [of r st' e] keeps_trans [OF assms(1)] l) simp_all
  qed
qed

lemma bmap_indirect_ok:
  assumes inv: "finv st" and j: "j < SFS_DBPERIDB"
  shows "bmap_post (SFS_NDIRECT + j) doalloc st (bmap_indirect j doalloc st)"
proof (cases "sfi_indirect (sv_i (snd st)) = 0 \<and> \<not> doalloc")
  case True
  then have m: "st_map sect st (SFS_NDIRECT + j) = 0" by (simp add: fmap_def)
  from True have "bmap_indirect j doalloc st = Ok st 0" by (cases st) (simp add: bmap_indirect_def)
  then show ?thesis using m True keeps_refl [OF inv] looked_refl [OF inv]
    by (intro bmap_postI1 [of _ st 0]) (auto simp: fun_upd_idem)
next
  case False
  have c: "bmap_indirect j doalloc st = and_then (bmap_load st) (\<lambda>(sfs, sv) (idblock, idbuf).
       let block = idbuf ! j
       in and_then
            (if block = 0 \<and> doalloc
             then and_then (with_sv sv (sfs_balloc sfs)) (\<lambda>(sfs, sv) block.
                    and_then (with_sv sv (sfs_writeblock idblock (store_words (idbuf[j := block])) sfs))
                      (\<lambda>st _. Ok st block))
             else Ok (sfs, sv) block)
            bmap_check)"
    using False by (cases st) (auto simp: bmap_indirect_def)
  from bmap_load_ok [OF inv] show ?thesis
  proof (elim disjE exE conjE)
    fix st1 ib
    assume l: "bmap_load st = Ok st1 (ib, load_words (st_blk sect st1 (unat ib)))" "keeps st st1" "st_map sect st1 = st_map sect st"
      "sfi_indirect (sv_i (snd st1)) = ib" "ib \<noteq> 0" "sfi_indirect (sv_i (snd st)) \<noteq> 0 \<longrightarrow> looked st st1"
    have inv1: "finv st1" using l(2) by (simp add: keeps_def)
    have lk: "\<not> doalloc \<longrightarrow> looked st st1" using l(6) False by blast
    obtain sfs1 sv1 where s1: "st1 = (sfs1, sv1)" by (cases st1)
    show ?thesis using bmap_post_from [OF l(2,3) lk bmap_entry_ok [OF inv1 l(4,5) j refl]]
      unfolding c l(1) s1 and_then.simps prod.case Let_def .
  next
    fix st1 e
    assume l: "bmap_load st = Err st1 e" "keeps st st1" "st_map sect st1 = st_map sect st"
    show ?thesis if "e = EIO" "looked st st1"
      using l that unfolding c by (intro bmap_postI2 [of _ st1 EIO]) auto
    show ?thesis if "e = ENOSPC" "sfi_indirect (sv_i (snd st)) = 0"
      using l that False unfolding c by (intro bmap_postI2 [of _ st1 ENOSPC]) auto
  qed
qed

lemma fileblock_split:
  fixes fb :: u32
  assumes "\<not> unat fb < SFS_NDIRECT"
  shows "unat ((fb - of_nat SFS_NDIRECT) div of_nat SFS_DBPERIDB) = (unat fb - SFS_NDIRECT) div SFS_DBPERIDB"
    "unat ((fb - of_nat SFS_NDIRECT) mod of_nat SFS_DBPERIDB) = (unat fb - SFS_NDIRECT) mod SFS_DBPERIDB"
proof -
  have "(15 :: u32) \<le> fb" using assms by (simp add: word_le_nat_alt sfs_sizes)
  then have "unat (fb - 15) = unat fb - 15" by (simp add: unat_sub)
  then show "unat ((fb - of_nat SFS_NDIRECT) div of_nat SFS_DBPERIDB) = (unat fb - SFS_NDIRECT) div SFS_DBPERIDB"
    "unat ((fb - of_nat SFS_NDIRECT) mod of_nat SFS_DBPERIDB) = (unat fb - SFS_NDIRECT) mod SFS_DBPERIDB"
    by (simp_all add: sfs_sizes unat_div unat_mod)
qed

lemma bmap_ok:
  assumes inv: "finv st"
  shows "if unat fb < SFS_MAXBLOCKS then bmap_post (unat fb) doalloc st (sfs_bmap fb doalloc st)
    else sfs_bmap fb doalloc st = Err st EFBIG"
proof -
  obtain sfs sv where st: "st = (sfs, sv)" by (cases st)
  have h: "vfs_biglock_do_i_hold sfs" using finvD(4) [OF inv [unfolded st]] .
  show ?thesis
  proof (cases "unat fb < SFS_NDIRECT")
    case True
    then show ?thesis using bmap_direct_ok [OF inv True, of doalloc] h by (simp add: sfs_bmap_def st SFS_MAXBLOCKS_def)
  next
    case False
    note sp = fileblock_split [OF False]
    let ?j = "unat fb - SFS_NDIRECT"
    show ?thesis
    proof (cases "unat fb < SFS_MAXBLOCKS")
      case True
      then have j: "?j < SFS_DBPERIDB" using False by (simp add: SFS_MAXBLOCKS_def)
      then have "?j div SFS_DBPERIDB = 0" "?j mod SFS_DBPERIDB = ?j" by simp_all
      then have "sfs_bmap fb doalloc st = bmap_indirect ?j doalloc st"
        using False h by (simp add: sfs_bmap_def st Let_def sp SFS_NINDIRECT_def)
      moreover have "SFS_NDIRECT + ?j = unat fb" using False by simp
      ultimately show ?thesis using bmap_indirect_ok [OF inv j, of doalloc] True by simp
    next
      case big: False
      then have "0 < ?j div SFS_DBPERIDB" by (simp add: sfs_lens div_greater_zero_iff)
      then show ?thesis using False big h by (simp add: sfs_bmap_def st Let_def sp SFS_NINDIRECT_def)
    qed
  qed
qed

end

section \<open>Property\<close>

text \<open>
  C35. Looking up and allocating the blocks of a file. On a sound volume and file \<open>sfs_bmap\<close> never panics. Past the
  143 blocks an inode can map it returns \<open>EFBIG\<close> and changes nothing. Otherwise it returns the block of the map, or
  with \<open>doalloc\<close> a block that was free, is cleared, and is the map's from now on; or it fails with \<open>EIO\<close> or, only when
  allocating, \<open>ENOSPC\<close>. On every way out the file is sound again (no two of its blocks coincide, all are in use and
  inside the volume), its bytes are unchanged, no block of another file is touched or freed, and without
  \<open>doalloc\<close> nothing is written.
\<close>

theorem sfs_bmap_sound:
  assumes "reliable_device io sect nsect ready" "file_inv io sect nsect ready st"
  shows "if unat fb < SFS_MAXBLOCKS then
      (\<exists>st' b. sfs_bmap fb doalloc st = Ok st' b \<and> file_inv io sect nsect ready st' \<and> file_step sect st st' \<and>
         st_byte sect st' = st_byte sect st \<and> st_map sect st' = (st_map sect st)(unat fb := unat b) \<and>
         (st_map sect st (unat fb) \<noteq> 0 \<or> \<not> doalloc \<longrightarrow> unat b = st_map sect st (unat fb)) \<and> (doalloc \<longrightarrow> b \<noteq> 0) \<and>
         (\<not> doalloc \<longrightarrow> snd st' = snd st \<and> st_blk sect st' = st_blk sect st)) \<or>
      (\<exists>st' e. sfs_bmap fb doalloc st = Err st' e \<and> file_inv io sect nsect ready st' \<and> file_step sect st st' \<and>
         st_byte sect st' = st_byte sect st \<and> st_map sect st' = st_map sect st \<and> (e = EIO \<or> e = ENOSPC \<and> doalloc))
    else sfs_bmap fb doalloc st = Err st EFBIG"
proof (cases "unat fb < SFS_MAXBLOCKS")
  case True
  note defs = reliable_device.bmap_post_def [OF assms(1)] reliable_device.keeps_def [OF assms(1)]
  have l: "snd st' = snd st \<and> st_blk sect st' = st_blk sect st" if "reliable_device.looked sect ready st st'" for st'
    using that unfolding reliable_device.looked_def [OF assms(1)] by auto
  have "reliable_device.bmap_post io sect nsect ready (unat fb) doalloc st (sfs_bmap fb doalloc st)"
    using reliable_device.bmap_ok [OF assms, of fb doalloc] True by simp
  then show ?thesis unfolding defs
  proof (elim disjE)
    assume "\<exists>st' b. sfs_bmap fb doalloc st = Ok st' b \<and> (file_inv io sect nsect ready st' \<and> file_step sect st st' \<and>
        st_byte sect st' = st_byte sect st \<and> sfi_size (sv_i (snd st')) = sfi_size (sv_i (snd st))) \<and>
        st_map sect st' = (st_map sect st)(unat fb := unat b) \<and>
        (st_map sect st (unat fb) \<noteq> 0 \<or> \<not> doalloc \<longrightarrow> unat b = st_map sect st (unat fb)) \<and> (doalloc \<longrightarrow> b \<noteq> 0) \<and>
        (\<not> doalloc \<longrightarrow> reliable_device.looked sect ready st st')"
    then show ?thesis unfolding if_P [OF True] using l by blast
  next
    assume "\<exists>st' e. sfs_bmap fb doalloc st = Err st' e \<and> (file_inv io sect nsect ready st' \<and> file_step sect st st' \<and>
        st_byte sect st' = st_byte sect st \<and> sfi_size (sv_i (snd st')) = sfi_size (sv_i (snd st))) \<and>
        st_map sect st' = st_map sect st \<and> (e = EIO \<or> e = ENOSPC \<and> doalloc) \<and>
        (\<not> doalloc \<longrightarrow> reliable_device.looked sect ready st st')"
    then show ?thesis unfolding if_P [OF True] by blast
  qed
next
  case False
  then show ?thesis using reliable_device.bmap_ok [OF assms, of fb doalloc] by simp
qed

text \<open>A volume of 16 blocks on a sound disk, and an inode with one block, number 5.\<close>

definition plain_volume :: "(nat \<Rightarrow> u8 list) lhd_softc sfs_fs" where
  "plain_volume =
     \<lparr>sfs_sb = \<lparr>sb_magic = SFS_MAGIC, sb_nblocks = 16, sb_volname = replicate 32 0, sb_reserved = replicate 118 0\<rparr>,
      sfs_superdirty = False,
      sfs_device = \<lparr>d_io = lhd_io plain_disk, d_blocks = 16, d_blocksize = 512,
        d_data = \<lparr>lh_card = (\<lambda>_. replicate 512 0), lh_sect = 0, lh_stat = 0, lh_buf = replicate 512 0,
          lh_result = None, lh_clear = 1, lh_done = 0, lh_blocks = 16\<rparr>\<rparr>,
      sfs_vnodes = [], sfs_freemap = \<lparr>nbits = 4096, bm_v = [127, 0] @ replicate 510 255\<rparr>, sfs_freemapdirty = False, vfs_biglock_depth = 1,
      proc_as = None\<rparr>"

definition plain_vnode :: sfs_vnode where
  "plain_vnode = \<lparr>vn_refcount = 1, vn_ops = sfs_fileops,
     sv_i = \<lparr>sfi_size = 100, sfi_type = SFS_TYPE_FILE, sfi_linkcount = 1, sfi_direct = 5 # replicate 14 0, sfi_indirect = 0,
       sfi_waste = replicate 110 0\<rparr>, sv_ino = 6, sv_dirty = False\<rparr>"

lemma plain_device: "reliable_device (lhd_io plain_disk) (\<lambda>lh. disk_sect (lh_card lh)) 16 (lhd_ready 16)"
  by (rule plain.lhd_reliable_device)

lemma plain_used: "bm_used (sfs_freemap plain_volume) = {..<7} \<union> {16..<4096}"
proof -
  have m: "(127 :: u8) = mask 7" "(255 :: u8) = mask 8" by (simp_all add: mask_eq_exp_minus_1)
  have b: "bit (127 :: u8) k \<longleftrightarrow> k < 7" "bit (255 :: u8) k \<longleftrightarrow> k < 8" for k unfolding m bit_mask_iff by auto
  have "bm_bit (sfs_freemap plain_volume) i \<longleftrightarrow> i < 7 \<or> 16 \<le> i" if "i < 4096" for i
  proof -
    consider "i < 8" | "8 \<le> i" "i < 16" | "16 \<le> i" by linarith
    then show ?thesis
    proof cases
      case 1
      then have "bm_bit (sfs_freemap plain_volume) i \<longleftrightarrow> bit (127 :: u8) i" by (simp add: bm_bit_def plain_volume_def)
      then show ?thesis using 1 b(1) [of i] by simp
    next
      case 2
      then have "i div 8 = 1" by linarith
      then show ?thesis using 2 by (simp add: bm_bit_def plain_volume_def)
    next
      case 3
      then have "2 \<le> i div 8" "i div 8 - 2 < 510" using that by linarith+
      then have "bm_v (sfs_freemap plain_volume) ! (i div 8) = 255" by (simp add: plain_volume_def nth_Cons')
      then show ?thesis using 3 b(2) [of "i mod 8"] by (simp add: bm_bit_def)
    qed
  qed
  then show ?thesis by (auto simp: bm_used_def) (auto simp: plain_volume_def)
qed

lemma plain_vol_ok: "vol_ok (lhd_io plain_disk) 16 (lhd_ready 16) plain_volume"
  unfolding vol_ok_def freemap_ok_def plain_used
  by (simp add: on_device_def plain_volume_def lhd_ready_def LHD_SECTSIZE_def vfs_biglock_do_i_hold_def bm_wf_def)

lemma plain_file_ok:
  "file_inv (lhd_io plain_disk) (\<lambda>lh. disk_sect (lh_card lh)) 16 (lhd_ready 16) (plain_volume, plain_vnode)"
proof -
  let ?blk = "disk_sect (lh_card (disk_of plain_volume))" and ?di = "sv_i plain_vnode"
  have m: "fmap ?blk ?di i = (if i = 0 then 5 else 0)" for i
    by (auto simp: fmap_def plain_vnode_def sfs_lens nth_Cons' nth_append)
  have "file_ok 16 (bm_used (sfs_freemap plain_volume)) ?blk ?di"
    by (rule file_okI) (auto simp: m plain_used split: if_splits, simp_all add: plain_vnode_def dinode_wf_def sfs_sizes)
  then show ?thesis using plain_vol_ok by (simp add: file_inv_def) (simp add: plain_volume_def)
qed

text \<open>Looking up the first block of the file.\<close>

lemma sfs_bmap_sound_witness:
  "\<exists>st'. sfs_bmap 0 False (plain_volume, plain_vnode) = Ok st' 5 \<or> sfs_bmap 0 False (plain_volume, plain_vnode) = Err st' EIO"
proof -
  have m: "fmap (disk_sect (lh_card (disk_of plain_volume))) (sv_i plain_vnode) 0 = 5"
    by (simp add: fmap_def plain_vnode_def sfs_lens)
  have five: "unat b = 5 \<Longrightarrow> b = 5" for b :: u32 by (simp add: word_unat_eq_iff)
  show ?thesis using sfs_bmap_sound [OF plain_device plain_file_ok, of 0 False] five by (auto simp: m sfs_lens)
qed

end
