(* ===== verification/Sfs_Trunc.thy ===== *)
theory Sfs_Trunc
  imports Sfs_Bmap
begin

text \<open>
  Truncation of a file, \<open>sfs_itrunc\<close>: which blocks it gives back, that the file stays sound on every way out, and
  where the code keeps blocks past the new end.
\<close>

section \<open>Cutting blocks off a file\<close>

text \<open>The map of a file with the blocks in \<open>P\<close> removed.\<close>

definition cut_map :: "(nat \<Rightarrow> bool) \<Rightarrow> (nat \<Rightarrow> nat) \<Rightarrow> nat \<Rightarrow> nat" where
  "cut_map P m i = (if P i then 0 else m i)"

lemma indirect_not_mapped:
  assumes "file_ok nb used blk di" "sfi_indirect di \<noteq> 0"
  shows "unat (sfi_indirect di) \<notin> range (fmap blk di)"
proof
  assume "unat (sfi_indirect di) \<in> range (fmap blk di)"
  then obtain i where "unat (sfi_indirect di) = fmap blk di i" by blast
  then show False using file_okD(5) [OF assms(1), of i] assms(2) unat_eq_zero [of "sfi_indirect di"] by auto
qed

lemma fblocks_cut_set:
  assumes ok: "file_ok nb used blk di" and m: "m = cut_map P (fmap blk di)"
  shows "insert (unat (sfi_indirect di)) (m ` {..<SFS_MAXBLOCKS}) - {0} = fblocks blk di - fmap blk di ` {i. P i}"
proof (intro equalityI subsetI)
  note d = file_okD [OF ok]
  fix x
  { assume x: "x \<in> insert (unat (sfi_indirect di)) (m ` {..<SFS_MAXBLOCKS}) - {0}"
    show "x \<in> fblocks blk di - fmap blk di ` {i. P i}"
    proof (cases "x = unat (sfi_indirect di)")
      case True
      then have "x \<noteq> 0" using x by simp
      then have "fmap blk di i \<noteq> x" for i using True d(5) [of i] by auto
      then have "x \<notin> fmap blk di ` {i. P i}" by (metis imageE)
      then show ?thesis using True \<open>x \<noteq> 0\<close> by (simp add: fblocks_def)
    next
      case False
      then obtain i where i: "i < SFS_MAXBLOCKS" "x = fmap blk di i" "\<not> P i" "x \<noteq> 0"
        using x unfolding m by (auto simp: cut_map_def split: if_splits)
      then have "x \<notin> fmap blk di ` {i. P i}" using d(4) [of i] by auto
      then show ?thesis using i fmap_in_fblocks [of blk di i] by simp
    qed }
  { assume x: "x \<in> fblocks blk di - fmap blk di ` {i. P i}"
    then consider "x = unat (sfi_indirect di)" "x \<noteq> 0" | i where "i < SFS_MAXBLOCKS" "x = fmap blk di i" "x \<noteq> 0" by (auto simp: fblocks_def)
    then show "x \<in> insert (unat (sfi_indirect di)) (m ` {..<SFS_MAXBLOCKS}) - {0}"
    proof cases
      case 1
      then show ?thesis by simp
    next
      case 2
      then have "\<not> P i" using x by auto
      then have "m i = x" using 2 by (simp add: m cut_map_def)
      then have "x \<in> m ` {..<SFS_MAXBLOCKS}" using 2(1) by (metis imageI lessThan_iff)
      then show ?thesis using 2(3) by simp
    qed }
qed

lemma fblocks_cut:
  assumes "file_ok nb used blk di" "fmap blk' di' = cut_map P (fmap blk di)" "sfi_indirect di' = sfi_indirect di"
  shows "fblocks blk' di' = fblocks blk di - fmap blk di ` {i. P i}"
  using fblocks_cut_set [OF assms(1,2)] by (simp add: fblocks_def [of blk' di'] assms(3))

lemma file_ok_cut:
  assumes ok: "file_ok nb used blk di" and m: "fmap blk' di' = cut_map P (fmap blk di)"
    and ind: "sfi_indirect di' = sfi_indirect di \<or> sfi_indirect di' = 0" and w: "dinode_wf di'"
    and used: "used' = used - (fblocks blk di - fblocks blk' di')"
  shows "file_ok nb used' blk' di'"
proof (rule file_okI)
  note d = file_okD [OF ok]
  show "dinode_wf di'" by fact
  show "fmap blk' di' i \<in> used' \<and> fmap blk' di' i < nb" if "fmap blk' di' i \<noteq> 0" for i
  proof -
    have "fmap blk' di' i = fmap blk di i" using that by (simp add: m cut_map_def split: if_splits)
    then show ?thesis using d(2) [of i] that fmap_in_fblocks [OF that] used by auto
  qed
  show "unat (sfi_indirect di') \<in> used' \<and> unat (sfi_indirect di') < nb" if "sfi_indirect di' \<noteq> 0"
    using that ind d(3) indirect_in_fblocks [OF that, of blk'] used by auto
  show "i = j" if "fmap blk' di' i = fmap blk' di' j" "fmap blk' di' i \<noteq> 0" for i j
    using that d(4) [of i j] unfolding m by (auto simp: cut_map_def split: if_splits)
  show "fmap blk' di' i \<noteq> unat (sfi_indirect di')" if "fmap blk' di' i \<noteq> 0" for i
    using that ind d(5) [of i] unfolding m by (auto simp: cut_map_def split: if_splits)
qed

lemma cut_step:
  assumes inv: "file_inv io sect nsect ready (sfs, sv)"
    and m: "fmap (sect (disk_of sfs')) di' = cut_map P (fmap (sect (disk_of sfs)) (sv_i sv))"
    and ind: "sfi_indirect di' = sfi_indirect (sv_i sv) \<or> sfi_indirect di' = 0" and w: "dinode_wf di'"
    and used: "blocks_used sfs' = blocks_used sfs - (fblocks (sect (disk_of sfs)) (sv_i sv) - fblocks (sect (disk_of sfs')) di')"
    and sub: "fblocks (sect (disk_of sfs')) di' \<subseteq> fblocks (sect (disk_of sfs)) (sv_i sv)"
    and blk: "\<forall>x. x \<notin> fblocks (sect (disk_of sfs)) (sv_i sv) \<longrightarrow> sect (disk_of sfs') x = sect (disk_of sfs) x"
    and s: "fs_same sfs sfs'" "vol_ok io nsect ready sfs'"
    and fd: "sfs_freemapdirty sfs \<or> blocks_used sfs' \<noteq> blocks_used sfs \<Longrightarrow> sfs_freemapdirty sfs'"
    and di: "sfi_type di' = sfi_type (sv_i sv)" "sfi_linkcount di' = sfi_linkcount (sv_i sv)" "sv_dirty sv \<or> di' \<noteq> sv_i sv \<Longrightarrow> dirty"
  shows "file_inv io sect nsect ready (sfs', sv\<lparr>sv_i := di', sv_dirty := dirty\<rparr>)"
    "file_step sect (sfs, sv) (sfs', sv\<lparr>sv_i := di', sv_dirty := dirty\<rparr>)"
proof -
  have fo: "file_ok (nblocks sfs) (blocks_used sfs) (sect (disk_of sfs)) (sv_i sv)" using inv by (simp add: file_inv_def)
  have n: "nblocks sfs' = nblocks sfs" using s(1) by (simp add: fs_same_def)
  show "file_inv io sect nsect ready (sfs', sv\<lparr>sv_i := di', sv_dirty := dirty\<rparr>)"
    using file_ok_cut [OF fo m ind w used] s(2) by (simp add: file_inv_def n)
  have "fblocks (sect (disk_of sfs)) (sv_i sv) \<subseteq> blocks_used sfs" using fo by (auto simp: file_ok_def)
  then have "blocks_used sfs' - fblocks (sect (disk_of sfs')) di' = blocks_used sfs - fblocks (sect (disk_of sfs)) (sv_i sv)"
    using used sub by blast
  then show "file_step sect (sfs, sv) (sfs', sv\<lparr>sv_i := di', sv_dirty := dirty\<rparr>)"
    using blk s(1) fd di by (auto simp: file_step_def)
qed

text \<open>The loop over the direct blocks.\<close>

lemma trunc_direct_one:
  assumes inv: "file_inv io sect nsect ready (sfs, sv)" and i: "i < SFS_NDIRECT" "sfi_direct (sv_i sv) ! i \<noteq> 0"
  shows "\<exists>sfs'. sfs_bfree (sfi_direct (sv_i sv) ! i) sfs = Ok sfs' () \<and> disk_of sfs' = disk_of sfs \<and>
     file_inv io sect nsect ready (sfs', set_direct i 0 sv) \<and> file_step sect (sfs, sv) (sfs', set_direct i 0 sv) \<and>
     st_map sect (sfs', set_direct i 0 sv) = cut_map (\<lambda>k. k = i) (st_map sect (sfs, sv))"
proof -
  let ?b = "sfi_direct (sv_i sv) ! i" and ?blk = "sect (disk_of sfs)"
  let ?di = "(sv_i sv)\<lparr>sfi_direct := (sfi_direct (sv_i sv))[i := 0]\<rparr>"
  have v: "vol_ok io nsect ready sfs" and fo: "file_ok (nblocks sfs) (blocks_used sfs) ?blk (sv_i sv)"
    using inv by (simp_all add: file_inv_def)
  note d = file_okD [OF fo]
  have mi: "fmap ?blk (sv_i sv) i = unat ?b" using i by (simp add: fmap_def)
  have nz: "unat ?b \<noteq> 0" using i(2) by (simp add: unat_eq_zero)
  have u: "unat ?b \<in> blocks_used sfs" "unat ?b < nblocks sfs" using d(2) [of i] nz unfolding mi by auto
  obtain sfs' where f: "sfs_bfree ?b sfs = Ok sfs' ()" "vol_ok io nsect ready sfs'" "fs_same sfs sfs'" "disk_of sfs' = disk_of sfs"
      "blocks_used sfs' = blocks_used sfs - {unat ?b}" "sfs_freemapdirty sfs'"
    using sfs_bfree_ok [OF v u(1) nz u(2)] by blast
  have len: "length (sfi_direct (sv_i sv)) = SFS_NDIRECT" using d(1) by (simp add: dinode_wf_def)
  have m: "fmap ?blk ?di = cut_map (\<lambda>k. k = i) (fmap ?blk (sv_i sv))" using i len by (auto simp: fmap_def cut_map_def fun_eq_iff)
  have fb: "fblocks ?blk ?di = fblocks ?blk (sv_i sv) - {unat ?b}" using fblocks_cut [OF fo m] mi by simp
  have "unat ?b \<in> fblocks ?blk (sv_i sv)" using fmap_in_fblocks [of ?blk "sv_i sv" i] nz mi by simp
  then have used: "blocks_used sfs' = blocks_used sfs - (fblocks ?blk (sv_i sv) - fblocks ?blk ?di)" using f(5) fb by auto
  have w: "dinode_wf ?di" using d(1) by (simp add: dinode_wf_def)
  note cs = cut_step [OF inv, of sfs' ?di "\<lambda>k. k = i" True, folded set_direct_def, unfolded f(4), OF m _ w used _ _ f(3,2)]
  show ?thesis using f(1,4,6) m fb cs by (intro exI [of _ sfs']) (simp add: set_direct_def)
qed

lemma trunc_direct_ok:
  "file_inv io sect nsect ready st \<Longrightarrow> set is \<subseteq> {..<SFS_NDIRECT} \<Longrightarrow>
   \<exists>st'. trunc_direct is bl st = Ok st' () \<and> file_inv io sect nsect ready st' \<and> file_step sect st st' \<and>
     st_blk sect st' = st_blk sect st \<and> st_map sect st' = cut_map (\<lambda>i. i \<in> set is \<and> unat bl \<le> i) (st_map sect st) \<and>
     sfi_indirect (sv_i (snd st')) = sfi_indirect (sv_i (snd st)) \<and> sfi_size (sv_i (snd st')) = sfi_size (sv_i (snd st))"
proof (induction "is" bl st rule: trunc_direct.induct)
  case (1 bl st)
  then show ?case by (simp add: cut_map_def)
next
  case (2 i "is" bl sfs sv)
  have i: "i < SFS_NDIRECT" "set is \<subseteq> {..<SFS_NDIRECT}" using "2.prems"(2) by auto
  let ?b = "sfi_direct (sv_i sv) ! i"
  show ?case
  proof (cases "unat bl \<le> i \<and> ?b \<noteq> 0")
    case True
    obtain sfs' where f: "sfs_bfree ?b sfs = Ok sfs' ()" "disk_of sfs' = disk_of sfs"
        "file_inv io sect nsect ready (sfs', set_direct i 0 sv)" "file_step sect (sfs, sv) (sfs', set_direct i 0 sv)"
        "st_map sect (sfs', set_direct i 0 sv) = cut_map (\<lambda>k. k = i) (st_map sect (sfs, sv))"
      using trunc_direct_one [OF "2.prems"(1) i(1)] True by blast
    have e: "trunc_direct (i # is) bl (sfs, sv) = trunc_direct is bl (sfs', set_direct i 0 sv)"
      using True f(1) by (simp add: Let_def)
    obtain st' where r: "trunc_direct is bl (sfs', set_direct i 0 sv) = Ok st' ()" "file_inv io sect nsect ready st'"
        "file_step sect (sfs', set_direct i 0 sv) st'" "st_blk sect st' = sect (disk_of sfs)"
        "st_map sect st' = cut_map (\<lambda>i. i \<in> set is \<and> unat bl \<le> i) (st_map sect (sfs', set_direct i 0 sv))"
        "sfi_indirect (sv_i (snd st')) = sfi_indirect (sv_i sv)" "sfi_size (sv_i (snd st')) = sfi_size (sv_i sv)"
      using "2.IH" [OF refl, of "(sfs', set_direct i 0 sv)"] f i(2) True by (auto simp: set_direct_def)
    have "st_map sect st' = cut_map (\<lambda>k. k \<in> set (i # is) \<and> unat bl \<le> k) (st_map sect (sfs, sv))"
      using r(5) f(5) True by (auto simp: cut_map_def fun_eq_iff)
    then show ?thesis using r e file_step_trans [OF f(4) r(3)] by simp
  next
    case False
    have z: "unat bl \<le> i \<Longrightarrow> st_map sect (sfs, sv) i = 0" using False i(1) by (auto simp: fmap_def)
    have e: "trunc_direct (i # is) bl (sfs, sv) = trunc_direct is bl (sfs, sv)" using False by (auto simp: Let_def)
    obtain st' where r: "trunc_direct is bl (sfs, sv) = Ok st' ()" "file_inv io sect nsect ready st'"
        "file_step sect (sfs, sv) st'" "st_blk sect st' = sect (disk_of sfs)"
        "st_map sect st' = cut_map (\<lambda>i. i \<in> set is \<and> unat bl \<le> i) (st_map sect (sfs, sv))"
        "sfi_indirect (sv_i (snd st')) = sfi_indirect (sv_i sv)" "sfi_size (sv_i (snd st')) = sfi_size (sv_i sv)"
      using "2.IH" [OF refl, of "(sfs, sv)"] "2.prems"(1) i(2) False by auto
    have "st_map sect st' = cut_map (\<lambda>k. k \<in> set (i # is) \<and> unat bl \<le> k) (st_map sect (sfs, sv))"
      using r(5) z by (auto simp: cut_map_def fun_eq_iff)
    then show ?thesis using r e by simp
  qed
qed

section \<open>The indirect block\<close>

definition cut_words :: "u32 \<Rightarrow> nat set \<Rightarrow> u32 list \<Rightarrow> u32 list" where
  "cut_words bl J w = map (\<lambda>j. if j \<in> J \<and> unat bl < SFS_NDIRECT + j then 0 else w ! j) [0..<length w]"

lemma length_cut_words [simp]: "length (cut_words bl J w) = length w"
  by (simp add: cut_words_def)

lemma nth_cut_words [simp]:
  "j < length w \<Longrightarrow> cut_words bl J w ! j = (if j \<in> J \<and> unat bl < SFS_NDIRECT + j then 0 else w ! j)"
  by (simp add: cut_words_def)

lemma cut_words_Cons:
  "j < length w \<Longrightarrow> cut_words bl J (if unat bl < SFS_NDIRECT + j then w[j := 0] else w) = cut_words bl (insert j J) w"
  by (intro nth_equalityI) (auto simp: nth_list_update split: if_splits)

lemma trunc_entries_ok:
  "vol_ok io nsect ready sfs \<Longrightarrow> set js \<subseteq> {..<length w} \<Longrightarrow> distinct js \<Longrightarrow>
   \<forall>j \<in> set js. w ! j \<noteq> 0 \<longrightarrow> unat (w ! j) \<in> blocks_used sfs \<and> unat (w ! j) < nblocks sfs \<Longrightarrow>
   \<forall>i \<in> set js. \<forall>j \<in> set js. w ! i = w ! j \<longrightarrow> w ! i \<noteq> 0 \<longrightarrow> i = j \<Longrightarrow>
   \<exists>sfs' dirty'. trunc_entries js bl sfs w has dirty =
       Ok sfs' (cut_words bl (set js) w, has \<or> (\<exists>j \<in> set js. cut_words bl (set js) w ! j \<noteq> 0), dirty') \<and>
     (dirty' \<longleftrightarrow> dirty \<or> cut_words bl (set js) w \<noteq> w) \<and> vol_ok io nsect ready sfs' \<and> fs_same sfs sfs' \<and> disk_of sfs' = disk_of sfs \<and>
     blocks_used sfs' = blocks_used sfs - {unat (w ! j) | j. j \<in> set js \<and> unat bl < SFS_NDIRECT + j \<and> w ! j \<noteq> 0} \<and>
     (sfs_freemapdirty sfs \<or> blocks_used sfs' \<noteq> blocks_used sfs \<longrightarrow> sfs_freemapdirty sfs')"
proof (induction js bl sfs w has dirty rule: trunc_entries.induct)
  case (1 bl sfs w has dirty)
  have "cut_words bl {} w = w" by (rule nth_equalityI) auto
  then show ?case using "1.prems"(1) by simp
next
  case (2 j js bl sfs w has dirty)
  have j: "j < length w" "set js \<subseteq> {..<length w}" "distinct js" "j \<notin> set js" using "2.prems" by auto
  show ?case
  proof (cases "unat bl < SFS_NDIRECT + j \<and> w ! j \<noteq> 0")
    case True
    have u: "unat (w ! j) \<in> blocks_used sfs" "unat (w ! j) \<noteq> 0" "unat (w ! j) < nblocks sfs"
      using "2.prems"(4) True by (auto simp: unat_eq_zero)
    obtain sfs1 where f: "sfs_bfree (w ! j) sfs = Ok sfs1 ()" "vol_ok io nsect ready sfs1" "fs_same sfs sfs1"
        "disk_of sfs1 = disk_of sfs" "blocks_used sfs1 = blocks_used sfs - {unat (w ! j)}" "sfs_freemapdirty sfs1"
      using sfs_bfree_ok [OF "2.prems"(1) u] by blast
    let ?w = "w[j := 0]"
    have n: "nblocks sfs1 = nblocks sfs" using f(3) by (simp add: fs_same_def)
    have same: "?w ! k = w ! k" if "k \<in> set js" for k using that j by (metis nth_list_update_neq)
    have p2: "set js \<subseteq> {..<length ?w}" using j(2) by simp
    have p4: "\<forall>k \<in> set js. ?w ! k \<noteq> 0 \<longrightarrow> unat (?w ! k) \<in> blocks_used sfs1 \<and> unat (?w ! k) < nblocks sfs1"
    proof (intro ballI impI)
      fix k assume k: "k \<in> set js" "?w ! k \<noteq> 0"
      then have "w ! k \<noteq> w ! j" using "2.prems"(5) True same [OF k(1)] j(4) by (metis list.set_intros)
      then have "unat (w ! k) \<noteq> unat (w ! j)" by (simp add: word_unat_eq_iff)
      then show "unat (?w ! k) \<in> blocks_used sfs1 \<and> unat (?w ! k) < nblocks sfs1"
        using "2.prems"(4) k unfolding same [OF k(1)] f(5) n by auto
    qed
    have p5: "\<forall>i \<in> set js. \<forall>k \<in> set js. ?w ! i = ?w ! k \<longrightarrow> ?w ! i \<noteq> 0 \<longrightarrow> i = k"
      using "2.prems"(5) same by (metis list.set_intros(2))
    have c: "cut_words bl (set js) ?w = cut_words bl (set (j # js)) w" using cut_words_Cons [OF j(1), of bl "set js"] True by simp
    have cw: "cut_words bl (set js) ?w \<noteq> w"
    proof
      assume "cut_words bl (set js) ?w = w"
      then have "cut_words bl (set (j # js)) w ! j = w ! j" using c by simp
      then show False using True j(1) by simp
    qed
    have hz: "(\<exists>k \<in> set (j # js). cut_words bl (set js) ?w ! k \<noteq> 0) = (\<exists>k \<in> set js. cut_words bl (set js) ?w ! k \<noteq> 0)"
      unfolding c using True j(1) by simp
    have "{unat (?w ! k) | k. k \<in> set js \<and> unat bl < SFS_NDIRECT + k \<and> ?w ! k \<noteq> 0} =
        {unat (w ! k) | k. k \<in> set js \<and> unat bl < SFS_NDIRECT + k \<and> w ! k \<noteq> 0}"
      by (intro Collect_cong) (metis same)
    then have fr: "{unat (w ! k) | k. k \<in> set (j # js) \<and> unat bl < SFS_NDIRECT + k \<and> w ! k \<noteq> 0} =
        insert (unat (w ! j)) {unat (?w ! k) | k. k \<in> set js \<and> unat bl < SFS_NDIRECT + k \<and> ?w ! k \<noteq> 0}"
      using True by auto
    obtain sfs' dirty' where r: "trunc_entries js bl sfs1 ?w has True = Ok sfs' (cut_words bl (set js) ?w,
          has \<or> (\<exists>k \<in> set js. cut_words bl (set js) ?w ! k \<noteq> 0), dirty')" "dirty'" "vol_ok io nsect ready sfs'" "fs_same sfs1 sfs'"
        "disk_of sfs' = disk_of sfs1"
        "blocks_used sfs' = blocks_used sfs1 - {unat (?w ! k) | k. k \<in> set js \<and> unat bl < SFS_NDIRECT + k \<and> ?w ! k \<noteq> 0}"
        "sfs_freemapdirty sfs1 \<longrightarrow> sfs_freemapdirty sfs'"
      using "2.IH"(1) [OF True f(1,2) p2 j(3) p4 p5] by blast
    have "trunc_entries (j # js) bl sfs w has dirty = trunc_entries js bl sfs1 ?w has True" using True f(1) by simp
    moreover have "blocks_used sfs' = blocks_used sfs - {unat (w ! k) | k. k \<in> set (j # js) \<and> unat bl < SFS_NDIRECT + k \<and> w ! k \<noteq> 0}"
      unfolding r(6) f(5) fr by blast
    ultimately show ?thesis using r(1-3,5,7) cw fs_same_trans [OF f(3) r(4)] f(4,6) unfolding c [symmetric] hz by auto
  next
    case False
    have c: "cut_words bl (set js) w = cut_words bl (set (j # js)) w"
      using False j by (intro nth_equalityI) auto
    have hz: "(has \<or> w ! j \<noteq> 0) \<or> (\<exists>k \<in> set js. cut_words bl (set js) w ! k \<noteq> 0) \<longleftrightarrow>
        has \<or> (\<exists>k \<in> set (j # js). cut_words bl (set js) w ! k \<noteq> 0)"
      using False j(1,4) by auto
    have fr: "{unat (w ! k) | k. k \<in> set (j # js) \<and> unat bl < SFS_NDIRECT + k \<and> w ! k \<noteq> 0} =
        {unat (w ! k) | k. k \<in> set js \<and> unat bl < SFS_NDIRECT + k \<and> w ! k \<noteq> 0}" using False by auto
    have e: "trunc_entries (j # js) bl sfs w has dirty = trunc_entries js bl sfs w (has \<or> w ! j \<noteq> 0) dirty" using False by auto
    have p: "\<forall>k \<in> set js. w ! k \<noteq> 0 \<longrightarrow> unat (w ! k) \<in> blocks_used sfs \<and> unat (w ! k) < nblocks sfs"
      "\<forall>i \<in> set js. \<forall>k \<in> set js. w ! i = w ! k \<longrightarrow> w ! i \<noteq> 0 \<longrightarrow> i = k" using "2.prems"(4,5) by auto
    show ?thesis using "2.IH"(2) [OF False "2.prems"(1) j(2,3) p] unfolding e fr c [symmetric] hz .
  qed
qed

section \<open>Truncating the indirect block\<close>

lemma fmap_words:
  "sfi_indirect di \<noteq> 0 \<Longrightarrow> j < SFS_DBPERIDB \<Longrightarrow> fmap blk di (SFS_NDIRECT + j) = unat (load_words (blk (unat (sfi_indirect di))) ! j)"
  by (simp add: fmap_def SFS_MAXBLOCKS_def)

lemma fmap_new_words:
  assumes "sfi_indirect di \<noteq> 0" "blk' (unat (sfi_indirect di)) = store_words w" "length w = SFS_DBPERIDB"
    "w = cut_words bl {..<SFS_DBPERIDB} (load_words (blk (unat (sfi_indirect di))))"
  shows "fmap blk' di = cut_map (\<lambda>i. SFS_NDIRECT \<le> i \<and> unat bl < i) (fmap blk di)"
proof
  fix i
  have "fmap blk' di i = cut_map (\<lambda>i. SFS_NDIRECT \<le> i \<and> unat bl < i) (fmap blk di) i" if i: "SFS_NDIRECT \<le> i" "i < SFS_MAXBLOCKS"
  proof -
    have j: "i - SFS_NDIRECT < SFS_DBPERIDB" "SFS_NDIRECT + (i - SFS_NDIRECT) = i" using i by (auto simp: SFS_MAXBLOCKS_def)
    have l: "length (load_words (blk (unat (sfi_indirect di)))) = SFS_DBPERIDB" using assms(3,4) by simp
    show ?thesis using assms i j l by (auto simp: fmap_def cut_map_def)
  qed
  then show "fmap blk' di i = cut_map (\<lambda>i. SFS_NDIRECT \<le> i \<and> unat bl < i) (fmap blk di) i"
    by (cases "i < SFS_NDIRECT") (auto simp: fmap_def cut_map_def)
qed

lemma fblocks_cut0:
  assumes ok: "file_ok nb used blk di" and m: "fmap blk' di' = cut_map P (fmap blk di)" and ind: "sfi_indirect di' = 0"
  shows "fblocks blk' di' = fblocks blk di - fmap blk di ` {i. P i} - {unat (sfi_indirect di)}"
proof -
  let ?M = "fmap blk' di' ` {..<SFS_MAXBLOCKS}"
  have n: "unat (sfi_indirect di) \<notin> ?M - {0}"
  proof
    assume x: "unat (sfi_indirect di) \<in> ?M - {0}"
    then obtain i where "unat (sfi_indirect di) = cut_map P (fmap blk di) i" unfolding m by blast
    then have "unat (sfi_indirect di) = fmap blk di i" using x by (simp add: cut_map_def split: if_splits)
    then show False using file_okD(5) [OF ok, of i] x by simp
  qed
  have "insert (unat (sfi_indirect di')) ?M - {0} = insert (unat (sfi_indirect di)) ?M - {0} - {unat (sfi_indirect di)}"
    using n unfolding ind unat_0 by blast
  then show ?thesis unfolding fblocks_def [of blk' di'] fblocks_cut_set [OF ok m] .
qed

text \<open>The blocks the loop frees are those of the file that the map loses.\<close>

lemma freed_entries:
  assumes "file_ok nb used blk di" "sfi_indirect di \<noteq> 0"
  shows "{unat (load_words (blk (unat (sfi_indirect di))) ! j) | j.
      j \<in> set [0..<SFS_DBPERIDB] \<and> unat bl < SFS_NDIRECT + j \<and> load_words (blk (unat (sfi_indirect di))) ! j \<noteq> 0} =
    fblocks blk di \<inter> fmap blk di ` {i. SFS_NDIRECT \<le> i \<and> unat bl < i}" (is "?L = ?R")
proof (intro equalityI subsetI)
  fix x
  { assume "x \<in> ?L"
    then obtain j where j: "j < SFS_DBPERIDB" "unat bl < SFS_NDIRECT + j" "x = fmap blk di (SFS_NDIRECT + j)" "x \<noteq> 0"
      using fmap_words [OF assms(2), of _ blk] by (auto simp: unat_eq_zero)
    then show "x \<in> ?R" using fmap_in_fblocks [of blk di "SFS_NDIRECT + j"] by auto }
  { assume "x \<in> ?R"
    then obtain i where i: "SFS_NDIRECT \<le> i" "unat bl < i" "x = fmap blk di i" "x \<noteq> 0" by (auto simp: fblocks_def)
    then have "i < SFS_MAXBLOCKS" using fmap_beyond [of i blk di] by (cases "i < SFS_MAXBLOCKS") auto
    then have j: "i - SFS_NDIRECT < SFS_DBPERIDB" "SFS_NDIRECT + (i - SFS_NDIRECT) = i" using i(1) by (auto simp: SFS_MAXBLOCKS_def)
    have "x = unat (load_words (blk (unat (sfi_indirect di))) ! (i - SFS_NDIRECT))"
      using fmap_words [OF assms(2) j(1), of blk] i(3) j(2) by simp
    then show "x \<in> ?L" using i j by (auto intro!: exI [of _ "i - SFS_NDIRECT"]) }
qed

context reliable_device
begin

definition trunc_post :: "'a fstate \<Rightarrow> (nat \<Rightarrow> bool) \<Rightarrow> 'a fstate \<Rightarrow> bool" where
  "trunc_post st P st' \<longleftrightarrow> finv st' \<and> file_step sect st st' \<and> st_map sect st' = cut_map P (st_map sect st) \<and>
     sfi_size (sv_i (snd st')) = sfi_size (sv_i (snd st)) \<and>
     (\<forall>x. x \<noteq> unat (sfi_indirect (sv_i (snd st))) \<longrightarrow> st_blk sect st' x = st_blk sect st x)"

lemma trunc_loop:
  fixes bl :: u32
  assumes inv: "finv (sfs, sv)" and id: "sfi_indirect (sv_i sv) \<noteq> 0"
  defines "w \<equiv> load_words (sect (disk_of sfs) (unat (sfi_indirect (sv_i sv))))"
  defines "w' \<equiv> cut_words bl {..<SFS_DBPERIDB} w"
  shows "length w = SFS_DBPERIDB" "\<exists>sfs'. trunc_entries [0..<SFS_DBPERIDB] bl sfs w False False = Ok sfs' (w', \<exists>j < SFS_DBPERIDB. w' ! j \<noteq> 0, w' \<noteq> w) \<and>
     vol_ok io nsect ready sfs' \<and> fs_same sfs sfs' \<and> disk_of sfs' = disk_of sfs \<and>
     blocks_used sfs' = blocks_used sfs - (fblocks (sect (disk_of sfs)) (sv_i sv) \<inter> fmap (sect (disk_of sfs)) (sv_i sv) ` {i. SFS_NDIRECT \<le> i \<and> unat bl < i}) \<and>
     (sfs_freemapdirty sfs \<or> blocks_used sfs' \<noteq> blocks_used sfs \<longrightarrow> sfs_freemapdirty sfs')"
proof -
  note d = finvD [OF inv] and f = file_okD [OF finvD(3) [OF inv]]
  show l: "length w = SFS_DBPERIDB" unfolding w_def using block_length by (simp add: length_load_words sfs_sizes)
  have fw: "fmap (sect (disk_of sfs)) (sv_i sv) (SFS_NDIRECT + j) = unat (w ! j)" if "j < SFS_DBPERIDB" for j
    using fmap_words [OF id that] by (simp add: w_def)
  have a: "vol_ok io nsect ready sfs" "set [0..<SFS_DBPERIDB] \<subseteq> {..<length w}" "distinct [0..<SFS_DBPERIDB]" using d l by auto
  have b: "\<forall>j \<in> set [0..<SFS_DBPERIDB]. w ! j \<noteq> 0 \<longrightarrow> unat (w ! j) \<in> blocks_used sfs \<and> unat (w ! j) < nblocks sfs"
  proof (intro ballI impI)
    fix j assume "j \<in> set [0..<SFS_DBPERIDB]" "w ! j \<noteq> 0"
    then show "unat (w ! j) \<in> blocks_used sfs \<and> unat (w ! j) < nblocks sfs"
      using f(2) [of "SFS_NDIRECT + j"] fw [of j] unat_eq_zero [of "w ! j"] by auto
  qed
  have c: "\<forall>i \<in> set [0..<SFS_DBPERIDB]. \<forall>j \<in> set [0..<SFS_DBPERIDB]. w ! i = w ! j \<longrightarrow> w ! i \<noteq> 0 \<longrightarrow> i = j"
  proof (intro ballI impI)
    fix i j assume "i \<in> set [0..<SFS_DBPERIDB]" "j \<in> set [0..<SFS_DBPERIDB]" "w ! i = w ! j" "w ! i \<noteq> 0"
    then show "i = j" using f(4) [of "SFS_NDIRECT + i" "SFS_NDIRECT + j"] fw [of i] fw [of j] unat_eq_zero [of "w ! j"] by auto
  qed
  have s: "set [0..<SFS_DBPERIDB] = {..<SFS_DBPERIDB}" by auto
  note fr = freed_entries [OF d(3) id, of bl, folded w_def]
  show "\<exists>sfs'. trunc_entries [0..<SFS_DBPERIDB] bl sfs w False False = Ok sfs' (w', \<exists>j < SFS_DBPERIDB. w' ! j \<noteq> 0, w' \<noteq> w) \<and>
     vol_ok io nsect ready sfs' \<and> fs_same sfs sfs' \<and> disk_of sfs' = disk_of sfs \<and>
     blocks_used sfs' = blocks_used sfs - (fblocks (sect (disk_of sfs)) (sv_i sv) \<inter> fmap (sect (disk_of sfs)) (sv_i sv) ` {i. SFS_NDIRECT \<le> i \<and> unat bl < i}) \<and>
     (sfs_freemapdirty sfs \<or> blocks_used sfs' \<noteq> blocks_used sfs \<longrightarrow> sfs_freemapdirty sfs')"
    using trunc_entries_ok [OF a b c, of bl False False] unfolding fr unfolding s w'_def by auto
qed

lemma trunc_rest_ok:
  assumes inv: "finv (sfs, sv)" and id: "sfi_indirect (sv_i sv) \<noteq> 0"
  shows "\<exists>st'. trunc_rest bl (sfi_indirect (sv_i sv)) (load_words (sect (disk_of sfs) (unat (sfi_indirect (sv_i sv))))) (sfs, sv) = Ok st' () \<and>
    trunc_post (sfs, sv) (\<lambda>i. SFS_NDIRECT \<le> i \<and> unat bl < i) st'"
proof -
  let ?P = "\<lambda>i. SFS_NDIRECT \<le> i \<and> unat bl < i" and ?id = "sfi_indirect (sv_i sv)" and ?blk = "sect (disk_of sfs)"
  let ?w = "load_words (?blk (unat ?id))"
  let ?w' = "cut_words bl {..<SFS_DBPERIDB} ?w"
  note d = finvD [OF inv] and f = file_okD [OF finvD(3) [OF inv]] and tl = trunc_loop(1) [OF inv id] trunc_loop(2) [OF inv id, of bl]
  obtain sfs1 where t: "trunc_entries [0..<SFS_DBPERIDB] bl sfs ?w False False = Ok sfs1 (?w', \<exists>j < SFS_DBPERIDB. ?w' ! j \<noteq> 0, ?w' \<noteq> ?w)"
      "vol_ok io nsect ready sfs1" "fs_same sfs sfs1" "disk_of sfs1 = disk_of sfs"
      "blocks_used sfs1 = blocks_used sfs - (fblocks ?blk (sv_i sv) \<inter> fmap ?blk (sv_i sv) ` {i. ?P i})"
      "sfs_freemapdirty sfs \<or> blocks_used sfs1 \<noteq> blocks_used sfs \<longrightarrow> sfs_freemapdirty sfs1"
    using tl(2) by blast
  have nb: "nblocks sfs1 = nblocks sfs" using t(3) by (simp add: fs_same_def)
  have idb: "unat ?id \<in> fblocks ?blk (sv_i sv)" by (rule indirect_in_fblocks [OF id])
  have idn: "unat ?id \<notin> fmap ?blk (sv_i sv) ` {i. ?P i}" using indirect_not_mapped [OF d(3) id] by blast
  have idu: "unat ?id \<in> blocks_used sfs1" "unat ?id \<noteq> 0" "unat ?id < nblocks sfs1"
    using f(3) [OF id] idn t(5) id nb by (auto simp: unat_eq_zero)
  show ?thesis
  proof (cases "\<exists>j < SFS_DBPERIDB. ?w' ! j \<noteq> 0")
    case False
    obtain sfs2 where b: "sfs_bfree ?id sfs1 = Ok sfs2 ()" "vol_ok io nsect ready sfs2" "fs_same sfs1 sfs2" "disk_of sfs2 = disk_of sfs1"
        "blocks_used sfs2 = blocks_used sfs1 - {unat ?id}" "sfs_freemapdirty sfs2"
      using sfs_bfree_ok [OF t(2) idu] by blast
    let ?di = "(sv_i sv)\<lparr>sfi_indirect := 0\<rparr>"
    have "fmap ?blk ?di k = cut_map ?P (fmap ?blk (sv_i sv)) k" for k
    proof (cases "SFS_NDIRECT \<le> k \<and> k < SFS_MAXBLOCKS")
      case True
      then have j: "k - SFS_NDIRECT < SFS_DBPERIDB" "SFS_NDIRECT + (k - SFS_NDIRECT) = k" by (auto simp: SFS_MAXBLOCKS_def)
      then have "?w' ! (k - SFS_NDIRECT) = 0" using False by blast
      then have "\<not> ?P k \<Longrightarrow> fmap ?blk (sv_i sv) k = 0"
        using j tl(1) fmap_words [OF id j(1), of ?blk] True by auto
      then show ?thesis using True by (auto simp: cut_map_def fmap_def)
    qed (auto simp: fmap_def cut_map_def)
    then have m: "fmap ?blk ?di = cut_map ?P (fmap ?blk (sv_i sv))" by blast
    have fb: "fblocks ?blk ?di = fblocks ?blk (sv_i sv) - fmap ?blk (sv_i sv) ` {i. ?P i} - {unat ?id}"
      using fblocks_cut0 [OF d(3) m] by simp
    have used: "blocks_used sfs2 = blocks_used sfs - (fblocks ?blk (sv_i sv) - fblocks ?blk ?di)"
      unfolding b(5) t(5) fb using idb by blast
    have w: "dinode_wf ?di" using f(1) by (simp add: dinode_wf_def)
    have dsk: "disk_of sfs2 = disk_of sfs" using b(4) t(4) by simp
    note cs = cut_step [OF inv, of sfs2 ?di ?P True, unfolded dsk, OF m _ w used _ _ fs_same_trans [OF t(3) b(3)] b(2)]
    have "trunc_rest bl ?id ?w (sfs, sv) = Ok (sfs2, set_indirect 0 sv) ()" using t(1) False b(1) by (simp add: trunc_rest_def)
    moreover have "trunc_post (sfs, sv) ?P (sfs2, set_indirect 0 sv)"
      using cs b(6) m fb dsk by (auto simp: trunc_post_def set_indirect_def)
    ultimately show ?thesis by blast
  next
    case True
    have tr: "trunc_rest bl ?id ?w (sfs, sv) =
        (if ?w' \<noteq> ?w then with_sv sv (sfs_writeblock ?id (store_words ?w') sfs1) else Ok (sfs1, sv) ())"
      using True by (simp only: trunc_rest_def t(1) with_sv_simps and_then.simps prod.case simp_thms if_True if_False)
    obtain sfs2 where b: "trunc_rest bl ?id ?w (sfs, sv) = Ok (sfs2, sv) ()" "vol_ok io nsect ready sfs2" "fs_same sfs1 sfs2"
        "sect (disk_of sfs2) = ?blk(unat ?id := store_words ?w')" "blocks_used sfs2 = blocks_used sfs1"
        "sfs_freemapdirty sfs2 = sfs_freemapdirty sfs1"
    proof (cases "?w' = ?w")
      case same: True
      have "store_words ?w = ?blk (unat ?id)" using block_length [of "disk_of sfs" "unat ?id"] by (simp add: store_load_words sfs_sizes)
      then show ?thesis using that [of sfs1] t(2,4) same unfolding tr by (simp add: fun_upd_idem)
    next
      case diff: False
      have "unat ?id < nsect" using idu(3) nb d(5) by simp
      then obtain d' where "sfs_writeblock ?id (store_words ?w') sfs1 = Ok (set_disk sfs1 d') ()" "ready d'"
          "sect d' = (sect (disk_of sfs1))(unat ?id := store_words ?w')"
        using writeblock [OF vol_okD(1) [OF t(2)], of ?id "store_words ?w'"] tl(1) by (auto simp: sfs_sizes)
      then show ?thesis using that [of "set_disk sfs1 d'"] t(2,4) diff unfolding tr by simp
    qed
    have m: "fmap (sect (disk_of sfs2)) (sv_i sv) = cut_map ?P (fmap ?blk (sv_i sv))"
      using fmap_new_words [OF id _ _ refl, of "sect (disk_of sfs2)" bl ?blk] tl(1) b(4) by simp
    have fb: "fblocks (sect (disk_of sfs2)) (sv_i sv) = fblocks ?blk (sv_i sv) - fmap ?blk (sv_i sv) ` {i. ?P i}"
      by (rule fblocks_cut [OF d(3) m refl])
    have used: "blocks_used sfs2 = blocks_used sfs - (fblocks ?blk (sv_i sv) - fblocks (sect (disk_of sfs2)) (sv_i sv))"
      unfolding b(5) t(5) fb by blast
    have sub: "fblocks (sect (disk_of sfs2)) (sv_i sv) \<subseteq> fblocks ?blk (sv_i sv)" unfolding fb by blast
    have bl: "\<forall>x. x \<notin> fblocks ?blk (sv_i sv) \<longrightarrow> sect (disk_of sfs2) x = ?blk x" using idb unfolding b(4) by auto
    have fd: "sfs_freemapdirty sfs \<or> blocks_used sfs2 \<noteq> blocks_used sfs \<Longrightarrow> sfs_freemapdirty sfs2" using t(6) unfolding b(5,6) by blast
    have sv: "sv\<lparr>sv_i := sv_i sv, sv_dirty := sv_dirty sv\<rparr> = sv" by simp
    note cs = cut_step [OF inv m disjI1 [OF refl] f(1) used sub bl fs_same_trans [OF t(3) b(3)] b(2) fd refl refl, of "sv_dirty sv", unfolded sv]
    have "finv (sfs2, sv)" "file_step sect (sfs, sv) (sfs2, sv)" using cs by blast+
    then have "trunc_post (sfs, sv) ?P (sfs2, sv)" using m b(4) by (simp add: trunc_post_def)
    then show ?thesis using b(1) by blast
  qed
qed

lemma trunc_indirect_ok:
  assumes inv: "finv st"
  shows "(\<exists>st'. trunc_indirect bl st = Ok st' () \<and> trunc_post st (\<lambda>i. SFS_NDIRECT \<le> i \<and> unat bl < i) st') \<or>
    (\<exists>st'. trunc_indirect bl st = Err st' EIO \<and> looked st st')"
proof -
  let ?P = "\<lambda>i. SFS_NDIRECT \<le> i \<and> unat bl < i"
  obtain sfs sv where st: "st = (sfs, sv)" by (cases st)
  note i = inv [unfolded st] and d = finvD [OF inv [unfolded st]]
  let ?id = "sfi_indirect (sv_i sv)"
  show ?thesis
  proof (cases "unat bl < SFS_NDIRECT + SFS_DBPERIDB - 1 \<and> ?id \<noteq> 0")
    case False
    have "cut_map ?P (st_map sect st) k = st_map sect st k" for k
      using False by (auto simp: cut_map_def fmap_def st sfs_lens)
    then have "trunc_post st ?P st" using inv by (auto simp: trunc_post_def fun_eq_iff)
    moreover have "trunc_indirect bl st = Ok st ()" using False by (auto simp: trunc_indirect_def st Let_def)
    ultimately show ?thesis by blast
  next
    case True
    then have id: "?id \<noteq> 0" by simp
    have lt: "unat ?id < nsect" using file_okD(3) [OF d(3) id] d(5) by simp
    obtain d' where r: "ready d'" "sect d' = sect (disk_of sfs)"
        "sfs_readblock ?id (replicate SFS_BLOCKSIZE 0) sfs = Ok (set_disk sfs d') (sect (disk_of sfs) (unat ?id)) \<or>
         sfs_readblock ?id (replicate SFS_BLOCKSIZE 0) sfs = Err (set_disk sfs d') EIO"
      using readblock [OF d(2) lt, of "replicate SFS_BLOCKSIZE 0"] by auto
    let ?s = "set_disk sfs d'"
    have l: "looked st (?s, sv)" using r by (auto simp: looked_def st)
    show ?thesis using r(3)
    proof
      assume "sfs_readblock ?id (replicate SFS_BLOCKSIZE 0) sfs = Err ?s EIO"
      then have "trunc_indirect bl st = Err (?s, sv) EIO" using True by (simp add: trunc_indirect_def st Let_def)
      then show ?thesis using l by blast
    next
      assume "sfs_readblock ?id (replicate SFS_BLOCKSIZE 0) sfs = Ok ?s (sect (disk_of sfs) (unat ?id))"
      then have e: "trunc_indirect bl st = trunc_rest bl ?id (load_words (sect (disk_of ?s) (unat ?id))) (?s, sv)"
        using True r(2) by (simp add: trunc_indirect_def st Let_def)
      have "finv (?s, sv)" using looked_keeps [OF inv l] by (simp add: keeps_def)
      from trunc_rest_ok [OF this id, of bl] obtain st' where
        t: "trunc_indirect bl st = Ok st' ()" "trunc_post (?s, sv) ?P st'" unfolding e by blast
      have "trunc_post st ?P st'"
        using t(2) r(2) file_step_trans [OF read_step [OF r(2)]] by (auto simp: trunc_post_def st)
      then show ?thesis using t(1) by blast
    qed
  qed
qed

end

section \<open>The big lock around an operation\<close>

definition locked :: "'d fstate \<Rightarrow> 'd fstate" where
  "locked st = (vfs_biglock_acquire (fst st), snd st)"

lemma release_acquired:
  assumes "fs_same (vfs_biglock_acquire sfs0) sfs1"
  shows "\<exists>sfs2. vfs_biglock_release sfs1 = Ok sfs2 () \<and> vfs_biglock_acquire sfs2 = sfs1"
  using assms by (auto simp: vfs_biglock_release_def vfs_biglock_acquire_def fs_same_def)

lemma biglocked_Ok:
  assumes "f (locked st) = Ok st1 x" "fs_same (fst (locked st)) (fst st1)"
  shows "\<exists>st'. biglocked f st = Ok st' x \<and> locked st' = st1"
proof -
  obtain sfs2 where "vfs_biglock_release (fst st1) = Ok sfs2 ()" "vfs_biglock_acquire sfs2 = fst st1"
    using release_acquired [of "fst st" "fst st1"] assms(2) by (auto simp: locked_def)
  then show ?thesis using assms(1)
    by (intro exI [of _ "(sfs2, snd st1)"]) (cases st, cases st1, simp add: biglocked_def locked_def)
qed

lemma biglocked_Err:
  assumes "f (locked st) = Err st1 e" "fs_same (fst (locked st)) (fst st1)"
  shows "\<exists>st'. biglocked f st = Err st' e \<and> locked st' = st1"
proof -
  obtain sfs2 where "vfs_biglock_release (fst st1) = Ok sfs2 ()" "vfs_biglock_acquire sfs2 = fst st1"
    using release_acquired [of "fst st" "fst st1"] assms(2) by (auto simp: locked_def)
  then show ?thesis using assms(1)
    by (intro exI [of _ "(sfs2, snd st1)"]) (cases st, cases st1, simp add: biglocked_def locked_def)
qed

lemma file_step_same: "file_step sect st st' \<Longrightarrow> fs_same (fst st) (fst st')"
  by (simp add: file_step_def)

section \<open>Truncation of a file\<close>

text \<open>The blocks of a file that \<open>sfs_itrunc\<close> removes for a length of \<open>bl\<close> blocks.\<close>

definition trunc_cut :: "nat \<Rightarrow> nat \<Rightarrow> bool" where
  "trunc_cut bl i \<longleftrightarrow> (if i < SFS_NDIRECT then bl \<le> i else bl < i)"

definition set_size :: "u32 \<Rightarrow> sfs_vnode \<Rightarrow> sfs_vnode" where
  "set_size n sv = sv\<lparr>sv_i := (sv_i sv)\<lparr>sfi_size := n\<rparr>, sv_dirty := True\<rparr>"

lemma set_size_view [simp]:
  "fmap blk (sv_i (set_size n sv)) = fmap blk (sv_i sv)" "fblocks blk (sv_i (set_size n sv)) = fblocks blk (sv_i sv)"
  "fbyte blk (sv_i (set_size n sv)) = fbyte blk (sv_i sv)" "sfi_size (sv_i (set_size n sv)) = n"
proof -
  show m: "fmap blk (sv_i (set_size n sv)) = fmap blk (sv_i sv)" by (simp add: set_size_def fmap_def fun_eq_iff)
  show "fblocks blk (sv_i (set_size n sv)) = fblocks blk (sv_i sv)" unfolding fblocks_def m by (simp add: set_size_def)
  show "fbyte blk (sv_i (set_size n sv)) = fbyte blk (sv_i sv)" unfolding fbyte_def m ..
  show "sfi_size (sv_i (set_size n sv)) = n" by (simp add: set_size_def)
qed

lemma set_size_step: "file_step sect (sfs, sv) (sfs, set_size n sv)"
  by (simp add: file_step_def) (simp add: set_size_def)

lemma set_size_inv: "file_inv io sect nsect ready (sfs, sv) \<Longrightarrow> file_inv io sect nsect ready (sfs, set_size n sv)"
  by (simp add: file_inv_def file_ok_def) (simp add: set_size_def dinode_wf_def)

lemma unat_word_of_int_32: "0 \<le> k \<Longrightarrow> k < 2 ^ 32 \<Longrightarrow> unat (word_of_int k :: u32) = nat k"
  using unat_of_nat_32 [of "nat k"] by simp

lemma blocklen_word:
  assumes "0 \<le> len" "len < 2 ^ 32"
  shows "unat (word_of_int ((len + int SFS_BLOCKSIZE - 1) sdiv int SFS_BLOCKSIZE) :: u32) = nat ((len + 511) div 512)"
proof -
  have e: "(len + int SFS_BLOCKSIZE - 1) sdiv int SFS_BLOCKSIZE = (len + 511) div 512"
    using assms(1) by (simp add: signed_divide_int_def sfs_sizes sgn_if)
  have "0 \<le> (len + 511) div 512" "(len + 511) div 512 < 2 ^ 32" using assms by auto
  then show ?thesis unfolding e by (simp add: unat_word_of_int_32)
qed

context reliable_device
begin

lemma fbyte_trunc:
  assumes inv: "finv st" and p: "st_map sect st' = cut_map P (st_map sect st)"
    "\<forall>x. x \<noteq> unat (sfi_indirect (sv_i (snd st))) \<longrightarrow> st_blk sect st' x = st_blk sect st x"
  shows "st_byte sect st' i = (if P (i div SFS_BLOCKSIZE) then 0 else st_byte sect st i)"
proof -
  have "file_ok (nblocks (fst st)) (st_used st) (st_blk sect st) (sv_i (snd st))" using inv by (simp add: file_inv_def)
  note d = file_okD(5) [OF this, of "i div SFS_BLOCKSIZE"]
  show ?thesis using p d by (auto simp: fbyte_def cut_map_def Let_def)
qed

lemma itrunc_ok:
  assumes inv: "finv (locked st)" and len: "0 \<le> len" "len < 2 ^ 32"
  shows "(\<exists>st'. sfs_itrunc len st = Ok st' () \<and> finv (locked st') \<and> file_step sect (locked st) (locked st') \<and>
      st_map sect (locked st') = cut_map (trunc_cut (nat ((len + 511) div 512))) (st_map sect (locked st)) \<and>
      (\<forall>i. st_byte sect (locked st') i =
        (if trunc_cut (nat ((len + 511) div 512)) (i div SFS_BLOCKSIZE) then 0 else st_byte sect (locked st) i)) \<and>
      sfi_size (sv_i (snd st')) = word_of_int len) \<or>
    (\<exists>st'. sfs_itrunc len st = Err st' EIO \<and> finv (locked st') \<and> file_step sect (locked st) (locked st') \<and>
      sfi_size (sv_i (snd st')) = sfi_size (sv_i (snd st)))"
proof -
  let ?bl = "word_of_int ((len + int SFS_BLOCKSIZE - 1) sdiv int SFS_BLOCKSIZE) :: u32"
  let ?c = "trunc_cut (unat ?bl)" and ?st = "locked st"
  have sub: "set [0..<SFS_NDIRECT] \<subseteq> {..<SFS_NDIRECT}" by auto
  obtain st1 where d: "trunc_direct [0..<SFS_NDIRECT] ?bl ?st = Ok st1 ()" "finv st1" "file_step sect ?st st1"
      "st_blk sect st1 = st_blk sect ?st" "st_map sect st1 = cut_map (\<lambda>i. i \<in> set [0..<SFS_NDIRECT] \<and> unat ?bl \<le> i) (st_map sect ?st)"
      "sfi_indirect (sv_i (snd st1)) = sfi_indirect (sv_i (snd ?st))" "sfi_size (sv_i (snd st1)) = sfi_size (sv_i (snd ?st))"
    using trunc_direct_ok [OF inv sub, of ?bl] by blast
  let ?f = "\<lambda>st. and_then (trunc_direct [0..<SFS_NDIRECT] ?bl st) (\<lambda>st _.
      and_then (trunc_indirect ?bl st) (\<lambda>(sfs, sv) _. Ok (sfs, set_size (word_of_int len) sv) ()))"
  have t: "sfs_itrunc len = biglocked ?f" by (simp add: sfs_itrunc_def Let_def set_size_def)
  have bl: "unat ?bl = nat ((len + 511) div 512)" by (rule blocklen_word [OF len])
  from trunc_indirect_ok [OF d(2), of ?bl] show ?thesis
  proof (elim disjE exE conjE)
    fix st2 assume e: "trunc_indirect ?bl st1 = Ok st2 ()" and p: "trunc_post st1 (\<lambda>i. SFS_NDIRECT \<le> i \<and> unat ?bl < i) st2"
    let ?st3 = "(fst st2, set_size (word_of_int len) (snd st2))"
    have f: "?f ?st = Ok ?st3 ()" using d(1) e by (cases st2) simp
    have s2: "file_step sect ?st st2" using file_step_trans [OF d(3)] p by (simp add: trunc_post_def)
    have s3: "file_step sect ?st ?st3" by (rule file_step_trans [OF s2]) (simp add: set_size_step [of sect "fst st2" "snd st2", simplified])
    obtain st' where r: "sfs_itrunc len st = Ok st' ()" "locked st' = ?st3"
      using biglocked_Ok [of ?f st, OF f file_step_same [OF s3]] unfolding t by blast
    have m: "st_map sect st2 = cut_map ?c (st_map sect ?st)"
      using p d(5) by (auto simp: trunc_post_def cut_map_def trunc_cut_def fun_eq_iff)
    have "\<forall>x. x \<noteq> unat (sfi_indirect (sv_i (snd ?st))) \<longrightarrow> st_blk sect st2 x = st_blk sect ?st x"
      using p d(4,6) by (simp add: trunc_post_def)
    note fb = fbyte_trunc [OF inv m this]
    have i3: "finv ?st3" using p set_size_inv [of io sect nsect ready "fst st2" "snd st2"] by (simp add: trunc_post_def)
    have sz: "snd st' = set_size (word_of_int len) (snd st2)" using r(2) by (simp add: locked_def prod_eq_iff)
    have "sfs_itrunc len st = Ok st' () \<and> finv (locked st') \<and> file_step sect ?st (locked st') \<and>
        st_map sect (locked st') = cut_map ?c (st_map sect ?st) \<and>
        (\<forall>i. st_byte sect (locked st') i = (if ?c (i div SFS_BLOCKSIZE) then 0 else st_byte sect ?st i)) \<and>
        sfi_size (sv_i (snd st')) = word_of_int len"
      using r(1) i3 s3 unfolding r(2) sz by (simp only: fst_conv snd_conv set_size_view m fb simp_thms)
    then show ?thesis unfolding bl by blast
  next
    fix st2 assume e: "trunc_indirect ?bl st1 = Err st2 EIO" and l: "looked st1 st2"
    have k: "keeps st1 st2" using looked_keeps [OF d(2) l] by simp
    have f: "?f ?st = Err st2 EIO" using d(1) e by simp
    have s2: "file_step sect ?st st2" using file_step_trans [OF d(3)] k by (simp add: keeps_def)
    obtain st' where r: "sfs_itrunc len st = Err st' EIO" "locked st' = st2"
      using biglocked_Err [of ?f st, OF f file_step_same [OF s2]] unfolding t by blast
    have "sv_i (snd st') = sv_i (snd st2)" using r(2) by (auto simp: locked_def)
    then show ?thesis using r k s2 d(7) by (intro disjI2 exI [of _ st']) (simp add: keeps_def locked_def)
  qed
qed

end

section \<open>Property\<close>

text \<open>
  C36. Truncating a file to \<open>len\<close> bytes, that is \<open>bl\<close> blocks rounded up. \<open>sfs_itrunc\<close> sets the size and removes the direct
  blocks from number \<open>bl\<close> on, but of the blocks in the indirect block only those with numbers above \<open>bl\<close>: one block past
  the new end stays mapped and in use. Removed blocks are free again, exactly those; all other blocks keep their
  contents, the last block included, whose bytes past the new end are not cleared. The file stays sound and other
  files are untouched. If the indirect block cannot be read the result is \<open>EIO\<close> with the size unchanged.
\<close>

theorem sfs_itrunc_exact:
  assumes "reliable_device io sect nsect ready" "file_inv io sect nsect ready (locked st)" "0 \<le> len" "len < 2 ^ 32"
  defines "bl \<equiv> nat ((len + 511) div 512)"
  shows "(\<exists>st'. sfs_itrunc len st = Ok st' () \<and> file_inv io sect nsect ready (locked st') \<and>
      file_step sect (locked st) (locked st') \<and> sfi_size (sv_i (snd st')) = word_of_int len \<and>
      (\<forall>i. st_map sect (locked st') i =
        (if (if i < SFS_NDIRECT then bl \<le> i else bl < i) then 0 else st_map sect (locked st) i)) \<and>
      (\<forall>i. st_byte sect (locked st') i =
        (if trunc_cut bl (i div SFS_BLOCKSIZE) then 0 else st_byte sect (locked st) i))) \<or>
    (\<exists>st'. sfs_itrunc len st = Err st' EIO \<and> file_inv io sect nsect ready (locked st') \<and>
      file_step sect (locked st) (locked st') \<and> sfi_size (sv_i (snd st')) = sfi_size (sv_i (snd st)))"
proof -
  have c: "cut_map (trunc_cut bl) m i = (if (if i < SFS_NDIRECT then bl \<le> i else bl < i) then 0 else m i)" for m i
    by (simp add: cut_map_def trunc_cut_def)
  from reliable_device.itrunc_ok [OF assms(1-4), folded bl_def] show ?thesis
  proof
    assume "\<exists>st'. sfs_itrunc len st = Ok st' () \<and> file_inv io sect nsect ready (locked st') \<and>
      file_step sect (locked st) (locked st') \<and> st_map sect (locked st') = cut_map (trunc_cut bl) (st_map sect (locked st)) \<and>
      (\<forall>i. st_byte sect (locked st') i = (if trunc_cut bl (i div SFS_BLOCKSIZE) then 0 else st_byte sect (locked st) i)) \<and>
      sfi_size (sv_i (snd st')) = word_of_int len"
    then obtain st' where "sfs_itrunc len st = Ok st' ()" "file_inv io sect nsect ready (locked st')"
      "file_step sect (locked st) (locked st')" "st_map sect (locked st') = cut_map (trunc_cut bl) (st_map sect (locked st))"
      "\<forall>i. st_byte sect (locked st') i = (if trunc_cut bl (i div SFS_BLOCKSIZE) then 0 else st_byte sect (locked st) i)"
      "sfi_size (sv_i (snd st')) = word_of_int len" by blast
    then show ?thesis using c [of "st_map sect (locked st)"] by (intro disjI1 exI [of _ st']) simp
  qed blast
qed

text \<open>
  An inode with an indirect block, number 3, whose first entry maps block 15 of the file to disk block 4: truncated to
  15 blocks the file still has the block.
\<close>

definition indirect_volume :: "(nat \<Rightarrow> u8 list) lhd_softc sfs_fs" where
  "indirect_volume = set_disk plain_volume
     ((disk_of plain_volume)\<lparr>lh_card := (\<lambda>_. replicate 512 0)(3 := be32 4 @ replicate 508 0)\<rparr>)"

definition indirect_vnode :: sfs_vnode where
  "indirect_vnode = plain_vnode\<lparr>sv_i := (sv_i plain_vnode)\<lparr>sfi_indirect := 3\<rparr>\<rparr>"

lemma indirect_map:
  "fmap (disk_sect (lh_card (disk_of indirect_volume))) (sv_i indirect_vnode) i = (if i = 0 then 5 else if i = 15 then 4 else 0)"
proof -
  let ?z = "replicate 127 0 :: u32 list"
  have z: "store_words (replicate n 0) = replicate (4 * n) 0" for n
    by (induction n) (simp_all add: store_words_def be32_def numeral_eq_Suc)
  have "be32 4 @ replicate 508 0 = store_words (4 # ?z)" using z [of 127] by (simp add: store_words_def)
  then have "disk_sect (lh_card (disk_of indirect_volume)) 3 = store_words (4 # ?z)"
    by (simp add: disk_sect_def indirect_volume_def sfs_sizes)
  then have "load_words (disk_sect (lh_card (disk_of indirect_volume)) (unat (3 :: u32))) = 4 # ?z" by simp
  then show ?thesis
    by (auto simp: fmap_def indirect_vnode_def plain_vnode_def sfs_lens nth_Cons' nth_append)
qed

lemma file_inv_locked: "file_inv io sect nsect ready st \<Longrightarrow> file_inv io sect nsect ready (locked st)"
  by (auto simp: file_inv_def locked_def vol_ok_def on_device_def freemap_ok_def vfs_biglock_acquire_def vfs_biglock_do_i_hold_def)

lemma indirect_file_ok:
  "file_inv (lhd_io plain_disk) (\<lambda>lh. disk_sect (lh_card lh)) 16 (lhd_ready 16) (indirect_volume, indirect_vnode)"
proof -
  let ?blk = "disk_sect (lh_card (disk_of indirect_volume))" and ?di = "sv_i indirect_vnode"
  have ind: "sfi_indirect ?di = 3" "dinode_wf ?di" by (simp_all add: indirect_vnode_def plain_vnode_def dinode_wf_def sfs_sizes)
  have "file_ok 16 (bm_used (sfs_freemap plain_volume)) ?blk ?di"
    by (rule file_okI) (auto simp: indirect_map plain_used ind split: if_splits)
  moreover have "sb_nblocks (sfs_sb indirect_volume) = 16" "sfs_freemap indirect_volume = sfs_freemap plain_volume"
    by (simp_all add: indirect_volume_def) (simp_all add: plain_volume_def)
  moreover have "vol_ok (lhd_io plain_disk) 16 (lhd_ready 16) indirect_volume"
    unfolding indirect_volume_def by (rule vol_ok_set_disk [OF plain_vol_ok]) (simp add: plain_volume_def lhd_ready_def sfs_sizes)
  ultimately show ?thesis by (simp add: file_inv_def)
qed

lemma sfs_itrunc_exact_witness:
  "\<exists>st'. sfs_itrunc 7680 (indirect_volume, indirect_vnode) = Ok st' () \<and>
       fmap (disk_sect (lh_card (disk_of (fst (locked st'))))) (sv_i (snd (locked st'))) 15 = 4 \<or>
     sfs_itrunc 7680 (indirect_volume, indirect_vnode) = Err st' EIO"
proof -
  have l: "disk_of (fst (locked (indirect_volume, indirect_vnode))) = disk_of indirect_volume"
    "snd (locked (indirect_volume, indirect_vnode)) = indirect_vnode" by (simp_all add: locked_def vfs_biglock_acquire_def)
  have b: "nat ((7680 + 511) div 512 :: int) = 15" by simp
  show ?thesis
    using sfs_itrunc_exact [OF plain_device file_inv_locked [OF indirect_file_ok], of 7680]
    unfolding l b by (auto simp: indirect_map sfs_lens)
qed

end
