(* ===== verification/Sfs_Io.thy ===== *)
theory Sfs_Io
  imports Sfs_Trunc
begin

text \<open>
  Reading and writing files, the second half of \<open>kern/fs/sfs/sfs_io.c\<close>: partial blocks through a buffer, whole blocks
  directly between the disk and the transfer, their sequence in \<open>sfs_io\<close>, and \<open>sfs_metaio\<close> for directory entries. The
  lemmas describe a transfer of \<open>n\<close> bytes by the bytes of the file it reads or overwrites.
\<close>

section \<open>Model\<close>

type_synonym 'd iostate = "'d fstate \<times> uio"

definition with_uio :: "uio \<Rightarrow> ('d fstate, 'a) outcome \<Rightarrow> ('d iostate, 'a) outcome" where
  "with_uio uio r = map_outcome (\<lambda>st. (st, uio)) id r"

definition uio_block :: "uio \<Rightarrow> u32" where
  "uio_block uio = word_of_int (uio_offset uio sdiv int SFS_BLOCKSIZE)"

text \<open>\<open>uiomove(iobuf+skipstart, len, uio)\<close> and the write-back of the buffer.\<close>

definition partialio_move :: "nat \<Rightarrow> nat \<Rightarrow> u32 \<Rightarrow> u8 list \<Rightarrow> 'd iostate \<Rightarrow> ('d iostate, unit) outcome" where
  "partialio_move skipstart len diskblock iobuf = (\<lambda>((sfs, sv), uio).
     case uiomove (proc_as sfs) (take len (drop skipstart iobuf)) uio of
       Ok uio bytes \<Rightarrow>
         if uio_rw uio = UIO_WRITE
         then with_uio uio (with_sv sv (sfs_writeblock diskblock
                (take skipstart iobuf @ bytes @ drop (skipstart + len) iobuf) sfs))
         else Ok ((sfs, sv), uio) ()
     | Err uio e \<Rightarrow> Err ((sfs, sv), uio) e
     | Panic \<Rightarrow> Panic | Fault \<Rightarrow> Fault | Blocked \<Rightarrow> Blocked)"

definition partialio_rest :: "nat \<Rightarrow> nat \<Rightarrow> 'd iostate \<Rightarrow> u32 \<Rightarrow> ('d iostate, unit) outcome" where
  "partialio_rest skipstart len = (\<lambda>((sfs, sv), uio) diskblock.
     and_then
       (if diskblock = 0
        then kassert (uio_rw uio = UIO_READ) (Ok ((sfs, sv), uio) (replicate SFS_BLOCKSIZE 0))
        else with_uio uio (with_sv sv (sfs_readblock diskblock (replicate SFS_BLOCKSIZE 0) sfs)))
       (\<lambda>st iobuf. partialio_move skipstart len diskblock iobuf st))"

definition sfs_partialio :: "u32 \<Rightarrow> u32 \<Rightarrow> 'd iostate \<Rightarrow> ('d iostate, unit) outcome" where
  "sfs_partialio skipstart len = (\<lambda>(st, uio).
     let doalloc = (uio_rw uio = UIO_WRITE)
     in kassert (unat (skipstart + len) \<le> SFS_BLOCKSIZE)
          (kassert (vfs_biglock_do_i_hold (fst st))
            (and_then (with_uio uio (sfs_bmap (uio_block uio) doalloc st)) (partialio_rest (unat skipstart) (unat len)))))"

text \<open>The end of \<open>sfs_blockio\<close>: \<open>uio_offset\<close> and \<open>uio_resid\<close> in terms of the caller's transfer again.\<close>

definition blockio_restore :: "uio \<Rightarrow> int \<Rightarrow> uio \<Rightarrow> uio" where
  "blockio_restore save diskoff uio =
     uio\<lparr>uio_offset := (uio_offset uio - diskoff) + uio_offset save,
         uio_resid := nat (((int (uio_resid uio) - int SFS_BLOCKSIZE) + int (uio_resid save)) mod 2 ^ 32)\<rparr>"

definition sfs_blockio :: "'d iostate \<Rightarrow> ('d iostate, unit) outcome" where
  "sfs_blockio = (\<lambda>(st, uio).
     let doalloc = (uio_rw uio = UIO_WRITE)
     in and_then (with_uio uio (sfs_bmap (uio_block uio) doalloc st)) (\<lambda>((sfs, sv), uio) diskblock.
          if diskblock = 0
          then kassert (uio_rw uio = UIO_READ)
                 (map_outcome (\<lambda>uio. ((sfs, sv), uio)) id (uiomovezeros (proc_as sfs) SFS_BLOCKSIZE uio))
          else
            let diskoff = uint (diskblock * of_nat SFS_BLOCKSIZE)
            in kassert (SFS_BLOCKSIZE \<le> uio_resid uio)
                 (map_outcome (\<lambda>(sfs, uio'). ((sfs, sv), blockio_restore uio diskoff uio')) id
                   (sfs_rwblock (sfs, uio\<lparr>uio_offset := diskoff, uio_resid := SFS_BLOCKSIZE\<rparr>)))))"

fun sfs_blocks :: "nat \<Rightarrow> 'd iostate \<Rightarrow> ('d iostate, unit) outcome" where
  "sfs_blocks 0 st = Ok st ()"
| "sfs_blocks (Suc n) st = and_then (sfs_blockio st) (\<lambda>st _. sfs_blocks n st)"

text \<open>The part of \<open>sfs_io\<close> before the label \<open>out\<close>.\<close>

definition sfs_io_body :: "'d iostate \<Rightarrow> ('d iostate, unit) outcome" where
  "sfs_io_body = (\<lambda>(st, uio).
     let blkoff = (word_of_int (uio_offset uio smod int SFS_BLOCKSIZE) :: u32);
         rest = of_nat SFS_BLOCKSIZE - blkoff;
         len = (if unat rest > uio_resid uio then of_nat (uio_resid uio) else rest)
     in and_then (if blkoff \<noteq> 0 then sfs_partialio blkoff len (st, uio) else Ok (st, uio) ()) (\<lambda>(st, uio) _.
          if uio_resid uio = 0 then Ok (st, uio) ()
          else
            kassert (uio_offset uio smod int SFS_BLOCKSIZE = 0)
              (and_then (sfs_blocks (uio_resid uio div SFS_BLOCKSIZE) (st, uio)) (\<lambda>(st, uio) _.
                kassert (uio_resid uio < SFS_BLOCKSIZE)
                  (if 0 < uio_resid uio then sfs_partialio 0 (of_nat (uio_resid uio)) (st, uio)
                   else Ok (st, uio) ())))))"

text \<open>From the label \<open>out\<close> on.\<close>

definition sfs_io_out :: "nat \<Rightarrow> nat \<Rightarrow> 'd iostate \<Rightarrow> 'd iostate" where
  "sfs_io_out origresid extraresid = (\<lambda>((sfs, sv), uio).
     ((sfs,
       if uio_resid uio \<noteq> origresid \<and> uio_rw uio = UIO_WRITE \<and> uio_offset uio > int (unat (sfi_size (sv_i sv)))
       then set_size (word_of_int (uio_offset uio)) sv else sv),
      uio\<lparr>uio_resid := (uio_resid uio + extraresid) mod 2 ^ 32\<rparr>))"

definition sfs_io_run :: "nat \<Rightarrow> nat \<Rightarrow> 'd iostate \<Rightarrow> ('d iostate, unit) outcome" where
  "sfs_io_run origresid extraresid st =
     (case sfs_io_body st of
        Ok st _ \<Rightarrow> Ok (sfs_io_out origresid extraresid st) ()
      | Err st e \<Rightarrow> Err (sfs_io_out origresid extraresid st) e
      | Panic \<Rightarrow> Panic | Fault \<Rightarrow> Fault | Blocked \<Rightarrow> Blocked)"

definition sfs_io :: "'d iostate \<Rightarrow> ('d iostate, unit) outcome" where
  "sfs_io = (\<lambda>((sfs, sv), uio).
     let origresid = uio_resid uio
     in if uio_rw uio = UIO_READ then
          let sz = int (unat (sfi_size (sv_i sv)));
              endpos = uio_offset uio + int (uio_resid uio)
          in if uio_offset uio \<ge> sz then Ok ((sfs, sv), uio) ()
             else if endpos > sz then
               let extraresid = nat ((endpos - sz) mod 2 ^ 32)
               in kassert (uio_resid uio > extraresid)
                    (sfs_io_run origresid extraresid ((sfs, sv), uio\<lparr>uio_resid := uio_resid uio - extraresid\<rparr>))
             else sfs_io_run origresid 0 ((sfs, sv), uio)
        else sfs_io_run origresid 0 ((sfs, sv), uio))"

text \<open>
  \<open>sfs_metaio\<close> hands back the caller's buffer \<open>data\<close>; an access of the static buffer beyond its end is \<open>Fault\<close>.
\<close>

definition sfs_metaio :: "int \<Rightarrow> u8 list \<Rightarrow> uio_rw \<Rightarrow> 'd fstate \<Rightarrow> ('d fstate, u8 list) outcome" where
  "sfs_metaio actualpos data rw = (\<lambda>(sfs, sv).
     kassert (vfs_biglock_do_i_hold sfs)
       (let vnblock = (word_of_int (actualpos sdiv int SFS_BLOCKSIZE) :: u32);
            blockoffset = unat (word_of_int (actualpos smod int SFS_BLOCKSIZE) :: u32);
            len = length data
        in and_then (sfs_bmap vnblock (rw = UIO_WRITE) (sfs, sv)) (\<lambda>(sfs, sv) diskblock.
             if diskblock = 0 then kassert (rw = UIO_READ) (Ok (sfs, sv) (replicate len 0))
             else and_then (with_sv sv (sfs_readblock diskblock (replicate SFS_BLOCKSIZE 0) sfs)) (\<lambda>(sfs, sv) buf.
               if blockoffset + len > SFS_BLOCKSIZE then Fault
               else if rw = UIO_READ then Ok (sfs, sv) (take len (drop blockoffset buf))
               else
                 and_then (with_sv sv (sfs_writeblock diskblock
                     (take blockoffset buf @ data @ drop (blockoffset + len) buf) sfs)) (\<lambda>(sfs, sv) _.
                   let endpos = actualpos + int len
                   in Ok (sfs, if endpos > int (unat (sfi_size (sv_i sv))) then set_size (word_of_int endpos) sv else sv) data)))))"

section \<open>Transfers and the bytes of a file\<close>

definition overwrite :: "nat \<Rightarrow> u8 list \<Rightarrow> (nat \<Rightarrow> u8) \<Rightarrow> nat \<Rightarrow> u8" where
  "overwrite p bs f i = (if p \<le> i \<and> i < p + length bs then bs ! (i - p) else f i)"

lemma overwrite_Nil [simp]: "overwrite p [] f = f"
  by (rule ext) (auto simp: overwrite_def)

lemma overwrite_append: "overwrite (p + length a) b (overwrite p a f) = overwrite p (a @ b) f"
  by (auto simp: overwrite_def nth_append fun_eq_iff)

definition file_bytes :: "(nat \<Rightarrow> u8) \<Rightarrow> nat \<Rightarrow> nat \<Rightarrow> u8 list" where
  "file_bytes f p n = map f [p..<p + n]"

lemma file_bytes_append: "file_bytes f p n @ file_bytes f (p + n) m = file_bytes f p (n + m)"
proof -
  have "[p..<p + n] @ [p + n..<p + n + m] = [p..<p + (n + m)]" using upt_add_eq_append [of p "p + n" m] by (simp add: add.assoc)
  then show ?thesis by (simp add: file_bytes_def flip: map_append)
qed

lemma length_file_bytes [simp]: "length (file_bytes f p n) = n"
  by (simp add: file_bytes_def)

lemma file_bytes_overwrite: "file_bytes (overwrite p bs f) p (length bs) = bs"
  by (rule nth_equalityI) (simp_all add: file_bytes_def overwrite_def)

lemma file_bytes_overwrite_take: "k \<le> length bs \<Longrightarrow> file_bytes (overwrite p bs f) p k = take k bs"
  by (rule nth_equalityI) (simp_all add: file_bytes_def overwrite_def)

text \<open>A part of a block, with the rest of the block kept.\<close>

definition patch :: "nat \<Rightarrow> u8 list \<Rightarrow> u8 list \<Rightarrow> u8 list" where
  "patch skip bs buf = take skip buf @ bs @ drop (skip + length bs) buf"

lemma length_patch: "skip + length bs \<le> length buf \<Longrightarrow> length (patch skip bs buf) = length buf"
  by (simp add: patch_def)

lemma nth_patch:
  "skip + length bs \<le> length buf \<Longrightarrow> i < length buf \<Longrightarrow>
   patch skip bs buf ! i = (if skip \<le> i \<and> i < skip + length bs then bs ! (i - skip) else buf ! i)"
  by (auto simp: patch_def nth_append min_def)

lemma block_index:
  assumes "p mod SFS_BLOCKSIZE + n \<le> SFS_BLOCKSIZE"
  shows "p \<le> i \<and> i < p + n \<longleftrightarrow>
    i div SFS_BLOCKSIZE = p div SFS_BLOCKSIZE \<and> p mod SFS_BLOCKSIZE \<le> i mod SFS_BLOCKSIZE \<and> i mod SFS_BLOCKSIZE < p mod SFS_BLOCKSIZE + n"
proof -
  obtain pq pr where p: "p = 512 * pq + pr" "pr < 512" by (metis div_mult_mod_eq mult.commute mod_less_divisor zero_less_numeral)
  obtain iq ir where i: "i = 512 * iq + ir" "ir < 512" by (metis div_mult_mod_eq mult.commute mod_less_divisor zero_less_numeral)
  have "p div 512 = pq" "p mod 512 = pr" "i div 512 = iq" "i mod 512 = ir" using p i by simp_all
  moreover have "pr + n \<le> 512" using assms \<open>p mod 512 = pr\<close> by (simp add: SFS_BLOCKSIZE_def)
  ultimately show ?thesis
  proof (cases "iq = pq")
    case False
    then have "iq < pq \<or> pq < iq" by auto
    then have "\<not> (p \<le> i \<and> i < p + n)" using p i \<open>pr + n \<le> 512\<close> by (elim disjE) linarith+
    then show ?thesis using False \<open>p div 512 = pq\<close> \<open>i div 512 = iq\<close> by (simp add: SFS_BLOCKSIZE_def)
  qed (use p i in \<open>auto simp: SFS_BLOCKSIZE_def\<close>)
qed

lemma restore_after:
  assumes a: "uio_after SFS_BLOCKSIZE bs (u\<lparr>uio_offset := o', uio_resid := SFS_BLOCKSIZE\<rparr>) v"
    and u: "uio_ok u" "SFS_BLOCKSIZE \<le> uio_resid u" "uio_resid u < 2 ^ 32"
  shows "uio_after SFS_BLOCKSIZE bs u (blockio_restore u o' v)"
proof -
  note d = uio_afterD [OF a]
  have v: "uio_ahead v = drop SFS_BLOCKSIZE (uio_ahead u)" "uio_got v = uio_got u @ bs" "uio_resid v = 0"
    "uio_offset v = o' + int SFS_BLOCKSIZE" "uio_segflg v = uio_segflg u" "uio_rw v = uio_rw u" "uio_space v = uio_space u"
    using d by (simp_all add: uio_ahead_def uio_got_def)
  have r: "nat ((int (uio_resid v) - int SFS_BLOCKSIZE + int (uio_resid u)) mod 2 ^ 32) = uio_resid u - SFS_BLOCKSIZE"
  proof -
    have "int (uio_resid v) - int SFS_BLOCKSIZE + int (uio_resid u) = int (uio_resid u - SFS_BLOCKSIZE)" using u(2) v(3) by simp
    moreover have "int (uio_resid u - SFS_BLOCKSIZE) mod 2 ^ 32 = int (uio_resid u - SFS_BLOCKSIZE)" using u(3) by simp
    ultimately show ?thesis by simp
  qed
  have "uio_resid u - SFS_BLOCKSIZE \<le> length (uio_ahead v)" using u(1) v(1) diff_le_mono by (simp add: uio_ok_def)
  then have "uio_ok (blockio_restore u o' v)" using d(1) unfolding uio_ok_def blockio_restore_def r by (simp add: uio_ahead_def)
  then show ?thesis unfolding uio_after_def using v r by (simp add: blockio_restore_def uio_ahead_def uio_got_def)
qed

lemma restore_same: "uio_resid u < 2 ^ 32 \<Longrightarrow> blockio_restore u o' (u\<lparr>uio_offset := o', uio_resid := SFS_BLOCKSIZE\<rparr>) = u"
  by (simp add: blockio_restore_def)

text \<open>
  What a transfer of \<open>k\<close> bytes through \<open>sfs_io\<close> does: a read leaves the volume and the inode alone and
  delivers the file's bytes from the offset on, a write replaces them and extends the file to the end of
  what was written.  \<open>io_want\<close> is the number of bytes asked for: a read stops at the end of the file.
\<close>

definition io_effect :: "('d \<Rightarrow> nat \<Rightarrow> u8 list) \<Rightarrow> 'd fstate \<Rightarrow> uio \<Rightarrow> nat \<Rightarrow> 'd fstate \<Rightarrow> uio \<Rightarrow> bool" where
  "io_effect sect st u k st' u' \<longleftrightarrow> file_step sect st st' \<and>
     (let p = nat (uio_offset u); size = unat (sfi_size (sv_i (snd st))); size' = unat (sfi_size (sv_i (snd st'))) in
      if uio_rw u = UIO_READ
      then st_blk sect st' = st_blk sect st \<and> st_used st' = st_used st \<and> snd st' = snd st \<and>
        uio_after k (file_bytes (st_byte sect st) p k) u u'
      else st_byte sect st' = overwrite p (take k (uio_ahead u)) (st_byte sect st) \<and>
        size' = (if k = 0 then size else max size (p + k)) \<and> uio_after k (take k (uio_ahead u)) u u')"

definition io_want :: "'d fstate \<Rightarrow> uio \<Rightarrow> nat" where
  "io_want st u = (if uio_rw u = UIO_READ then min (uio_resid u) (unat (sfi_size (sv_i (snd st))) - nat (uio_offset u)) else uio_resid u)"

definition io_errors :: "uio_rw \<Rightarrow> errno set" where
  "io_errors rw = {EIO, EFBIG} \<union> (if rw = UIO_READ then {} else {ENOSPC})"

lemma io_errors_simps [simp]: "EIO \<in> io_errors rw" "EFBIG \<in> io_errors rw" "ENOSPC \<in> io_errors rw \<longleftrightarrow> rw = UIO_WRITE"
  by (cases rw; simp add: io_errors_def)+

text \<open>A request within what the model's integers and the caller's buffers hold.\<close>

definition io_request :: "'d fstate \<Rightarrow> uio \<Rightarrow> bool" where
  "io_request st u \<longleftrightarrow> uio_ok u \<and> uio_space_ok (proc_as (fst st)) u \<and> 0 \<le> uio_offset u \<and> 0 < uio_resid u \<and>
     uio_resid u < 2 ^ 32 \<and> uio_offset u + int (uio_resid u) < 2 ^ 41"

lemma smod_block: "0 \<le> o' \<Longrightarrow> o' smod int SFS_BLOCKSIZE = int (nat o' mod SFS_BLOCKSIZE)"
  by (simp add: signed_modulo_int_def signed_divide_int_def sgn_if sfs_sizes nat_mod_distrib minus_div_mult_eq_mod zmod_int)

lemma uio_after_less:
  assumes "uio_after k bs (u\<lparr>uio_resid := uio_resid u - x\<rparr>) v" "uio_ok u" "k + x \<le> uio_resid u"
  shows "uio_after k bs u (v\<lparr>uio_resid := uio_resid v + x\<rparr>)"
proof -
  note d = uio_afterD [OF assms(1)]
  have v: "uio_ahead v = drop k (uio_ahead u)" "uio_got v = uio_got u @ bs" "uio_resid v + x = uio_resid u - k"
    using d assms(3) by (simp_all add: uio_ahead_def uio_got_def)
  have "uio_resid u - k \<le> length (uio_ahead v)" using assms(2) v(1) diff_le_mono by (simp add: uio_ok_def)
  then have "uio_ok (v\<lparr>uio_resid := uio_resid v + x\<rparr>)" using d(1) v(3) by (simp add: uio_ok_def uio_ahead_def)
  then show ?thesis using d v by (simp add: uio_after_def uio_ahead_def uio_got_def)
qed

context reliable_device
begin

text \<open>Overwriting the block \<open>b\<close> that the file has at number \<open>k\<close>.\<close>

lemma store_block:
  assumes inv: "finv (sfs, sv)" and k: "st_map sect (sfs, sv) k = b" "b \<noteq> 0"
    and d: "ready d'" "sect d' = (sect (disk_of sfs))(b := buf)"
  defines "st' \<equiv> (set_disk sfs d', sv)"
  shows "finv st'" "file_step sect (sfs, sv) st'"
    "st_byte sect st' i = (if i div SFS_BLOCKSIZE = k then buf ! (i mod SFS_BLOCKSIZE) else st_byte sect (sfs, sv) i)"
proof -
  have fo: "file_ok (nblocks sfs) (blocks_used sfs) (sect (disk_of sfs)) (sv_i sv)" using finvD(3) [OF inv] .
  note f = file_okD [OF fo]
  have ind: "sect d' (unat (sfi_indirect (sv_i sv))) = sect (disk_of sfs) (unat (sfi_indirect (sv_i sv)))"
    using f(5) [of k] k d(2) by simp
  have m: "fmap (sect d') (sv_i sv) = fmap (sect (disk_of sfs)) (sv_i sv)" by (rule fmap_cong) (rule ind)
  have fb: "fblocks (sect d') (sv_i sv) = fblocks (sect (disk_of sfs)) (sv_i sv)" by (rule fblocks_cong) (rule ind)
  show "finv st'" using fo inv d(1) by (simp add: st'_def file_inv_def file_ok_def m fb)
  have "b \<in> fblocks (sect (disk_of sfs)) (sv_i sv)" using fmap_in_fblocks [of "sect (disk_of sfs)" "sv_i sv" k] k by simp
  then show "file_step sect (sfs, sv) st'" by (auto simp: file_step_def st'_def fb) (auto simp: d(2))
  have c: "sect d' x = (if x = b then buf else sect (disk_of sfs) x)" for x by (simp add: d(2))
  have k': "fmap (sect (disk_of sfs)) (sv_i sv) k = b" using k by simp
  show "st_byte sect st' i = (if i div SFS_BLOCKSIZE = k then buf ! (i mod SFS_BLOCKSIZE) else st_byte sect (sfs, sv) i)"
  proof (cases "i div SFS_BLOCKSIZE = k")
    case True
    then show ?thesis using k(2) by (simp add: fbyte_def st'_def m c k')
  next
    case False
    then have "fmap (sect (disk_of sfs)) (sv_i sv) (i div SFS_BLOCKSIZE) \<noteq> b" using f(4) [of k "i div SFS_BLOCKSIZE"] k' k(2) by auto
    then show ?thesis using False by (simp add: fbyte_def st'_def m c Let_def)
  qed
qed

definition wrote :: "'a fstate \<Rightarrow> nat \<Rightarrow> u8 list \<Rightarrow> 'a fstate \<Rightarrow> bool" where
  "wrote st p bs st' \<longleftrightarrow> finv st' \<and> file_step sect st st' \<and> st_byte sect st' = overwrite p bs (st_byte sect st) \<and>
     sfi_size (sv_i (snd st')) = sfi_size (sv_i (snd st)) \<and> (bs = [] \<or> p + length bs \<le> SFS_MAXBLOCKS * SFS_BLOCKSIZE)"

lemma wrote_trans: "wrote a p x b \<Longrightarrow> wrote b (p + length x) y c \<Longrightarrow> wrote a p (x @ y) c"
  by (auto simp: wrote_def overwrite_append intro: file_step_trans)

lemma keeps_wrote: "keeps a b \<Longrightarrow> wrote a p [] b"
  by (simp add: keeps_def wrote_def)

text \<open>A transfer of \<open>n\<close> bytes from \<open>st\<close> and \<open>u\<close> to \<open>st'\<close> and \<open>u'\<close>.\<close>

definition moved :: "'a fstate \<Rightarrow> uio \<Rightarrow> nat \<Rightarrow> 'a fstate \<Rightarrow> uio \<Rightarrow> bool" where
  "moved st u n st' u' \<longleftrightarrow>
     (if uio_rw u = UIO_READ
      then looked st st' \<and> uio_after n (file_bytes (st_byte sect st) (nat (uio_offset u)) n) u u'
      else wrote st (nat (uio_offset u)) (take n (uio_ahead u)) st' \<and> uio_after n (take n (uio_ahead u)) u u')"

definition io_pre :: "'a fstate \<Rightarrow> uio \<Rightarrow> bool" where
  "io_pre st u \<longleftrightarrow> finv st \<and> uio_ok u \<and> uio_space_ok (proc_as (fst st)) u \<and> 0 \<le> uio_offset u \<and> uio_resid u < 2 ^ 32 \<and>
     uio_offset u + int (uio_resid u) < 2 ^ 41"

lemma looked_byte: "looked st st' \<Longrightarrow> st_byte sect st' = st_byte sect st"
  by (auto simp: looked_def)

lemma moved_trans:
  assumes pre: "io_pre st u" and n: "n + m \<le> uio_resid u" and a: "moved st u n st1 u1" and b: "moved st1 u1 m st2 u2"
  shows "moved st u (n + m) st2 u2"
proof (cases "uio_rw u = UIO_READ")
  case True
  then have a': "looked st st1" "uio_after n (file_bytes (st_byte sect st) (nat (uio_offset u)) n) u u1"
    using a by (simp_all add: moved_def)
  note d = uio_afterD [OF a'(2)]
  have off: "nat (uio_offset u1) = nat (uio_offset u) + n" using d(5) pre by (simp add: io_pre_def nat_add_distrib)
  have b': "looked st1 st2" "uio_after m (file_bytes (st_byte sect st) (nat (uio_offset u) + n) m) u1 u2"
    using b True d(7) looked_byte [OF a'(1)] off by (simp_all add: moved_def)
  show ?thesis using True looked_trans [OF a'(1) b'(1)] uio_after_trans [OF a'(2) b'(2)]
    by (simp add: moved_def file_bytes_append)
next
  case False
  then have a': "wrote st (nat (uio_offset u)) (take n (uio_ahead u)) st1" "uio_after n (take n (uio_ahead u)) u u1"
    using a by (simp_all add: moved_def)
  note d = uio_afterD [OF a'(2)]
  have off: "nat (uio_offset u1) = nat (uio_offset u) + n" using d(5) pre by (simp add: io_pre_def nat_add_distrib)
  have l: "length (take n (uio_ahead u)) = n" using n pre by (auto simp: io_pre_def uio_ok_def)
  have b': "wrote st1 (nat (uio_offset u) + length (take n (uio_ahead u))) (take m (drop n (uio_ahead u))) st2"
      "uio_after m (take m (drop n (uio_ahead u))) u1 u2"
    using b False d(2,7) off l by (simp_all add: moved_def)
  show ?thesis using False wrote_trans [OF a'(1) b'(1)] uio_after_trans [OF a'(2) b'(2)]
    by (simp add: moved_def take_add)
qed

lemma looked_finv: "finv st \<Longrightarrow> looked st st' \<Longrightarrow> finv st'"
  using looked_keeps [of st st'] by (simp add: keeps_def)

lemma moved_pre:
  assumes "io_pre st u" "moved st u n st' u'" "n \<le> uio_resid u"
  shows "io_pre st' u'" "uio_resid u' = uio_resid u - n" "uio_offset u' = uio_offset u + int n" "uio_rw u' = uio_rw u"
proof -
  obtain bs where a: "uio_after n bs u u'" using assms(2) by (auto simp: moved_def split: if_splits)
  note d = uio_afterD [OF a]
  show r: "uio_resid u' = uio_resid u - n" "uio_offset u' = uio_offset u + int n" "uio_rw u' = uio_rw u" by (fact d)+
  have "finv st'" "proc_as (fst st') = proc_as (fst st)"
    using assms(1,2) looked_finv [of st st']
    by (auto simp: moved_def io_pre_def wrote_def looked_def file_step_def fs_same_def split: if_splits)
  then show "io_pre st' u'" using assms(1,3) d(1) r uio_space_ok_after [OF a] by (auto simp: io_pre_def)
qed

lemma moved_none: "io_pre st u \<Longrightarrow> (if uio_rw u = UIO_READ then looked st st' else keeps st st') \<Longrightarrow> moved st u 0 st' u"
  using keeps_wrote by (auto simp: moved_def io_pre_def file_bytes_def uio_after_refl)

definition io_post :: "'a fstate \<Rightarrow> uio \<Rightarrow> nat \<Rightarrow> ('a iostate, unit) outcome \<Rightarrow> bool" where
  "io_post st u n r \<longleftrightarrow> (\<exists>st' u'. r = Ok (st', u') () \<and> moved st u n st' u') \<or>
     (\<exists>st' u' k e. r = Err (st', u') e \<and> k \<le> n \<and> moved st u k st' u' \<and> e \<in> io_errors (uio_rw u))"

lemma io_post_Ok: "r = Ok (st', u') () \<Longrightarrow> moved st u n st' u' \<Longrightarrow> io_post st u n r"
  unfolding io_post_def by blast

lemma io_post_Err: "r = Err (st', u') e \<Longrightarrow> moved st u k st' u' \<Longrightarrow> k \<le> n \<Longrightarrow> e \<in> io_errors (uio_rw u) \<Longrightarrow> io_post st u n r"
  unfolding io_post_def by blast

lemma io_post_then:
  assumes pre: "io_pre st u" "n + m \<le> uio_resid u" and a: "io_post st u n r"
    and f: "\<And>st1 u1. r = Ok (st1, u1) () \<Longrightarrow> moved st u n st1 u1 \<Longrightarrow> io_post st1 u1 m (f (st1, u1) ())"
  shows "io_post st u (n + m) (and_then r f)"
  using a [unfolded io_post_def]
proof (elim disjE exE conjE)
  fix st1 u1 assume r: "r = Ok (st1, u1) ()" and mv: "moved st u n st1 u1"
  show ?thesis using f [OF r mv, unfolded io_post_def]
  proof (elim disjE exE conjE)
    fix st2 u2 assume "f (st1, u1) () = Ok (st2, u2) ()" "moved st1 u1 m st2 u2"
    then show ?thesis using r moved_trans [OF pre mv, of st2 u2] by (intro io_post_Ok [of _ st2 u2]) simp_all
  next
    fix st2 u2 k e assume e: "f (st1, u1) () = Err (st2, u2) e" "k \<le> m" "moved st1 u1 k st2 u2" "e \<in> io_errors (uio_rw u1)"
    have "n + k \<le> uio_resid u" "n \<le> uio_resid u" using e(2) pre(2) by simp_all
    moreover have "uio_rw u1 = uio_rw u" using moved_pre(4) [OF pre(1) mv] pre(2) by simp
    ultimately show ?thesis using r e moved_trans [OF pre(1) _ mv e(3)] by (intro io_post_Err [of _ st2 u2 e _ _ "n + k"]) auto
  qed
next
  fix st1 u1 k e assume "r = Err (st1, u1) e" "k \<le> n" "moved st u k st1 u1" "e \<in> io_errors (uio_rw u)"
  then show ?thesis by (intro io_post_Err) auto
qed

lemma uio_block_nat:
  assumes "io_pre st u" "0 < uio_resid u"
  shows "unat (uio_block u) = nat (uio_offset u) div SFS_BLOCKSIZE"
proof -
  have o: "0 \<le> uio_offset u" "uio_offset u < 2 ^ 41" using assms by (auto simp: io_pre_def)
  have e: "uio_offset u sdiv int SFS_BLOCKSIZE = uio_offset u div 512" using o by (simp add: signed_divide_int_def sfs_sizes sgn_if)
  have "0 \<le> uio_offset u div 512" "uio_offset u div 512 < 2 ^ 32" using o by auto
  then have "unat (uio_block u) = nat (uio_offset u div 512)" unfolding uio_block_def e by (rule unat_word_of_int_32)
  then show ?thesis using o by (simp add: nat_div_distrib sfs_sizes)
qed

text \<open>The bytes of a file within one of its blocks.\<close>

lemma block_bytes:
  assumes "p mod SFS_BLOCKSIZE + n \<le> SFS_BLOCKSIZE"
  shows "file_bytes (st_byte sect st) p n = take n (drop (p mod SFS_BLOCKSIZE)
    (if st_map sect st (p div SFS_BLOCKSIZE) = 0 then replicate SFS_BLOCKSIZE 0
     else st_blk sect st (st_map sect st (p div SFS_BLOCKSIZE))))" (is "_ = take n (drop ?s ?buf)")
proof (rule nth_equalityI)
  have l: "length ?buf = SFS_BLOCKSIZE" using block_length by (simp add: sfs_sizes)
  then show "length (file_bytes (st_byte sect st) p n) = length (take n (drop ?s ?buf))" using assms by simp
  fix i assume "i < length (file_bytes (st_byte sect st) p n)"
  then have i: "i < n" by simp
  have b: "(p + i) div SFS_BLOCKSIZE = p div SFS_BLOCKSIZE" "(p + i) mod SFS_BLOCKSIZE = ?s + i"
  proof -
    have "p \<le> p + i \<and> p + i < p + n" using i by simp
    then show "(p + i) div SFS_BLOCKSIZE = p div SFS_BLOCKSIZE" unfolding block_index [OF assms] by simp
    have "?s + i < SFS_BLOCKSIZE" using i assms by simp
    then show "(p + i) mod SFS_BLOCKSIZE = ?s + i" by (metis mod_add_left_eq mod_less)
  qed
  have s: "?s + i < SFS_BLOCKSIZE" using i assms by simp
  show "file_bytes (st_byte sect st) p n ! i = take n (drop ?s ?buf) ! i"
    using i l s b by (auto simp: file_bytes_def fbyte_def Let_def)
qed

text \<open>Writing part of a block back.\<close>

lemma patch_block:
  assumes inv: "finv (sfs, sv)" and k: "st_map sect (sfs, sv) (p div SFS_BLOCKSIZE) = b" "b \<noteq> 0"
    and n: "p mod SFS_BLOCKSIZE + length bs \<le> SFS_BLOCKSIZE"
    and d: "ready d'" "sect d' = (sect (disk_of sfs))(b := patch (p mod SFS_BLOCKSIZE) bs (sect (disk_of sfs) b))"
  shows "wrote (sfs, sv) p bs (set_disk sfs d', sv)"
proof -
  note s = store_block [OF inv k d]
  have l: "length (sect (disk_of sfs) b) = SFS_BLOCKSIZE" using block_length by (simp add: sfs_sizes)
  have "st_byte sect (set_disk sfs d', sv) i = overwrite p bs (st_byte sect (sfs, sv)) i" for i
  proof -
    have m: "i mod SFS_BLOCKSIZE < SFS_BLOCKSIZE" by (simp add: sfs_sizes)
    have old: "i div SFS_BLOCKSIZE = p div SFS_BLOCKSIZE \<Longrightarrow> st_byte sect (sfs, sv) i = sect (disk_of sfs) b ! (i mod SFS_BLOCKSIZE)"
      using k by (simp add: fbyte_def)
    have d: "i div SFS_BLOCKSIZE = p div SFS_BLOCKSIZE \<Longrightarrow> i - p = i mod SFS_BLOCKSIZE - p mod SFS_BLOCKSIZE"
      by (metis add_diff_cancel_left div_mult_mod_eq)
    show ?thesis unfolding s(3) overwrite_def block_index [OF n] using m l n old d by (auto simp: nth_patch)
  qed
  moreover have "p + length bs \<le> SFS_MAXBLOCKS * SFS_BLOCKSIZE"
  proof -
    have "p div SFS_BLOCKSIZE < SFS_MAXBLOCKS" using k fmap_beyond [of "p div SFS_BLOCKSIZE"] by (cases "p div SFS_BLOCKSIZE < SFS_MAXBLOCKS") auto
    then have "(p div SFS_BLOCKSIZE + 1) * SFS_BLOCKSIZE \<le> SFS_MAXBLOCKS * SFS_BLOCKSIZE" by (intro mult_le_mono1) simp
    then show ?thesis using n div_mult_mod_eq [of p SFS_BLOCKSIZE] unfolding add_mult_distrib by linarith
  qed
  ultimately show ?thesis using s(1,2) by (auto simp: wrote_def)
qed

lemma with_uio_simps [simp]:
  "with_uio u (Ok s x) = Ok (s, u) x" "with_uio u (Err s e) = Err (s, u) e"
  by (simp_all add: with_uio_def)

lemma bmap_failed:
  assumes "io_pre st u" "bmap_post k (uio_rw u = UIO_WRITE) st (Err st1 e)"
  shows "moved st u 0 st1 u \<and> e \<in> io_errors (uio_rw u)"
proof -
  have p: "keeps st st1" "e = EIO \<or> e = ENOSPC \<and> uio_rw u = UIO_WRITE" "uio_rw u \<noteq> UIO_WRITE \<longrightarrow> looked st st1"
    using assms(2) by (auto simp: bmap_post_def)
  then have "moved st u 0 st1 u" by (intro moved_none [OF assms(1)]) (cases "uio_rw u", auto)
  then show ?thesis using p(2) by auto
qed

lemma partialio_move_read:
  assumes pre: "io_pre st u" and rw: "uio_rw u = UIO_READ" and l: "looked st st1"
    and n: "n \<le> uio_resid u" and bs: "take n (drop skip buf) = file_bytes (st_byte sect st) (nat (uio_offset u)) n"
  shows "io_post st u n (partialio_move skip n b buf (st1, u))"
proof -
  let ?bs = "take n (drop skip buf)"
  obtain sfs1 sv1 where s1: "st1 = (sfs1, sv1)" by (cases st1)
  have len: "length ?bs = n" using bs by simp
  have as: "uio_ok u" "uio_space_ok (proc_as sfs1) u" using pre l by (auto simp: io_pre_def looked_def s1)
  have ub: "uio_bytes ?bs u = ?bs" using rw by (simp add: uio_bytes_def)
  obtain u' where u': "uiomove (proc_as sfs1) ?bs u = Ok u' ?bs" "uio_after n ?bs u u'"
    using uiomove_ok [OF as, of ?bs] n unfolding len ub by blast
  have "uio_rw u' = UIO_READ" using uio_afterD(7) [OF u'(2)] rw by simp
  then have "partialio_move skip n b buf (st1, u) = Ok (st1, u') ()" using u'(1) by (simp add: partialio_move_def s1)
  moreover have "moved st u n st1 u'" using l u'(2) rw bs by (simp add: moved_def)
  ultimately show ?thesis by (rule io_post_Ok)
qed

lemma partialio_move_write:
  assumes pre: "io_pre st u" and rw: "uio_rw u = UIO_WRITE" and k: "keeps st (sfs, sv)"
    and m: "st_map sect (sfs, sv) (nat (uio_offset u) div SFS_BLOCKSIZE) = unat b" "b \<noteq> 0"
    and n: "n \<le> uio_resid u" "nat (uio_offset u) mod SFS_BLOCKSIZE + n \<le> SFS_BLOCKSIZE"
  shows "io_post st u n (partialio_move (nat (uio_offset u) mod SFS_BLOCKSIZE) n b (sect (disk_of sfs) (unat b)) ((sfs, sv), u))"
proof -
  let ?p = "nat (uio_offset u)" and ?buf = "sect (disk_of sfs) (unat b)"
  let ?skip = "?p mod SFS_BLOCKSIZE" and ?bs = "take n (uio_ahead u)"
  have inv: "finv (sfs, sv)" using k by (simp add: keeps_def)
  have lb: "length ?buf = SFS_BLOCKSIZE" using block_length by (simp add: sfs_sizes)
  have len: "length (take n (drop ?skip ?buf)) = n" using n(2) lb by simp
  have as: "uio_ok u" "uio_space_ok (proc_as sfs) u" using pre k by (auto simp: io_pre_def keeps_def file_step_def fs_same_def)
  have la: "length ?bs = n" using n(1) as(1) by (simp add: uio_ok_def)
  have ub: "uio_bytes (take n (drop ?skip ?buf)) u = ?bs" using rw len by (simp add: uio_bytes_def)
  obtain u' where u': "uiomove (proc_as sfs) (take n (drop ?skip ?buf)) u = Ok u' ?bs" "uio_after n ?bs u u'"
    using uiomove_ok [OF as, of "take n (drop ?skip ?buf)"] n(1) unfolding len ub by blast
  have w: "uio_rw u' = UIO_WRITE" using uio_afterD(7) [OF u'(2)] rw by simp
  have lp: "length (patch ?skip ?bs ?buf) = SFS_BLOCKSIZE" using length_patch [of ?skip ?bs ?buf] la lb n(2) by simp
  note d = finvD [OF inv]
  have nz: "unat b \<noteq> 0" using m(2) by (simp add: unat_eq_zero)
  have "unat b < nsect" using file_okD(2) [OF d(3), of "?p div SFS_BLOCKSIZE"] m nz d(5) by simp
  then obtain d' where d': "sfs_writeblock b (patch ?skip ?bs ?buf) sfs = Ok (set_disk sfs d') ()" "ready d'"
      "sect d' = (sect (disk_of sfs))(unat b := patch ?skip ?bs ?buf)"
    using writeblock [OF d(2) _ lp] by blast
  have n2: "?skip + length ?bs \<le> SFS_BLOCKSIZE" using n(2) la by simp
  have wr: "wrote (sfs, sv) ?p ?bs (set_disk sfs d', sv)" by (rule patch_block [OF inv m(1) nz n2 d'(2,3)])
  have "partialio_move ?skip n b ?buf ((sfs, sv), u) = Ok ((set_disk sfs d', sv), u') ()"
    using u'(1) d'(1) w la by (simp add: partialio_move_def patch_def)
  moreover have "wrote st ?p ?bs (set_disk sfs d', sv)" using wrote_trans [OF keeps_wrote [OF k]] wr by simp
  then have "moved st u n (set_disk sfs d', sv) u'" using u'(2) rw by (simp add: moved_def)
  ultimately show ?thesis by (rule io_post_Ok)
qed

lemma partialio_hole:
  assumes pre: "io_pre st u" and rd: "uio_rw u = UIO_READ" and l: "looked st st1"
    and z: "st_map sect st (nat (uio_offset u) div SFS_BLOCKSIZE) = 0"
    and n: "n \<le> uio_resid u" "nat (uio_offset u) mod SFS_BLOCKSIZE + n \<le> SFS_BLOCKSIZE"
  shows "io_post st u n (partialio_rest (nat (uio_offset u) mod SFS_BLOCKSIZE) n (st1, u) 0)"
proof -
  obtain sfs1 sv1 where s1: "st1 = (sfs1, sv1)" by (cases st1)
  have "take n (drop (nat (uio_offset u) mod SFS_BLOCKSIZE) (replicate SFS_BLOCKSIZE 0)) =
      file_bytes (st_byte sect st) (nat (uio_offset u)) n" unfolding block_bytes [OF n(2), of st] using z by simp
  from partialio_move_read [OF pre rd l n(1) this, of 0] show ?thesis by (simp add: partialio_rest_def s1 rd)
qed

lemma partialio_block:
  assumes pre: "io_pre st u" and k: "keeps st (sfs1, sv1)" and b: "b \<noteq> 0"
    and m: "st_map sect (sfs1, sv1) (nat (uio_offset u) div SFS_BLOCKSIZE) = unat b"
    and l: "uio_rw u = UIO_READ \<Longrightarrow> looked st (sfs1, sv1) \<and> unat b = st_map sect st (nat (uio_offset u) div SFS_BLOCKSIZE)"
    and n: "n \<le> uio_resid u" "nat (uio_offset u) mod SFS_BLOCKSIZE + n \<le> SFS_BLOCKSIZE"
  shows "io_post st u n (partialio_rest (nat (uio_offset u) mod SFS_BLOCKSIZE) n ((sfs1, sv1), u) b)"
proof -
  let ?p = "nat (uio_offset u)" and ?st1 = "(sfs1, sv1)"
  have nz: "unat b \<noteq> 0" using b by (simp add: unat_eq_zero)
  have inv1: "finv ?st1" using k by (simp add: keeps_def)
  note d = finvD [OF inv1]
  have lt: "unat b < nsect" using file_okD(2) [OF d(3), of "?p div SFS_BLOCKSIZE"] m nz d(5) by simp
  obtain d' where r: "ready d'" "sect d' = sect (disk_of sfs1)"
      "sfs_readblock b (replicate SFS_BLOCKSIZE 0) sfs1 = Ok (set_disk sfs1 d') (sect (disk_of sfs1) (unat b)) \<or>
       sfs_readblock b (replicate SFS_BLOCKSIZE 0) sfs1 = Err (set_disk sfs1 d') EIO"
    using readblock [OF d(2) lt, of "replicate SFS_BLOCKSIZE 0"] by auto
  let ?st2 = "(set_disk sfs1 d', sv1)"
  have l2: "looked ?st1 ?st2" using r by (auto simp: looked_def)
  have k2: "keeps st ?st2" using keeps_trans [OF k] looked_keeps [OF inv1 l2] by simp
  have lk: "uio_rw u = UIO_READ \<Longrightarrow> looked st ?st2" using l looked_trans [of st ?st1 ?st2] l2 by blast
  show ?thesis using r(3)
  proof
    assume "sfs_readblock b (replicate SFS_BLOCKSIZE 0) sfs1 = Err (set_disk sfs1 d') EIO"
    then have "partialio_rest (?p mod SFS_BLOCKSIZE) n (?st1, u) b = Err (?st2, u) EIO" using b by (simp add: partialio_rest_def)
    moreover have "moved st u 0 ?st2 u" using k2 lk by (intro moved_none [OF pre]) auto
    ultimately show ?thesis by (intro io_post_Err) auto
  next
    assume "sfs_readblock b (replicate SFS_BLOCKSIZE 0) sfs1 = Ok (set_disk sfs1 d') (sect (disk_of sfs1) (unat b))"
    then have e: "partialio_rest (?p mod SFS_BLOCKSIZE) n (?st1, u) b = partialio_move (?p mod SFS_BLOCKSIZE) n b (sect d' (unat b)) (?st2, u)"
      using b r(2) by (simp add: partialio_rest_def)
    show ?thesis
    proof (cases "uio_rw u")
      case UIO_WRITE
      have m2: "st_map sect ?st2 (?p div SFS_BLOCKSIZE) = unat b" using m r(2) by simp
      show ?thesis unfolding e using partialio_move_write [OF pre UIO_WRITE k2 m2 b n] by simp
    next
      case UIO_READ
      have "take n (drop (?p mod SFS_BLOCKSIZE) (sect d' (unat b))) = file_bytes (st_byte sect st) ?p n"
        unfolding block_bytes [OF n(2), of st] using l [OF UIO_READ] nz r(2) by (auto simp: looked_def)
      from partialio_move_read [OF pre UIO_READ lk [OF UIO_READ] n(1) this] show ?thesis unfolding e .
    qed
  qed
qed

text \<open>Looking up the block of a transfer: the three ways it can go.\<close>

lemma bmap_cases:
  assumes pre: "io_pre st u" and n: "0 < uio_resid u"
  defines "k \<equiv> nat (uio_offset u) div SFS_BLOCKSIZE"
  obtains (failed) st1 e where "sfs_bmap (uio_block u) (uio_rw u = UIO_WRITE) st = Err st1 e" "moved st u 0 st1 u" "e \<in> io_errors (uio_rw u)"
  | (hole) st1 where "sfs_bmap (uio_block u) (uio_rw u = UIO_WRITE) st = Ok st1 0" "uio_rw u = UIO_READ" "looked st st1" "st_map sect st k = 0"
  | (block) sfs1 sv1 b where "sfs_bmap (uio_block u) (uio_rw u = UIO_WRITE) st = Ok (sfs1, sv1) b" "b \<noteq> 0" "keeps st (sfs1, sv1)"
      "st_map sect (sfs1, sv1) k = unat b" "uio_rw u = UIO_READ \<Longrightarrow> looked st (sfs1, sv1) \<and> unat b = st_map sect st k"
proof -
  let ?rw = "uio_rw u = UIO_WRITE"
  have inv: "finv st" using pre by (simp add: io_pre_def)
  have fb: "unat (uio_block u) = k" unfolding k_def by (rule uio_block_nat [OF pre n])
  note bm = bmap_ok [OF inv, of "uio_block u" ?rw, unfolded fb]
  consider (big) "sfs_bmap (uio_block u) ?rw st = Err st EFBIG" | (post) "bmap_post k ?rw st (sfs_bmap (uio_block u) ?rw st)"
    using bm by (auto split: if_splits)
  then show thesis
  proof cases
    case big
    have "moved st u 0 st u" using moved_none [OF pre] looked_refl [OF inv] keeps_refl [OF inv] by simp
    then show thesis using failed big io_errors_simps(2) by blast
  next
    case post
    have err: thesis if "sfs_bmap (uio_block u) ?rw st = Err st1 e" for st1 e
      using that failed bmap_failed [OF pre, of k st1 e] post by auto
    show thesis using post [unfolded bmap_post_def]
    proof (elim disjE exE conjE)
      fix st1 b
      assume b: "sfs_bmap (uio_block u) ?rw st = Ok st1 b" "keeps st st1" "st_map sect st1 = (st_map sect st)(k := unat b)"
        "st_map sect st k \<noteq> 0 \<or> \<not> ?rw \<longrightarrow> unat b = st_map sect st k" "?rw \<longrightarrow> b \<noteq> 0" "\<not> ?rw \<longrightarrow> looked st st1"
      obtain sfs1 sv1 where s1: "st1 = (sfs1, sv1)" by (cases st1)
      show thesis
      proof (cases "b = 0")
        case True
        then show thesis using b hole [of st1] by (cases "uio_rw u") auto
      next
        case False
        then show thesis using block [of sfs1 sv1 b] b unfolding s1 by simp
      qed
    qed (use err in auto)
  qed
qed

lemma partialio_ok:
  assumes pre: "io_pre st u" and n: "0 < n" "n \<le> uio_resid u"
    and sk: "unat skip = nat (uio_offset u) mod SFS_BLOCKSIZE" "unat len = n" "nat (uio_offset u) mod SFS_BLOCKSIZE + n \<le> SFS_BLOCKSIZE"
  shows "io_post st u n (sfs_partialio skip len (st, u))"
proof -
  let ?rw = "uio_rw u = UIO_WRITE"
  have "unat (skip + len) = unat skip + unat len" using sk by (intro unat_add_32) (simp add: sfs_sizes)
  then have ka: "unat (skip + len) \<le> SFS_BLOCKSIZE" using sk by simp
  have h: "vfs_biglock_do_i_hold (fst st)" using finvD(4) [of "fst st" "snd st"] pre by (simp add: io_pre_def)
  have e: "sfs_partialio skip len (st, u) =
      and_then (with_uio u (sfs_bmap (uio_block u) ?rw st)) (partialio_rest (nat (uio_offset u) mod SFS_BLOCKSIZE) n)"
    using ka h sk(1,2) by (simp add: sfs_partialio_def Let_def)
  have r: "0 < uio_resid u" using n by simp
  show ?thesis unfolding e
  proof (cases rule: bmap_cases [OF pre r])
    case (1 st1 e)
    then show "io_post st u n (and_then (with_uio u (sfs_bmap (uio_block u) ?rw st)) (partialio_rest (nat (uio_offset u) mod SFS_BLOCKSIZE) n))"
      by (intro io_post_Err [of _ st1 u e _ _ 0]) auto
  next
    case (2 st1)
    then show "io_post st u n (and_then (with_uio u (sfs_bmap (uio_block u) ?rw st)) (partialio_rest (nat (uio_offset u) mod SFS_BLOCKSIZE) n))"
      using partialio_hole [OF pre 2(2-4) n(2) sk(3)] by simp
  next
    case (3 sfs1 sv1 b)
    then show "io_post st u n (and_then (with_uio u (sfs_bmap (uio_block u) ?rw st)) (partialio_rest (nat (uio_offset u) mod SFS_BLOCKSIZE) n))"
      using partialio_block [OF pre 3(3,2,4,5) n(2) sk(3)] by simp
  qed
qed

lemma block_offset:
  assumes "unat b \<le> 2 ^ 23 - 1"
  shows "uint (b * of_nat SFS_BLOCKSIZE :: u32) = int (unat b * LHD_SECTSIZE)"
proof -
  have "unat b * 512 < 2 ^ 32" using assms by simp
  then have "unat (b * 512) = unat b * 512" by (simp add: unat_word_ariths)
  moreover have "uint (b * of_nat SFS_BLOCKSIZE) = int (unat (b * 512))" by (simp add: sfs_sizes)
  ultimately show ?thesis by (simp only: sfs_sizes)
qed

lemma blockio_block:
  fixes b :: u32
  assumes pre: "io_pre st u" and k: "keeps st (sfs1, sv1)" and b: "b \<noteq> 0"
    and m: "st_map sect (sfs1, sv1) (nat (uio_offset u) div SFS_BLOCKSIZE) = unat b"
    and l: "uio_rw u = UIO_READ \<Longrightarrow> looked st (sfs1, sv1) \<and> unat b = st_map sect st (nat (uio_offset u) div SFS_BLOCKSIZE)"
    and n: "SFS_BLOCKSIZE \<le> uio_resid u" "nat (uio_offset u) mod SFS_BLOCKSIZE = 0"
  defines "off \<equiv> uint (b * of_nat SFS_BLOCKSIZE)"
  shows "io_post st u SFS_BLOCKSIZE (map_outcome (\<lambda>(sfs, uio'). ((sfs, sv1), blockio_restore u off uio')) id
    (sfs_rwblock (sfs1, u\<lparr>uio_offset := off, uio_resid := SFS_BLOCKSIZE\<rparr>)))"
proof -
  let ?p = "nat (uio_offset u)" and ?st1 = "(sfs1, sv1)" and ?u1 = "u\<lparr>uio_offset := off, uio_resid := SFS_BLOCKSIZE\<rparr>"
  have nz: "unat b \<noteq> 0" using b by (simp add: unat_eq_zero)
  have inv1: "finv ?st1" using k by (simp add: keeps_def)
  note d = finvD [OF inv1]
  have nb: "unat b < nblocks sfs1" using file_okD(2) [OF d(3), of "?p div SFS_BLOCKSIZE"] m nz by simp
  have off: "off = int (unat b * LHD_SECTSIZE)" unfolding off_def by (rule block_offset) (use nb vol_okD(5) [OF d(1)] in simp)
  have lt: "unat b < nsect" using nb d(5) by simp
  have u: "uio_ok u" "uio_resid u < 2 ^ 32" "uio_space_ok (proc_as sfs1) u"
    using pre k by (auto simp: io_pre_def keeps_def file_step_def fs_same_def)
  have ah: "uio_ahead ?u1 = uio_ahead u" by (simp add: uio_ahead_def)
  have bu: "block_uio (proc_as sfs1) (unat b) ?u1" unfolding block_uio_def
    using u(1,3) n(1) off by (simp add: uio_ok_def uio_ahead_def uio_space_ok_def sfs_sizes)
  have sec: "LHD_SECTSIZE = SFS_BLOCKSIZE" by (simp add: sfs_sizes)
  show ?thesis
  proof (cases "uio_rw u")
    case UIO_READ
    then have rw: "uio_rw ?u1 = UIO_READ" by simp
    obtain d' where r: "ready d'" "sect d' = sect (disk_of sfs1)"
        "(\<exists>u'. sfs_rwblock (sfs1, ?u1) = Ok (set_disk sfs1 d', u') () \<and> uio_after SFS_BLOCKSIZE (sect (disk_of sfs1) (unat b)) ?u1 u') \<or>
         sfs_rwblock (sfs1, ?u1) = Err (set_disk sfs1 d', ?u1) EIO"
      using rwblock_read [OF d(2) lt bu rw] unfolding sec by blast
    have lk: "looked st (set_disk sfs1 d', sv1)" using l [OF UIO_READ] looked_trans [of st ?st1] r(1,2) by (auto simp: looked_def)
    show ?thesis using r(3)
    proof (elim disjE exE conjE)
      fix u' assume e: "sfs_rwblock (sfs1, ?u1) = Ok (set_disk sfs1 d', u') ()" "uio_after SFS_BLOCKSIZE (sect (disk_of sfs1) (unat b)) ?u1 u'"
      have "file_bytes (st_byte sect st) ?p SFS_BLOCKSIZE = sect (disk_of sfs1) (unat b)"
        using block_bytes [of ?p SFS_BLOCKSIZE st] n(2) l [OF UIO_READ] nz block_length by (auto simp: looked_def sec)
      then have "moved st u SFS_BLOCKSIZE (set_disk sfs1 d', sv1) (blockio_restore u off u')"
        using lk UIO_READ restore_after [OF e(2) u(1) n(1) u(2)] by (simp add: moved_def)
      then show ?thesis using e(1) by (intro io_post_Ok) auto
    next
      assume "sfs_rwblock (sfs1, ?u1) = Err (set_disk sfs1 d', ?u1) EIO"
      moreover have "moved st u 0 (set_disk sfs1 d', sv1) u" using lk UIO_READ by (intro moved_none [OF pre]) simp
      ultimately show ?thesis using restore_same [OF u(2)] by (intro io_post_Err [of _ "(set_disk sfs1 d', sv1)" u EIO _ _ 0]) auto
    qed
  next
    case UIO_WRITE
    then have rw: "uio_rw ?u1 = UIO_WRITE" by simp
    let ?bs = "take SFS_BLOCKSIZE (uio_ahead u)"
    obtain d' u' where r: "sfs_rwblock (sfs1, ?u1) = Ok (set_disk sfs1 d', u') ()" "ready d'"
        "sect d' = (sect (disk_of sfs1))(unat b := ?bs)" "uio_after SFS_BLOCKSIZE ?bs ?u1 u'"
      using rwblock_write_ok [OF d(2) lt bu rw] unfolding sec ah by blast
    have la: "length ?bs = SFS_BLOCKSIZE" using n(1) u(1) by (simp add: uio_ok_def)
    have "patch 0 ?bs (sect (disk_of sfs1) (unat b)) = ?bs" using la block_length by (simp add: patch_def sfs_sizes)
    then have "wrote ?st1 ?p ?bs (set_disk sfs1 d', sv1)"
      using patch_block [OF inv1 m nz _ r(2), of ?bs] la r(3) n(2) by simp
    then have "wrote st ?p ?bs (set_disk sfs1 d', sv1)" using wrote_trans [OF keeps_wrote [OF k], of ?p] by simp
    then have "moved st u SFS_BLOCKSIZE (set_disk sfs1 d', sv1) (blockio_restore u off u')"
      using UIO_WRITE restore_after [OF r(4) u(1) n(1) u(2)] by (simp add: moved_def)
    then show ?thesis using r(1) by (intro io_post_Ok) auto
  qed
qed

lemma blockio_ok:
  assumes pre: "io_pre st u" and n: "SFS_BLOCKSIZE \<le> uio_resid u" "nat (uio_offset u) mod SFS_BLOCKSIZE = 0"
  shows "io_post st u SFS_BLOCKSIZE (sfs_blockio (st, u))"
proof -
  have r: "0 < uio_resid u" using n(1) by (simp add: sfs_sizes)
  show ?thesis
  proof (cases rule: bmap_cases [OF pre r])
    case (1 st1 e)
    then show ?thesis by (intro io_post_Err [of _ st1 u e _ _ 0]) (auto simp: sfs_blockio_def Let_def)
  next
    case (2 st1)
    obtain sfs1 sv1 where s1: "st1 = (sfs1, sv1)" by (cases st1)
    have u: "uio_ok u" "uio_space_ok (proc_as sfs1) u" using pre 2(3) by (auto simp: io_pre_def looked_def s1)
    obtain u' where z: "uiomovezeros (proc_as sfs1) SFS_BLOCKSIZE u = Ok u' ()" "uio_after SFS_BLOCKSIZE (replicate SFS_BLOCKSIZE 0) u u'"
      using uiomovezeros_ok [OF u n(1) 2(2)] by blast
    have "file_bytes (st_byte sect st) (nat (uio_offset u)) SFS_BLOCKSIZE = replicate SFS_BLOCKSIZE 0"
      using block_bytes [of "nat (uio_offset u)" SFS_BLOCKSIZE st] n(2) 2(4) by simp
    then have "moved st u SFS_BLOCKSIZE st1 u'" using 2 z(2) by (simp add: moved_def)
    then show ?thesis using 2 z(1) by (intro io_post_Ok) (auto simp: sfs_blockio_def Let_def s1)
  next
    case (3 sfs1 sv1 b)
    then show ?thesis using blockio_block [OF pre 3(3,2,4,5) n] n(1) by (simp add: sfs_blockio_def Let_def)
  qed
qed

lemma blocks_ok:
  "io_pre st u \<Longrightarrow> n * SFS_BLOCKSIZE \<le> uio_resid u \<Longrightarrow> nat (uio_offset u) mod SFS_BLOCKSIZE = 0 \<Longrightarrow>
   io_post st u (n * SFS_BLOCKSIZE) (sfs_blocks n (st, u))"
proof (induction n arbitrary: st u)
  case 0
  have "finv st" using 0(1) by (simp add: io_pre_def)
  then have "moved st u 0 st u" using moved_none [OF 0(1)] looked_refl keeps_refl by simp
  then show ?case by (simp add: io_post_Ok)
next
  case (Suc n)
  have r: "SFS_BLOCKSIZE \<le> uio_resid u" "SFS_BLOCKSIZE + n * SFS_BLOCKSIZE \<le> uio_resid u" using Suc.prems(2) by auto
  have "io_post st1 u1 (n * SFS_BLOCKSIZE) (sfs_blocks n (st1, u1))" if mv: "moved st u SFS_BLOCKSIZE st1 u1" for st1 u1
  proof (rule Suc.IH)
    note p = moved_pre [OF Suc.prems(1) mv r(1)]
    show "io_pre st1 u1" by (fact p)
    show "n * SFS_BLOCKSIZE \<le> uio_resid u1" using p(2) r(2) by simp
    have "nat (uio_offset u1) = nat (uio_offset u) + SFS_BLOCKSIZE" using p(3) Suc.prems(1) by (simp add: io_pre_def nat_add_distrib)
    then show "nat (uio_offset u1) mod SFS_BLOCKSIZE = 0" using Suc.prems(3) by simp
  qed
  then show ?case using io_post_then [OF Suc.prems(1) r(2) blockio_ok [OF Suc.prems(1) r(1) Suc.prems(3)]] by simp
qed

lemma partial_len:
  assumes "uio_resid u < 2 ^ 32" "m < SFS_BLOCKSIZE"
  defines "rest \<equiv> of_nat SFS_BLOCKSIZE - (of_nat m :: u32)"
  shows "unat (if unat rest > uio_resid u then of_nat (uio_resid u) else rest) = min (uio_resid u) (SFS_BLOCKSIZE - m)"
proof -
  have "rest = of_nat (SFS_BLOCKSIZE - m)" unfolding rest_def using assms(2) by simp
  then have "unat rest = SFS_BLOCKSIZE - m" using unat_of_nat_32 [of "SFS_BLOCKSIZE - m"] by (simp add: sfs_sizes)
  then show ?thesis using unat_of_nat_32 [of "uio_resid u"] assms(1) by simp
qed

lemma tail_ok:
  assumes pre: "io_pre st u" and al: "nat (uio_offset u) mod SFS_BLOCKSIZE = 0" and n: "uio_resid u < SFS_BLOCKSIZE"
  shows "io_post st u (uio_resid u)
    (if 0 < uio_resid u then sfs_partialio 0 (of_nat (uio_resid u)) (st, u) else Ok (st, u) ())"
proof (cases "0 < uio_resid u")
  case True
  have "unat (of_nat (uio_resid u) :: u32) = uio_resid u" using pre by (intro unat_of_nat_32) (simp add: io_pre_def)
  then show ?thesis using partialio_ok [OF pre True, of 0 "of_nat (uio_resid u)"] True al n by simp
next
  case False
  have "finv st" using pre by (simp add: io_pre_def)
  then have "moved st u 0 st u" using moved_none [OF pre] looked_refl keeps_refl by simp
  then show ?thesis using False by (simp add: io_post_Ok)
qed

lemma aligned_ok:
  assumes pre: "io_pre st u" and al: "nat (uio_offset u) mod SFS_BLOCKSIZE = 0"
  shows "io_post st u (uio_resid u)
    (and_then (sfs_blocks (uio_resid u div SFS_BLOCKSIZE) (st, u)) (\<lambda>(st, uio) _.
       kassert (uio_resid uio < SFS_BLOCKSIZE)
         (if 0 < uio_resid uio then sfs_partialio 0 (of_nat (uio_resid uio)) (st, uio) else Ok (st, uio) ())))"
    (is "io_post st u _ (and_then _ ?f)")
proof -
  let ?n = "uio_resid u div SFS_BLOCKSIZE * SFS_BLOCKSIZE" and ?m = "uio_resid u mod SFS_BLOCKSIZE"
  have "io_post st1 u1 ?m (?f (st1, u1) ())" if "moved st u ?n st1 u1" for st1 u1
  proof -
    note p = moved_pre [OF pre that]
    have le: "?n \<le> uio_resid u" by simp
    have r: "uio_resid u1 = ?m" using p(2) [OF le] by (simp add: minus_div_mult_eq_mod)
    have "nat (uio_offset u1) = nat (uio_offset u) + ?n" unfolding p(3) [OF le] using pre
      by (subst nat_add_distrib) (simp_all add: io_pre_def del: of_nat_mult)
    then have "nat (uio_offset u1) mod SFS_BLOCKSIZE = 0" using al by simp
    moreover have "?m < SFS_BLOCKSIZE" by (simp add: sfs_sizes)
    ultimately show ?thesis using tail_ok [OF p(1) [OF le]] r by simp
  qed
  then have "io_post st u (?n + ?m) (and_then (sfs_blocks (uio_resid u div SFS_BLOCKSIZE) (st, u)) ?f)"
    using blocks_ok [OF pre _ al, of "uio_resid u div SFS_BLOCKSIZE"] by (intro io_post_then [OF pre]) auto
  then show ?thesis by simp
qed

lemma head_ok:
  assumes pre: "io_pre st u" and r: "0 < uio_resid u"
  defines "m \<equiv> nat (uio_offset u) mod SFS_BLOCKSIZE"
  defines "rest \<equiv> of_nat SFS_BLOCKSIZE - (of_nat m :: u32)"
  shows "io_post st u (if m = 0 then 0 else min (uio_resid u) (SFS_BLOCKSIZE - m))
    (if of_nat m \<noteq> (0::u32)
     then sfs_partialio (of_nat m) (if unat rest > uio_resid u then of_nat (uio_resid u) else rest) (st, u) else Ok (st, u) ())"
proof -
  let ?n = "min (uio_resid u) (SFS_BLOCKSIZE - m)"
  have o: "0 \<le> uio_offset u" "uio_resid u < 2 ^ 32" using pre by (auto simp: io_pre_def)
  have m: "m < SFS_BLOCKSIZE" by (simp add: m_def sfs_sizes)
  have um: "unat (of_nat m :: u32) = m" using m by (intro unat_of_nat_32) (simp add: sfs_sizes)
  then have z: "(of_nat m :: u32) = 0 \<longleftrightarrow> m = 0" by (metis unat_eq_zero)
  show ?thesis
  proof (cases "m = 0")
    case True
    have "finv st" using pre by (simp add: io_pre_def)
    then have "moved st u 0 st u" using moved_none [OF pre] looked_refl keeps_refl by simp
    then show ?thesis using True by (simp add: io_post_Ok)
  next
    case False
    have n: "0 < ?n" "?n \<le> uio_resid u" "m + ?n \<le> SFS_BLOCKSIZE" using r m by auto
    show ?thesis
      using partialio_ok [OF pre n(1,2), folded m_def, OF um partial_len [OF o(2) m] n(3)] False
      unfolding z rest_def by (simp only: if_False simp_thms if_True)
  qed
qed

lemma sfs_io_body_ok:
  assumes pre: "io_pre st u" and r: "0 < uio_resid u"
  shows "io_post st u (uio_resid u) (sfs_io_body (st, u))"
proof -
  let ?m = "nat (uio_offset u) mod SFS_BLOCKSIZE"
  let ?rest = "of_nat SFS_BLOCKSIZE - (of_nat ?m :: u32)"
  let ?len = "if unat ?rest > uio_resid u then of_nat (uio_resid u) else ?rest"
  let ?n = "if ?m = 0 then 0 else min (uio_resid u) (SFS_BLOCKSIZE - ?m)"
  let ?f = "\<lambda>(st, uio) _. if uio_resid uio = 0 then Ok (st, uio) () else
      kassert (uio_offset uio smod int SFS_BLOCKSIZE = 0)
        (and_then (sfs_blocks (uio_resid uio div SFS_BLOCKSIZE) (st, uio)) (\<lambda>(st, uio) _.
          kassert (uio_resid uio < SFS_BLOCKSIZE)
            (if 0 < uio_resid uio then sfs_partialio 0 (of_nat (uio_resid uio)) (st, uio) else Ok (st, uio) ())))"
  have o: "0 \<le> uio_offset u" using pre by (simp add: io_pre_def)
  have m: "?m < SFS_BLOCKSIZE" by (simp add: sfs_sizes)
  have nm: "?n + (uio_resid u - ?n) = uio_resid u" by simp
  have tail: "io_post st1 u1 (uio_resid u - ?n) (?f (st1, u1) ())" if mv: "moved st u ?n st1 u1" for st1 u1
  proof -
    have le: "?n \<le> uio_resid u" by simp
    note p = moved_pre [OF pre mv le]
    have off: "nat (uio_offset u1) = nat (uio_offset u) + ?n" using p(3) o by (simp add: nat_add_distrib)
    show ?thesis
    proof (cases "uio_resid u1 = 0")
      case True
      have "finv st1" using p(1) by (simp add: io_pre_def)
      then have "moved st1 u1 0 st1 u1" using moved_none [OF p(1)] looked_refl keeps_refl by simp
      then show ?thesis using True p(2) by (simp add: io_post_Ok)
    next
      case False
      then have "?n = (if ?m = 0 then 0 else SFS_BLOCKSIZE - ?m)" using p(2) by (auto split: if_splits)
      then have al: "nat (uio_offset u1) mod SFS_BLOCKSIZE = 0" unfolding off using m
        by (simp add: mod_add_left_eq [symmetric, of "nat (uio_offset u)"])
      have "uio_offset u1 smod int SFS_BLOCKSIZE = 0" using smod_block [of "uio_offset u1"] al p(1) by (simp add: io_pre_def)
      then show ?thesis using False aligned_ok [OF p(1) al] p(2) by (simp only: split_conv if_False kassert_def if_True simp_thms)
    qed
  qed
  have e: "sfs_io_body (st, u) = and_then (if of_nat ?m \<noteq> (0::u32) then sfs_partialio (of_nat ?m) ?len (st, u) else Ok (st, u) ()) ?f"
    by (simp only: sfs_io_body_def smod_block [OF o] Let_def split_conv of_int_of_nat_eq)
  have "io_post st u (?n + (uio_resid u - ?n)) (sfs_io_body (st, u))" unfolding e
    by (rule io_post_then [OF pre _ head_ok [OF pre r]]) (simp only: nm order_refl, rule tail)
  then show ?thesis unfolding nm .
qed

lemma moved_limit:
  assumes pre: "io_pre st u" and mv: "moved st u k st' u'" and k: "0 < k" "k \<le> uio_resid u" and w: "uio_rw u = UIO_WRITE"
  shows "uio_offset u + int k < 2 ^ 32"
proof -
  have "length (take k (uio_ahead u)) = k" using pre k(2) by (simp add: io_pre_def uio_ok_def)
  then have "nat (uio_offset u) + k \<le> SFS_MAXBLOCKS * SFS_BLOCKSIZE" using mv w k(1) by (auto simp: moved_def wrote_def)
  then show ?thesis by (simp add: sfs_sizes SFS_MAXBLOCKS_def)
qed

lemma io_out_write:
  assumes pre: "io_pre st u" and mv: "moved st u k st' u'" and k: "k \<le> uio_resid u" and w: "uio_rw u = UIO_WRITE"
  defines "r \<equiv> sfs_io_out (uio_resid u) 0 (st', u')"
  shows "finv (fst r)" "io_effect sect st u k (fst r) (snd r)"
proof -
  obtain sfs' sv' where s': "st' = (sfs', sv')" by (cases st')
  note p = moved_pre [OF pre mv k]
  let ?size = "unat (sfi_size (sv_i (snd st)))" and ?p = "nat (uio_offset u)"
  have m: "finv st'" "file_step sect st st'" "st_byte sect st' = overwrite ?p (take k (uio_ahead u)) (st_byte sect st)"
      "sfi_size (sv_i sv') = sfi_size (sv_i (snd st))" "uio_after k (take k (uio_ahead u)) u u'"
    using mv w by (auto simp: moved_def wrote_def s')
  have o: "0 \<le> uio_offset u" "uio_resid u < 2 ^ 32" using pre by (auto simp: io_pre_def)
  have u': "u'\<lparr>uio_resid := (uio_resid u' + 0) mod 2 ^ 32\<rparr> = u'" using p(2) o(2) by simp
  have ne: "uio_resid u' \<noteq> uio_resid u \<longleftrightarrow> 0 < k" using p(2) k by auto
  let ?sv = "if 0 < k \<and> uio_offset u + int k > int ?size then set_size (word_of_int (uio_offset u + int k)) sv' else sv'"
  have r: "r = ((sfs', ?sv), u')" unfolding r_def s' sfs_io_out_def split_conv u' using ne p(3,4) w m(4) by simp
  have sz: "unat (sfi_size (sv_i ?sv)) = (if k = 0 then ?size else max ?size (?p + k))"
  proof (cases "0 < k \<and> uio_offset u + int k > int ?size")
    case True
    then have "uio_offset u + int k < 2 ^ 32" using moved_limit [OF pre mv _ k w] by simp
    then have "unat (word_of_int (uio_offset u + int k) :: u32) = ?p + k"
      using unat_word_of_int_32 [of "uio_offset u + int k"] o(1) by (simp add: nat_add_distrib)
    moreover have "?size < ?p + k" using True o(1) by linarith
    ultimately show ?thesis using True by (simp add: max_def)
  next
    case False
    then have "k = 0 \<or> ?p + k \<le> ?size" using o(1) by linarith
    then show ?thesis using False m(4) by (auto simp: max_def)
  qed
  have st: "file_step sect st (sfs', ?sv)" using m(2) file_step_trans [OF m(2) [unfolded s'] set_size_step] by (simp add: s')
  show "finv (fst r)" using m(1) set_size_inv [of io sect nsect ready sfs' sv'] by (simp add: r s')
  have b: "st_byte sect (sfs', ?sv) = st_byte sect st'" by (simp add: s')
  show "io_effect sect st u k (fst r) (snd r)" unfolding io_effect_def Let_def r using st sz m(3,5) b w by simp
qed

lemma io_out_read:
  fixes n :: nat
  assumes pre: "io_pre st u" and x: "x \<le> uio_resid u" and mv: "moved st (u\<lparr>uio_resid := uio_resid u - x\<rparr>) k st' u'"
    and k: "k + x \<le> uio_resid u" and w: "uio_rw u = UIO_READ"
  defines "r \<equiv> sfs_io_out n x (st', u')"
  shows "finv (fst r)" "io_effect sect st u k (fst r) (snd r)"
proof -
  obtain sfs' sv' where s': "st' = (sfs', sv')" by (cases st')
  have m: "looked st st'" "uio_after k (file_bytes (st_byte sect st) (nat (uio_offset u)) k) (u\<lparr>uio_resid := uio_resid u - x\<rparr>) u'"
    using mv w by (auto simp: moved_def)
  have o: "uio_ok u" "uio_resid u < 2 ^ 32" "finv st" using pre by (auto simp: io_pre_def)
  note d = uio_afterD [OF m(2)]
  have "uio_resid u' + x < 2 ^ 32" using d(4) x o(2) by simp
  then have r: "r = (st', u'\<lparr>uio_resid := uio_resid u' + x\<rparr>)" using d(7) w by (simp add: r_def sfs_io_out_def s')
  note ua = uio_after_less [OF m(2) o(1) k]
  show f: "finv (fst r)" using looked_finv [OF o(3) m(1)] by (simp add: r)
  have "file_step sect st st'" using looked_keeps [OF o(3) m(1)] by (simp add: keeps_def)
  moreover have "st_blk sect st' = st_blk sect st" "st_used st' = st_used st" "snd st' = snd st" using m(1) by (auto simp: looked_def)
  ultimately show "io_effect sect st u k (fst r) (snd r)" unfolding io_effect_def Let_def r using ua w by simp
qed

definition io_result :: "'a fstate \<Rightarrow> uio \<Rightarrow> ('a iostate, unit) outcome \<Rightarrow> bool" where
  "io_result st u r \<longleftrightarrow> (\<exists>st' u' k. (r = Ok (st', u') () \<and> k = io_want st u \<or>
     (\<exists>e \<in> io_errors (uio_rw u). r = Err (st', u') e \<and> k \<le> io_want st u)) \<and> finv st' \<and> io_effect sect st u k st' u')"

lemma io_run_ok:
  assumes a: "io_post st u' n (sfs_io_body (st, u'))" and n: "n = io_want st u" "uio_rw u' = uio_rw u"
    and f: "\<And>st1 u1 k. moved st u' k st1 u1 \<Longrightarrow> k \<le> n \<Longrightarrow>
      finv (fst (sfs_io_out m x (st1, u1))) \<and> io_effect sect st u k (fst (sfs_io_out m x (st1, u1))) (snd (sfs_io_out m x (st1, u1)))"
  shows "io_result st u (sfs_io_run m x (st, u'))"
  using a [unfolded io_post_def]
proof (elim disjE exE conjE)
  fix st1 u1 assume e: "sfs_io_body (st, u') = Ok (st1, u1) ()" "moved st u' n st1 u1"
  obtain st2 u2 where r: "sfs_io_out m x (st1, u1) = (st2, u2)" by (cases "sfs_io_out m x (st1, u1)")
  have "finv st2" "io_effect sect st u n st2 u2" using f [OF e(2)] r by simp_all
  moreover have "sfs_io_run m x (st, u') = Ok (st2, u2) ()" using e(1) r by (simp add: sfs_io_run_def)
  ultimately show ?thesis unfolding io_result_def n(1) by blast
next
  fix st1 u1 k c assume e: "sfs_io_body (st, u') = Err (st1, u1) c" "k \<le> n" "moved st u' k st1 u1" "c \<in> io_errors (uio_rw u')"
  obtain st2 u2 where r: "sfs_io_out m x (st1, u1) = (st2, u2)" by (cases "sfs_io_out m x (st1, u1)")
  have "finv st2" "io_effect sect st u k st2 u2" using f [OF e(3,2)] r by simp_all
  moreover have "sfs_io_run m x (st, u') = Err (st2, u2) c" using e(1) r by (simp add: sfs_io_run_def)
  ultimately show ?thesis using e(2,4) unfolding io_result_def n by blast
qed

lemma sfs_io_write_ok:
  assumes pre: "io_pre st u" and r: "0 < uio_resid u" and w: "uio_rw u = UIO_WRITE"
  shows "io_result st u (sfs_io (st, u))"
proof -
  have n: "uio_resid u = io_want st u" using w by (simp add: io_want_def)
  have e: "sfs_io (st, u) = sfs_io_run (uio_resid u) 0 (st, u)" using w by (cases st) (simp add: sfs_io_def Let_def)
  show ?thesis unfolding e
    using io_out_write [OF pre _ _ w] by (intro io_run_ok [OF sfs_io_body_ok [OF pre r] n refl]) simp
qed

lemma sfs_io_read_part:
  assumes pre: "io_pre st u" and w: "uio_rw u = UIO_READ" and x: "x < uio_resid u" "uio_resid u - x = io_want st u"
  shows "io_result st u (sfs_io_run m x (st, u\<lparr>uio_resid := uio_resid u - x\<rparr>))"
proof -
  let ?u = "u\<lparr>uio_resid := uio_resid u - x\<rparr>"
  have pre': "io_pre st ?u" using pre by (auto simp: io_pre_def uio_ok_def uio_ahead_def uio_space_ok_def)
  have r: "0 < uio_resid ?u" "uio_resid ?u = io_want st u" using x by simp_all
  have le: "x \<le> uio_resid u" using x(1) by simp
  show ?thesis using io_out_read [OF pre le _ _ w] x by (intro io_run_ok [OF sfs_io_body_ok [OF pre' r(1)] r(2)]) simp_all
qed

lemma sfs_io_read_ok:
  assumes pre: "io_pre st u" and r: "0 < uio_resid u" and w: "uio_rw u = UIO_READ"
  shows "io_result st u (sfs_io (st, u))"
proof -
  obtain sfs sv where s: "st = (sfs, sv)" by (cases st)
  let ?p = "nat (uio_offset u)" and ?sz = "unat (sfi_size (sv_i sv))"
  have o: "0 \<le> uio_offset u" "uio_resid u < 2 ^ 32" "uio_ok u" "finv st" using pre by (auto simp: io_pre_def)
  have want: "io_want st u = min (uio_resid u) (?sz - ?p)" using w by (simp add: io_want_def s)
  consider (past) "?sz \<le> ?p" | (cut) "?p < ?sz" "?sz < ?p + uio_resid u" | (all) "?p + uio_resid u \<le> ?sz" "?p < ?sz" by linarith
  then show ?thesis
  proof cases
    case past
    then have "int ?sz \<le> uio_offset u" using o(1) by linarith
    then have "sfs_io (st, u) = Ok (st, u) ()" using w by (simp add: sfs_io_def s Let_def)
    moreover have "io_effect sect st u 0 st u" using w uio_after_refl [OF o(3)] by (simp add: io_effect_def file_bytes_def Let_def)
    moreover have "io_want st u = 0" using past want by simp
    ultimately show ?thesis unfolding io_result_def using o(4) by auto
  next
    case cut
    let ?x = "?p + uio_resid u - ?sz"
    have x: "?x < uio_resid u" "uio_resid u - ?x = io_want st u" using cut want by auto
    have i: "uio_offset u + int (uio_resid u) - int ?sz = int ?x" using cut o(1) by linarith
    have m: "nat (int ?x mod 2 ^ 32) = ?x" using x(1) o(2) by (simp del: of_nat_diff)
    have "\<not> int ?sz \<le> uio_offset u" "int ?sz < uio_offset u + int (uio_resid u)" using cut o(1) by linarith+
    then have "sfs_io (st, u) = sfs_io_run (uio_resid u) ?x (st, u\<lparr>uio_resid := uio_resid u - ?x\<rparr>)"
      unfolding sfs_io_def s split_conv Let_def using w i m x(1) by (simp only: if_True if_False kassert_def simp_thms)
    then show ?thesis using sfs_io_read_part [OF pre w x] by simp
  next
    case all
    then have "\<not> int ?sz \<le> uio_offset u" "\<not> int ?sz < uio_offset u + int (uio_resid u)" using o(1) by linarith+
    then have "sfs_io (st, u) = sfs_io_run (uio_resid u) 0 (st, u)" using w by (simp add: sfs_io_def s Let_def)
    moreover have "uio_resid u - 0 = io_want st u" using all want by simp
    moreover have "u\<lparr>uio_resid := uio_resid u - 0\<rparr> = u" by simp
    ultimately show ?thesis using sfs_io_read_part [OF pre w r, of "uio_resid u"] by (simp only:)
  qed
qed

lemma sfs_io_ok: "io_pre st u \<Longrightarrow> 0 < uio_resid u \<Longrightarrow> io_result st u (sfs_io (st, u))"
  using sfs_io_read_ok sfs_io_write_ok by (cases "uio_rw u")

end

section \<open>The properties of file transfers\<close>

lemma request_pre:
  "file_inv io sect nsect ready st \<Longrightarrow> io_request st u \<Longrightarrow> reliable_device io sect nsect ready \<Longrightarrow>
   reliable_device.io_pre io sect nsect ready st u"
  by (simp add: io_request_def reliable_device.io_pre_def)

lemma written_back:
  assumes u: "io_request st u" "uio_rw u = UIO_WRITE" and e: "io_effect sect st u (uio_resid u) st1 u1" and k: "k \<le> uio_resid u"
  shows "nat (uio_offset u) + uio_resid u \<le> unat (sfi_size (sv_i (snd st1)))"
    "file_bytes (st_byte sect st1) (nat (uio_offset u)) k = take k (uio_ahead u)"
proof -
  have b: "st_byte sect st1 = overwrite (nat (uio_offset u)) (take (uio_resid u) (uio_ahead u)) (st_byte sect st)"
    using e u by (auto simp: io_effect_def Let_def)
  show "nat (uio_offset u) + uio_resid u \<le> unat (sfi_size (sv_i (snd st1)))"
    using e u by (auto simp: io_effect_def Let_def io_request_def)
  have len: "length (take (uio_resid u) (uio_ahead u)) = uio_resid u" using u by (simp add: io_request_def uio_ok_def)
  show "file_bytes (st_byte sect st1) (nat (uio_offset u)) k = take k (uio_ahead u)"
    unfolding b using file_bytes_overwrite_take [of k "take (uio_resid u) (uio_ahead u)"] k len by simp
qed

text \<open>C37. \<open>sfs_io\<close> on any file of a volume whose device never fails a write, for any request: it never panics. It
  returns 0 exactly when all the bytes asked for went through (for a read, those up to the end of the file) and otherwise
  an I/O, no-space or file-too-big error after a prefix of them. A read delivers the file's bytes at the
  offset, holes as zeros, and leaves volume and inode alone; a write replaces exactly those bytes of
  this file, extends the size to their end and leaves all blocks the file does not own as they were. The invariant of
  the file and the free map is kept in both cases.\<close>

theorem sfs_io_transfers:
  assumes "reliable_device io sect nsect ready" and "file_inv io sect nsect ready st" and "io_request st u"
  shows "\<exists>st' u' k. (sfs_io (st, u) = Ok (st', u') () \<and> k = io_want st u \<or>
      (\<exists>e \<in> io_errors (uio_rw u). sfs_io (st, u) = Err (st', u') e \<and> k \<le> io_want st u)) \<and>
    file_inv io sect nsect ready st' \<and> io_effect sect st u k st' u'"
  using reliable_device.sfs_io_ok [OF assms(1) request_pre [OF assms(2,3,1)]] assms(3)
  by (simp add: io_request_def reliable_device.io_result_def [OF assms(1)])

text \<open>Three bytes written across the end of the first block of a file with one block, and two of them read back.\<close>

definition write_req :: uio where
  "write_req = \<lparr>uio_past = [], uio_iov = [\<lparr>iov_done = [], iov_rest = [11, 12, 13], iov_copy = None\<rparr>],
     uio_offset = 510, uio_resid = 3, uio_segflg = UIO_SYSSPACE, uio_rw = UIO_WRITE, uio_space = None\<rparr>"

definition read_req :: uio where
  "read_req = \<lparr>uio_past = [], uio_iov = [\<lparr>iov_done = [], iov_rest = [0, 0], iov_copy = None\<rparr>],
     uio_offset = 510, uio_resid = 2, uio_segflg = UIO_SYSSPACE, uio_rw = UIO_READ, uio_space = None\<rparr>"

lemma requests: "io_request st write_req" "io_request st read_req"
  by (simp_all add: io_request_def write_req_def read_req_def uio_ok_def uio_ahead_def uio_space_ok_def)

lemma sfs_io_transfers_witness:
  "(\<exists>s. sfs_io ((plain_volume, plain_vnode), write_req) = Ok s ()) \<or>
   (\<exists>s. \<exists>e \<in> io_errors UIO_WRITE. sfs_io ((plain_volume, plain_vnode), write_req) = Err s e)"
proof -
  have w: "uio_rw write_req = UIO_WRITE" by (simp add: write_req_def)
  show ?thesis using sfs_io_transfers [OF plain_device plain_file_ok requests(1), unfolded w] by blast
qed

text \<open>C38. What was written is read back. A write followed by a read of up to as many bytes at the same offset: if both
  return 0 the reader's buffer has got exactly the bytes the writer handed in, whatever the file held before; otherwise
  one of the calls has returned an I/O or file-too-big error, or the write a no-space error. Neither panics.\<close>

theorem sfs_write_read_back:
  assumes dev: "reliable_device io sect nsect ready" and inv: "file_inv io sect nsect ready st"
    and u: "io_request st u" "uio_rw u = UIO_WRITE"
    and v: "io_request st v" "uio_rw v = UIO_READ" "uio_offset v = uio_offset u" "uio_resid v \<le> uio_resid u"
  shows "case sfs_io (st, u) of
      Ok (st1, _) _ \<Rightarrow>
        (case sfs_io (st1, v) of
           Ok (_, v') _ \<Rightarrow> uio_got v' = uio_got v @ take (uio_resid v) (uio_ahead u)
         | Err _ e \<Rightarrow> e \<in> io_errors UIO_READ | _ \<Rightarrow> False)
    | Err _ e \<Rightarrow> e \<in> io_errors UIO_WRITE | _ \<Rightarrow> False"
proof -
  have pos: "0 < uio_resid u" "0 < uio_resid v" using u v by (simp_all add: io_request_def)
  note w = reliable_device.sfs_io_ok [OF dev request_pre [OF inv u(1) dev] pos(1), unfolded reliable_device.io_result_def [OF dev]]
  have "case sfs_io (st1, v) of Ok (_, v') _ \<Rightarrow> uio_got v' = uio_got v @ take (uio_resid v) (uio_ahead u)
       | Err _ e \<Rightarrow> e \<in> io_errors UIO_READ | _ \<Rightarrow> False"
    if r1: "file_inv io sect nsect ready st1" "io_effect sect st u (uio_resid u) st1 u1" for st1 u1
  proof -
    have "proc_as (fst st1) = proc_as (fst st)" using r1(2) by (auto simp: io_effect_def file_step_def fs_same_def)
    then have v1: "io_request st1 v" using v(1) by (simp add: io_request_def)
    have want: "io_want st1 v = uio_resid v" using written_back [OF u r1(2), of "uio_resid v"] v by (simp add: io_want_def)
    note r = reliable_device.sfs_io_ok [OF dev request_pre [OF r1(1) v1 dev] pos(2), unfolded reliable_device.io_result_def [OF dev] want]
    show ?thesis using r v(2,3) written_back(2) [OF u r1(2) v(4)] uio_afterD(3) [of "uio_resid v" _ v]
      by (auto simp: io_effect_def Let_def)
  qed
  then show ?thesis using w u(2) by (auto simp: io_want_def)
qed

lemma sfs_write_read_back_witness:
  "case sfs_io ((plain_volume, plain_vnode), write_req) of
      Ok (st1, _) _ \<Rightarrow>
        (case sfs_io (st1, read_req) of Ok (_, v') _ \<Rightarrow> uio_got v' = [11, 12] | Err _ e \<Rightarrow> e \<in> io_errors UIO_READ | _ \<Rightarrow> False)
    | Err _ e \<Rightarrow> e \<in> io_errors UIO_WRITE | _ \<Rightarrow> False"
proof -
  have r: "uio_rw write_req = UIO_WRITE" "uio_rw read_req = UIO_READ" "uio_offset read_req = uio_offset write_req"
      "uio_resid read_req \<le> uio_resid write_req" "uio_got read_req @ take (uio_resid read_req) (uio_ahead write_req) = [11, 12]"
    by (simp_all add: write_req_def read_req_def uio_got_def uio_ahead_def)
  show ?thesis
    using sfs_write_read_back [OF plain_device plain_file_ok requests(1) r(1) requests(2) r(2-4)] unfolding r(5) .
qed

end
