(* ===== verification/Sfs_Dir.thy ===== *)
theory Sfs_Dir
  imports Sfs_Io Libc_Mem
begin

text \<open>
  Directories, \<open>kern/fs/sfs/sfs_dir.c\<close>: a directory is a file whose bytes are slots of 64 bytes, an inode number and a
  name padded to 60 bytes, and a slot with inode number 0 is free. The lemmas relate the operations to the finite
  map from names to inode numbers that the slots in use spell out.
\<close>

section \<open>The operations\<close>

definition SIZEOF_DIRENTRY :: nat where "SIZEOF_DIRENTRY = 64"

text \<open>\<open>slot * sizeof(struct sfs_direntry)\<close> is a product of 32-bit unsigned integers.\<close>

definition slot_pos :: "int \<Rightarrow> int" where
  "slot_pos slot = uint (word_of_int (slot * int SIZEOF_DIRENTRY) :: u32)"

definition sfs_readdir :: "int \<Rightarrow> 'd fstate \<Rightarrow> ('d fstate, sfs_direntry) outcome" where
  "sfs_readdir slot st =
     and_then (sfs_metaio (slot_pos slot) (replicate SIZEOF_DIRENTRY 0) UIO_READ st) (\<lambda>st bytes. Ok st (load_direntry bytes))"

definition sfs_writedir :: "int \<Rightarrow> sfs_direntry \<Rightarrow> 'd fstate \<Rightarrow> ('d fstate, unit) outcome" where
  "sfs_writedir slot sd st =
     kassert (slot \<ge> 0)
       (and_then (sfs_metaio (slot_pos slot) (store_direntry sd) UIO_WRITE st) (\<lambda>st _. Ok st ()))"

definition sfs_dir_nentries :: "'d fstate \<Rightarrow> ('d fstate, int) outcome" where
  "sfs_dir_nentries = (\<lambda>(sfs, sv).
     kassert (sfi_type (sv_i sv) = SFS_TYPE_DIR)
       (let size = unat (sfi_size (sv_i sv))
        in if size mod SIZEOF_DIRENTRY \<noteq> 0 then Panic else Ok (sfs, sv) (int (size div SIZEOF_DIRENTRY))))"

text \<open>
  The string in a byte array. \<open>strcmp\<close> of two such strings is \<open>compare_bytes\<close>, see \<open>strcmp_ok\<close> in the theory
  of the C library. A name passed to an operation is the list of its bytes before the terminator.
\<close>

definition cstring :: "u8 list \<Rightarrow> u8 list" where
  "cstring bytes = takeWhile (\<lambda>b. b \<noteq> 0) bytes"

definition sfd_cname :: "sfs_direntry \<Rightarrow> u8 list" where
  "sfd_cname sd = cstring ((sfd_name sd)[SFS_NAMELEN - 1 := 0])"

text \<open>The loop of \<open>sfs_dir_findname\<close> over \<open>n\<close> slots from \<open>i\<close> on; \<open>found\<close> is the slot and the inode number once found.\<close>

fun dir_scan :: "u8 list \<Rightarrow> nat \<Rightarrow> nat \<Rightarrow> (int \<times> u32) option \<Rightarrow> int \<Rightarrow> 'd fstate \<Rightarrow> ('d fstate, (int \<times> u32) option \<times> int) outcome" where
  "dir_scan name 0 i found emptyslot st = Ok st (found, emptyslot)"
| "dir_scan name (Suc n) i found emptyslot st =
     and_then (sfs_readdir (int i) st) (\<lambda>st tsd.
       if sfd_ino tsd = SFS_NOINO then dir_scan name n (i + 1) found (int i) st
       else if compare_bytes (sfd_cname tsd) name = 0
       then kassert (found = None) (dir_scan name n (i + 1) (Some (int i, sfd_ino tsd)) emptyslot st)
       else dir_scan name n (i + 1) found emptyslot st)"

text \<open>
  \<open>sfs_dir_findname\<close> hands back what it found, \<open>None\<close> for the return value \<open>ENOENT\<close>, together with the caller's
  \<open>emptyslot\<close>, which is assigned in both cases.
\<close>

definition sfs_dir_findname :: "u8 list \<Rightarrow> int \<Rightarrow> 'd fstate \<Rightarrow> ('d fstate, (int \<times> u32) option \<times> int) outcome" where
  "sfs_dir_findname name emptyslot st =
     and_then (sfs_dir_nentries st) (\<lambda>st nentries. dir_scan name (nat nentries) 0 None emptyslot st)"

definition sfs_dir_link :: "u8 list \<Rightarrow> u32 \<Rightarrow> 'd fstate \<Rightarrow> ('d fstate, int) outcome" where
  "sfs_dir_link name ino st =
     and_then (sfs_dir_findname name (- 1) st) (\<lambda>st (found, emptyslot).
       if found \<noteq> None then Err st EEXIST
       else if length name + 1 > SFS_NAMELEN then Err st ENAMETOOLONG
       else
         and_then (if emptyslot < 0 then sfs_dir_nentries st else Ok st emptyslot) (\<lambda>st emptyslot.
           let sd = \<lparr>sfd_ino = ino, sfd_name = name @ replicate (SFS_NAMELEN - length name) 0\<rparr>
           in and_then (sfs_writedir emptyslot sd st) (\<lambda>st _. Ok st emptyslot)))"

definition sfs_dir_unlink :: "int \<Rightarrow> 'd fstate \<Rightarrow> ('d fstate, unit) outcome" where
  "sfs_dir_unlink slot st = sfs_writedir slot \<lparr>sfd_ino = SFS_NOINO, sfd_name = replicate SFS_NAMELEN 0\<rparr> st"

section \<open>Directories as maps from names to inode numbers\<close>

definition dir_slot :: "(nat \<Rightarrow> u8) \<Rightarrow> nat \<Rightarrow> sfs_direntry" where
  "dir_slot f i = load_direntry (file_bytes f (i * SIZEOF_DIRENTRY) SIZEOF_DIRENTRY)"

definition dir_slots :: "(nat \<Rightarrow> u8) \<Rightarrow> nat \<Rightarrow> sfs_direntry list" where
  "dir_slots f n = map (dir_slot f) [0..<n div SIZEOF_DIRENTRY]"

definition names_of :: "sfs_direntry list \<Rightarrow> (u8 list \<times> u32) list" where
  "names_of sds = map (\<lambda>sd. (sfd_cname sd, sfd_ino sd)) (filter (\<lambda>sd. sfd_ino sd \<noteq> SFS_NOINO) sds)"

definition dir_map :: "sfs_direntry list \<Rightarrow> u8 list \<rightharpoonup> u32" where
  "dir_map sds = map_of (names_of sds)"

definition names_ok :: "sfs_direntry list \<Rightarrow> bool" where
  "names_ok sds \<longleftrightarrow> distinct (map fst (names_of sds))"

text \<open>What the scan of a list of slots finds, \<open>None\<close> when the assertion that names are unique fails.\<close>

fun scan :: "u8 list \<Rightarrow> nat \<Rightarrow> (int \<times> u32) option \<Rightarrow> int \<Rightarrow> sfs_direntry list \<Rightarrow> ((int \<times> u32) option \<times> int) option" where
  "scan name i found emptyslot [] = Some (found, emptyslot)"
| "scan name i found emptyslot (sd # sds) =
     (if sfd_ino sd = SFS_NOINO then scan name (i + 1) found (int i) sds
      else if sfd_cname sd = name
      then (if found = None then scan name (i + 1) (Some (int i, sfd_ino sd)) emptyslot sds else None)
      else scan name (i + 1) found emptyslot sds)"

lemma names_of_simps [simp]:
  "names_of [] = []"
  "names_of (sd # sds) = (if sfd_ino sd = SFS_NOINO then [] else [(sfd_cname sd, sfd_ino sd)]) @ names_of sds"
  "names_of (sds @ sds') = names_of sds @ names_of sds'"
  by (simp_all add: names_of_def)

lemma scan_absent: "name \<notin> fst ` set (names_of sds) \<Longrightarrow> \<exists>es. scan name i found emptyslot sds = Some (found, es) \<and>
    (es = emptyslot \<or> (\<exists>k < length sds. es = int (i + k) \<and> sfd_ino (sds ! k) = SFS_NOINO))"
proof (induction sds arbitrary: i emptyslot)
  case (Cons sd sds)
  show ?case
  proof (cases "sfd_ino sd = SFS_NOINO")
    case True
    obtain es where "scan name (i + 1) found (int i) sds = Some (found, es)"
      "es = int i \<or> (\<exists>k < length sds. es = int (i + 1 + k) \<and> sfd_ino (sds ! k) = SFS_NOINO)"
      using Cons.IH [of "i + 1" "int i"] Cons.prems True by auto
    moreover have "\<exists>k < length (sd # sds). es = int (i + k) \<and> sfd_ino ((sd # sds) ! k) = SFS_NOINO"
      if "k < length sds" "es = int (i + 1 + k)" "sfd_ino (sds ! k) = SFS_NOINO" for k
      using that by (intro exI [of _ "Suc k"]) simp
    ultimately show ?thesis using True by (intro exI [of _ es]) (auto intro: exI [of _ 0])
  next
    case False
    obtain es where "scan name (i + 1) found emptyslot sds = Some (found, es)"
      "es = emptyslot \<or> (\<exists>k < length sds. es = int (i + 1 + k) \<and> sfd_ino (sds ! k) = SFS_NOINO)"
      using Cons.IH [of "i + 1" emptyslot] Cons.prems False by auto
    moreover have "\<exists>k < length (sd # sds). es = int (i + k) \<and> sfd_ino ((sd # sds) ! k) = SFS_NOINO"
      if "k < length sds" "es = int (i + 1 + k)" "sfd_ino (sds ! k) = SFS_NOINO" for k
      using that by (intro exI [of _ "Suc k"]) simp
    ultimately show ?thesis using False Cons.prems by (intro exI [of _ es]) auto
  qed
qed simp

lemma scan_present:
  "names_ok sds \<Longrightarrow> name \<in> fst ` set (names_of sds) \<Longrightarrow>
   \<exists>k es. scan name i None emptyslot sds = Some (Some (int (i + k), sfd_ino (sds ! k)), es) \<and> k < length sds \<and>
     sfd_ino (sds ! k) \<noteq> SFS_NOINO \<and> sfd_cname (sds ! k) = name"
proof (induction sds arbitrary: i emptyslot)
  case (Cons sd sds)
  show ?case
  proof (cases "sfd_ino sd \<noteq> SFS_NOINO \<and> sfd_cname sd = name")
    case True
    then have "name \<notin> fst ` set (names_of sds)" using Cons.prems(1) by (auto simp: names_ok_def)
    from scan_absent [OF this, of "i + 1" "Some (int i, sfd_ino sd)" emptyslot]
    show ?thesis using True by (auto intro!: exI [of _ "0::nat"])
  next
    case False
    then have "name \<in> fst ` set (names_of sds)" "names_ok sds" using Cons.prems by (auto simp: names_ok_def split: if_splits)
    then obtain k es where "scan name (i + 1) None (if sfd_ino sd = SFS_NOINO then int i else emptyslot) sds =
        Some (Some (int (i + 1 + k), sfd_ino (sds ! k)), es)" "k < length sds" "sfd_ino (sds ! k) \<noteq> SFS_NOINO" "sfd_cname (sds ! k) = name"
      using Cons.IH by blast
    then show ?thesis using False by (intro exI [of _ "Suc k"] exI [of _ es]) auto
  qed
qed simp

lemma dir_map_slot:
  "names_ok sds \<Longrightarrow> k < length sds \<Longrightarrow> sfd_ino (sds ! k) \<noteq> SFS_NOINO \<Longrightarrow> dir_map sds (sfd_cname (sds ! k)) = Some (sfd_ino (sds ! k))"
  unfolding dir_map_def names_ok_def by (rule map_of_is_SomeI) (auto simp: names_of_def)

lemma dir_map_None: "dir_map sds name = None \<longleftrightarrow> name \<notin> fst ` set (names_of sds)"
  by (simp add: dir_map_def map_of_eq_None_iff)

text \<open>Filling a free slot, appending one, and freeing one.\<close>

lemma names_of_update: "k < length sds \<Longrightarrow> names_of (sds[k := sd]) = names_of (take k sds) @ names_of [sd] @ names_of (drop (Suc k) sds)"
  by (simp only: upd_conv_take_nth_drop names_of_simps) (simp add: names_of_def)

lemma names_of_split: "k < length sds \<Longrightarrow> names_of sds = names_of (take k sds) @ names_of [sds ! k] @ names_of (drop (Suc k) sds)"
  using names_of_update [of k sds "sds ! k"] by simp

lemma names_of_insert:
  assumes "k < length sds" "sfd_ino (sds ! k) = SFS_NOINO" "sfd_ino sd \<noteq> SFS_NOINO"
  shows "\<exists>a b. names_of sds = a @ b \<and> names_of (sds[k := sd]) = a @ (sfd_cname sd, sfd_ino sd) # b"
  using assms names_of_split [of k sds] names_of_update [of k sds sd] by auto

lemma map_of_insert: "x \<notin> fst ` set (a @ b) \<Longrightarrow> map_of (a @ (x, y) # b) = (map_of (a @ b))(x \<mapsto> y)"
  by (induction a) auto

lemma dir_insert:
  assumes "names_ok sds" "dir_map sds (sfd_cname sd) = None" "sfd_ino sd \<noteq> SFS_NOINO"
    and "k < length sds" "sfd_ino (sds ! k) = SFS_NOINO"
  shows "names_ok (sds[k := sd])" "dir_map (sds[k := sd]) = (dir_map sds)(sfd_cname sd \<mapsto> sfd_ino sd)"
proof -
  obtain a b where ab: "names_of sds = a @ b" "names_of (sds[k := sd]) = a @ (sfd_cname sd, sfd_ino sd) # b"
    using names_of_insert [OF assms(4,5,3)] by blast
  have x: "sfd_cname sd \<notin> fst ` set (a @ b)" using assms(2) unfolding dir_map_None ab(1) .
  show "names_ok (sds[k := sd])" using assms(1) x unfolding names_ok_def ab by auto
  show "dir_map (sds[k := sd]) = (dir_map sds)(sfd_cname sd \<mapsto> sfd_ino sd)" unfolding dir_map_def ab by (rule map_of_insert [OF x])
qed

lemma dir_append:
  assumes "names_ok sds" "dir_map sds (sfd_cname sd) = None" "sfd_ino sd \<noteq> SFS_NOINO"
  shows "names_ok (sds @ [sd])" "dir_map (sds @ [sd]) = (dir_map sds)(sfd_cname sd \<mapsto> sfd_ino sd)"
  using assms map_of_insert [of "sfd_cname sd" "names_of sds" "[]"] by (auto simp: names_ok_def dir_map_None) (simp add: dir_map_def)

lemma map_of_delete: "distinct (map fst (a @ (x, y) # b)) \<Longrightarrow> map_of (a @ b) = (map_of (a @ (x, y) # b))(x := None)"
  by (induction a) (auto simp: fun_eq_iff map_of_eq_None_iff)

lemma dir_delete:
  assumes "names_ok sds" "k < length sds" "sfd_ino (sds ! k) \<noteq> SFS_NOINO" "sfd_ino sd = SFS_NOINO"
  shows "names_ok (sds[k := sd])" "dir_map (sds[k := sd]) = (dir_map sds)(sfd_cname (sds ! k) := None)"
proof -
  let ?a = "names_of (take k sds)" and ?b = "names_of (drop (Suc k) sds)" and ?x = "(sfd_cname (sds ! k), sfd_ino (sds ! k))"
  have n: "names_of sds = ?a @ ?x # ?b" "names_of (sds[k := sd]) = ?a @ ?b"
    using names_of_split [OF assms(2)] names_of_update [OF assms(2), of sd] assms(3,4) by simp_all
  show "names_ok (sds[k := sd])" using assms(1) unfolding names_ok_def n by auto
  show "dir_map (sds[k := sd]) = (dir_map sds)(sfd_cname (sds ! k) := None)"
    using assms(1) unfolding names_ok_def dir_map_def n by (intro map_of_delete)
qed

text \<open>Slots and bytes.\<close>

lemma length_dir_slots [simp]: "length (dir_slots f n) = n div SIZEOF_DIRENTRY"
  by (simp add: dir_slots_def)

lemma dir_slots_nth [simp]: "i < n div SIZEOF_DIRENTRY \<Longrightarrow> dir_slots f n ! i = dir_slot f i"
  by (simp add: dir_slots_def)

lemma dir_slot_overwrite:
  assumes "direntry_wf sd"
  shows "dir_slot (overwrite (k * SIZEOF_DIRENTRY) (store_direntry sd) f) i = (if i = k then sd else dir_slot f i)"
proof (cases "i = k")
  case True
  have "SIZEOF_DIRENTRY = length (store_direntry sd)" using assms by (simp add: SIZEOF_DIRENTRY_def)
  then have "file_bytes (overwrite (k * SIZEOF_DIRENTRY) (store_direntry sd) f) (k * SIZEOF_DIRENTRY) SIZEOF_DIRENTRY = store_direntry sd"
    using file_bytes_overwrite by metis
  then show ?thesis using True by (simp add: dir_slot_def load_store_direntry)
next
  case False
  have "file_bytes (overwrite (k * 64) (store_direntry sd) f) (i * 64) 64 = file_bytes f (i * 64) 64"
    using False assms by (intro nth_equalityI) (auto simp: file_bytes_def overwrite_def)
  then show ?thesis using False by (simp add: dir_slot_def SIZEOF_DIRENTRY_def)
qed

section \<open>Metadata transfers\<close>

definition meta_uio :: "nat \<Rightarrow> u8 list \<Rightarrow> uio_rw \<Rightarrow> uio" where
  "meta_uio p data rw = \<lparr>uio_past = [], uio_iov = [\<lparr>iov_done = [], iov_rest = data, iov_copy = None\<rparr>],
     uio_offset = int p, uio_resid = length data, uio_segflg = UIO_SYSSPACE, uio_rw = rw, uio_space = None\<rparr>"

lemma meta_uio_simps [simp]: "uio_rw (meta_uio p data rw) = rw" "uio_offset (meta_uio p data rw) = int p" "uio_resid (meta_uio p data rw) = length data"
  by (simp_all add: meta_uio_def)

lemma meta_offset: "unat (word_of_int (int p smod int SFS_BLOCKSIZE) :: u32) = p mod SFS_BLOCKSIZE"
  using smod_block [of "int p"] unat_of_nat_32 [of "p mod SFS_BLOCKSIZE"] by (simp add: sfs_sizes order_less_trans [OF mod_less_divisor])

definition metaio_rest :: "nat \<Rightarrow> u8 list \<Rightarrow> uio_rw \<Rightarrow> 'd fstate \<Rightarrow> u32 \<Rightarrow> ('d fstate, u8 list) outcome" where
  "metaio_rest p data rw = (\<lambda>(sfs, sv) diskblock.
     if diskblock = 0 then kassert (rw = UIO_READ) (Ok (sfs, sv) (replicate (length data) 0))
     else and_then (with_sv sv (sfs_readblock diskblock (replicate SFS_BLOCKSIZE 0) sfs)) (\<lambda>(sfs, sv) buf.
       if rw = UIO_READ then Ok (sfs, sv) (take (length data) (drop (p mod SFS_BLOCKSIZE) buf))
       else and_then (with_sv sv (sfs_writeblock diskblock (patch (p mod SFS_BLOCKSIZE) data buf) sfs)) (\<lambda>(sfs, sv) _.
         Ok (sfs, if p + length data > unat (sfi_size (sv_i sv)) then set_size (of_nat (p + length data)) sv else sv) data)))"

context reliable_device
begin

lemma meta_uio_pre:
  assumes "finv st" "p < 2 ^ 32" "length data \<le> SFS_BLOCKSIZE"
  shows "io_pre st (meta_uio p data rw)"
  using assms by (simp add: io_pre_def meta_uio_def uio_ok_def uio_space_ok_def uio_ahead_def sfs_sizes)

lemma moved_meta: "moved st (meta_uio p data rw) 0 st1 u1 \<Longrightarrow> (if rw = UIO_READ then looked st st1 else keeps st st1)"
  by (auto simp: moved_def wrote_def keeps_def)

lemma metaio_unfold:
  assumes "finv st" "p mod SFS_BLOCKSIZE + length data \<le> SFS_BLOCKSIZE"
  shows "sfs_metaio (int p) data rw st =
    and_then (sfs_bmap (uio_block (meta_uio p data rw)) (rw = UIO_WRITE) st) (metaio_rest p data rw)"
proof -
  have h: "vfs_biglock_do_i_hold (fst st)" using finvD(4) [of "fst st" "snd st"] assms(1) by simp
  have e: "int p + int (length data) = int (p + length data)" by simp
  have f: "\<not> SFS_BLOCKSIZE < p mod SFS_BLOCKSIZE + length data" using assms(2) by simp
  show ?thesis using h unfolding sfs_metaio_def metaio_rest_def meta_offset Let_def patch_def e of_int_of_nat_eq
    by (cases st) (simp only: f if_False split_conv fst_conv kassert_def if_True uio_block_def meta_uio_simps of_nat_less_iff)
qed

lemma metaio_block_read:
  assumes inv: "finv (sfs1, sv1)" and m: "st_map sect (sfs1, sv1) k = unat b" "b \<noteq> 0"
  obtains d' where "looked (sfs1, sv1) (set_disk sfs1 d', sv1)" "ready d'" "sect d' = sect (disk_of sfs1)"
    "sfs_readblock b (replicate SFS_BLOCKSIZE 0) sfs1 = Ok (set_disk sfs1 d') (sect (disk_of sfs1) (unat b)) \<or>
     sfs_readblock b (replicate SFS_BLOCKSIZE 0) sfs1 = Err (set_disk sfs1 d') EIO"
proof -
  note d = finvD [OF inv]
  have nz: "unat b \<noteq> 0" using m(2) by (simp add: unat_eq_zero)
  have lt: "unat b < nsect" using file_okD(2) [OF d(3), of k] m nz d(5) by simp
  obtain d' where r: "ready d'" "sect d' = sect (disk_of sfs1)"
      "sfs_readblock b (replicate SFS_BLOCKSIZE 0) sfs1 = Ok (set_disk sfs1 d') (sect (disk_of sfs1) (unat b)) \<or>
       sfs_readblock b (replicate SFS_BLOCKSIZE 0) sfs1 = Err (set_disk sfs1 d') EIO"
    using readblock [OF d(2) lt, of "replicate SFS_BLOCKSIZE 0"] by auto
  show thesis using that [OF _ r] r by (auto simp: looked_def)
qed

lemma metaio_read:
  assumes inv: "finv st" and p: "p < 2 ^ 32" "p mod SFS_BLOCKSIZE + length data \<le> SFS_BLOCKSIZE" "data \<noteq> []"
  shows "(\<exists>st'. sfs_metaio (int p) data UIO_READ st = Ok st' (file_bytes (st_byte sect st) p (length data)) \<and> looked st st') \<or>
    (\<exists>st' e. sfs_metaio (int p) data UIO_READ st = Err st' e \<and> looked st st' \<and> e \<in> io_errors UIO_READ)"
proof -
  let ?u = "meta_uio p data UIO_READ"
  have pre: "io_pre st ?u" using meta_uio_pre [OF inv p(1)] p(2) by simp
  have r: "0 < uio_resid ?u" using p(3) by simp
  note bb = block_bytes [OF p(2), of st]
  note e = metaio_unfold [OF inv p(2), of UIO_READ]
  show ?thesis
  proof (cases rule: bmap_cases [OF pre r])
    case (1 st1 x)
    then show ?thesis using moved_meta [OF 1(2)] unfolding e by auto
  next
    case (2 st1)
    have "length data \<le> SFS_BLOCKSIZE - p mod SFS_BLOCKSIZE" using p(2) by simp
    then show ?thesis using 2 unfolding e using bb by (cases st1) (auto simp: metaio_rest_def min_def)
  next
    case (3 sfs1 sv1 b)
    have l: "looked st (sfs1, sv1)" "unat b = st_map sect st (p div SFS_BLOCKSIZE)" using 3(5) by simp_all
    have inv1: "finv (sfs1, sv1)" using 3(3) by (simp add: keeps_def)
    have nz: "unat b \<noteq> 0" using 3(2) by (simp add: unat_eq_zero)
    obtain d' where d: "looked (sfs1, sv1) (set_disk sfs1 d', sv1)"
        "sfs_readblock b (replicate SFS_BLOCKSIZE 0) sfs1 = Ok (set_disk sfs1 d') (sect (disk_of sfs1) (unat b)) \<or>
         sfs_readblock b (replicate SFS_BLOCKSIZE 0) sfs1 = Err (set_disk sfs1 d') EIO"
      using metaio_block_read [OF inv1 3(4,2)] by metis
    have lk: "looked st (set_disk sfs1 d', sv1)" using looked_trans [OF l(1) d(1)] .
    have "take (length data) (drop (p mod SFS_BLOCKSIZE) (sect (disk_of sfs1) (unat b))) = file_bytes (st_byte sect st) p (length data)"
      unfolding bb using l nz by (auto simp: looked_def)
    then show ?thesis using d(2) lk 3(1,2) unfolding e by (auto simp: metaio_rest_def)
  qed
qed

text \<open>A metadata write that succeeded: the bytes replaced and the size extended.\<close>

definition stored :: "'a fstate \<Rightarrow> nat \<Rightarrow> u8 list \<Rightarrow> 'a fstate \<Rightarrow> bool" where
  "stored st p data st' \<longleftrightarrow> finv st' \<and> file_step sect st st' \<and> st_byte sect st' = overwrite p data (st_byte sect st) \<and>
     unat (sfi_size (sv_i (snd st'))) = max (unat (sfi_size (sv_i (snd st)))) (p + length data)"

lemma wrote_stored:
  assumes w: "wrote st p data (sfs', sv')" and n: "data \<noteq> []"
  shows "stored st p data (sfs', if p + length data > unat (sfi_size (sv_i sv')) then set_size (of_nat (p + length data)) sv' else sv')"
proof -
  let ?n = "p + length data" and ?size = "unat (sfi_size (sv_i (snd st)))"
  have m: "finv (sfs', sv')" "file_step sect st (sfs', sv')" "st_byte sect (sfs', sv') = overwrite p data (st_byte sect st)"
      "sfi_size (sv_i sv') = sfi_size (sv_i (snd st))" "?n \<le> SFS_MAXBLOCKS * SFS_BLOCKSIZE"
    using w n by (auto simp: wrote_def)
  have u: "unat (of_nat ?n :: u32) = ?n" using m(5) by (intro unat_of_nat_32) (simp add: sfs_lens)
  show ?thesis
  proof (cases "?n > ?size")
    case True
    have "file_step sect st (sfs', set_size (of_nat ?n) sv')" by (rule file_step_trans [OF m(2) set_size_step])
    moreover have "finv (sfs', set_size (of_nat ?n) sv')" by (rule set_size_inv [OF m(1)])
    moreover have "st_byte sect (sfs', set_size (of_nat ?n) sv') = overwrite p data (st_byte sect st)" using m(3) by simp
    ultimately show ?thesis using True m(4) u unfolding stored_def by (simp only: if_True snd_conv set_size_view) simp
  next
    case False
    then show ?thesis using m by (simp add: stored_def)
  qed
qed

lemma metaio_write:
  assumes inv: "finv st" and p: "p < 2 ^ 32" "p mod SFS_BLOCKSIZE + length data \<le> SFS_BLOCKSIZE" "data \<noteq> []"
  shows "(\<exists>st'. sfs_metaio (int p) data UIO_WRITE st = Ok st' data \<and> stored st p data st') \<or>
    (\<exists>st' e. sfs_metaio (int p) data UIO_WRITE st = Err st' e \<and> keeps st st' \<and> e \<in> io_errors UIO_WRITE)"
proof -
  let ?u = "meta_uio p data UIO_WRITE"
  have pre: "io_pre st ?u" using meta_uio_pre [OF inv p(1)] p(2) by simp
  have r: "0 < uio_resid ?u" using p(3) by simp
  note e = metaio_unfold [OF inv p(2), of UIO_WRITE]
  show ?thesis
  proof (cases rule: bmap_cases [OF pre r])
    case (1 st1 x)
    then show ?thesis using moved_meta [OF 1(2)] unfolding e by auto
  next
    case (2 st1)
    then show ?thesis by simp
  next
    case (3 sfs1 sv1 b)
    let ?buf = "sect (disk_of sfs1) (unat b)"
    let ?new = "patch (p mod SFS_BLOCKSIZE) data ?buf"
    have inv1: "finv (sfs1, sv1)" using 3(3) by (simp add: keeps_def)
    have m: "st_map sect (sfs1, sv1) (p div SFS_BLOCKSIZE) = unat b" using 3(4) by simp
    have nz: "unat b \<noteq> 0" using 3(2) by (simp add: unat_eq_zero)
    obtain d' where d: "looked (sfs1, sv1) (set_disk sfs1 d', sv1)" "ready d'" "sect d' = sect (disk_of sfs1)"
        "sfs_readblock b (replicate SFS_BLOCKSIZE 0) sfs1 = Ok (set_disk sfs1 d') ?buf \<or>
         sfs_readblock b (replicate SFS_BLOCKSIZE 0) sfs1 = Err (set_disk sfs1 d') EIO"
      using metaio_block_read [OF inv1 m 3(2)] by metis
    have k2: "keeps st (set_disk sfs1 d', sv1)" using keeps_trans [OF 3(3)] looked_keeps [OF inv1 d(1)] by blast
    then have inv2: "finv (set_disk sfs1 d', sv1)" by (simp add: keeps_def)
    have m2: "st_map sect (set_disk sfs1 d', sv1) (p div SFS_BLOCKSIZE) = unat b" using m d(3) by simp
    note f = finvD [OF inv2]
    have lt: "unat b < nsect" using file_okD(2) [OF f(3), of "p div SFS_BLOCKSIZE"] m2 nz f(5) by simp
    have lp: "length ?new = SFS_BLOCKSIZE" using length_patch [of "p mod SFS_BLOCKSIZE" data ?buf] p(2) block_length by (simp add: sfs_sizes)
    obtain d2 where w: "sfs_writeblock b ?new (set_disk sfs1 d') = Ok (set_disk (set_disk sfs1 d') d2) ()" "ready d2"
        "sect d2 = (sect (disk_of (set_disk sfs1 d')))(unat b := ?new)"
      using writeblock [OF f(2) lt lp] by blast
    have b2: "?buf = sect (disk_of (set_disk sfs1 d')) (unat b)" using d(3) by simp
    have "wrote (set_disk sfs1 d', sv1) p data (set_disk (set_disk sfs1 d') d2, sv1)"
      by (rule patch_block [OF inv2 m2 nz p(2) w(2)]) (simp only: w(3) b2)
    then have "wrote st p data (set_disk (set_disk sfs1 d') d2, sv1)" using wrote_trans [OF keeps_wrote [OF k2], of p] by simp
    note s = wrote_stored [OF this p(3)]
    show ?thesis using d(4)
    proof
      assume "sfs_readblock b (replicate SFS_BLOCKSIZE 0) sfs1 = Err (set_disk sfs1 d') EIO"
      then show ?thesis using 3(1,2) k2 unfolding e by (auto simp: metaio_rest_def)
    next
      assume "sfs_readblock b (replicate SFS_BLOCKSIZE 0) sfs1 = Ok (set_disk sfs1 d') ?buf"
      then show ?thesis using s 3(1,2) w(1) unfolding e by (simp add: metaio_rest_def)
    qed
  qed
qed

end

section \<open>Directory operations\<close>

definition dir_entries :: "('d \<Rightarrow> nat \<Rightarrow> u8 list) \<Rightarrow> 'd fstate \<Rightarrow> sfs_direntry list" where
  "dir_entries sect st = dir_slots (st_byte sect st) (unat (sfi_size (sv_i (snd st))))"

text \<open>A sound directory: its size is a whole number of slots and no name is in two slots.\<close>

definition dir_ok :: "('d \<Rightarrow> nat \<Rightarrow> u8 list) \<Rightarrow> 'd fstate \<Rightarrow> bool" where
  "dir_ok sect st \<longleftrightarrow> sfi_type (sv_i (snd st)) = SFS_TYPE_DIR \<and> unat (sfi_size (sv_i (snd st))) mod SIZEOF_DIRENTRY = 0 \<and>
     names_ok (dir_entries sect st)"

lemma slot_pos_nat:
  assumes "i * SIZEOF_DIRENTRY < 2 ^ 32"
  shows "slot_pos (int i) = int (i * SIZEOF_DIRENTRY)"
proof -
  have "unat (of_nat (i * SIZEOF_DIRENTRY) :: u32) = i * SIZEOF_DIRENTRY" using assms by (intro unat_of_nat_32) simp
  then show ?thesis unfolding slot_pos_def of_nat_mult [symmetric] of_int_of_nat_eq uint_nat by simp
qed

lemma slot_fits: "(i * SIZEOF_DIRENTRY) mod SFS_BLOCKSIZE + SIZEOF_DIRENTRY \<le> SFS_BLOCKSIZE"
proof -
  have "(i * 64) mod (8 * 64) = (i mod 8) * (64 :: nat)" by (rule mult_mod_left [symmetric])
  moreover have "i mod 8 < 8" by simp
  ultimately show ?thesis unfolding SIZEOF_DIRENTRY_def sfs_sizes by simp
qed

text \<open>The entry that \<open>sfs_dir_link\<close> writes.\<close>

definition link_entry :: "u8 list \<Rightarrow> u32 \<Rightarrow> sfs_direntry" where
  "link_entry name ino = \<lparr>sfd_ino = ino, sfd_name = name @ replicate (SFS_NAMELEN - length name) 0\<rparr>"

lemma link_entry_ok:
  assumes "length name < SFS_NAMELEN" "0 \<notin> set name"
  shows "direntry_wf (link_entry name ino)" "sfd_cname (link_entry name ino) = name" "sfd_ino (link_entry name ino) = ino"
proof -
  obtain k where k: "SFS_NAMELEN - length name = Suc k" using assms(1) by (metis Suc_diff_Suc)
  show "direntry_wf (link_entry name ino)" using assms(1) by (simp add: direntry_wf_def link_entry_def)
  have "\<not> SFS_NAMELEN - 1 < length name" using assms(1) by simp
  then have "(sfd_name (link_entry name ino))[SFS_NAMELEN - 1 := 0] = name @ (replicate (Suc k) 0)[SFS_NAMELEN - 1 - length name := 0]"
    unfolding link_entry_def k by (simp add: list_update_append)
  moreover have "(replicate (Suc k) 0)[j := 0] = (replicate (Suc k) (0 :: u8))" for j
    by (cases "j < Suc k") (simp_all add: list_update_same_conv list_update_beyond del: replicate_Suc)
  moreover have "takeWhile (\<lambda>b. b \<noteq> 0) (name @ replicate (Suc k) 0) = name" using assms(2) by (subst takeWhile_append2) auto
  ultimately show "sfd_cname (link_entry name ino) = name" by (simp only: sfd_cname_def cstring_def)
  show "sfd_ino (link_entry name ino) = ino" by (simp add: link_entry_def)
qed

lemma dir_slots_overwrite:
  assumes "direntry_wf sd" "n mod SIZEOF_DIRENTRY = 0" "k \<le> n div SIZEOF_DIRENTRY"
  shows "dir_slots (overwrite (k * SIZEOF_DIRENTRY) (store_direntry sd) f) (max n (k * SIZEOF_DIRENTRY + SIZEOF_DIRENTRY)) =
    (if k < n div SIZEOF_DIRENTRY then (dir_slots f n)[k := sd] else dir_slots f n @ [sd])"
proof -
  obtain m where m: "n = m * SIZEOF_DIRENTRY" using assms(2) by (metis mod_0_imp_dvd dvd_def mult.commute)
  have pos: "0 < SIZEOF_DIRENTRY" by (simp add: SIZEOF_DIRENTRY_def)
  then have d: "n div SIZEOF_DIRENTRY = m" using m by simp
  have mx: "max n (k * SIZEOF_DIRENTRY + SIZEOF_DIRENTRY) = max m (Suc k) * SIZEOF_DIRENTRY" unfolding m by (simp add: max_def SIZEOF_DIRENTRY_def)
  have mx2: "max n (k * SIZEOF_DIRENTRY + SIZEOF_DIRENTRY) div SIZEOF_DIRENTRY = max m (Suc k)" unfolding mx using pos by simp
  show ?thesis
  proof (cases "k < m")
    case True
    then have "max m (Suc k) = m" by simp
    then show ?thesis using True unfolding dir_slots_def mx2 d
      by (intro nth_equalityI) (auto simp: dir_slot_overwrite [OF assms(1)] nth_list_update)
  next
    case False
    then have "k = m" using assms(3) d by simp
    then show ?thesis unfolding dir_slots_def mx2 d by (simp add: dir_slot_overwrite [OF assms(1)])
  qed
qed

context reliable_device
begin

lemma readdir_ok:
  assumes inv: "finv st" and i: "i * SIZEOF_DIRENTRY < 2 ^ 32"
  shows "(\<exists>st'. sfs_readdir (int i) st = Ok st' (dir_slot (st_byte sect st) i) \<and> looked st st') \<or>
    (\<exists>st' e. sfs_readdir (int i) st = Err st' e \<and> looked st st' \<and> e \<in> io_errors UIO_READ)"
proof -
  let ?z = "replicate SIZEOF_DIRENTRY 0 :: u8 list"
  have z: "length ?z = SIZEOF_DIRENTRY" "?z \<noteq> []" by (simp_all add: SIZEOF_DIRENTRY_def)
  have f: "(i * SIZEOF_DIRENTRY) mod SFS_BLOCKSIZE + length ?z \<le> SFS_BLOCKSIZE" using slot_fits by simp
  show ?thesis using metaio_read [OF inv i f z(2)] unfolding z(1)
    by (auto simp: sfs_readdir_def slot_pos_nat [OF i] dir_slot_def)
qed

lemma dir_scan_ok:
  "finv st \<Longrightarrow> (i + n) * SIZEOF_DIRENTRY \<le> 2 ^ 32 \<Longrightarrow>
   (\<exists>st'. looked st st' \<and> dir_scan name n i found es st =
      (case scan name i found es (map (dir_slot (st_byte sect st)) [i..<i + n]) of None \<Rightarrow> Panic | Some r \<Rightarrow> Ok st' r)) \<or>
   (\<exists>st' e. dir_scan name n i found es st = Err st' e \<and> looked st st' \<and> e \<in> io_errors UIO_READ)"
proof (induction n arbitrary: i found es st)
  case 0
  then show ?case using looked_refl [of st] by (intro disjI1 exI [of _ st]) simp
next
  case (Suc n)
  let ?f = "st_byte sect st"
  have i: "i * SIZEOF_DIRENTRY < 2 ^ 32" using Suc.prems(2) by (simp add: SIZEOF_DIRENTRY_def)
  have l: "map (dir_slot ?f) [i..<i + Suc n] = dir_slot ?f i # map (dir_slot ?f) [i + 1..<i + 1 + n]"
    by (simp add: upt_conv_Cons del: upt_Suc)
  show ?case using readdir_ok [OF Suc.prems(1) i]
  proof (elim disjE exE conjE)
    fix st1 assume r: "sfs_readdir (int i) st = Ok st1 (dir_slot ?f i)" and lk: "looked st st1"
    have b: "st_byte sect st1 = ?f" by (rule looked_byte [OF lk])
    have c: "finv st1" "(i + 1 + n) * SIZEOF_DIRENTRY \<le> 2 ^ 32" using looked_finv [OF Suc.prems(1) lk] Suc.prems(2) by simp_all
    have ih: "(\<exists>st'. looked st st' \<and> dir_scan name n (i + 1) found' es' st1 =
        (case scan name (i + 1) found' es' (map (dir_slot ?f) [i + 1..<i + 1 + n]) of None \<Rightarrow> Panic | Some r \<Rightarrow> Ok st' r)) \<or>
       (\<exists>st' e. dir_scan name n (i + 1) found' es' st1 = Err st' e \<and> looked st st' \<and> e \<in> io_errors UIO_READ)" for found' es'
      using Suc.IH [OF c, of found' es'] looked_trans [OF lk] unfolding b by blast
    have p: "\<exists>st'. looked st st'" using lk by blast
    show ?thesis unfolding dir_scan.simps r l scan.simps compare_bytes_eq and_then.simps kassert_def using ih p by simp
  next
    fix st1 e assume "sfs_readdir (int i) st = Err st1 e" "looked st st1" "e \<in> io_errors UIO_READ"
    then show ?thesis by simp
  qed
qed

text \<open>What \<open>sfs_dir_findname\<close> can report of a sound directory.\<close>

definition found_post :: "u8 list \<Rightarrow> int \<Rightarrow> 'a fstate \<Rightarrow> (int \<times> u32) option \<times> int \<Rightarrow> bool" where
  "found_post name es0 st = (\<lambda>(found, es).
     let sds = dir_entries sect st
     in map_option snd found = dir_map sds name \<and>
        (case found of
           None \<Rightarrow> es = es0 \<or> (\<exists>k < length sds. es = int k \<and> sfd_ino (sds ! k) = SFS_NOINO)
         | Some (slot, ino) \<Rightarrow> \<exists>k < length sds. slot = int k \<and> sfd_cname (sds ! k) = name \<and> sfd_ino (sds ! k) = ino \<and> ino \<noteq> SFS_NOINO))"

lemma findname_ok:
  assumes inv: "finv st" and ok: "dir_ok sect st"
  shows "(\<exists>st' r. sfs_dir_findname name es0 st = Ok st' r \<and> looked st st' \<and> found_post name es0 st r) \<or>
    (\<exists>st' e. sfs_dir_findname name es0 st = Err st' e \<and> looked st st' \<and> e \<in> io_errors UIO_READ)"
proof -
  let ?sds = "dir_entries sect st" and ?size = "unat (sfi_size (sv_i (snd st)))"
  let ?n = "?size div SIZEOF_DIRENTRY"
  have n: "sfs_dir_nentries st = Ok st (int ?n)" using ok by (cases st) (simp add: sfs_dir_nentries_def dir_ok_def Let_def)
  have "?n * SIZEOF_DIRENTRY \<le> ?size" by simp
  from order.trans [OF this less_imp_le [OF unat_less_32]] have lt: "(0 + ?n) * SIZEOF_DIRENTRY \<le> 2 ^ 32" by simp
  have e: "map (dir_slot (st_byte sect st)) [0..<0 + ?n] = ?sds" by (simp add: dir_entries_def dir_slots_def)
  have ne: "names_ok ?sds" using ok by (simp add: dir_ok_def)
  have f: "sfs_dir_findname name es0 st = dir_scan name ?n 0 None es0 st" using n by (simp add: sfs_dir_findname_def)
  have "\<exists>r. scan name 0 None es0 ?sds = Some r \<and> found_post name es0 st r"
  proof (cases "dir_map ?sds name")
    case None
    then show ?thesis using scan_absent [OF None [unfolded dir_map_None], of 0 None es0] by (auto simp: found_post_def Let_def)
  next
    case (Some ino)
    then have "name \<in> fst ` set (names_of ?sds)" using dir_map_None [of ?sds name] by auto
    then obtain k es where k: "scan name 0 None es0 ?sds = Some (Some (int k, sfd_ino (?sds ! k)), es)" "k < length ?sds"
        "sfd_ino (?sds ! k) \<noteq> SFS_NOINO" "sfd_cname (?sds ! k) = name"
      using scan_present [OF ne, of name 0 es0] by auto
    then show ?thesis using dir_map_slot [OF ne k(2,3)] by (auto simp: found_post_def Let_def)
  qed
  then show ?thesis using dir_scan_ok [OF inv lt, of name None es0] unfolding f e by auto
qed

definition dirv :: "'a fstate \<Rightarrow> bool" where
  "dirv st \<longleftrightarrow> finv st \<and> dir_ok sect st"

lemma looked_dir:
  assumes "dirv st" "looked st st'"
  shows "dirv st'" "dir_entries sect st' = dir_entries sect st" "keeps st st'"
proof -
  have s: "snd st' = snd st" using assms(2) by (auto simp: looked_def)
  show e: "dir_entries sect st' = dir_entries sect st" unfolding dir_entries_def looked_byte [OF assms(2)] by (simp only: s)
  show "dirv st'" using assms looked_finv [of st st'] unfolding dirv_def dir_ok_def e s by blast
  show "keeps st st'" using assms looked_keeps by (auto simp: dirv_def)
qed

lemma keeps_dir:
  assumes "dirv st" "keeps st st'"
  shows "dirv st'" "dir_entries sect st' = dir_entries sect st"
proof -
  have k: "finv st'" "st_byte sect st' = st_byte sect st" "sfi_size (sv_i (snd st')) = sfi_size (sv_i (snd st))"
      "sfi_type (sv_i (snd st')) = sfi_type (sv_i (snd st))"
    using assms(2) by (auto simp: keeps_def file_step_def)
  show e: "dir_entries sect st' = dir_entries sect st" by (simp only: dir_entries_def k)
  show "dirv st'" using assms(1) k(1) unfolding dirv_def dir_ok_def e k(3,4) by blast
qed

lemma writedir_ok:
  assumes inv: "dirv st" and sd: "direntry_wf sd" and k: "k \<le> length (dir_entries sect st)"
  shows "(\<exists>st'. sfs_writedir (int k) sd st = Ok st' () \<and> finv st' \<and> file_step sect st st' \<and>
        unat (sfi_size (sv_i (snd st'))) mod SIZEOF_DIRENTRY = 0 \<and>
        dir_entries sect st' = (if k < length (dir_entries sect st) then (dir_entries sect st)[k := sd] else dir_entries sect st @ [sd])) \<or>
    (\<exists>st' e. sfs_writedir (int k) sd st = Err st' e \<and> keeps st st' \<and> e \<in> io_errors UIO_WRITE)"
proof -
  let ?size = "unat (sfi_size (sv_i (snd st)))"
  have sz: "?size mod SIZEOF_DIRENTRY = 0" "finv st" using inv by (simp_all add: dirv_def dir_ok_def)
  have k': "k \<le> ?size div SIZEOF_DIRENTRY" using k by (simp add: dir_entries_def)
  have "k * SIZEOF_DIRENTRY \<le> ?size div SIZEOF_DIRENTRY * SIZEOF_DIRENTRY" by (rule mult_le_mono1 [OF k'])
  also have "\<dots> \<le> ?size" by simp
  finally have "k * SIZEOF_DIRENTRY \<le> ?size" .
  from le_less_trans [OF this unat_less_32] have p: "k * SIZEOF_DIRENTRY < 2 ^ 32" by simp
  have len: "length (store_direntry sd) = SIZEOF_DIRENTRY" "store_direntry sd \<noteq> []" using length_store_direntry [OF sd] by (auto simp: SIZEOF_DIRENTRY_def)
  have fits: "(k * SIZEOF_DIRENTRY) mod SFS_BLOCKSIZE + length (store_direntry sd) \<le> SFS_BLOCKSIZE" using slot_fits len(1) by simp
  have w: "sfs_writedir (int k) sd st =
      and_then (sfs_metaio (int (k * SIZEOF_DIRENTRY)) (store_direntry sd) UIO_WRITE st) (\<lambda>st _. Ok st ())"
    by (simp add: sfs_writedir_def slot_pos_nat [OF p])
  show ?thesis using metaio_write [OF sz(2) p fits len(2)]
  proof (elim disjE exE conjE)
    fix st' assume m: "sfs_metaio (int (k * SIZEOF_DIRENTRY)) (store_direntry sd) UIO_WRITE st = Ok st' (store_direntry sd)"
      and s: "stored st (k * SIZEOF_DIRENTRY) (store_direntry sd) st'"
    let ?size' = "unat (sfi_size (sv_i (snd st')))"
    have e: "?size' = max ?size (k * SIZEOF_DIRENTRY + SIZEOF_DIRENTRY)" using s len(1) by (simp add: stored_def)
    have "dir_entries sect st' = (if k < ?size div SIZEOF_DIRENTRY then (dir_entries sect st)[k := sd] else dir_entries sect st @ [sd])"
      using dir_slots_overwrite [OF sd sz(1) k', of "st_byte sect st"] s unfolding dir_entries_def e by (simp add: stored_def)
    moreover have "?size' mod SIZEOF_DIRENTRY = 0" unfolding e using sz(1) by (simp add: max_def)
    ultimately show ?thesis using s m unfolding w by (auto simp: stored_def dir_entries_def)
  next
    fix st' e assume "sfs_metaio (int (k * SIZEOF_DIRENTRY)) (store_direntry sd) UIO_WRITE st = Err st' e" "keeps st st'" "e \<in> io_errors UIO_WRITE"
    then show ?thesis unfolding w by auto
  qed
qed

definition linked :: "u8 list \<Rightarrow> u32 \<Rightarrow> 'a fstate \<Rightarrow> 'a fstate \<Rightarrow> int \<Rightarrow> bool" where
  "linked name ino st st' slot \<longleftrightarrow> dirv st' \<and> file_step sect st st' \<and> dir_map (dir_entries sect st') = (dir_map (dir_entries sect st))(name \<mapsto> ino) \<and>
     (\<exists>k < length (dir_entries sect st'). slot = int k \<and> dir_entries sect st' ! k = link_entry name ino) \<and>
     (\<forall>j < length (dir_entries sect st). sfd_ino (dir_entries sect st ! j) \<noteq> SFS_NOINO \<longrightarrow>
        j < length (dir_entries sect st') \<and> dir_entries sect st' ! j = dir_entries sect st ! j)"

lemma writedir_link:
  assumes inv: "dirv st" and n: "length name < SFS_NAMELEN" "0 \<notin> set name" "ino \<noteq> SFS_NOINO"
    and none: "dir_map (dir_entries sect st) name = None"
    and k: "k = length (dir_entries sect st) \<or> k < length (dir_entries sect st) \<and> sfd_ino (dir_entries sect st ! k) = SFS_NOINO"
  shows "(\<exists>st'. sfs_writedir (int k) (link_entry name ino) st = Ok st' () \<and> linked name ino st st' (int k)) \<or>
    (\<exists>st' e. sfs_writedir (int k) (link_entry name ino) st = Err st' e \<and> keeps st st' \<and> e \<in> io_errors UIO_WRITE)"
proof -
  let ?sds = "dir_entries sect st" and ?sd = "link_entry name ino"
  note sd = link_entry_ok [OF n(1,2), of ino]
  have ok: "names_ok ?sds" "sfi_type (sv_i (snd st)) = SFS_TYPE_DIR" using inv by (simp_all add: dirv_def dir_ok_def)
  have ne: "sfd_ino ?sd \<noteq> SFS_NOINO" using sd(3) n(3) by simp
  have nn: "dir_map ?sds (sfd_cname ?sd) = None" using none sd(2) by simp
  have k': "k \<le> length ?sds" using k by auto
  have "linked name ino st st' (int k)" if st: "finv st'" "file_step sect st st'" "unat (sfi_size (sv_i (snd st'))) mod SIZEOF_DIRENTRY = 0"
      "dir_entries sect st' = (if k < length ?sds then ?sds[k := ?sd] else ?sds @ [?sd])" for st'
  proof -
    have "sfi_type (sv_i (snd st')) = SFS_TYPE_DIR" using ok(2) st(2) by (simp add: file_step_def)
    moreover have "names_ok (dir_entries sect st') \<and> dir_map (dir_entries sect st') = (dir_map ?sds)(name \<mapsto> ino) \<and>
        k < length (dir_entries sect st') \<and> dir_entries sect st' ! k = ?sd"
      using k dir_insert [OF ok(1) nn ne, of k] dir_append [OF ok(1) nn ne] unfolding st(4) sd(2,3) by auto
    moreover have "j < length (dir_entries sect st') \<and> dir_entries sect st' ! j = ?sds ! j"
      if "j < length ?sds" "sfd_ino (?sds ! j) \<noteq> SFS_NOINO" for j
      using that k unfolding st(4) by (auto simp: nth_append nth_list_update)
    ultimately show ?thesis using st(1-3) by (auto simp: linked_def dirv_def dir_ok_def)
  qed
  then show ?thesis using writedir_ok [OF inv sd(1) k'] by (elim disjE exE conjE) metis+
qed

lemma dir_link_ok:
  assumes inv: "dirv st" and n: "0 \<notin> set name" "ino \<noteq> SFS_NOINO"
  shows "(\<exists>st' slot. sfs_dir_link name ino st = Ok st' slot \<and> dir_map (dir_entries sect st) name = None \<and> length name < SFS_NAMELEN \<and>
      linked name ino st st' slot) \<or>
    (\<exists>st' e. sfs_dir_link name ino st = Err st' e \<and> keeps st st' \<and>
      (e = EEXIST \<and> dir_map (dir_entries sect st) name \<noteq> None \<or>
       e = ENAMETOOLONG \<and> dir_map (dir_entries sect st) name = None \<and> SFS_NAMELEN \<le> length name \<or> e \<in> io_errors UIO_WRITE))"
proof -
  let ?sds = "dir_entries sect st"
  have fi: "finv st" "dir_ok sect st" using inv by (simp_all add: dirv_def)
  show ?thesis using findname_ok [OF fi, of name "- 1"]
  proof (elim disjE exE conjE)
    fix st1 r assume f: "sfs_dir_findname name (- 1) st = Ok st1 r" "looked st st1" "found_post name (- 1) st r"
    obtain found es where r: "r = (found, es)" by (cases r)
    note l = looked_dir [OF inv f(2)]
    have m: "map_option snd found = dir_map ?sds name" using f(3) by (simp add: found_post_def Let_def r)
    consider (old) "found \<noteq> None" | (long) "found = None" "SFS_NAMELEN \<le> length name" | (new) "found = None" "length name < SFS_NAMELEN" by linarith
    then show ?thesis
    proof cases
      case old
      then have "dir_map ?sds name \<noteq> None" using m [symmetric] by simp
      then show ?thesis using f(1) l(3) old by (auto simp: sfs_dir_link_def r)
    next
      case long
      then have "dir_map ?sds name = None" using m by simp
      then show ?thesis using f(1) l(3) long by (auto simp: sfs_dir_link_def r)
    next
      case new
      have none: "dir_map (dir_entries sect st1) name = None" using m new(1) by (simp add: l(2))
      let ?k = "if es < 0 then length ?sds else nat es"
      have k: "?k = length (dir_entries sect st1) \<or> ?k < length (dir_entries sect st1) \<and> sfd_ino (dir_entries sect st1 ! ?k) = SFS_NOINO"
        using f(3) new(1) unfolding l(2) by (auto simp: found_post_def Let_def r)
      have "sfs_dir_nentries st1 = Ok st1 (int (length ?sds))" using l(1) unfolding l(2) [symmetric]
        by (cases st1) (simp add: sfs_dir_nentries_def dirv_def dir_ok_def Let_def dir_entries_def)
      then have e: "sfs_dir_link name ino st = and_then (sfs_writedir (int ?k) (link_entry name ino) st1) (\<lambda>st _. Ok st (int ?k))"
        using f(1) new by (simp add: sfs_dir_link_def r Let_def link_entry_def)
      show ?thesis using writedir_link [OF l(1) new(2) n none k]
      proof (elim disjE exE conjE)
        fix st2 assume "sfs_writedir (int ?k) (link_entry name ino) st1 = Ok st2 ()" and k2: "linked name ino st1 st2 (int ?k)"
        moreover have "linked name ino st st2 (int ?k)" using k2 l(3) file_step_trans [of sect st st1 st2]
          unfolding linked_def l(2) by (auto simp: keeps_def)
        ultimately show ?thesis using none new(2) unfolding e l(2) by auto
      next
        fix st2 x assume "sfs_writedir (int ?k) (link_entry name ino) st1 = Err st2 x" "keeps st1 st2" "x \<in> io_errors UIO_WRITE"
        then show ?thesis using keeps_trans [OF l(3)] unfolding e by auto
      qed
    qed
  next
    fix st1 x assume "sfs_dir_findname name (- 1) st = Err st1 x" "looked st st1" "x \<in> io_errors UIO_READ"
    then show ?thesis using looked_dir(3) [OF inv] by (auto simp: sfs_dir_link_def io_errors_def)
  qed
qed

definition unlinked :: "nat \<Rightarrow> 'a fstate \<Rightarrow> 'a fstate \<Rightarrow> bool" where
  "unlinked k st st' \<longleftrightarrow> dirv st' \<and> file_step sect st st' \<and>
     dir_map (dir_entries sect st') = (dir_map (dir_entries sect st))(sfd_cname (dir_entries sect st ! k) := None)"

lemma dir_unlink_ok:
  assumes inv: "dirv st" and k: "k < length (dir_entries sect st)" "sfd_ino (dir_entries sect st ! k) \<noteq> SFS_NOINO"
  shows "(\<exists>st'. sfs_dir_unlink (int k) st = Ok st' () \<and> unlinked k st st') \<or>
    (\<exists>st' e. sfs_dir_unlink (int k) st = Err st' e \<and> keeps st st' \<and> e \<in> io_errors UIO_WRITE)"
proof -
  let ?sds = "dir_entries sect st" and ?sd = "\<lparr>sfd_ino = SFS_NOINO, sfd_name = replicate SFS_NAMELEN 0\<rparr>"
  have wf: "direntry_wf ?sd" "k \<le> length ?sds" using k(1) by (simp_all add: direntry_wf_def)
  have ok: "names_ok ?sds" "sfi_type (sv_i (snd st)) = SFS_TYPE_DIR" using inv by (simp_all add: dirv_def dir_ok_def)
  note d = dir_delete [OF ok(1) k, of ?sd]
  show ?thesis using writedir_ok [OF inv wf]
  proof (elim disjE exE conjE)
    fix st' assume w: "sfs_writedir (int k) ?sd st = Ok st' ()" "finv st'" "file_step sect st st'"
        "unat (sfi_size (sv_i (snd st'))) mod SIZEOF_DIRENTRY = 0"
        "dir_entries sect st' = (if k < length ?sds then ?sds[k := ?sd] else ?sds @ [?sd])"
    have e: "dir_entries sect st' = ?sds[k := ?sd]" using w(5) k(1) by simp
    have "sfi_type (sv_i (snd st')) = SFS_TYPE_DIR" using ok(2) w(3) by (simp add: file_step_def)
    then have "unlinked k st st'" using w(2-4) d unfolding unlinked_def dirv_def dir_ok_def e by simp
    then show ?thesis using w(1) unfolding sfs_dir_unlink_def by blast
  qed (auto simp: sfs_dir_unlink_def)
qed

end

section \<open>The interface of directories\<close>

text \<open>
  What the operations on names rely on: a directory is a map from names to inode numbers; \<open>at s slot n\<close> says that
  the name is in that slot. An operation that fails leaves the map alone, and none of them panics.
\<close>

definition ends :: "('s \<Rightarrow> 'a \<Rightarrow> bool) \<Rightarrow> ('s \<Rightarrow> errno \<Rightarrow> bool) \<Rightarrow> ('s, 'a) outcome \<Rightarrow> bool" where
  "ends P Q r = (case r of Ok s x \<Rightarrow> P s x | Err s e \<Rightarrow> Q s e | _ \<Rightarrow> False)"

lemma ends_simps [simp]: "ends P Q (Ok s x) = P s x" "ends P Q (Err s e) = Q s e"
  by (simp_all add: ends_def)

lemma ends_then:
  assumes "ends P Q r" "\<And>s x. P s x \<Longrightarrow> ends P' Q' (f s x)" "\<And>s e. Q s e \<Longrightarrow> Q' s e"
  shows "ends P' Q' (and_then r f)"
  using assms by (cases r) (auto simp: ends_def)

lemma ends_mono: "ends P Q r \<Longrightarrow> (\<And>s x. P s x \<Longrightarrow> P' s x) \<Longrightarrow> (\<And>s e. Q s e \<Longrightarrow> Q' s e) \<Longrightarrow> ends P' Q' r"
  by (cases r) (auto simp: ends_def)

definition good_name :: "u8 list \<Rightarrow> bool" where
  "good_name n \<longleftrightarrow> 0 \<notin> set n"

locale name_space =
  fixes inv :: "'s \<Rightarrow> bool" and names :: "'s \<Rightarrow> u8 list \<rightharpoonup> u32" and at :: "'s \<Rightarrow> int \<Rightarrow> u8 list \<Rightarrow> bool"
    and find :: "u8 list \<Rightarrow> 's \<Rightarrow> ('s, (int \<times> u32) option) outcome"
    and link :: "u8 list \<Rightarrow> u32 \<Rightarrow> 's \<Rightarrow> ('s, int) outcome"
    and unlink :: "int \<Rightarrow> 's \<Rightarrow> ('s, unit) outcome"
  assumes find: "inv s \<Longrightarrow> ends
      (\<lambda>s' r. inv s' \<and> names s' = names s \<and> (\<forall>sl k. at s' sl k = at s sl k) \<and> map_option snd r = names s n \<and>
        (\<forall>slot ino. r = Some (slot, ino) \<longrightarrow> at s slot n))
      (\<lambda>s' e. inv s' \<and> names s' = names s \<and> e \<in> io_errors UIO_READ) (find n s)"
    and link: "inv s \<Longrightarrow> good_name n \<Longrightarrow> ino \<noteq> SFS_NOINO \<Longrightarrow> ends
      (\<lambda>s' slot. inv s' \<and> names s n = None \<and> names s' = (names s)(n \<mapsto> ino) \<and> at s' slot n \<and> (\<forall>sl k. at s sl k \<longrightarrow> at s' sl k))
      (\<lambda>s' e. inv s' \<and> names s' = names s \<and> (e = EEXIST \<longleftrightarrow> names s n \<noteq> None \<and> e \<notin> io_errors UIO_WRITE)) (link n ino s)"
    and unlink: "inv s \<Longrightarrow> at s slot n \<Longrightarrow> ends
      (\<lambda>s' _. inv s' \<and> names s' = (names s)(n := None))
      (\<lambda>s' e. inv s' \<and> names s' = names s \<and> e \<in> io_errors UIO_WRITE) (unlink slot s)"
begin

text \<open>Adding a name and taking it back leaves the map as it was.\<close>

lemma link_unlink:
  assumes "inv s" "good_name n" "ino \<noteq> SFS_NOINO"
  shows "ends (\<lambda>s' _. inv s' \<and> names s' = names s) (\<lambda>s' e. inv s' \<and> (names s' = names s \<or> names s' = (names s)(n \<mapsto> ino)))
    (and_then (link n ino s) (\<lambda>s slot. unlink slot s))"
proof (rule ends_then [OF link [OF assms]])
  fix s1 slot assume a: "inv s1 \<and> names s n = None \<and> names s1 = (names s)(n \<mapsto> ino) \<and> at s1 slot n \<and> (\<forall>sl k. at s sl k \<longrightarrow> at s1 sl k)"
  then have "(names s1)(n := None) = names s" by (auto simp: fun_eq_iff)
  then show "ends (\<lambda>s' _. inv s' \<and> names s' = names s) (\<lambda>s' e. inv s' \<and> (names s' = names s \<or> names s' = (names s)(n \<mapsto> ino))) (unlink slot s1)"
    using a unlink [of s1 slot n] by (auto elim!: ends_mono)
qed auto

text \<open>Renaming: the new name is linked before the old one is taken away.\<close>

lemma find_link_unlink:
  assumes "inv s" "good_name new" "names s old = Some ino" "ino \<noteq> SFS_NOINO"
  shows "ends (\<lambda>s' _. inv s' \<and> names s' = (names s)(new \<mapsto> ino, old := None))
    (\<lambda>s' e. inv s' \<and> (names s' = names s \<or> names s' = (names s)(new \<mapsto> ino)))
    (and_then (find old s) (\<lambda>s r. case r of None \<Rightarrow> Err s ENOENT | Some (slot, i) \<Rightarrow>
       and_then (link new i s) (\<lambda>s _. unlink slot s)))"
proof (rule ends_then [OF find [OF assms(1), of old]])
  fix s1 r assume a: "inv s1 \<and> names s1 = names s \<and> (\<forall>sl k. at s1 sl k = at s sl k) \<and> map_option snd r = names s old \<and>
      (\<forall>slot ino. r = Some (slot, ino) \<longrightarrow> at s slot old)"
  then obtain slot where r: "r = Some (slot, ino)" using assms(3) by auto
  have l: "inv s1" "at s1 slot old" "names s1 = names s" using a r by auto
  have "ends (\<lambda>s' _. inv s' \<and> names s' = (names s)(new \<mapsto> ino, old := None))
      (\<lambda>s' e. inv s' \<and> (names s' = names s \<or> names s' = (names s)(new \<mapsto> ino))) (and_then (link new ino s1) (\<lambda>s _. unlink slot s))"
  proof (rule ends_then [OF link [OF l(1) assms(2,4)]])
    fix s2 x assume b: "inv s2 \<and> names s1 new = None \<and> names s2 = (names s1)(new \<mapsto> ino) \<and> at s2 x new \<and> (\<forall>sl k. at s1 sl k \<longrightarrow> at s2 sl k)"
    then show "ends (\<lambda>s' _. inv s' \<and> names s' = (names s)(new \<mapsto> ino, old := None))
      (\<lambda>s' e. inv s' \<and> (names s' = names s \<or> names s' = (names s)(new \<mapsto> ino))) (unlink slot s2)"
      using unlink [of s2 slot old] l by (auto elim!: ends_mono)
  qed (auto simp: l(3))
  then show "ends (\<lambda>s' _. inv s' \<and> names s' = (names s)(new \<mapsto> ino, old := None))
      (\<lambda>s' e. inv s' \<and> (names s' = names s \<or> names s' = (names s)(new \<mapsto> ino)))
      (case r of None \<Rightarrow> Err s1 ENOENT | Some (slot, i) \<Rightarrow> and_then (link new i s1) (\<lambda>s _. unlink slot s))"
    by (simp add: r)
qed auto

end

section \<open>Directories of the file system implement the interface\<close>

definition dir_names :: "('d \<Rightarrow> nat \<Rightarrow> u8 list) \<Rightarrow> 'd fstate \<Rightarrow> u8 list \<rightharpoonup> u32" where
  "dir_names sect st = dir_map (dir_entries sect st)"

definition dir_at :: "('d \<Rightarrow> nat \<Rightarrow> u8 list) \<Rightarrow> 'd fstate \<Rightarrow> int \<Rightarrow> u8 list \<Rightarrow> bool" where
  "dir_at sect st slot n \<longleftrightarrow> (\<exists>k < length (dir_entries sect st). slot = int k \<and> sfd_cname (dir_entries sect st ! k) = n \<and>
     sfd_ino (dir_entries sect st ! k) \<noteq> SFS_NOINO)"

definition dir_find :: "u8 list \<Rightarrow> 'd fstate \<Rightarrow> ('d fstate, (int \<times> u32) option) outcome" where
  "dir_find n st = and_then (sfs_dir_findname n (- 1) st) (\<lambda>st (found, _). Ok st found)"

context reliable_device
begin

lemma dir_find_ends:
  assumes inv: "dirv st"
  shows "ends (\<lambda>st' r. dirv st' \<and> dir_names sect st' = dir_names sect st \<and> (\<forall>sl k. dir_at sect st' sl k = dir_at sect st sl k) \<and>
      map_option snd r = dir_names sect st n \<and> (\<forall>slot ino. r = Some (slot, ino) \<longrightarrow> dir_at sect st slot n))
    (\<lambda>st' e. dirv st' \<and> dir_names sect st' = dir_names sect st \<and> e \<in> io_errors UIO_READ) (dir_find n st)"
proof -
  have fi: "finv st" "dir_ok sect st" using inv by (simp_all add: dirv_def)
  show ?thesis using findname_ok [OF fi, of n "- 1"]
  proof (elim disjE exE conjE)
    fix st1 r assume f: "sfs_dir_findname n (- 1) st = Ok st1 r" "looked st st1" "found_post n (- 1) st r"
    obtain found es where r: "r = (found, es)" by (cases r)
    note l = looked_dir [OF inv f(2)]
    have "map_option snd found = dir_map (dir_entries sect st) n" "\<And>slot ino. found = Some (slot, ino) \<Longrightarrow> dir_at sect st slot n"
      using f(3) by (auto simp: found_post_def Let_def r dir_at_def)
    then show ?thesis using f(1) l(1) by (auto simp: dir_find_def r dir_names_def dir_at_def l(2))
  next
    fix st1 e assume "sfs_dir_findname n (- 1) st = Err st1 e" "looked st st1" "e \<in> io_errors UIO_READ"
    then show ?thesis using looked_dir [OF inv] by (simp add: dir_find_def dir_names_def)
  qed
qed

lemma linked_at:
  assumes "linked n ino st st' slot" "good_name n" "ino \<noteq> SFS_NOINO" "length n < SFS_NAMELEN"
  shows "dir_at sect st' slot n" "dir_at sect st sl k \<Longrightarrow> dir_at sect st' sl k"
proof -
  have z: "0 \<notin> set n" using assms(2) by (simp add: good_name_def)
  show "dir_at sect st' slot n" using assms(1,3) link_entry_ok [OF assms(4) z] by (auto simp: linked_def dir_at_def)
  show "dir_at sect st sl k \<Longrightarrow> dir_at sect st' sl k" using assms(1) by (auto simp: linked_def dir_at_def)
qed

lemma dir_link_ends:
  assumes inv: "dirv st" and n: "good_name n" "ino \<noteq> SFS_NOINO"
  shows "ends (\<lambda>st' slot. dirv st' \<and> dir_names sect st n = None \<and> dir_names sect st' = (dir_names sect st)(n \<mapsto> ino) \<and>
      dir_at sect st' slot n \<and> (\<forall>sl k. dir_at sect st sl k \<longrightarrow> dir_at sect st' sl k))
    (\<lambda>st' e. dirv st' \<and> dir_names sect st' = dir_names sect st \<and> (e = EEXIST \<longleftrightarrow> dir_names sect st n \<noteq> None \<and> e \<notin> io_errors UIO_WRITE))
    (sfs_dir_link n ino st)"
proof -
  have z: "0 \<notin> set n" using n(1) by (simp add: good_name_def)
  show ?thesis using dir_link_ok [OF inv z n(2)]
  proof (elim disjE exE conjE)
    fix st1 slot assume a: "sfs_dir_link n ino st = Ok st1 slot" "dir_map (dir_entries sect st) n = None" "length n < SFS_NAMELEN" "linked n ino st st1 slot"
    then show ?thesis using linked_at [OF a(4) n a(3)] by (simp add: dir_names_def linked_def)
  qed (use keeps_dir [OF inv] in \<open>auto simp: dir_names_def io_errors_def\<close>)
qed

lemma dir_unlink_ends:
  assumes inv: "dirv st" and n: "dir_at sect st slot n"
  shows "ends (\<lambda>st' _. dirv st' \<and> dir_names sect st' = (dir_names sect st)(n := None))
    (\<lambda>st' e. dirv st' \<and> dir_names sect st' = dir_names sect st \<and> e \<in> io_errors UIO_WRITE) (sfs_dir_unlink slot st)"
proof -
  obtain k where k: "k < length (dir_entries sect st)" "sfd_ino (dir_entries sect st ! k) \<noteq> SFS_NOINO"
      "slot = int k" "sfd_cname (dir_entries sect st ! k) = n" using n by (auto simp: dir_at_def)
  show ?thesis using dir_unlink_ok [OF inv k(1,2)] keeps_dir [OF inv] unfolding k(3)
    by (auto simp: unlinked_def dir_names_def k(4))
qed

end

sublocale reliable_device \<subseteq> dir: name_space dirv "dir_names sect" "dir_at sect" dir_find sfs_dir_link sfs_dir_unlink
  by unfold_locales (rule dir_find_ends dir_link_ends dir_unlink_ends; assumption)+

text \<open>The three operations one after the other, through the interface.\<close>

context reliable_device
begin

lemma link_then:
  assumes "dirv st" "good_name n" "ino \<noteq> SFS_NOINO"
  shows "ends (\<lambda>st1 slot. dir_names sect st n = None \<and> dirv st1 \<and> dir_names sect st1 = (dir_names sect st)(n \<mapsto> ino) \<and>
      (\<forall>m. ends (\<lambda>st2 found. dirv st2 \<and> map_option snd found = dir_names sect st1 m) (\<lambda>st2 e. dirv st2 \<and> e \<in> io_errors UIO_READ) (dir_find m st1)) \<and>
      ends (\<lambda>st2 _. dirv st2 \<and> dir_names sect st2 = dir_names sect st) (\<lambda>st2 e. dirv st2 \<and> dir_names sect st2 = dir_names sect st1)
        (sfs_dir_unlink slot st1))
    (\<lambda>st1 e. dirv st1 \<and> dir_names sect st1 = dir_names sect st \<and> (e = EEXIST \<longleftrightarrow> dir_names sect st n \<noteq> None \<and> e \<notin> io_errors UIO_WRITE))
    (sfs_dir_link n ino st)"
proof (rule ends_mono [OF dir.link [OF assms]])
  fix st1 slot assume a: "dirv st1 \<and> dir_names sect st n = None \<and> dir_names sect st1 = (dir_names sect st)(n \<mapsto> ino) \<and>
    dir_at sect st1 slot n \<and> (\<forall>sl k. dir_at sect st sl k \<longrightarrow> dir_at sect st1 sl k)"
  have e: "(dir_names sect st1)(n := None) = dir_names sect st" using a by (auto simp: fun_eq_iff)
  have f: "ends (\<lambda>st2 found. dirv st2 \<and> map_option snd found = dir_names sect st1 m) (\<lambda>st2 e. dirv st2 \<and> e \<in> io_errors UIO_READ) (dir_find m st1)" for m
    using a by (intro ends_mono [OF dir.find [of st1 m]]) blast+
  have u: "ends (\<lambda>st2 _. dirv st2 \<and> dir_names sect st2 = dir_names sect st) (\<lambda>st2 e. dirv st2 \<and> dir_names sect st2 = dir_names sect st1)
        (sfs_dir_unlink slot st1)" unfolding e [symmetric] using a by (intro ends_mono [OF dir.unlink [of st1 slot n]]) blast+
  show "dir_names sect st n = None \<and> dirv st1 \<and> dir_names sect st1 = (dir_names sect st)(n \<mapsto> ino) \<and>
      (\<forall>m. ends (\<lambda>st2 found. dirv st2 \<and> map_option snd found = dir_names sect st1 m) (\<lambda>st2 e. dirv st2 \<and> e \<in> io_errors UIO_READ) (dir_find m st1)) \<and>
      ends (\<lambda>st2 _. dirv st2 \<and> dir_names sect st2 = dir_names sect st) (\<lambda>st2 e. dirv st2 \<and> dir_names sect st2 = dir_names sect st1)
        (sfs_dir_unlink slot st1)" using a f u by blast
qed auto

end

text \<open>C39. A directory is a finite map from names to inode numbers. Linking a name into a sound directory, on a device that
  never fails a write, either adds exactly that name to the map, after which every name is found with the number the map gives
  it and unlinking the handed-back slot restores the old map, or fails and leaves the map alone, with \<open>EEXIST\<close>
  exactly when the name was there and could be read. Every state on the way is again a sound directory with unique
  names in a sound file, and nothing panics.\<close>

theorem sfs_dir_refines_map:
  assumes "reliable_device io sect nsect ready" "file_inv io sect nsect ready st" "dir_ok sect st" "good_name n" "ino \<noteq> SFS_NOINO"
  defines "sound \<equiv> \<lambda>st'. file_inv io sect nsect ready st' \<and> dir_ok sect st'"
  shows "ends (\<lambda>st1 slot. dir_names sect st n = None \<and> sound st1 \<and> dir_names sect st1 = (dir_names sect st)(n \<mapsto> ino) \<and>
      (\<forall>m. ends (\<lambda>st2 found. sound st2 \<and> map_option snd found = dir_names sect st1 m) (\<lambda>st2 e. sound st2 \<and> e \<in> io_errors UIO_READ) (dir_find m st1)) \<and>
      ends (\<lambda>st2 _. sound st2 \<and> dir_names sect st2 = dir_names sect st) (\<lambda>st2 e. sound st2 \<and> dir_names sect st2 = dir_names sect st1)
        (sfs_dir_unlink slot st1))
    (\<lambda>st1 e. sound st1 \<and> dir_names sect st1 = dir_names sect st \<and> (e = EEXIST \<longleftrightarrow> dir_names sect st n \<noteq> None \<and> e \<notin> io_errors UIO_WRITE))
    (sfs_dir_link n ino st)"
  using reliable_device.link_then [OF assms(1), of st n ino] assms(2-5)
  unfolding sound_def reliable_device.dirv_def [OF assms(1)] by blast

text \<open>An empty directory gets its first entry.\<close>

definition plain_dir :: sfs_vnode where
  "plain_dir = plain_vnode\<lparr>vn_ops := sfs_dirops, sv_i := (sv_i plain_vnode)\<lparr>sfi_size := 0, sfi_type := SFS_TYPE_DIR\<rparr>\<rparr>"

lemma plain_dir_ok:
  "file_inv (lhd_io plain_disk) (\<lambda>lh. disk_sect (lh_card lh)) 16 (lhd_ready 16) (plain_volume, plain_dir)"
  "dir_ok sect (plain_volume, plain_dir)"
proof -
  have "fmap blk (sv_i plain_dir) = fmap blk (sv_i plain_vnode)" for blk by (simp add: plain_dir_def fmap_def fun_eq_iff)
  moreover have "fblocks blk (sv_i plain_dir) = fblocks blk (sv_i plain_vnode)" for blk
    unfolding fblocks_def by (simp add: plain_dir_def fmap_def)
  ultimately show "file_inv (lhd_io plain_disk) (\<lambda>lh. disk_sect (lh_card lh)) 16 (lhd_ready 16) (plain_volume, plain_dir)"
    using plain_file_ok by (simp add: file_inv_def file_ok_def) (simp add: plain_dir_def dinode_wf_def)
  show "dir_ok sect (plain_volume, plain_dir)" by (simp add: dir_ok_def dir_entries_def dir_slots_def names_ok_def plain_dir_def)
qed

lemma sfs_dir_refines_map_witness:
  "ends (\<lambda>st1 slot. dir_names (\<lambda>lh. disk_sect (lh_card lh)) st1 [97, 98] = Some 7) (\<lambda>st1 e. e \<noteq> EEXIST)
     (sfs_dir_link [97, 98] 7 (plain_volume, plain_dir))"
proof -
  have n: "good_name [97, 98]" "(7 :: u32) \<noteq> SFS_NOINO" by (simp_all add: good_name_def SFS_NOINO_def)
  have e: "dir_names (\<lambda>lh. disk_sect (lh_card lh)) (plain_volume, plain_dir) = Map.empty"
    by (simp add: dir_names_def dir_map_def dir_entries_def dir_slots_def plain_dir_def)
  show ?thesis using sfs_dir_refines_map [OF plain_device plain_dir_ok n] unfolding e by (rule ends_mono) simp_all
qed

end
