(* ===== verification/Sfs_Vnode.thy ===== *)
theory Sfs_Vnode
  imports Sfs_Dir
begin

text \<open>
  Vnodes: reference counting (\<open>kern/vfs/vnode.c\<close>) and the table of loaded inodes of a volume
  (\<open>kern/fs/sfs/sfs_inode.c\<close>, and \<open>sfs_lookonce\<close> of \<open>sfs_dir.c\<close>). The state is the volume and a heap of vnodes; an
  access to an address with no vnode is \<open>Fault\<close>. \<open>kmalloc\<close> is an argument, the address it hands out or
  \<open>None\<close>, and so is whether \<open>vnodearray_add\<close> finds memory. The table is the list of its entries. The spinlock of a
  reference count only guards the count, and the big lock is held around it.
\<close>

section \<open>State\<close>

type_synonym 'd vstate = "'d sfs_fs \<times> (nat \<rightharpoonup> sfs_vnode)"

definition vnode_get :: "nat \<Rightarrow> 'd vstate \<Rightarrow> ('d vstate, sfs_vnode) outcome" where
  "vnode_get v st = (case snd st v of None \<Rightarrow> Fault | Some sv \<Rightarrow> Ok st sv)"

definition vnode_do :: "nat \<Rightarrow> ('d fstate \<Rightarrow> ('d fstate, 'a) outcome) \<Rightarrow> 'd vstate \<Rightarrow> ('d vstate, 'a) outcome" where
  "vnode_do v f = (\<lambda>(sfs, h).
     case h v of None \<Rightarrow> Fault | Some sv \<Rightarrow> map_outcome (\<lambda>(sfs, sv). (sfs, h(v \<mapsto> sv))) id (f (sfs, sv)))"

definition vnode_set :: "nat \<Rightarrow> (sfs_vnode \<Rightarrow> sfs_vnode) \<Rightarrow> 'd vstate \<Rightarrow> ('d vstate, unit) outcome" where
  "vnode_set v f = vnode_do v (\<lambda>(sfs, sv). Ok (sfs, f sv) ())"

definition fs_do :: "('d sfs_fs \<Rightarrow> ('d sfs_fs, 'a) outcome) \<Rightarrow> 'd vstate \<Rightarrow> ('d vstate, 'a) outcome" where
  "fs_do f = (\<lambda>(sfs, h). map_outcome (\<lambda>sfs. (sfs, h)) id (f sfs))"

text \<open>What runs when a call has failed.\<close>

definition on_error :: "('s, 'a) outcome \<Rightarrow> ('s \<Rightarrow> errno \<Rightarrow> ('s, 'a) outcome) \<Rightarrow> ('s, 'a) outcome" where
  "on_error r g = (case r of Err s e \<Rightarrow> g s e | _ \<Rightarrow> r)"

definition vlocked :: "('d vstate \<Rightarrow> ('d vstate, 'a) outcome) \<Rightarrow> 'd vstate \<Rightarrow> ('d vstate, 'a) outcome" where
  "vlocked f = (\<lambda>(sfs, h).
     on_error (and_then (f (vfs_biglock_acquire sfs, h)) (\<lambda>st x. and_then (fs_do vfs_biglock_release st) (\<lambda>st _. Ok st x)))
       (\<lambda>st e. and_then (fs_do vfs_biglock_release st) (\<lambda>st _. Err st e)))"

section \<open>Reference counts\<close>

definition vnode_init :: "sfs_ops \<Rightarrow> sfs_dinode \<Rightarrow> u32 \<Rightarrow> bool \<Rightarrow> sfs_vnode" where
  "vnode_init ops di ino dirty = \<lparr>vn_refcount = 1, vn_ops = ops, sv_i = di, sv_ino = ino, sv_dirty = dirty\<rparr>"

text \<open>The end of a vnode, \<open>vnode_cleanup\<close>, which is followed by \<open>kfree\<close> everywhere.\<close>

definition vnode_cleanup :: "nat \<Rightarrow> 'd vstate \<Rightarrow> ('d vstate, unit) outcome" where
  "vnode_cleanup v st = and_then (vnode_get v st) (\<lambda>(sfs, h) sv. kassert (vn_refcount sv = 1) (Ok (sfs, h(v := None)) ()))"

definition vnode_incref :: "nat \<Rightarrow> 'd vstate \<Rightarrow> ('d vstate, unit) outcome" where
  "vnode_incref v = vnode_set v (\<lambda>sv. sv\<lparr>vn_refcount := vn_refcount sv + 1\<rparr>)"

definition vnode_check :: "nat \<Rightarrow> 'd vstate \<Rightarrow> ('d vstate, unit) outcome" where
  "vnode_check v st = and_then (vnode_get v st) (\<lambda>st sv. if vn_refcount sv < 0 then Panic else if vn_refcount sv = 0 then Panic else Ok st ())"

section \<open>Inodes\<close>

definition sfs_sync_inode :: "'d fstate \<Rightarrow> ('d fstate, unit) outcome" where
  "sfs_sync_inode = (\<lambda>(sfs, sv).
     if sv_dirty sv
     then and_then (with_sv sv (sfs_writeblock (sv_ino sv) (store_dinode (sv_i sv)) sfs)) (\<lambda>(sfs, sv) _. Ok (sfs, sv\<lparr>sv_dirty := False\<rparr>) ())
     else Ok (sfs, sv) ())"

text \<open>The search of \<open>sfs_reclaim\<close> in the table, through the vnodes it holds.\<close>

fun vnode_index :: "nat \<Rightarrow> nat \<Rightarrow> nat list \<Rightarrow> 'd vstate \<Rightarrow> ('d vstate, nat) outcome" where
  "vnode_index v i [] st = Panic"
| "vnode_index v i (v2 # vs) st = and_then (vnode_get v2 st) (\<lambda>st _. if v2 = v then Ok st i else vnode_index v (i + 1) vs st)"

definition reclaim_table :: "nat \<Rightarrow> 'd vstate \<Rightarrow> ('d vstate, unit) outcome" where
  "reclaim_table v st =
     and_then (vnode_index v 0 (sfs_vnodes (fst st)) st) (\<lambda>(sfs, h) ix.
       vnode_cleanup v (sfs\<lparr>sfs_vnodes := take ix (sfs_vnodes sfs) @ drop (ix + 1) (sfs_vnodes sfs)\<rparr>, h))"

definition sfs_reclaim :: "nat \<Rightarrow> 'd vstate \<Rightarrow> ('d vstate, unit) outcome" where
  "sfs_reclaim v = vlocked (\<lambda>st.
     and_then (vnode_get v st) (\<lambda>st sv.
       if vn_refcount sv \<noteq> 1
       then kassert (vn_refcount sv > 1)
              (and_then (vnode_set v (\<lambda>sv. sv\<lparr>vn_refcount := vn_refcount sv - 1\<rparr>) st) (\<lambda>st _. Err st EBUSY))
       else
         and_then (if sfi_linkcount (sv_i sv) = 0 then vnode_do v (sfs_itrunc 0) st else Ok st ()) (\<lambda>st _.
           and_then (vnode_do v sfs_sync_inode st) (\<lambda>st _.
             and_then (vnode_get v st) (\<lambda>st sv.
               and_then (if sfi_linkcount (sv_i sv) = 0 then fs_do (sfs_bfree (sv_ino sv)) st else Ok st ())
                 (\<lambda>st _. reclaim_table v st))))))"

text \<open>\<open>vnode_decref\<close>, through \<open>VOP_RECLAIM\<close>, whose errors are only printed.\<close>

definition vnode_decref :: "nat \<Rightarrow> 'd vstate \<Rightarrow> ('d vstate, unit) outcome" where
  "vnode_decref v st =
     and_then (vnode_get v st) (\<lambda>st sv.
       kassert (vn_refcount sv > 0)
         (if vn_refcount sv > 1 then vnode_set v (\<lambda>sv. sv\<lparr>vn_refcount := vn_refcount sv - 1\<rparr>) st
          else and_then (vnode_check v st) (\<lambda>st _. on_error (sfs_reclaim v st) (\<lambda>st _. Ok st ()))))"

fun vnode_find :: "u32 \<Rightarrow> nat list \<Rightarrow> 'd vstate \<Rightarrow> ('d vstate, nat option) outcome" where
  "vnode_find ino [] st = Ok st None"
| "vnode_find ino (v # vs) st =
     and_then (vnode_get v st) (\<lambda>st sv.
       and_then (fs_do (sfs_bused (sv_ino sv)) st) (\<lambda>st used.
         if \<not> used then Panic else if sv_ino sv = ino then Ok st (Some v) else vnode_find ino vs st))"

text \<open>The rest of \<open>sfs_loadvnode\<close> once the inode has been read into the new vnode at \<open>v\<close>.\<close>

definition load_ops :: "sfs_dinode \<Rightarrow> sfs_ops option" where
  "load_ops di = (if sfi_type di = SFS_TYPE_FILE then Some sfs_fileops else if sfi_type di = SFS_TYPE_DIR then Some sfs_dirops else None)"

definition load_inode :: "u32 \<Rightarrow> u16 \<Rightarrow> nat \<Rightarrow> bool \<Rightarrow> sfs_dinode \<Rightarrow> 'd vstate \<Rightarrow> ('d vstate, nat) outcome" where
  "load_inode ino forcetype v add_ok di = (\<lambda>(sfs, h).
     kassert (forcetype \<noteq> SFS_TYPE_INVAL \<longrightarrow> sfi_type di = SFS_TYPE_INVAL)
       (let di = (if forcetype \<noteq> SFS_TYPE_INVAL then di\<lparr>sfi_type := forcetype\<rparr> else di)
        in case load_ops di of
             None \<Rightarrow> Panic
           | Some ops \<Rightarrow>
               if add_ok
               then Ok (sfs\<lparr>sfs_vnodes := sfs_vnodes sfs @ [v]\<rparr>, h(v \<mapsto> vnode_init ops di ino (forcetype \<noteq> SFS_TYPE_INVAL))) v
               else Err (sfs, h) ENOMEM))"

definition sfs_loadvnode :: "u32 \<Rightarrow> u16 \<Rightarrow> nat option \<Rightarrow> bool \<Rightarrow> 'd vstate \<Rightarrow> ('d vstate, nat) outcome" where
  "sfs_loadvnode ino forcetype mem add_ok st =
     and_then (vnode_find ino (sfs_vnodes (fst st)) st) (\<lambda>st found.
       case found of
         Some v \<Rightarrow> kassert (forcetype = SFS_TYPE_INVAL) (and_then (vnode_incref v st) (\<lambda>st _. Ok st v))
       | None \<Rightarrow>
           (case mem of
              None \<Rightarrow> Err st ENOMEM
            | Some v \<Rightarrow>
                and_then (fs_do (sfs_bused ino) st) (\<lambda>st used.
                  if \<not> used then Panic
                  else and_then (fs_do (sfs_readblock ino (replicate SFS_BLOCKSIZE 0)) st) (\<lambda>st bytes.
                    load_inode ino forcetype v add_ok (load_dinode bytes) st))))"

definition sfs_makeobj :: "u16 \<Rightarrow> nat option \<Rightarrow> bool \<Rightarrow> 'd vstate \<Rightarrow> ('d vstate, nat) outcome" where
  "sfs_makeobj ty mem add_ok st =
     and_then (fs_do sfs_balloc st) (\<lambda>st ino.
       on_error (sfs_loadvnode ino ty mem add_ok st) (\<lambda>st e. and_then (fs_do (sfs_bfree ino) st) (\<lambda>st _. Err st e)))"

definition sfs_getroot :: "nat option \<Rightarrow> bool \<Rightarrow> 'd vstate \<Rightarrow> ('d vstate, nat) outcome" where
  "sfs_getroot mem add_ok = vlocked (\<lambda>st.
     and_then (sfs_loadvnode SFS_ROOTDIR_INO SFS_TYPE_INVAL mem add_ok st) (\<lambda>st v.
       and_then (vnode_get v st) (\<lambda>st sv. if sfi_type (sv_i sv) \<noteq> SFS_TYPE_DIR then Err st EINVAL else Ok st v)))"

definition sfs_lookonce :: "nat \<Rightarrow> u8 list \<Rightarrow> nat option \<Rightarrow> bool \<Rightarrow> 'd vstate \<Rightarrow> ('d vstate, nat \<times> int) outcome" where
  "sfs_lookonce dir name mem add_ok st =
     and_then (vnode_do dir (sfs_dir_findname name (- 1)) st) (\<lambda>st (found, _).
       case found of
         None \<Rightarrow> Err st ENOENT
       | Some (slot, ino) \<Rightarrow>
           and_then (sfs_loadvnode ino SFS_TYPE_INVAL mem add_ok st) (\<lambda>st v.
             and_then (vnode_get v st) (\<lambda>st sv. if sfi_linkcount (sv_i sv) = 0 then Panic else Ok st (v, slot))))"

end
