(* ===== verification/Sfs_Frame.thy ===== *)
theory Sfs_Frame
  imports Sfs_Vnode
begin

text \<open>
  What the operations on one file leave alone, on any device and on every way out: the table of vnodes, the depth of
  the big lock, and the identity of the vnode, which is its reference count, its operations, its inode number, its type
  and its link count.
\<close>

named_theorems frame

definition after :: "('s \<Rightarrow> bool) \<Rightarrow> ('s, 'a) outcome \<Rightarrow> bool" where
  "after P r = (case r of Ok s _ \<Rightarrow> P s | Err s _ \<Rightarrow> P s | _ \<Rightarrow> True)"

lemma after_outcome [simp]:
  "after P (Ok s x) = P s" "after P (Err s e) = P s" "after P Panic" "after P Fault" "after P Blocked"
  by (simp_all add: after_def)

lemma after_then: "after P r \<Longrightarrow> (\<And>s x. P s \<Longrightarrow> r = Ok s x \<Longrightarrow> after P (f s x)) \<Longrightarrow> after P (and_then r f)"
  by (cases r) auto

lemma after_then_any: "after P r \<Longrightarrow> (\<And>s x. P s \<Longrightarrow> after P (f s x)) \<Longrightarrow> after P (and_then r f)"
  by (cases r) auto

lemma after_kassert: "(b \<Longrightarrow> after P r) \<Longrightarrow> after P (kassert b r)"
  by (simp add: kassert_def)

lemma after_map: "after (\<lambda>s. P (f s)) r \<Longrightarrow> after P (map_outcome f g r)"
  by (cases r) auto

lemma after_if: "(b \<Longrightarrow> after P r) \<Longrightarrow> (\<not> b \<Longrightarrow> after P q) \<Longrightarrow> after P (if b then r else q)"
  by simp

lemma after_on_error: "after P r \<Longrightarrow> (\<And>s e. P s \<Longrightarrow> after P (g s e)) \<Longrightarrow> after P (on_error r g)"
  by (cases r) (auto simp: on_error_def)

lemma after_mono: "after P r \<Longrightarrow> (\<And>s. P s \<Longrightarrow> Q s) \<Longrightarrow> after Q r"
  by (cases r) auto

lemma after_all: "(\<And>s. P s) \<Longrightarrow> after P r"
  by (cases r) auto

lemmas after_rules = after_then_any after_kassert after_if after_on_error

definition fsid :: "'d sfs_fs \<Rightarrow> nat list \<times> nat" where
  "fsid sfs = (sfs_vnodes sfs, vfs_biglock_depth sfs)"

definition svid :: "sfs_vnode \<Rightarrow> int \<times> sfs_ops \<times> u32 \<times> u16 \<times> u16" where
  "svid sv = (vn_refcount sv, vn_ops sv, sv_ino sv, sfi_type (sv_i sv), sfi_linkcount (sv_i sv))"

definition stid :: "'d fstate \<Rightarrow> (nat list \<times> nat) \<times> int \<times> sfs_ops \<times> u32 \<times> u16 \<times> u16" where
  "stid st = (fsid (fst st), svid (snd st))"

lemma fsid_updates [simp]:
  "fsid (set_disk sfs d) = fsid sfs" "fsid (set_freemap b sfs) = fsid sfs" "fsid (sfs\<lparr>sfs_freemapdirty := x\<rparr>) = fsid sfs"
  by (simp_all add: fsid_def set_disk_def set_freemap_def)

lemma svid_updates [simp]:
  "svid (set_direct i b sv) = svid sv" "svid (set_indirect b sv) = svid sv" "svid (set_size n sv) = svid sv"
  "svid (sv\<lparr>sv_dirty := x\<rparr>) = svid sv" "svid (sv\<lparr>sv_i := (sv_i sv)\<lparr>sfi_size := n\<rparr>, sv_dirty := x\<rparr>) = svid sv"
  by (simp_all add: svid_def set_direct_def set_indirect_def set_size_def)

lemma stid_updates [simp]:
  "stid (sfs, set_direct i b sv) = stid (sfs, sv)" "stid (sfs, set_indirect b sv) = stid (sfs, sv)" "stid (sfs, set_size n sv) = stid (sfs, sv)"
  "stid (sfs, sv\<lparr>sv_dirty := x\<rparr>) = stid (sfs, sv)"
  "stid (sfs, sv\<lparr>sv_i := (sv_i sv)\<lparr>sfi_size := n\<rparr>, sv_dirty := x\<rparr>) = stid (sfs, sv)"
  "stid (sfs, sv\<lparr>sv_i := (sv_i sv)\<lparr>sfi_size := n\<rparr>\<rparr>) = stid (sfs, sv)"
  by (simp_all add: stid_def svid_def set_direct_def set_indirect_def set_size_def)

section \<open>The volume\<close>

lemma rwblock_try_frame: "fsid (fst st) = c \<Longrightarrow> after (\<lambda>s. fsid (fst s) = c) (sfs_rwblock_try tries st)"
proof (induction tries st rule: sfs_rwblock_try.induct)
  case (1 tries st)
  have d: "after (\<lambda>s. fsid (fst s) = c) (DEVOP_IO st)" using "1.prems"
    by (cases st) (simp add: DEVOP_IO_def, rule after_map, rule after_all, simp split: prod.splits)
  show ?case
  proof (cases "DEVOP_IO st")
    case (Err s e)
    then show ?thesis using d "1.IH" [OF Err] by (subst sfs_rwblock_try.simps) simp
  qed (use d in \<open>subst sfs_rwblock_try.simps, simp\<close>)+
qed

lemma rwblock_frame: "fsid (fst st) = c \<Longrightarrow> after (\<lambda>s. fsid (fst s) = c) (sfs_rwblock st)"
  by (cases st) (auto simp: sfs_rwblock_def intro!: after_kassert rwblock_try_frame)

lemma readblock_frame [frame]: "fsid sfs = c \<Longrightarrow> after (\<lambda>s. fsid s = c) (sfs_readblock b data sfs)"
  using rwblock_frame [of "(sfs, sfsuio data b UIO_READ)" c]
  by (auto simp: sfs_readblock_def kassert_def after_def split: outcome.splits prod.splits)

lemma writeblock_frame [frame]: "fsid sfs = c \<Longrightarrow> after (\<lambda>s. fsid s = c) (sfs_writeblock b data sfs)"
  unfolding sfs_writeblock_def by (intro after_kassert after_map rwblock_frame) simp

lemma freemap_frame: "fsid sfs = c \<Longrightarrow> after (\<lambda>s. fsid s = c) (map_outcome (\<lambda>b. set_freemap b sfs) g r)"
  by (rule after_map, rule after_all) simp

lemma balloc_frame [frame]:
  assumes "fsid (sfs :: 'a sfs_fs) = c"
  shows "after (\<lambda>s. fsid s = c) (sfs_balloc sfs)"
proof -
  have clear: "after (\<lambda>s. fsid s = c) (case sfs_clearblock b s of Ok s _ \<Rightarrow> Ok s b
      | Err s e \<Rightarrow> and_then (map_outcome (\<lambda>m. set_freemap m s) id (bitmap_unmark (sfs_freemap s) b)) (\<lambda>s _. Err s e)
      | Panic \<Rightarrow> Panic | Fault \<Rightarrow> Fault | Blocked \<Rightarrow> Blocked)" if "fsid s = c" for s :: "'a sfs_fs" and b
    using writeblock_frame [OF that, of b "replicate SFS_BLOCKSIZE 0"]
    by (auto simp: sfs_clearblock_def split: outcome.splits intro!: after_then_any freemap_frame)
  show ?thesis using assms unfolding sfs_balloc_def Let_def by (intro after_then_any freemap_frame after_if clear) simp_all
qed

lemma bfree_frame [frame]: "fsid sfs = c \<Longrightarrow> after (\<lambda>s. fsid s = c) (sfs_bfree b sfs)"
  unfolding sfs_bfree_def by (intro after_then_any freemap_frame) simp_all

lemma bused_frame [frame]: "fsid sfs = c \<Longrightarrow> after (\<lambda>s. fsid s = c) (sfs_bused b sfs)"
  unfolding sfs_bused_def by (intro after_if freemap_frame) simp_all

section \<open>One file\<close>

lemma with_sv_frame:
  assumes "\<And>c. fsid sfs = c \<Longrightarrow> after (\<lambda>s. fsid s = c) r" "stid (sfs, sv) = c"
  shows "after (\<lambda>s. stid s = c) (with_sv sv r)"
  using assms(1) [OF refl] assms(2) unfolding with_sv_def by (intro after_map) (auto elim: after_mono simp: stid_def)

lemmas sv_frame = with_sv_frame [OF readblock_frame] with_sv_frame [OF writeblock_frame] with_sv_frame [OF balloc_frame]
  with_sv_frame [OF bfree_frame] with_sv_frame [OF bused_frame]

lemma bmap_check_frame: "stid st = c \<Longrightarrow> after (\<lambda>s. stid s = c) (bmap_check st b)"
  by (cases st) (auto simp: bmap_check_def intro!: after_rules sv_frame)

lemma direct_frame: "stid st = c \<Longrightarrow> after (\<lambda>s. stid s = c) (bmap_direct i doalloc st)"
  unfolding bmap_direct_def Let_def
  by (cases st) (auto intro!: after_rules sv_frame bmap_check_frame)

lemma load_frame: "stid st = c \<Longrightarrow> after (\<lambda>s. stid s = c) (bmap_load st)"
  unfolding bmap_load_def Let_def by (cases st) (auto intro!: after_rules sv_frame)

lemma indirect_frame: "stid st = c \<Longrightarrow> after (\<lambda>s. stid s = c) (bmap_indirect i doalloc st)"
  unfolding bmap_indirect_def Let_def
  by (cases st) (auto intro!: after_rules sv_frame bmap_check_frame load_frame)

lemma bmap_frame [frame]: "stid st = c \<Longrightarrow> after (\<lambda>s. stid s = c) (sfs_bmap fb doalloc st)"
  unfolding sfs_bmap_def Let_def by (cases st) (auto intro!: after_rules direct_frame indirect_frame)

lemma trunc_direct_frame: "stid st = c \<Longrightarrow> after (\<lambda>s. stid s = c) (trunc_direct is n st)"
proof (induction "is" arbitrary: st)
  case (Cons i "is")
  then show ?case by (cases st) (auto simp: Let_def intro!: after_rules sv_frame)
qed simp

lemma trunc_entries_frame: "fsid sfs = c \<Longrightarrow> after (\<lambda>s. fsid s = c) (trunc_entries js n sfs buf nz dirty)"
  by (induction js arbitrary: sfs buf nz dirty) (auto intro!: after_rules bfree_frame)

lemma trunc_rest_frame: "stid st = c \<Longrightarrow> after (\<lambda>s. stid s = c) (trunc_rest n idblock buf st)"
  unfolding trunc_rest_def by (cases st) (auto intro!: after_rules sv_frame with_sv_frame [OF trunc_entries_frame])

lemma trunc_indirect_frame: "stid st = c \<Longrightarrow> after (\<lambda>s. stid s = c) (trunc_indirect n st)"
  unfolding trunc_indirect_def Let_def by (cases st) (auto intro!: after_rules sv_frame trunc_rest_frame)

lemma biglocked_frame:
  assumes f: "\<And>st c. stid st = c \<Longrightarrow> after (\<lambda>s. stid s = c) (f st)" and "stid st = c"
  shows "after (\<lambda>s. stid s = c) (biglocked f st)"
proof -
  obtain sfs sv where st: "st = (sfs, sv)" by (cases st)
  have "after (\<lambda>s. stid s = stid (vfs_biglock_acquire sfs, sv)) (f (vfs_biglock_acquire sfs, sv))" by (rule f [OF refl])
  then show ?thesis using assms(2)
    by (auto simp: st biglocked_def after_def stid_def fsid_def vfs_biglock_acquire_def vfs_biglock_release_def with_sv_def kassert_def
        split: outcome.splits if_splits)
qed

lemma itrunc_frame [frame]: "stid st = c \<Longrightarrow> after (\<lambda>s. stid s = c) (sfs_itrunc len st)"
  unfolding sfs_itrunc_def Let_def by (rule biglocked_frame) (auto intro!: after_rules trunc_direct_frame trunc_indirect_frame)

section \<open>Transfers\<close>

lemma with_uio_frame: "after (\<lambda>s. stid s = c) r \<Longrightarrow> after (\<lambda>s. stid (fst s) = c) (with_uio uio r)"
  unfolding with_uio_def by (rule after_map) simp

lemma keep_uio_frame: "stid st = c \<Longrightarrow> after (\<lambda>s. stid (fst s) = c) (map_outcome (\<lambda>uio. (st, uio)) g r)"
  by (rule after_map, rule after_all) simp

lemma move_frame: "stid (fst st) = c \<Longrightarrow> after (\<lambda>s. stid (fst s) = c) (partialio_move skip n b buf st)"
  unfolding partialio_move_def
  by (cases st) (auto split: outcome.splits prod.splits intro!: with_uio_frame sv_frame after_if)

lemma partialio_rest_frame: "stid (fst st) = c \<Longrightarrow> after (\<lambda>s. stid (fst s) = c) (partialio_rest skip n st b)"
  unfolding partialio_rest_def by (cases st) (auto intro!: after_rules with_uio_frame sv_frame move_frame)

lemma partialio_frame: "stid (fst st) = c \<Longrightarrow> after (\<lambda>s. stid (fst s) = c) (sfs_partialio skip n st)"
  unfolding sfs_partialio_def Let_def by (cases st) (auto intro!: after_rules with_uio_frame bmap_frame partialio_rest_frame)

lemma rw_frame: "stid (sfs, sv) = c \<Longrightarrow> after (\<lambda>s. stid (fst s) = c) (map_outcome (\<lambda>(sfs, u). ((sfs, sv), f u)) g (sfs_rwblock (sfs, u)))"
  by (rule after_map, rule after_mono [OF rwblock_frame [OF refl]]) (auto simp: stid_def)

lemma blockio_frame: "stid (fst st) = c \<Longrightarrow> after (\<lambda>s. stid (fst s) = c) (sfs_blockio st)"
  unfolding sfs_blockio_def Let_def by (cases st) (auto intro!: after_rules with_uio_frame bmap_frame keep_uio_frame rw_frame)

lemma blocks_frame: "stid (fst st) = c \<Longrightarrow> after (\<lambda>s. stid (fst s) = c) (sfs_blocks n st)"
  by (induction n arbitrary: st) (auto intro!: after_rules blockio_frame)

lemma io_body_frame: "stid (fst st) = c \<Longrightarrow> after (\<lambda>s. stid (fst s) = c) (sfs_io_body st)"
  unfolding sfs_io_body_def Let_def
  by (cases st) (auto intro!: after_rules partialio_frame blocks_frame)

lemma io_run_frame: "stid (fst st) = c \<Longrightarrow> after (\<lambda>s. stid (fst s) = c) (sfs_io_run n x st)"
  using io_body_frame [of st c]
  by (auto simp: sfs_io_run_def sfs_io_out_def after_def split: outcome.splits prod.splits)

lemma io_frame [frame]: "stid (fst st) = c \<Longrightarrow> after (\<lambda>s. stid (fst s) = c) (sfs_io st)"
  unfolding sfs_io_def Let_def by (cases st) (auto intro!: after_rules io_run_frame)

lemma metaio_frame: "stid st = c \<Longrightarrow> after (\<lambda>s. stid s = c) (sfs_metaio p data rw st)"
  unfolding sfs_metaio_def Let_def by (cases st) (auto intro!: after_rules bmap_frame sv_frame)

section \<open>Directories\<close>

lemma readdir_frame: "stid st = c \<Longrightarrow> after (\<lambda>s. stid s = c) (sfs_readdir slot st)"
  unfolding sfs_readdir_def by (auto intro!: after_rules metaio_frame)

lemma writedir_frame: "stid st = c \<Longrightarrow> after (\<lambda>s. stid s = c) (sfs_writedir slot sd st)"
  unfolding sfs_writedir_def by (auto intro!: after_rules metaio_frame)

lemma nentries_frame: "stid st = c \<Longrightarrow> after (\<lambda>s. stid s = c) (sfs_dir_nentries st)"
  unfolding sfs_dir_nentries_def Let_def by (cases st) (auto intro!: after_rules)

lemma scan_frame: "stid st = c \<Longrightarrow> after (\<lambda>s. stid s = c) (dir_scan name n i found es st)"
  by (induction n arbitrary: i found es st) (auto intro!: after_rules readdir_frame)

lemma findname_frame [frame]: "stid st = c \<Longrightarrow> after (\<lambda>s. stid s = c) (sfs_dir_findname name es st)"
  unfolding sfs_dir_findname_def by (auto intro!: after_rules nentries_frame scan_frame)

lemma link_frame [frame]: "stid st = c \<Longrightarrow> after (\<lambda>s. stid s = c) (sfs_dir_link name ino st)"
  unfolding sfs_dir_link_def Let_def by (auto intro!: after_rules findname_frame nentries_frame writedir_frame)

lemma unlink_frame [frame]: "stid st = c \<Longrightarrow> after (\<lambda>s. stid s = c) (sfs_dir_unlink slot st)"
  unfolding sfs_dir_unlink_def by (rule writedir_frame)

lemma sync_inode_frame [frame]: "stid st = c \<Longrightarrow> after (\<lambda>s. stid s = c) (sfs_sync_inode st)"
  unfolding sfs_sync_inode_def by (cases st) (auto intro!: after_rules sv_frame)

end
