(* ===== verification/Sfs_Vnops.thy ===== *)
theory Sfs_Vnops
  imports Sfs_Frame
begin

text \<open>
  The vnode operations of the file system, \<open>kern/fs/sfs/sfs_vnops.c\<close>, with the two tables that choose an
  operation by the kind of a vnode and the failing entries of \<open>kern/vfs/vfsfail.c\<close>. Every call a client can make
  is a step on the volume and the heap of vnodes; the states reached from a freshly mounted volume are well typed.
\<close>

section \<open>Operations\<close>

definition O_ACCMODE :: u32 where "O_ACCMODE = 3"
definition O_RDONLY :: u32 where "O_RDONLY = 0"
definition O_APPEND :: u32 where "O_APPEND = 32"

definition sfs_eachopen :: "u32 \<Rightarrow> errno option" where
  "sfs_eachopen openflags = None"

definition sfs_eachopendir :: "u32 \<Rightarrow> errno option" where
  "sfs_eachopendir openflags =
     (if and openflags O_ACCMODE \<noteq> O_RDONLY then Some EISDIR
      else if and openflags O_APPEND \<noteq> 0 then Some EISDIR else None)"

text \<open>A transfer through the vnode at \<open>v\<close>, under the big lock.\<close>

definition vnode_io :: "nat \<Rightarrow> 'd vstate \<times> uio \<Rightarrow> ('d vstate \<times> uio, unit) outcome" where
  "vnode_io v = (\<lambda>((sfs, h), uio).
     case h v of
       None \<Rightarrow> Fault
     | Some sv \<Rightarrow>
         (case sfs_io ((vfs_biglock_acquire sfs, sv), uio) of
            Ok ((sfs, sv), uio) _ \<Rightarrow> map_outcome (\<lambda>sfs. ((sfs, h(v \<mapsto> sv)), uio)) id (vfs_biglock_release sfs)
          | Err ((sfs, sv), uio) e \<Rightarrow>
              and_then (map_outcome (\<lambda>sfs. ((sfs, h(v \<mapsto> sv)), uio)) id (vfs_biglock_release sfs)) (\<lambda>st _. Err st e)
          | Panic \<Rightarrow> Panic | Fault \<Rightarrow> Fault | Blocked \<Rightarrow> Blocked))"

definition sfs_read :: "nat \<Rightarrow> 'd vstate \<times> uio \<Rightarrow> ('d vstate \<times> uio, unit) outcome" where
  "sfs_read v st = kassert (uio_rw (snd st) = UIO_READ) (vnode_io v st)"

definition sfs_write :: "nat \<Rightarrow> 'd vstate \<times> uio \<Rightarrow> ('d vstate \<times> uio, unit) outcome" where
  "sfs_write v st = kassert (uio_rw (snd st) = UIO_WRITE) (vnode_io v st)"

definition S_IFREG :: nat where "S_IFREG = 4096"
definition S_IFDIR :: nat where "S_IFDIR = 8192"

definition sfs_gettype :: "nat \<Rightarrow> 'd vstate \<Rightarrow> ('d vstate, nat) outcome" where
  "sfs_gettype v = vlocked (\<lambda>st. and_then (vnode_get v st) (\<lambda>st sv.
     if sfi_type (sv_i sv) = SFS_TYPE_FILE then Ok st S_IFREG
     else if sfi_type (sv_i sv) = SFS_TYPE_DIR then Ok st S_IFDIR else Panic))"

record stat =
  st_size :: nat
  st_mode :: nat
  st_nlink :: nat
  st_blocks :: nat

text \<open>\<open>VOP_GETTYPE\<close> is \<open>sfs_gettype\<close> in both tables. The fields of the structure not listed stay zero.\<close>

definition sfs_stat :: "nat \<Rightarrow> 'd vstate \<Rightarrow> ('d vstate, stat) outcome" where
  "sfs_stat v st =
     and_then (vnode_check v st) (\<lambda>st _. and_then (sfs_gettype v st) (\<lambda>st mode. and_then (vnode_get v st) (\<lambda>st sv.
       Ok st \<lparr>st_size = unat (sfi_size (sv_i sv)), st_mode = mode, st_nlink = unat (sfi_linkcount (sv_i sv)), st_blocks = 0\<rparr>)))"

definition sfs_fsync :: "nat \<Rightarrow> 'd vstate \<Rightarrow> ('d vstate, unit) outcome" where
  "sfs_fsync v = vlocked (vnode_do v sfs_sync_inode)"

definition sfs_truncate :: "nat \<Rightarrow> int \<Rightarrow> 'd vstate \<Rightarrow> ('d vstate, unit) outcome" where
  "sfs_truncate v len = vnode_do v (sfs_itrunc len)"

definition sfs_namefile :: "nat \<Rightarrow> 'd vstate \<Rightarrow> ('d vstate, unit) outcome" where
  "sfs_namefile v st = and_then (vnode_get v st) (\<lambda>st sv. kassert (sv_ino sv = SFS_ROOTDIR_INO) (Ok st ()))"

definition add_links :: "u16 \<Rightarrow> sfs_vnode \<Rightarrow> sfs_vnode" where
  "add_links n sv = sv\<lparr>sv_i := (sv_i sv)\<lparr>sfi_linkcount := sfi_linkcount (sv_i sv) + n\<rparr>, sv_dirty := True\<rparr>"

definition creat_new :: "nat \<Rightarrow> u8 list \<Rightarrow> nat option \<Rightarrow> bool \<Rightarrow> 'd vstate \<Rightarrow> ('d vstate, nat) outcome" where
  "creat_new v name mem add_ok st =
     and_then (sfs_makeobj SFS_TYPE_FILE mem add_ok st) (\<lambda>st newguy. and_then (vnode_get newguy st) (\<lambda>st nsv.
       and_then
         (on_error (vnode_do v (sfs_dir_link name (sv_ino nsv)) st) (\<lambda>st e. and_then (vnode_decref newguy st) (\<lambda>st _. Err st e)))
         (\<lambda>st _. and_then (vnode_set newguy (add_links 1) st) (\<lambda>st _. Ok st newguy))))"

definition sfs_creat :: "nat \<Rightarrow> u8 list \<Rightarrow> bool \<Rightarrow> nat option \<Rightarrow> bool \<Rightarrow> 'd vstate \<Rightarrow> ('d vstate, nat) outcome" where
  "sfs_creat v name excl mem add_ok = vlocked (\<lambda>st.
     and_then (vnode_do v (sfs_dir_findname name (- 1)) st) (\<lambda>st (found, _).
       case found of
         Some (slot, ino) \<Rightarrow> if excl then Err st EEXIST else sfs_loadvnode ino SFS_TYPE_INVAL mem add_ok st
       | None \<Rightarrow> creat_new v name mem add_ok st))"

definition sfs_link :: "nat \<Rightarrow> u8 list \<Rightarrow> nat \<Rightarrow> 'd vstate \<Rightarrow> ('d vstate, unit) outcome" where
  "sfs_link dir name file = vlocked (\<lambda>st.
     and_then (vnode_get file st) (\<lambda>st f.
       if sfi_type (sv_i f) = SFS_TYPE_DIR then Err st EINVAL
       else and_then (vnode_do dir (sfs_dir_link name (sv_ino f)) st) (\<lambda>st _. vnode_set file (add_links 1) st)))"

definition drop_link :: "nat \<Rightarrow> 'd vstate \<Rightarrow> ('d vstate, unit) outcome" where
  "drop_link v st = and_then (vnode_get v st) (\<lambda>st sv.
     kassert (sfi_linkcount (sv_i sv) > 0) (vnode_set v (add_links (- 1)) st))"

definition sfs_remove :: "nat \<Rightarrow> u8 list \<Rightarrow> nat option \<Rightarrow> bool \<Rightarrow> 'd vstate \<Rightarrow> ('d vstate, unit) outcome" where
  "sfs_remove dir name mem add_ok = vlocked (\<lambda>st.
     and_then (sfs_lookonce dir name mem add_ok st) (\<lambda>st (victim, slot).
       and_then
         (on_error (vnode_do dir (sfs_dir_unlink slot) st) (\<lambda>st e. and_then (vnode_decref victim st) (\<lambda>st _. Err st e)))
         (\<lambda>st _. and_then (drop_link victim st) (\<lambda>st _. vnode_decref victim st))))"

text \<open>
  The part of \<open>sfs_rename\<close> after the new name is linked in: unlink the old slot, or on failure take the new
  name back; the recovery path lowers the link count without setting the dirty flag, which is already set.
\<close>

definition rename_unlink :: "nat \<Rightarrow> nat \<Rightarrow> int \<Rightarrow> int \<Rightarrow> 'd vstate \<Rightarrow> ('d vstate, unit) outcome" where
  "rename_unlink d1 g1 slot1 slot2 st =
     and_then (vnode_set g1 (add_links 1) st) (\<lambda>st _.
       and_then
         (on_error (vnode_do d1 (sfs_dir_unlink slot1) st) (\<lambda>st e.
            case vnode_do d1 (sfs_dir_unlink slot2) st of
              Ok st _ \<Rightarrow>
                and_then (vnode_set g1 (\<lambda>sv. sv\<lparr>sv_i := (sv_i sv)\<lparr>sfi_linkcount := sfi_linkcount (sv_i sv) - 1\<rparr>\<rparr>) st) (\<lambda>st _. Err st e)
            | Err _ _ \<Rightarrow> Panic | Panic \<Rightarrow> Panic | Fault \<Rightarrow> Fault | Blocked \<Rightarrow> Blocked))
         (\<lambda>st _. drop_link g1 st))"

definition sfs_rename :: "nat \<Rightarrow> u8 list \<Rightarrow> nat \<Rightarrow> u8 list \<Rightarrow> nat option \<Rightarrow> bool \<Rightarrow> 'd vstate \<Rightarrow> ('d vstate, unit) outcome" where
  "sfs_rename d1 n1 d2 n2 mem add_ok = vlocked (\<lambda>st.
     and_then (vnode_get d1 st) (\<lambda>st sv.
       kassert (d1 = d2) (kassert (sv_ino sv = SFS_ROOTDIR_INO)
         (and_then (sfs_lookonce d1 n1 mem add_ok st) (\<lambda>st (g1, slot1). and_then (vnode_get g1 st) (\<lambda>st gsv.
           kassert (sfi_type (sv_i gsv) = SFS_TYPE_FILE)
             (and_then
               (on_error
                 (and_then (vnode_do d1 (sfs_dir_link n2 (sv_ino gsv)) st) (\<lambda>st slot2. rename_unlink d1 g1 slot1 slot2 st))
                 (\<lambda>st e. and_then (vnode_decref g1 st) (\<lambda>st _. Err st e)))
               (\<lambda>st _. vnode_decref g1 st))))))))"

definition sfs_lookparent :: "nat \<Rightarrow> u8 list \<Rightarrow> nat \<Rightarrow> 'd vstate \<Rightarrow> ('d vstate, nat \<times> u8 list) outcome" where
  "sfs_lookparent v path buflen = vlocked (\<lambda>st.
     and_then (vnode_get v st) (\<lambda>st sv.
       if sfi_type (sv_i sv) \<noteq> SFS_TYPE_DIR then Err st ENOTDIR
       else if length path + 1 > buflen then Err st ENAMETOOLONG
       else and_then (vnode_incref v st) (\<lambda>st _. Ok st (v, path))))"

definition sfs_lookup :: "nat \<Rightarrow> u8 list \<Rightarrow> nat option \<Rightarrow> bool \<Rightarrow> 'd vstate \<Rightarrow> ('d vstate, nat) outcome" where
  "sfs_lookup v path mem add_ok = vlocked (\<lambda>st.
     and_then (vnode_get v st) (\<lambda>st sv.
       if sfi_type (sv_i sv) \<noteq> SFS_TYPE_DIR then Err st ENOTDIR
       else and_then (sfs_lookonce v path mem add_ok st) (\<lambda>st (final, _). Ok st final)))"

definition sfs_ioctl :: "errno" where "sfs_ioctl = EINVAL"
definition sfs_mmap :: "errno" where "sfs_mmap = ENOSYS"
definition sfs_isseekable :: bool where "sfs_isseekable = True"

section \<open>The tables of operations\<close>

text \<open>
  The calls a client makes on vnodes. A \<open>VOP_\<close> call checks the vnode and goes through its table; \<open>sfs_getroot\<close> and the
  two operations on reference counts do not. The arguments \<open>mem\<close> and \<open>ok\<close> are the memory that a call may get.
\<close>

datatype vcall =
    FSOP_GETROOT "nat option" bool
  | VOP_INCREF nat
  | VOP_DECREF nat
  | VOP_EACHOPEN nat u32
  | VOP_READ nat uio
  | VOP_READLINK nat
  | VOP_GETDIRENTRY nat
  | VOP_WRITE nat uio
  | VOP_IOCTL nat
  | VOP_STAT nat
  | VOP_GETTYPE nat
  | VOP_ISSEEKABLE nat
  | VOP_FSYNC nat
  | VOP_MMAP nat
  | VOP_TRUNCATE nat int
  | VOP_NAMEFILE nat
  | VOP_CREAT nat "u8 list" bool "nat option" bool
  | VOP_SYMLINK nat
  | VOP_MKDIR nat
  | VOP_LINK nat "u8 list" nat
  | VOP_REMOVE nat "u8 list" "nat option" bool
  | VOP_RMDIR nat
  | VOP_RENAME nat "u8 list" nat "u8 list" "nat option" bool
  | VOP_LOOKUP nat "u8 list" "nat option" bool
  | VOP_LOOKPARENT nat "u8 list" nat

text \<open>What a call leaves behind, without the values it hands back.\<close>

definition result_of :: "('s, 'a) outcome \<Rightarrow> ('s, unit) outcome" where
  "result_of r = map_outcome id (\<lambda>_. ()) r"

definition returns :: "errno option \<Rightarrow> 's \<Rightarrow> ('s, unit) outcome" where
  "returns r st = (case r of None \<Rightarrow> Ok st () | Some e \<Rightarrow> Err st e)"

definition vop_by ::
    "nat \<Rightarrow> ('d vstate \<Rightarrow> ('d vstate, unit) outcome) \<Rightarrow> ('d vstate \<Rightarrow> ('d vstate, unit) outcome) \<Rightarrow> 'd vstate \<Rightarrow> ('d vstate, unit) outcome" where
  "vop_by v file dir st =
     and_then (vnode_check v st) (\<lambda>st _. and_then (vnode_get v st) (\<lambda>st sv.
       case vn_ops sv of sfs_fileops \<Rightarrow> file st | sfs_dirops \<Rightarrow> dir st))"

definition fails :: "errno \<Rightarrow> 's \<Rightarrow> ('s, unit) outcome" where
  "fails e st = Err st e"

fun vop :: "vcall \<Rightarrow> 'd vstate \<Rightarrow> ('d vstate, unit) outcome" where
  "vop (FSOP_GETROOT mem ok) st = result_of (sfs_getroot mem ok st)"
| "vop (VOP_INCREF v) st = vnode_incref v st"
| "vop (VOP_DECREF v) st = vnode_decref v st"
| "vop (VOP_EACHOPEN v flags) st = vop_by v (returns (sfs_eachopen flags)) (returns (sfs_eachopendir flags)) st"
| "vop (VOP_READ v uio) st = vop_by v (\<lambda>st. map_outcome fst id (sfs_read v (st, uio))) (fails EISDIR) st"
| "vop (VOP_READLINK v) st = vop_by v (fails ENOTDIR) (fails EINVAL) st"
| "vop (VOP_GETDIRENTRY v) st = vop_by v (fails ENOTDIR) (fails ENOSYS) st"
| "vop (VOP_WRITE v uio) st = vop_by v (\<lambda>st. map_outcome fst id (sfs_write v (st, uio))) (fails EISDIR) st"
| "vop (VOP_IOCTL v) st = vop_by v (fails sfs_ioctl) (fails sfs_ioctl) st"
| "vop (VOP_STAT v) st = vop_by v (\<lambda>st. result_of (sfs_stat v st)) (\<lambda>st. result_of (sfs_stat v st)) st"
| "vop (VOP_GETTYPE v) st = vop_by v (\<lambda>st. result_of (sfs_gettype v st)) (\<lambda>st. result_of (sfs_gettype v st)) st"
| "vop (VOP_ISSEEKABLE v) st = vop_by v (\<lambda>st. result_of (Ok st sfs_isseekable)) (\<lambda>st. result_of (Ok st sfs_isseekable)) st"
| "vop (VOP_FSYNC v) st = vop_by v (sfs_fsync v) (sfs_fsync v) st"
| "vop (VOP_MMAP v) st = vop_by v (fails sfs_mmap) (fails EISDIR) st"
| "vop (VOP_TRUNCATE v len) st = vop_by v (sfs_truncate v len) (fails EISDIR) st"
| "vop (VOP_NAMEFILE v) st = vop_by v (fails ENOTDIR) (sfs_namefile v) st"
| "vop (VOP_CREAT v name excl mem ok) st =
     vop_by v (fails ENOTDIR) (\<lambda>st. result_of (sfs_creat v name excl mem ok st)) st"
| "vop (VOP_SYMLINK v) st = vop_by v (fails ENOTDIR) (fails ENOSYS) st"
| "vop (VOP_MKDIR v) st = vop_by v (fails ENOTDIR) (fails ENOSYS) st"
| "vop (VOP_LINK v name file) st = vop_by v (fails ENOTDIR) (sfs_link v name file) st"
| "vop (VOP_REMOVE v name mem ok) st = vop_by v (fails ENOTDIR) (sfs_remove v name mem ok) st"
| "vop (VOP_RMDIR v) st = vop_by v (fails ENOTDIR) (fails ENOSYS) st"
| "vop (VOP_RENAME v n1 v2 n2 mem ok) st = vop_by v (fails ENOTDIR) (sfs_rename v n1 v2 n2 mem ok) st"
| "vop (VOP_LOOKUP v path mem ok) st = vop_by v (fails ENOTDIR) (\<lambda>st. result_of (sfs_lookup v path mem ok st)) st"
| "vop (VOP_LOOKPARENT v path buflen) st =
     vop_by v (fails ENOTDIR) (\<lambda>st. result_of (sfs_lookparent v path buflen st)) st"

end
