(* ===== verification/Sfs_Typing.thy ===== *)
theory Sfs_Typing
  imports Sfs_Vnops
begin

text \<open>
  Typing of vnodes: in every state that calls on vnodes reach from a freshly mounted volume, on any device, the table
  and the heap agree, every vnode has the operations its inode type calls for and a positive reference count,
  no inode is loaded twice, and the big lock has been released.
\<close>

section \<open>The invariant\<close>

definition typed_vnode :: "sfs_vnode \<Rightarrow> bool" where
  "typed_vnode sv \<longleftrightarrow> 1 \<le> vn_refcount sv \<and> load_ops (sv_i sv) = Some (vn_ops sv)"

definition vtyped :: "'d vstate \<Rightarrow> bool" where
  "vtyped st \<longleftrightarrow> distinct (sfs_vnodes (fst st)) \<and> dom (snd st) = set (sfs_vnodes (fst st)) \<and>
     (\<forall>v sv. snd st v = Some sv \<longrightarrow> typed_vnode sv) \<and>
     (\<forall>v w sv sw. snd st v = Some sv \<longrightarrow> snd st w = Some sw \<longrightarrow> sv_ino sv = sv_ino sw \<longrightarrow> v = w)"

text \<open>At lock depth \<open>n\<close>, with the addresses in \<open>X\<close> not in use.\<close>

definition vok :: "nat \<Rightarrow> nat set \<Rightarrow> 'd vstate \<Rightarrow> bool" where
  "vok n X st \<longleftrightarrow> vtyped st \<and> vfs_biglock_depth (fst st) = n \<and> X \<inter> set (sfs_vnodes (fst st)) = {}"

lemma vok_weaken: "vok n X st \<Longrightarrow> vok n {} st"
  by (simp add: vok_def)

lemma after_weaken: "after (vok n X) r \<Longrightarrow> after (vok n {}) r"
  by (erule after_mono) (rule vok_weaken)

lemma after_bind:
  "after P r \<Longrightarrow> (\<And>s x. P s \<Longrightarrow> r = Ok s x \<Longrightarrow> after Q (f s x)) \<Longrightarrow> (\<And>s. P s \<Longrightarrow> Q s) \<Longrightarrow> after Q (and_then r f)"
  by (cases r) auto

lemma svid_typed: "svid sv' = svid sv \<Longrightarrow> typed_vnode sv' = typed_vnode sv"
  by (simp add: svid_def typed_vnode_def load_ops_def)

lemma vok_fs: "vok n X (sfs, h) \<Longrightarrow> fsid sfs' = fsid sfs \<Longrightarrow> vok n X (sfs', h)"
  by (simp add: vok_def vtyped_def fsid_def)

lemma vok_set:
  assumes "vok n X (sfs, h)" "h v = Some sv" "typed_vnode sv'" "sv_ino sv' = sv_ino sv"
  shows "vok n X (sfs, h(v \<mapsto> sv'))"
proof -
  have "v \<in> set (sfs_vnodes sfs)" using assms(1,2) by (auto simp: vok_def vtyped_def)
  then show ?thesis using assms by (auto simp: vok_def vtyped_def split: if_splits)
qed

lemma vok_typed: "vok n X st \<Longrightarrow> snd st v = Some sv \<Longrightarrow> typed_vnode sv"
  by (simp add: vok_def vtyped_def)

lemma vok_dom: "vok n X st \<Longrightarrow> set (sfs_vnodes (fst st)) = dom (snd st)"
  by (simp add: vok_def vtyped_def)

section \<open>Accesses to the heap\<close>

lemma vnode_get_Ok: "vnode_get v st = Ok st' sv \<longleftrightarrow> st' = st \<and> snd st v = Some sv"
  by (auto simp: vnode_get_def split: option.splits)

lemma after_get:
  assumes "P st" "\<And>sv. snd st v = Some sv \<Longrightarrow> after P (f st sv)"
  shows "after P (and_then (vnode_get v st) f)"
  using assms by (auto simp: vnode_get_def split: option.splits)

lemma after_vget: "P st \<Longrightarrow> after P (vnode_get v st)"
  by (simp add: vnode_get_def split: option.splits)

lemma do_ok:
  fixes st :: "'a vstate"
  assumes f: "\<And>st c. stid st = c \<Longrightarrow> after (\<lambda>s. stid s = c) (f st)" and "vok n X st"
  shows "after (vok n X) (vnode_do v f st)"
proof -
  obtain sfs h where st: "st = (sfs, h)" by (cases st)
  show ?thesis
  proof (cases "h v")
    case (Some sv)
    have "vok n X (sfs', h(v \<mapsto> sv'))" if "stid (sfs', sv') = stid (sfs, sv)" for sfs' :: "'a sfs_fs" and sv'
    proof -
      have e: "fsid sfs' = fsid sfs" "svid sv' = svid sv" using that by (simp_all add: stid_def)
      have "typed_vnode sv'" using vok_typed [OF assms(2), of v sv] Some svid_typed [OF e(2)] by (simp add: st)
      then show ?thesis using vok_set [OF vok_fs [OF assms(2) [unfolded st] e(1)] Some] e(2) by (simp add: svid_def)
    qed
    then have "after (\<lambda>s. case s of (sfs', sv') \<Rightarrow> vok n X (sfs', h(v \<mapsto> sv'))) (f (sfs, sv))"
      using f [OF refl, of "(sfs, sv)"] by (elim after_mono) auto
    then show ?thesis using Some by (auto simp: vnode_do_def st intro!: after_map elim!: after_mono)
  qed (simp add: vnode_do_def st)
qed

lemma set_ok:
  assumes "vok n X st" "\<And>sv. snd st v = Some sv \<Longrightarrow> typed_vnode (f sv) \<and> sv_ino (f sv) = sv_ino sv"
  shows "after (vok n X) (vnode_set v f st)"
  using assms by (cases st) (auto simp: vnode_set_def vnode_do_def split: option.splits intro!: vok_set)

lemma fs_ok:
  assumes "\<And>sfs c. fsid sfs = c \<Longrightarrow> after (\<lambda>s. fsid s = c) (f sfs)" "vok n X st"
  shows "after (\<lambda>s. vok n X s \<and> snd s = snd st) (fs_do f st)"
proof -
  obtain sfs h where st: "st = (sfs, h)" by (cases st)
  show ?thesis unfolding fs_do_def st split_conv
    using vok_fs [OF assms(2) [unfolded st]] by (intro after_map after_mono [OF assms(1) [OF refl]]) simp
qed

lemma fs_vok:
  assumes "\<And>sfs c. fsid sfs = c \<Longrightarrow> after (\<lambda>s. fsid s = c) (f sfs)" "vok n X st"
  shows "after (vok n X) (fs_do f st)"
  by (rule after_mono [OF fs_ok [OF assms]]) simp_all

lemma release_ok: "vok (n + 1) Y s \<Longrightarrow> \<exists>s'. fs_do vfs_biglock_release s = Ok s' () \<and> vok n Y s'"
  by (cases s) (auto simp: vok_def vtyped_def fs_do_def vfs_biglock_release_def)

lemma vlocked_ok:
  fixes st :: "'a vstate" and f :: "'a vstate \<Rightarrow> ('a vstate, 'b) outcome"
  assumes f: "\<And>n st. vok n X st \<Longrightarrow> after (vok n Y) (f st)" and "vok n X st"
  shows "after (vok n Y) (vlocked f st)"
proof -
  obtain sfs h where st: "st = (sfs, h)" by (cases st)
  have "vok (n + 1) X (vfs_biglock_acquire sfs, h)" using assms(2) by (simp add: st vok_def vtyped_def vfs_biglock_acquire_def)
  from f [OF this] have a: "after (vok (n + 1) Y) (f (vfs_biglock_acquire sfs, h))" .
  show ?thesis
  proof (cases "f (vfs_biglock_acquire sfs, h)")
    case (Ok s x)
    then obtain s' where "fs_do vfs_biglock_release s = Ok s' ()" "vok n Y s'" using a release_ok [of n Y s] by auto
    then show ?thesis using Ok by (simp add: vlocked_def st on_error_def)
  next
    case (Err s e)
    then obtain s' where "fs_do vfs_biglock_release s = Ok s' ()" "vok n Y s'" using a release_ok [of n Y s] by auto
    then show ?thesis using Err by (simp add: vlocked_def st on_error_def)
  qed (simp_all add: vlocked_def st on_error_def)
qed

section \<open>Operations keep the invariant\<close>

lemma incref_ok: "vok n X st \<Longrightarrow> after (vok n X) (vnode_incref v st)"
  unfolding vnode_incref_def by (rule set_ok) (auto dest: vok_typed simp: typed_vnode_def)

lemma decr_ok: "vok n X st \<Longrightarrow> snd st v = Some sv \<Longrightarrow> 1 < vn_refcount sv \<Longrightarrow>
    after (vok n X) (vnode_set v (\<lambda>sv. sv\<lparr>vn_refcount := vn_refcount sv - 1\<rparr>) st)"
  by (rule set_ok) (auto dest: vok_typed simp: typed_vnode_def)

lemma typed_links [simp]:
  "typed_vnode (add_links k sv) = typed_vnode sv" "sv_ino (add_links k sv) = sv_ino sv"
  "typed_vnode (sv\<lparr>sv_i := (sv_i sv)\<lparr>sfi_linkcount := m\<rparr>\<rparr>) = typed_vnode sv"
  by (simp_all add: typed_vnode_def add_links_def load_ops_def)

lemma links_ok:
  "vok n X st \<Longrightarrow> after (vok n X) (vnode_set v (add_links k) st)"
  "vok n X st \<Longrightarrow> after (vok n X) (vnode_set v (\<lambda>sv. sv\<lparr>sv_i := (sv_i sv)\<lparr>sfi_linkcount := sfi_linkcount (sv_i sv) - k\<rparr>\<rparr>) st)"
  by (rule set_ok; auto dest: vok_typed)+

lemma check_ok: "vok n X st \<Longrightarrow> after (vok n X) (vnode_check v st)"
  unfolding vnode_check_def by (rule after_get) auto

lemma vnode_index_Ok: "vnode_index v i vs st = Ok st' j \<Longrightarrow> st' = st \<and> i \<le> j \<and> j - i < length vs \<and> vs ! (j - i) = v"
proof (induction vs arbitrary: i)
  case (Cons w vs)
  show ?case
  proof (cases "w = v")
    case False
    then have "vnode_index v (i + 1) vs st = Ok st' j" using Cons.prems by (auto simp: vnode_get_def split: option.splits)
    then have "st' = st" "i + 1 \<le> j" "j - (i + 1) < length vs" "vs ! (j - (i + 1)) = v" using Cons.IH by auto
    moreover from this have "j - i = Suc (j - (i + 1))" by simp
    ultimately show ?thesis by simp
  qed (use Cons.prems in \<open>auto simp: vnode_get_def split: option.splits\<close>)
qed simp

lemma vnode_index_after: "P st \<Longrightarrow> after P (vnode_index v i vs st)"
  by (induction vs arbitrary: i) (auto intro!: after_get)

lemma set_remove_nth: "distinct xs \<Longrightarrow> i < length xs \<Longrightarrow> set (take i xs @ drop (i + 1) xs) = set xs - {xs ! i} \<and> distinct (take i xs @ drop (i + 1) xs)"
  using id_take_nth_drop [of i xs] by (metis (no_types, lifting) Diff_insert_absorb Suc_eq_plus1 Un_insert_right distinct_append
      distinct.simps(2) disjoint_insert(1) list.simps(15) not_distinct_conv_prefix set_append UnE)

lemma reclaim_table_ok:
  assumes "vok n X st"
  shows "after (vok n X) (reclaim_table v st)"
proof -
  obtain sfs h where st: "st = (sfs, h)" by (cases st)
  let ?cut = "\<lambda>ix. sfs\<lparr>sfs_vnodes := take ix (sfs_vnodes sfs) @ drop (ix + 1) (sfs_vnodes sfs)\<rparr>"
  have clean: "after (vok n X) (vnode_cleanup v (?cut ix, h))"
    if ix: "vnode_index v 0 (sfs_vnodes sfs) (sfs, h) = Ok s ix" for s ix
  proof -
    have i: "ix < length (sfs_vnodes sfs)" "sfs_vnodes sfs ! ix = v" using vnode_index_Ok [OF ix] by auto
    have "distinct (sfs_vnodes sfs)" using assms by (simp add: st vok_def vtyped_def)
    from set_remove_nth [OF this i(1)] have r: "set (sfs_vnodes (?cut ix)) = set (sfs_vnodes sfs) - {v}" "distinct (sfs_vnodes (?cut ix))"
      using i(2) by simp_all
    have "vok n X (?cut ix, h(v := None))" using assms r unfolding vok_def vtyped_def st fst_conv snd_conv by auto
    then show ?thesis by (auto simp: vnode_cleanup_def vnode_get_def kassert_def split: option.splits)
  qed
  show ?thesis unfolding reclaim_table_def st fst_conv
  proof (rule after_then)
    show "after (vok n X) (vnode_index v 0 (sfs_vnodes sfs) (sfs, h))" by (rule vnode_index_after) (use assms st in simp)
    fix s ix assume ix: "vnode_index v 0 (sfs_vnodes sfs) (sfs, h) = Ok s ix"
    then have "s = (sfs, h)" using vnode_index_Ok by blast
    then show "after (vok n X) ((\<lambda>(sfs, h) ix. vnode_cleanup v
        (sfs\<lparr>sfs_vnodes := take ix (sfs_vnodes sfs) @ drop (ix + 1) (sfs_vnodes sfs)\<rparr>, h)) s ix)" using clean [OF ix] by simp
  qed
qed

lemmas do_oks = do_ok [OF itrunc_frame] do_ok [OF sync_inode_frame] do_ok [OF findname_frame] do_ok [OF link_frame] do_ok [OF unlink_frame]
lemmas fs_oks = fs_vok [OF bfree_frame] fs_vok [OF balloc_frame] fs_vok [OF bused_frame]

lemma reclaim_ok: "vok n X (st :: 'a vstate) \<Longrightarrow> after (vok n X) (sfs_reclaim v st)"
  unfolding sfs_reclaim_def
proof (rule vlocked_ok, rule after_get)
  fix n sv and st :: "'a vstate" assume st: "vok n X st" "snd st v = Some sv"
  show "after (vok n X) (if vn_refcount sv \<noteq> 1
       then kassert (vn_refcount sv > 1)
              (and_then (vnode_set v (\<lambda>sv. sv\<lparr>vn_refcount := vn_refcount sv - 1\<rparr>) st) (\<lambda>st _. Err st EBUSY))
       else
         and_then (if sfi_linkcount (sv_i sv) = 0 then vnode_do v (sfs_itrunc 0) st else Ok st ()) (\<lambda>st _.
           and_then (vnode_do v sfs_sync_inode st) (\<lambda>st _.
             and_then (vnode_get v st) (\<lambda>st sv.
               and_then (if sfi_linkcount (sv_i sv) = 0 then fs_do (sfs_bfree (sv_ino sv)) st else Ok st ())
                 (\<lambda>st _. reclaim_table v st)))))"
    using st by (intro after_if after_kassert after_then_any after_get decr_ok reclaim_table_ok do_oks fs_oks) simp_all
qed

lemma decref_ok: "vok n X st \<Longrightarrow> after (vok n X) (vnode_decref v st)"
  unfolding vnode_decref_def
  by (intro after_get after_kassert after_if after_then_any after_on_error decr_ok check_ok reclaim_ok) simp_all

text \<open>Loading an inode: the table has no other vnode for it.\<close>

lemma find_after:
  "vok n X st \<Longrightarrow> after (\<lambda>s. vok n X s \<and> snd s = snd st) (vnode_find ino vs st)"
proof (induction vs arbitrary: st)
  case (Cons v vs)
  show ?case unfolding vnode_find.simps
  proof (rule after_get)
    fix sv :: sfs_vnode
    have b: "after (\<lambda>s. vok n X s \<and> snd s = snd st) (fs_do (sfs_bused (sv_ino sv)) st)"
      by (rule fs_ok [OF bused_frame]) (use Cons.prems in auto)
    show "after (\<lambda>s. vok n X s \<and> snd s = snd st) (and_then (fs_do (sfs_bused (sv_ino sv)) st) (\<lambda>st used.
        if \<not> used then Panic else if sv_ino sv = ino then Ok st (Some v) else vnode_find ino vs st))"
      by (rule after_then_any [OF b]) (use Cons.IH in auto)
  qed (use Cons.prems in simp)
qed simp

lemma fs_do_heap: "fs_do f st = Ok s x \<Longrightarrow> snd s = snd st"
  by (cases st; cases "f (fst st)") (auto simp: fs_do_def)

lemma find_None: "vnode_find ino vs st = Ok s None \<Longrightarrow> v \<in> set vs \<Longrightarrow> \<exists>sv. snd st v = Some sv \<and> sv_ino sv \<noteq> ino"
proof (induction vs arbitrary: st)
  case (Cons w vs)
  obtain sv where sv: "snd st w = Some sv" using Cons.prems(1) by (auto simp: vnode_get_def split: option.splits)
  then obtain st' where st': "fs_do (sfs_bused (sv_ino sv)) st = Ok st' True" "sv_ino sv \<noteq> ino" "vnode_find ino vs st' = Ok s None"
    using Cons.prems(1) by (auto simp: vnode_get_def and_then_Ok_iff split: if_splits)
  then show ?case using Cons.prems(2) Cons.IH [OF st'(3)] sv fs_do_heap [OF st'(1)] by auto
qed simp

lemma load_inode_ok:
  assumes st: "vok n {v} st" and new: "\<forall>w \<in> set (sfs_vnodes (fst st)). \<exists>sv. snd st w = Some sv \<and> sv_ino sv \<noteq> ino"
  shows "after (vok n {}) (load_inode ino ty v ok di st)"
proof -
  obtain sfs h where s: "st = (sfs, h)" by (cases st)
  have f: "v \<notin> set (sfs_vnodes sfs)" "dom h = set (sfs_vnodes sfs)" "vok n {} (sfs, h)"
    using st by (auto simp: s vok_def vtyped_def)
  have "vok n {} (sfs\<lparr>sfs_vnodes := sfs_vnodes sfs @ [v]\<rparr>, h(v \<mapsto> vnode_init ops d ino b))" if "load_ops d = Some ops" for ops d b
  proof -
    have t: "typed_vnode (vnode_init ops d ino b)" "sv_ino (vnode_init ops d ino b) = ino"
      using that by (simp_all add: typed_vnode_def vnode_init_def)
    have i: "sv_ino sw \<noteq> ino" if "h w = Some sw" for w sw
    proof -
      have "w \<in> set (sfs_vnodes sfs)" using f(2) that by blast
      then show ?thesis using new that by (auto simp: s)
    qed
    show ?thesis using f t i unfolding vok_def vtyped_def fst_conv snd_conv by auto
  qed
  then show ?thesis using f(3) by (auto simp: load_inode_def s Let_def kassert_def split: option.splits)
qed

lemma read_inode_ok:
  fixes st :: "'a vstate"
  assumes st: "vok n {v} st" and new: "\<forall>w \<in> dom (snd st). \<exists>sv. snd st w = Some sv \<and> sv_ino sv \<noteq> ino"
  shows "after (vok n {}) (and_then (fs_do (sfs_bused ino) st) (\<lambda>st used.
    if \<not> used then Panic
    else and_then (fs_do (sfs_readblock ino (replicate SFS_BLOCKSIZE 0)) st) (\<lambda>st bytes.
      load_inode ino ty v ok (load_dinode bytes) st)))"
proof (rule after_bind [OF fs_ok [OF bused_frame st]])
  fix s :: "'a vstate" and used assume s: "vok n {v} s \<and> snd s = snd st"
  have "after (vok n {}) (and_then (fs_do (sfs_readblock ino (replicate SFS_BLOCKSIZE 0)) s) (\<lambda>st bytes.
      load_inode ino ty v ok (load_dinode bytes) st))"
  proof (rule after_bind [OF fs_ok [OF readblock_frame]])
    show "vok n {v} s" using s by simp
    fix s' :: "'a vstate" and bytes assume s': "vok n {v} s' \<and> snd s' = snd s"
    then have d: "set (sfs_vnodes (fst s')) = dom (snd s')" using vok_dom by blast
    have h: "snd s' = snd st" "vok n {v} s'" using s s' by simp_all
    show "after (vok n {}) (load_inode ino ty v ok (load_dinode bytes) s')"
      by (rule load_inode_ok [OF h(2)]) (use new in \<open>simp only: d h(1)\<close>)
  qed (simp_all add: vok_def)
  then show "after (vok n {}) (if \<not> used then Panic
    else and_then (fs_do (sfs_readblock ino (replicate SFS_BLOCKSIZE 0)) s) (\<lambda>st bytes.
      load_inode ino ty v ok (load_dinode bytes) st))" by simp
qed (simp_all add: vok_def)

lemma loadvnode_ok:
  assumes st: "vok n (set_option mem) st"
  shows "after (vok n {}) (sfs_loadvnode ino ty mem ok st)"
  unfolding sfs_loadvnode_def
proof (rule after_bind [OF find_after [OF st]])
  fix s found assume s: "vok n (set_option mem) s \<and> snd s = snd st" and f: "vnode_find ino (sfs_vnodes (fst st)) st = Ok s found"
  have d: "dom (snd st) = set (sfs_vnodes (fst st))" using st by (simp add: vok_def vtyped_def)
  have "after (vok n {}) (and_then (fs_do (sfs_bused ino) s) (\<lambda>st used.
      if \<not> used then Panic
      else and_then (fs_do (sfs_readblock ino (replicate SFS_BLOCKSIZE 0)) st) (\<lambda>st bytes.
        load_inode ino ty v ok (load_dinode bytes) st)))" if "found = None" "mem = Some v" for v
  proof (rule read_inode_ok)
    show "vok n {v} s" using s that(2) by simp
    have "snd s = snd st" using s by simp
    then show "\<forall>w \<in> dom (snd s). \<exists>sv. snd s w = Some sv \<and> sv_ino sv \<noteq> ino"
      using find_None [OF f [unfolded that(1)]] d by (simp only: Ball_def) blast
  qed
  then show "after (vok n {}) (case found of
       Some v \<Rightarrow> kassert (ty = SFS_TYPE_INVAL) (and_then (vnode_incref v s) (\<lambda>st _. Ok st v))
     | None \<Rightarrow>
         (case mem of
            None \<Rightarrow> Err s ENOMEM
          | Some v \<Rightarrow>
              and_then (fs_do (sfs_bused ino) s) (\<lambda>st used.
                if \<not> used then Panic
                else and_then (fs_do (sfs_readblock ino (replicate SFS_BLOCKSIZE 0)) st) (\<lambda>st bytes.
                  load_inode ino ty v ok (load_dinode bytes) st))))"
    using s vok_weaken [of n _ s] by (auto split: option.splits intro!: after_kassert after_then_any incref_ok)
qed (simp_all add: vok_def)

lemma makeobj_ok:
  fixes st :: "'a vstate"
  assumes st: "vok n (set_option mem) st"
  shows "after (vok n {}) (sfs_makeobj ty mem ok st)"
  unfolding sfs_makeobj_def
proof (rule after_bind [OF fs_vok [OF balloc_frame st]])
  fix s :: "'a vstate" and ino assume "vok n (set_option mem) s"
  then show "after (vok n {}) (on_error (sfs_loadvnode ino ty mem ok s) (\<lambda>st e. and_then (fs_do (sfs_bfree ino) st) (\<lambda>st _. Err st e)))"
    by (intro after_on_error loadvnode_ok after_then_any fs_oks) simp_all
qed (simp_all add: vok_def)

lemma getroot_ok: "vok n (set_option mem) st \<Longrightarrow> after (vok n {}) (sfs_getroot mem ok st)"
  unfolding sfs_getroot_def by (rule vlocked_ok [where X = "set_option mem"]) (auto intro!: after_then_any loadvnode_ok after_vget)

lemma lookonce_ok:
  fixes st :: "'a vstate"
  assumes st: "vok n (set_option mem) st"
  shows "after (vok n {}) (sfs_lookonce v name mem ok st)"
  unfolding sfs_lookonce_def
proof (rule after_bind [OF do_ok [OF findname_frame st]])
  fix s :: "'a vstate" and r :: "(int \<times> u32) option \<times> int" assume s: "vok n (set_option mem) s"
  have l: "after (vok n {}) (and_then (sfs_loadvnode ino SFS_TYPE_INVAL mem ok s) (\<lambda>st v.
      and_then (vnode_get v st) (\<lambda>st sv. if sfi_linkcount (sv_i sv) = 0 then Panic else Ok st (v, slot))))" for ino and slot :: int
    using s by (intro after_then_any loadvnode_ok after_vget after_if) simp_all
  show "after (vok n {}) ((\<lambda>(found, _). case found of
         None \<Rightarrow> Err s ENOENT
       | Some (slot, ino) \<Rightarrow>
           and_then (sfs_loadvnode ino SFS_TYPE_INVAL mem ok s) (\<lambda>st v.
             and_then (vnode_get v st) (\<lambda>st sv. if sfi_linkcount (sv_i sv) = 0 then Panic else Ok st (v, slot)))) r)"
    using l vok_weaken [OF s] by (auto split: option.splits prod.splits)
qed (simp_all add: vok_def)

section \<open>The vnode operations\<close>

lemma io_frame_ok:
  assumes "vok n X st"
  shows "after (\<lambda>s. vok n X (fst s)) (vnode_io v (st, uio))"
proof -
  obtain sfs h where st: "st = (sfs, h)" by (cases st)
  show ?thesis
  proof (cases "h v")
    case (Some sv)
    have "\<exists>s. vfs_biglock_release sfs' = Ok s () \<and> vok n X (s, h(v \<mapsto> sv'))"
      if "stid (sfs', sv') = stid (vfs_biglock_acquire sfs, sv)" for sfs' :: "'a sfs_fs" and sv'
    proof -
      have e: "sfs_vnodes sfs' = sfs_vnodes sfs" "vfs_biglock_depth sfs' = n + 1" "svid sv' = svid sv"
        using that assms by (auto simp: stid_def fsid_def vfs_biglock_acquire_def st vok_def)
      have t: "typed_vnode sv'" "sv_ino sv' = sv_ino sv"
        using vok_typed [OF assms, of v sv] Some svid_typed [OF e(3)] e(3) by (simp_all add: st svid_def)
      have "fsid (sfs'\<lparr>vfs_biglock_depth := n\<rparr>) = fsid sfs" using e assms by (simp add: fsid_def st vok_def)
      then have "vok n X (sfs'\<lparr>vfs_biglock_depth := n\<rparr>, h(v \<mapsto> sv'))"
        using vok_set [OF vok_fs [OF assms [unfolded st]] Some t] by blast
      then show ?thesis using e(2) by (simp add: vfs_biglock_release_def)
    qed
    moreover have "after (\<lambda>s. stid (fst s) = stid (vfs_biglock_acquire sfs, sv)) (sfs_io ((vfs_biglock_acquire sfs, sv), uio))"
      by (rule io_frame) simp
    ultimately show ?thesis using Some
      by (cases "sfs_io ((vfs_biglock_acquire sfs, sv), uio)") (force simp: vnode_io_def st)+
  qed (simp add: vnode_io_def st)
qed

lemma drop_link_ok: "vok n X st \<Longrightarrow> after (vok n X) (drop_link v st)"
  unfolding drop_link_def by (intro after_get after_kassert links_ok) simp_all

lemma creat_new_ok:
  assumes st: "vok n (set_option mem) st"
  shows "after (vok n {}) (creat_new v name mem ok st)"
  unfolding creat_new_def
  by (rule after_then_any [OF makeobj_ok [OF st]])
    (auto intro!: after_vget after_then_any after_on_error do_oks decref_ok links_ok)

lemma creat_ok: "vok n (set_option mem) (st :: 'a vstate) \<Longrightarrow> after (vok n {}) (sfs_creat v name excl mem ok st)"
  unfolding sfs_creat_def
proof (rule vlocked_ok [where X = "set_option mem"])
  fix n and st :: "'a vstate" assume st: "vok n (set_option mem) st"
  show "after (vok n {}) (and_then (vnode_do v (sfs_dir_findname name (- 1)) st) (\<lambda>st (found, _).
       case found of
         Some (slot, ino) \<Rightarrow> if excl then Err st EEXIST else sfs_loadvnode ino SFS_TYPE_INVAL mem ok st
       | None \<Rightarrow> creat_new v name mem ok st))"
  proof (rule after_bind [OF do_ok [OF findname_frame st]])
    fix s :: "'a vstate" and r :: "(int \<times> u32) option \<times> int" assume s: "vok n (set_option mem) s"
    show "after (vok n {}) ((\<lambda>(found, _). case found of
         Some (slot, ino) \<Rightarrow> if excl then Err s EEXIST else sfs_loadvnode ino SFS_TYPE_INVAL mem ok s
       | None \<Rightarrow> creat_new v name mem ok s) r)"
      using loadvnode_ok [OF s] creat_new_ok [OF s] vok_weaken [OF s] by (auto split: option.splits prod.splits)
  qed (simp_all add: vok_def)
qed

lemma link_ok: "vok n X st \<Longrightarrow> after (vok n X) (sfs_link v name w st)"
  unfolding sfs_link_def
  by (rule vlocked_ok) (auto intro!: after_vget after_if after_then_any do_oks links_ok)

lemma remove_ok: "vok n (set_option mem) st \<Longrightarrow> after (vok n {}) (sfs_remove v name mem ok st)"
  unfolding sfs_remove_def
  by (rule vlocked_ok [where X = "set_option mem"], rule after_then_any [OF lookonce_ok])
    (auto intro!: after_then_any after_on_error do_oks decref_ok drop_link_ok)

lemma rename_unlink_ok: "vok n X st \<Longrightarrow> after (vok n X) (rename_unlink d g slot1 slot2 st)"
  unfolding rename_unlink_def
proof (rule after_then_any [OF links_ok(1)])
  fix s :: "'a vstate" assume s: "vok n X s"
  have undo: "after (vok n X) (case vnode_do d (sfs_dir_unlink slot2) s of
      Ok st _ \<Rightarrow> and_then (vnode_set g (\<lambda>sv. sv\<lparr>sv_i := (sv_i sv)\<lparr>sfi_linkcount := sfi_linkcount (sv_i sv) - 1\<rparr>\<rparr>) st) (\<lambda>st _. Err st e)
    | Err _ _ \<Rightarrow> Panic | Panic \<Rightarrow> Panic | Fault \<Rightarrow> Fault | Blocked \<Rightarrow> Blocked)"
    if "vok n X s" for s :: "'a vstate" and e
    using do_ok [where f = "sfs_dir_unlink slot2" and v = d, OF unlink_frame that] by (auto split: outcome.splits intro!: after_then_any links_ok)
  show "after (vok n X) (and_then
      (on_error (vnode_do d (sfs_dir_unlink slot1) s) (\<lambda>st e.
         case vnode_do d (sfs_dir_unlink slot2) st of
           Ok st _ \<Rightarrow> and_then (vnode_set g (\<lambda>sv. sv\<lparr>sv_i := (sv_i sv)\<lparr>sfi_linkcount := sfi_linkcount (sv_i sv) - 1\<rparr>\<rparr>) st) (\<lambda>st _. Err st e)
         | Err _ _ \<Rightarrow> Panic | Panic \<Rightarrow> Panic | Fault \<Rightarrow> Fault | Blocked \<Rightarrow> Blocked))
      (\<lambda>st _. drop_link g st))"
    using s by (intro after_then_any after_on_error undo do_oks drop_link_ok) simp_all
qed

lemma rename_body_ok:
  assumes "vok n (set_option mem) st"
  shows "after (vok n {}) (and_then (sfs_lookonce d n1 mem ok st) (\<lambda>st (g1, slot1). and_then (vnode_get g1 st) (\<lambda>st gsv.
    kassert (sfi_type (sv_i gsv) = SFS_TYPE_FILE)
      (and_then
        (on_error
          (and_then (vnode_do d (sfs_dir_link n2 (sv_ino gsv)) st) (\<lambda>st slot2. rename_unlink d g1 slot1 slot2 st))
          (\<lambda>st e. and_then (vnode_decref g1 st) (\<lambda>st _. Err st e)))
        (\<lambda>st _. vnode_decref g1 st)))))"
  by (rule after_then_any [OF lookonce_ok [OF assms]])
    (auto intro!: after_vget after_kassert after_then_any after_on_error do_oks rename_unlink_ok decref_ok)

lemma rename_ok: "vok n (set_option mem) st \<Longrightarrow> after (vok n {}) (sfs_rename d n1 d2 n2 mem ok st)"
  unfolding sfs_rename_def
proof (rule vlocked_ok [where X = "set_option mem"])
  fix n and st :: "'a vstate" assume st: "vok n (set_option mem) st"
  show "after (vok n {}) (and_then (vnode_get d st) (\<lambda>st sv.
       kassert (d = d2) (kassert (sv_ino sv = SFS_ROOTDIR_INO)
         (and_then (sfs_lookonce d n1 mem ok st) (\<lambda>st (g1, slot1). and_then (vnode_get g1 st) (\<lambda>st gsv.
           kassert (sfi_type (sv_i gsv) = SFS_TYPE_FILE)
             (and_then
               (on_error
                 (and_then (vnode_do d (sfs_dir_link n2 (sv_ino gsv)) st) (\<lambda>st slot2. rename_unlink d g1 slot1 slot2 st))
                 (\<lambda>st e. and_then (vnode_decref g1 st) (\<lambda>st _. Err st e)))
               (\<lambda>st _. vnode_decref g1 st))))))))"
    by (rule after_get) (use vok_weaken [OF st] in simp, intro after_kassert rename_body_ok st)
qed

lemma lookparent_ok: "vok n X st \<Longrightarrow> after (vok n X) (sfs_lookparent v path m st)"
  unfolding sfs_lookparent_def by (rule vlocked_ok) (auto intro!: after_then_any after_vget after_if incref_ok)

lemma lookup_ok: "vok n (set_option mem) st \<Longrightarrow> after (vok n {}) (sfs_lookup v path mem ok st)"
  unfolding sfs_lookup_def
proof (rule vlocked_ok [where X = "set_option mem"])
  fix n and st :: "'a vstate" assume st: "vok n (set_option mem) st"
  have "after (vok n {}) (and_then (sfs_lookonce v path mem ok st) (\<lambda>st (final, _). Ok st final))"
    by (rule after_then_any [OF lookonce_ok [OF st]]) auto
  then show "after (vok n {}) (and_then (vnode_get v st) (\<lambda>st sv.
       if sfi_type (sv_i sv) \<noteq> SFS_TYPE_DIR then Err st ENOTDIR
       else and_then (sfs_lookonce v path mem ok st) (\<lambda>st (final, _). Ok st final)))"
    by (intro after_get after_if) (use vok_weaken [OF st] in simp_all)
qed

lemma gettype_ok: "vok n X st \<Longrightarrow> after (vok n X) (sfs_gettype v st)"
  unfolding sfs_gettype_def by (rule vlocked_ok) (auto intro!: after_then_any after_vget after_if)

lemma stat_ok: "vok n X st \<Longrightarrow> after (vok n X) (sfs_stat v st)"
  unfolding sfs_stat_def by (auto intro!: after_then_any check_ok gettype_ok after_vget)

lemma fsync_ok: "vok n X st \<Longrightarrow> after (vok n X) (sfs_fsync v st)"
  unfolding sfs_fsync_def by (rule vlocked_ok) (auto intro!: do_oks)

lemma namefile_ok: "vok n X st \<Longrightarrow> after (vok n X) (sfs_namefile v st)"
  unfolding sfs_namefile_def by (auto intro!: after_then_any after_vget after_kassert)

lemma io_call_ok:
  assumes "vok n X st"
  shows "after (vok n X) (map_outcome fst g (sfs_read v (st, uio)))" "after (vok n X) (map_outcome fst g (sfs_write v (st, uio)))"
  unfolding sfs_read_def sfs_write_def using assms by (intro after_map after_kassert io_frame_ok; simp)+

section \<open>Sequences of calls\<close>

text \<open>The memory a call may be given: \<open>kmalloc\<close> hands out memory that is not in use.\<close>

fun call_mem :: "vcall \<Rightarrow> nat set" where
  "call_mem (FSOP_GETROOT mem ok) = set_option mem"
| "call_mem (VOP_CREAT v name excl mem ok) = set_option mem"
| "call_mem (VOP_REMOVE v name mem ok) = set_option mem"
| "call_mem (VOP_RENAME v n1 v2 n2 mem ok) = set_option mem"
| "call_mem (VOP_LOOKUP v path mem ok) = set_option mem"
| "call_mem _ = {}"

lemma after_result: "after P r \<Longrightarrow> after P (result_of r)"
  unfolding result_of_def by (rule after_map) simp

lemma vop_by_ok:
  assumes "vok n X st" "after (vok n {}) (f st)" "after (vok n {}) (g st)"
  shows "after (vok n {}) (vop_by v f g st)"
  using assms(2,3) by (auto simp: vop_by_def vnode_check_def vnode_get_def split: option.splits sfs_ops.splits)

lemma returns_ok: "P st \<Longrightarrow> after P (returns r st)" "P st \<Longrightarrow> after P (fails e st)"
  by (auto simp: returns_def fails_def split: option.splits)

lemma vop_ok:
  assumes st: "vok n (call_mem c) st"
  shows "after (vok n {}) (vop c st)"
proof -
  note w = vok_weaken [OF st]
  show ?thesis using st w
    by (cases c) (auto intro!: vop_by_ok after_result returns_ok getroot_ok incref_ok decref_ok io_call_ok stat_ok gettype_ok fsync_ok
        do_oks namefile_ok creat_ok link_ok remove_ok rename_ok lookup_ok lookparent_ok simp: sfs_truncate_def)
qed

inductive vreach :: "'d vstate \<Rightarrow> bool" where
  mounted: "vreach (sfs, Map.empty)" if "sfs_vnodes sfs = []" "vfs_biglock_depth sfs = 0"
| returned: "vreach st'" if "vreach st" "call_mem c \<inter> dom (snd st) = {}" "vop c st = Ok st' ()"
| failed: "vreach st'" if "vreach st" "call_mem c \<inter> dom (snd st) = {}" "vop c st = Err st' e"

lemma vreach_ok: "vreach st \<Longrightarrow> vok 0 {} st"
proof (induction rule: vreach.induct)
  case (mounted sfs)
  then show ?case by (simp add: vok_def vtyped_def)
next
  case (returned st c st')
  then have "vok 0 (call_mem c) st" using vok_dom [of 0 "{}" st] by (simp add: vok_def)
  then show ?case using vop_ok [of 0 c st] returned by simp
next
  case (failed st c st' e)
  then have "vok 0 (call_mem c) st" using vok_dom [of 0 "{}" st] by (simp add: vok_def)
  then show ?case using vop_ok [of 0 c st] failed by simp
qed

lemma gettype_value:
  assumes "snd st v = Some sv" "typed_vnode sv"
  shows "sfs_gettype v st = Ok st (if vn_ops sv = sfs_dirops then S_IFDIR else S_IFREG)"
proof -
  have "(fst st)\<lparr>vfs_biglock_depth := vfs_biglock_depth (fst st)\<rparr> = fst st" by simp
  then show ?thesis using assms
    by (cases st) (auto simp: sfs_gettype_def vlocked_def vnode_get_def fs_do_def on_error_def vfs_biglock_acquire_def
        vfs_biglock_release_def typed_vnode_def load_ops_def SFS_TYPE_FILE_def SFS_TYPE_DIR_def split: if_splits)
qed

text \<open>C40. Vnodes are well typed. In every state reached from a freshly mounted volume, on any device, by any sequence of
  calls that return, with or without an error, where memory handed out is not in use: the vnodes in the heap are exactly those in
  the volume's table, each once; each has the table of operations that its inode type calls for, so that directory
  operations run on directories only and asking for the type gives it and never panics; each has a positive
  reference count; no two vnodes have the same inode; and the big lock has been released on every path.\<close>

theorem vnodes_typed:
  assumes "vreach st"
  shows "distinct (sfs_vnodes (fst st)) \<and> dom (snd st) = set (sfs_vnodes (fst st)) \<and> vfs_biglock_depth (fst st) = 0 \<and>
    (\<forall>v sv. snd st v = Some sv \<longrightarrow> load_ops (sv_i sv) = Some (vn_ops sv) \<and> 1 \<le> vn_refcount sv \<and>
      sfs_gettype v st = Ok st (if vn_ops sv = sfs_dirops then S_IFDIR else S_IFREG)) \<and>
    (\<forall>v w sv sw. snd st v = Some sv \<longrightarrow> snd st w = Some sw \<longrightarrow> sv_ino sv = sv_ino sw \<longrightarrow> v = w)"
proof -
  have ok: "vok 0 {} st" by (rule vreach_ok [OF assms])
  then have t: "distinct (sfs_vnodes (fst st))" "dom (snd st) = set (sfs_vnodes (fst st))" "vfs_biglock_depth (fst st) = 0"
      "\<And>v w sv sw. snd st v = Some sv \<Longrightarrow> snd st w = Some sw \<Longrightarrow> sv_ino sv = sv_ino sw \<Longrightarrow> v = w"
    unfolding vok_def vtyped_def by blast+
  have "load_ops (sv_i sv) = Some (vn_ops sv) \<and> 1 \<le> vn_refcount sv \<and>
      sfs_gettype v st = Ok st (if vn_ops sv = sfs_dirops then S_IFDIR else S_IFREG)" if "snd st v = Some sv" for v sv
    using gettype_value [OF that vok_typed [OF ok that]] vok_typed [OF ok that] by (simp add: typed_vnode_def)
  then show ?thesis using t by blast
qed

text \<open>
  A volume on a device that delivers the inode of a root directory for every block; mounting it and asking for the root
  loads the inode.
\<close>

definition root_inode :: sfs_dinode where
  "root_inode = \<lparr>sfi_size = 0, sfi_type = SFS_TYPE_DIR, sfi_linkcount = 1, sfi_direct = replicate 15 0, sfi_indirect = 0, sfi_waste = replicate 110 0\<rparr>"

definition rom_io :: "unit devop_io" where
  "rom_io as d u = map_outcome (\<lambda>u. (d, u)) (\<lambda>_. ()) (uiomove as (store_dinode root_inode) u)"

definition rom_volume :: "unit sfs_fs" where
  "rom_volume =
     \<lparr>sfs_sb = \<lparr>sb_magic = SFS_MAGIC, sb_nblocks = 16, sb_volname = replicate 32 0, sb_reserved = replicate 118 0\<rparr>,
      sfs_superdirty = False, sfs_device = \<lparr>d_io = rom_io, d_blocks = 16, d_blocksize = 512, d_data = ()\<rparr>,
      sfs_vnodes = [], sfs_freemap = \<lparr>nbits = 4096, bm_v = [127, 0] @ replicate 510 255\<rparr>, sfs_freemapdirty = False,
      vfs_biglock_depth = 0, proc_as = None\<rparr>"

definition root_state :: "unit vstate" where
  "root_state = (rom_volume\<lparr>sfs_vnodes := [7]\<rparr>, [7 \<mapsto> vnode_init sfs_dirops root_inode 1 False])"

lemma rom_read:
  assumes "sfs_device sfs = sfs_device rom_volume" "0 < vfs_biglock_depth sfs"
  shows "sfs_readblock b (replicate SFS_BLOCKSIZE 0) sfs = Ok sfs (store_dinode root_inode)"
proof -
  let ?bs = "store_dinode root_inode" and ?u = "sfsuio (replicate SFS_BLOCKSIZE 0) b UIO_READ"
  have wf: "dinode_wf root_inode" by (simp add: root_inode_def dinode_wf_def sfs_sizes)
  have len: "length ?bs = SFS_BLOCKSIZE" using length_store_dinode [OF wf] by (simp add: sfs_sizes)
  have bu: "block_uio (proc_as sfs) (unat b) ?u" by (rule block_uio_sfsuio) simp
  have u: "uio_ok ?u" "uio_space_ok (proc_as sfs) ?u" "length ?bs \<le> uio_resid ?u"
    using bu len by (simp_all add: block_uio_def sfs_sizes)
  have rw: "uio_rw ?u = UIO_READ" "uio_ahead ?u = replicate SFS_BLOCKSIZE 0" "uio_got ?u = []" by (simp_all add: sfsuio_def)
  obtain u' where m: "uiomove (proc_as sfs) ?bs ?u = Ok u' ?bs" "uio_after (length ?bs) ?bs ?u u'"
    using uiomove_ok [OF u] rw(1) by (auto simp: uio_bytes_def)
  have "DEVOP_IO (sfs, ?u) = Ok (sfs, u') ()" using m(1) assms(1)
    by (simp add: DEVOP_IO_def rom_io_def rom_volume_def set_disk_def)
  then have "sfs_rwblock (sfs, ?u) = Ok (sfs, u') ()" using assms(2)
    by (subst sfs_rwblock_def) (simp add: sfs_rwblock_try.simps vfs_biglock_do_i_hold_def)
  then show ?thesis using uio_afterD(2,3) [OF m(2)] rw len by (simp add: sfs_readblock_def)
qed

lemma rom_getroot: "vop (FSOP_GETROOT (Some 7) True) (rom_volume, Map.empty) = Ok root_state ()"
proof -
  let ?sfs = "vfs_biglock_acquire rom_volume"
  have wf: "dinode_wf root_inode" by (simp add: root_inode_def dinode_wf_def sfs_sizes)
  have f: "sfs_vnodes ?sfs = []" "sfs_device ?sfs = sfs_device rom_volume" "0 < vfs_biglock_depth ?sfs"
    by (simp_all add: vfs_biglock_acquire_def) (simp add: rom_volume_def)
  have tr: "bitmap_translate 1 = (0, 2)" by code_simp
  have lt: "\<not> (16 :: u32) \<le> 1" by (simp add: word_le_nat_alt)
  have b: "sfs_bused 1 ?sfs = Ok ?sfs True"
    using tr lt by (simp add: sfs_bused_def vfs_biglock_acquire_def rom_volume_def bitmap_isset_def set_freemap_def)
  have t: "sfi_type root_inode = SFS_TYPE_DIR" by (simp add: root_inode_def)
  have "sfs_loadvnode SFS_ROOTDIR_INO SFS_TYPE_INVAL (Some 7) True (?sfs, Map.empty) =
      Ok (?sfs\<lparr>sfs_vnodes := [7]\<rparr>, [7 \<mapsto> vnode_init sfs_dirops root_inode 1 False]) 7"
    using rom_read [OF f(2,3)] b f(1) t load_store_dinode [OF wf]
    by (simp add: sfs_loadvnode_def SFS_ROOTDIR_INO_def fs_do_def load_inode_def load_ops_def SFS_TYPE_DIR_def SFS_TYPE_FILE_def)
  then show ?thesis using t
    by (simp add: sfs_getroot_def vlocked_def vnode_get_def result_of_def root_state_def on_error_def fs_do_def vnode_init_def
        vfs_biglock_acquire_def vfs_biglock_release_def)
qed

lemma vnodes_typed_witness:
  "distinct (sfs_vnodes (fst root_state)) \<and> sfs_gettype 7 root_state = Ok root_state S_IFDIR"
proof -
  have "vreach (rom_volume, Map.empty)" by (rule vreach.mounted) (simp_all add: rom_volume_def)
  then have r: "vreach root_state" by (rule vreach.returned [OF _ _ rom_getroot]) simp
  have v: "snd root_state 7 = Some (vnode_init sfs_dirops root_inode 1 False)" by (simp add: root_state_def)
  show ?thesis using vnodes_typed [OF r] v by (auto simp: vnode_init_def)
qed

end
