(* ===== verification/Spec2Isabelle.thy ===== *)
theory Spec2Isabelle
  imports Bitmap Threadlist Kern_Array Bswap Timespec Kernel_Runs Qdivrem_Correct Libc_Mem Printf Synch Uio Sfs_Typing
begin

text \<open>
  \<^bold>\<open>A verification of the OS/161 kernel and its support libraries.\<close>

  The program is a small multiprocessor kernel for a 32-bit big-endian MIPS machine, with the C
  library it shares with its user programs. Paths below are relative to \<open>src/src\<close>.

  \<^bold>\<open>How the code is represented.\<close> A routine is a function on an explicit state. A routine that can
  fail returns an \<open>outcome\<close> (theory \<open>Prelude\<close>): \<open>Ok\<close> with the new state and the result, \<open>Err\<close> with the state
  it leaves and the error code, \<open>Panic\<close> for a failed assertion or a call of \<open>panic\<close>, \<open>Fault\<close> for an access
  that C leaves undefined (null pointer, index out of range), and \<open>Blocked\<close> for a spin on a lock that
  another processor holds. Machine integers are words of their width. The result of an allocation is an
  argument. Loops are structural recursions or functions with a termination measure; a loop that may run
  forever is a partial function into \<open>option\<close>, and its theorems state when it returns. There is no fuel
  anywhere except in the two functions that describe clients (\<open>strtok_calls\<close>, \<open>yields\<close>), whose bound is an
  argument of the theorems.

  \<^bold>\<open>Theories and the code they model.\<close>
  \<^item> \<open>Prelude\<close>: error codes (\<open>kern/include/kern/errno.h\<close>), outcomes, list and word lemmas.
  \<^item> \<open>Bitmap\<close>: \<open>kern/lib/bitmap.c\<close>. First-fit allocation, exhaustion, mark and unmark; the locale
    \<open>bit_allocator\<close> states the contract and is interpreted on the model.
  \<^item> \<open>Threadlist\<close>: \<open>kern/thread/threadlist.c\<close>, doubly linked lists with sentinels on a heap of nodes,
    shown to refine lists of threads; moving a whole list by popping and pushing terminates.
  \<^item> \<open>Kern_Array\<close>: \<open>kern/lib/array.c\<close>, growing arrays; for which requests growing terminates.
  \<^item> \<open>Bswap\<close>: \<open>kern/lib/bswap.c\<close>. \<open>Timespec\<close>: \<open>kern/lib/time.c\<close>, at the widths of the fields.
  \<^item> \<open>Tlb\<close>: the TLB (\<open>kern/arch/mips/vm/tlb-mips161.S\<close>) as far as shootdowns use it.
  \<^item> \<open>Kstate\<close>: the state of the thread system, interrupt levels (\<open>kern/thread/spl.c\<close>) and spinlocks
    (\<open>kern/thread/spinlock.c\<close>).
  \<^item> \<open>Thread\<close>: \<open>kern/thread/thread.c\<close> and \<open>kern/thread/clock.c\<close>: thread creation and destruction, the context
    switch, wait channels, migration, inter-processor interrupts, the clock. \<open>thread_switch\<close> is split at the
    machine-dependent switch: \<open>switch_out\<close> before it, \<open>switch_pick\<close> and \<open>switch_in\<close> after it.
  \<^item> \<open>Sched\<close>, \<open>Sched_Steps\<close>, \<open>Migration\<close>: the invariant of the thread system (every live thread in exactly one
    place, lists well formed, interrupt levels and spinlock counts in step) and that each operation
    keeps it and completes.
  \<^item> \<open>Kernel_Runs\<close>: executions as a step relation from the state after booting, reachability, and the
    scheduler's properties: one place per thread, calls complete, interrupts balanced, round robin,
    first-in first-out wakeups, migration moves threads without losing any, fork succeeds or leaves no trace.
  \<^item> \<open>Synch\<close>: \<open>kern/thread/synch.c\<close>: semaphores, locks, condition variables and reader-writer locks on top of
    the scheduler model, each call split where the caller sleeps (\<open>P_resume\<close>, \<open>lock_resume\<close>, \<open>cv_wait_resume\<close>,
    \<open>rwlock_resume\<close>); the semaphore theorem quantifies over all interleavings.
  \<^item> \<open>Millicode\<close>, \<open>Qdivrem\<close>, \<open>Qdivrem_Correct\<close>: \<open>common/gcc-millicode\<close>: 64-bit arithmetic on 32-bit halves and
    Knuth's division on 16-bit digits, proved equal to 64-bit arithmetic.
  \<^item> \<open>Libc_Mem\<close>: \<open>common/libc/string\<close>: memory and string functions on a byte memory, with the
    word-at-a-time paths.
  \<^item> \<open>Printf\<close>: \<open>common/libc/printf\<close> and \<open>common/libc/stdlib/atoi.c\<close>. The locale \<open>printf_client\<close> is the interface
    between the conversion engine and the functions that consume its text; it is interpreted for \<open>snprintf\<close>.
  \<^item> \<open>Uio\<close>: \<open>kern/lib/uio.c\<close>: transfers between a buffer and the pieces of memory of a \<open>struct uio\<close>; a
    transfer moves the next bytes of the stream and nothing else.
  \<^item> \<open>Lhd\<close>: the request path of the disk driver \<open>kern/dev/lamebus/lhd.c\<close>. The card is a parameter; its contract is the
    locale \<open>disk_hw\<close>, and the driver is shown to implement \<open>block_device\<close>, with \<open>reliable_device\<close> when writes do not fail.
    Both are interpreted, on a disk that works and on one that fails at given times.
  \<^item> \<open>Sfs_Disk\<close>: the on-disk structures of the file system (\<open>kern/include/kern/sfs.h\<close>), block transfers with retries and
    the allocation of blocks (\<open>kern/fs/sfs/sfs_balloc.c\<close>). \<open>Sfs_Bmap\<close>, \<open>Sfs_Trunc\<close>: \<open>sfs_bmap.c\<close>, the block map of a file
    and truncation; no block is shared, no other file is touched.
  \<^item> \<open>Sfs_Io\<close>: \<open>sfs_io.c\<close>, reading and writing any region of a file; what is written is read back.
  \<^item> \<open>Sfs_Dir\<close>: \<open>sfs_dir.c\<close>, directories, which implement the interface \<open>name_space\<close> of maps from names to inode numbers.
  \<^item> \<open>Sfs_Vnode\<close>: \<open>kern/vfs/vnode.c\<close> and \<open>sfs_inode.c\<close>, reference counts and the table of loaded inodes.
    \<open>Sfs_Vnops\<close>: \<open>sfs_vnops.c\<close> with its two tables of operations. \<open>Sfs_Frame\<close>: what an operation on one file
    leaves alone on any device. \<open>Sfs_Typing\<close>: every state that calls on vnodes reach is well typed.

  \<^bold>\<open>Processors.\<close> A spinlock section runs as one step of its processor: in the states between kernel events no
  spinlock is held (\<open>ipl_inv\<close>), and an attempt to take a held lock is \<open>Blocked\<close>. Interleaving is by sequences of
  kernel events of arbitrary processors.

  \<^bold>\<open>The file system.\<close> The theorems on files and directories hold for every device with the stated contract and assume
  a volume whose free map and file are sound (\<open>file_inv\<close>) and, where they speak of the contents, that no write fails;
  every operation is shown to re-establish the invariant. They treat one file at a time; the frame \<open>file_step\<close> says
  that the blocks of the others keep their contents. The typing of vnodes needs no assumption on the device.
  Requests are limited to offsets below \<open>2^41\<close>, where block numbers fit 32 bits.

  \<^bold>\<open>Defects shown by the model.\<close> \<open>bswap64\<close> loses bytes; \<open>array_preallocate\<close> does not end for requests above
  \<open>2^31\<close>; \<open>ipi_tlbshootdown\<close> writes before its array after an overflow of the queue; locks record the processor
  instead of the thread; \<open>rwlock_create\<close> clears memory beyond its object; a disk write that fails is
  reported as a success after the retry; \<open>sfs_itrunc\<close> keeps one block past the new end; \<open>sfs_blockio\<close> computes
  disk offsets in 32 bits; \<open>sfs_getroot\<close> keeps a reference when it fails.

  \<^bold>\<open>Not modelled.\<close> Assembly and machine-dependent code (context save and restore, trap entry, cache and TLB
  instructions), since the instruction set is not part of the sources; the device drivers other than the disk's
  request path, which are register-level I/O; boot code, which only builds the initial state; mounting, unmounting and syncing
  a volume (\<open>sfs_fsops.c\<close>), the name space above the file systems (\<open>kern/vfs\<close> but for vnodes and the big lock) and the
  semaphore file system; virtual memory, the kernel heap and \<open>copyin\<close>, which work on raw addresses and appear
  as arguments of the routines that use them; system calls and processes, which rest on those; the kernel
  menu and the test and user programs, which only call the interfaces; files under \<open>kern/compile\<close> and \<open>build\<close>,
  which the build generates or copies.
\<close>

end
